(* ===== verification/Prelude.thy ===== *)
theory Prelude
  imports Main "HOL-Library.Word" "HOL-Library.Monad_Syntax" "HOL-Library.Signed_Division"
begin

text \<open>
  The prelude of the PandOS development: the collections of hints the component theories
  share, the machine types, and the generic facts on lists, options and machine words that
  several components need.

  Every operation of the kernel is a function of the state that returns an option: \<open>None\<close>
  stands for a machine fault or undefined behaviour of the C source (a dereference of
  \<open>NULL\<close>, a store out of an array, a loop that never leaves a corrupted list).  Sequencing is
  the option monad of \<open>HOL-Library.Monad_Syntax\<close>.
\<close>

named_theorems heap_defs \<open>one-step definitions of the pointer operations\<close>
named_theorems abs_simps \<open>how the abstraction reads an updated abstract state\<close>

type_synonym u8 = "8 word"
type_synonym u32 = "32 word"
type_synonym u64 = "64 word"

text \<open>A C pointer to an object of type \<open>'a\<close>: \<open>None\<close> is \<open>NULL\<close>.\<close>

type_synonym 'a ptr = "'a option"

text \<open>A fallible operation on a state, with and without a result.\<close>

type_synonym ('s, 'a) action = "'s \<Rightarrow> ('a \<times> 's) option"
type_synonym 's update = "'s \<Rightarrow> 's option"

text \<open>
  Signed 32-bit arithmetic of the target: two's complement, with the wrap-around of the
  MIPS instructions; division and remainder truncate towards zero, as in C.
\<close>

definition wrap32 :: "int \<Rightarrow> int" where
  "wrap32 x = sint (word_of_int x :: u32)"

lemma wrap32_id: "- (2 ^ 31) \<le> x \<Longrightarrow> x < 2 ^ 31 \<Longrightarrow> wrap32 x = x"
  by (simp add: wrap32_def sint_sbintrunc' signed_take_bit_int_eq_self)

lemma removeAll_filter_id [simp]: "x \<notin> set xs \<Longrightarrow> removeAll x xs = xs"
  by (induction xs) auto

lemma removeAll_middle:
  "distinct (xs @ x # ys) \<Longrightarrow> removeAll x (xs @ x # ys) = xs @ ys"
  by simp

lemma removeAll_map_inj:
  "inj f \<Longrightarrow> removeAll (f x) (map f xs) = map f (removeAll x xs)"
  by (induction xs) (auto dest: injD)

text \<open>A loop over a list whose body may fail.\<close>

fun foldM :: "('a \<Rightarrow> 's \<Rightarrow> 's option) \<Rightarrow> 'a list \<Rightarrow> 's \<Rightarrow> 's option" where
  "foldM f [] s = Some s"
| "foldM f (x # xs) s = Option.bind (f x s) (foldM f xs)"

lemma foldM_append: "foldM f (xs @ ys) s = Option.bind (foldM f xs s) (foldM f ys)"
  by (induction xs arbitrary: s) (auto split: Option.bind_splits)

lemma bind_Some_iff:
  "Option.bind m f = Some y \<longleftrightarrow> (\<exists>x. m = Some x \<and> f x = Some y)"
  by (cases m) auto

end
