(* ===== verification/Lists.thy ===== *)
theory Lists
  imports Prelude
begin

text \<open>
  The circular doubly linked lists of \<open>pandos/phase1/include/list.h\<close>, at the level of
  their pointers, and the list helpers of \<open>pandos/phase1/include/util.h\<close>.  A
  \<open>struct list_head\<close> is embedded in a larger object; its address is an element of the type
  \<open>'a\<close> the heap is indexed by.  The heap gives each address its two fields, so two lists that
  share a node, or a node that is a list of its own, are described as they are in memory.
\<close>

section \<open>The heap of list heads\<close>

record 'a lheap =
  nxt :: "'a \<Rightarrow> 'a ptr"
  prv :: "'a \<Rightarrow> 'a ptr"

text \<open>Loads and stores of the fields through a pointer; through \<open>NULL\<close> they fault.\<close>

definition get_next :: "'a ptr \<Rightarrow> 'a lheap \<Rightarrow> 'a ptr option" where
  "get_next p h = map_option (nxt h) p"

definition get_prev :: "'a ptr \<Rightarrow> 'a lheap \<Rightarrow> 'a ptr option" where
  "get_prev p h = map_option (prv h) p"

definition set_next :: "'a ptr \<Rightarrow> 'a ptr \<Rightarrow> 'a lheap update" where
  "set_next p v h = map_option (\<lambda>a. h\<lparr>nxt := (nxt h)(a := v)\<rparr>) p"

definition set_prev :: "'a ptr \<Rightarrow> 'a ptr \<Rightarrow> 'a lheap update" where
  "set_prev p v h = map_option (\<lambda>a. h\<lparr>prv := (prv h)(a := v)\<rparr>) p"

lemmas [heap_defs] = get_next_def get_prev_def set_next_def set_prev_def

section \<open>The operations of list.h\<close>

definition INIT_LIST_HEAD :: "'a ptr \<Rightarrow> 'a lheap update" where
  "INIT_LIST_HEAD list h = do {
     h \<leftarrow> set_next list list h;
     set_prev list list h
   }"

text \<open>\<open>__list_add\<close> (without \<open>CONFIG_DEBUG_LIST\<close>, \<open>__list_add_valid\<close> is constantly true).\<close>

definition list_add_valid :: "'a ptr \<Rightarrow> 'a ptr \<Rightarrow> 'a ptr \<Rightarrow> bool" where
  "list_add_valid new prev next = True"

definition list_del_entry_valid :: "'a ptr \<Rightarrow> bool" where
  "list_del_entry_valid entry = True"

definition list_add_internal :: "'a ptr \<Rightarrow> 'a ptr \<Rightarrow> 'a ptr \<Rightarrow> 'a lheap update" where
  "list_add_internal new prev next h =
     (if \<not> list_add_valid new prev next then Some h
      else do {
        h \<leftarrow> set_prev next new h;
        h \<leftarrow> set_next new next h;
        h \<leftarrow> set_prev new prev h;
        set_next prev new h
      })"

definition list_add :: "'a ptr \<Rightarrow> 'a ptr \<Rightarrow> 'a lheap update" where
  "list_add new head h = do {
     n \<leftarrow> get_next head h;
     list_add_internal new head n h
   }"

definition list_add_tail :: "'a ptr \<Rightarrow> 'a ptr \<Rightarrow> 'a lheap update" where
  "list_add_tail new head h = do {
     p \<leftarrow> get_prev head h;
     list_add_internal new p head h
   }"

text \<open>The macro \<open>list_next\<close>.\<close>

definition list_next :: "'a ptr \<Rightarrow> 'a lheap \<Rightarrow> 'a ptr option" where
  "list_next a h = get_next a h"

definition list_del_internal :: "'a ptr \<Rightarrow> 'a ptr \<Rightarrow> 'a lheap update" where
  "list_del_internal prev next h = do {
     h \<leftarrow> set_prev next prev h;
     set_next prev next h
   }"

definition list_del_clearprev :: "'a ptr \<Rightarrow> 'a lheap update" where
  "list_del_clearprev entry h = do {
     p \<leftarrow> get_prev entry h;
     n \<leftarrow> get_next entry h;
     h \<leftarrow> list_del_internal p n h;
     set_prev entry None h
   }"

definition list_del_entry_internal :: "'a ptr \<Rightarrow> 'a lheap update" where
  "list_del_entry_internal entry h =
     (if \<not> list_del_entry_valid entry then Some h
      else do {
        p \<leftarrow> get_prev entry h;
        n \<leftarrow> get_next entry h;
        list_del_internal p n h
      })"

definition list_del :: "'a ptr \<Rightarrow> 'a lheap update" where
  "list_del entry h = do {
     h \<leftarrow> list_del_entry_internal entry h;
     h \<leftarrow> set_next entry None h;
     set_prev entry None h
   }"

definition list_replace :: "'a ptr \<Rightarrow> 'a ptr \<Rightarrow> 'a lheap update" where
  "list_replace old new h = do {
     n \<leftarrow> get_next old h;
     h \<leftarrow> set_next new n h;
     n' \<leftarrow> get_next new h;
     h \<leftarrow> set_prev n' new h;
     p \<leftarrow> get_prev old h;
     h \<leftarrow> set_prev new p h;
     p' \<leftarrow> get_prev new h;
     set_next p' new h
   }"

definition list_replace_init :: "'a ptr \<Rightarrow> 'a ptr \<Rightarrow> 'a lheap update" where
  "list_replace_init old new h = do {
     h \<leftarrow> list_replace old new h;
     INIT_LIST_HEAD old h
   }"

definition list_swap :: "'a ptr \<Rightarrow> 'a ptr \<Rightarrow> 'a lheap update" where
  "list_swap entry1 entry2 h = do {
     pos \<leftarrow> get_prev entry2 h;
     h \<leftarrow> list_del entry2 h;
     h \<leftarrow> list_replace entry1 entry2 h;
     list_add entry1 (if pos = entry1 then entry2 else pos) h
   }"

definition list_del_init :: "'a ptr \<Rightarrow> 'a lheap update" where
  "list_del_init entry h = do {
     h \<leftarrow> list_del_entry_internal entry h;
     INIT_LIST_HEAD entry h
   }"

definition list_move :: "'a ptr \<Rightarrow> 'a ptr \<Rightarrow> 'a lheap update" where
  "list_move list head h = do {
     h \<leftarrow> list_del_entry_internal list h;
     list_add list head h
   }"

definition list_move_tail :: "'a ptr \<Rightarrow> 'a ptr \<Rightarrow> 'a lheap update" where
  "list_move_tail list head h = do {
     h \<leftarrow> list_del_entry_internal list h;
     list_add_tail list head h
   }"

definition list_bulk_move_tail :: "'a ptr \<Rightarrow> 'a ptr \<Rightarrow> 'a ptr \<Rightarrow> 'a lheap update" where
  "list_bulk_move_tail head first lst h = do {
     fp \<leftarrow> get_prev first h;
     ln \<leftarrow> get_next lst h;
     h \<leftarrow> set_next fp ln h;
     ln \<leftarrow> get_next lst h;
     fp \<leftarrow> get_prev first h;
     h \<leftarrow> set_prev ln fp h;
     hp \<leftarrow> get_prev head h;
     h \<leftarrow> set_next hp first h;
     hp \<leftarrow> get_prev head h;
     h \<leftarrow> set_prev first hp h;
     h \<leftarrow> set_next lst head h;
     set_prev head lst h
   }"

definition list_is_first :: "'a ptr \<Rightarrow> 'a ptr \<Rightarrow> 'a lheap \<Rightarrow> bool option" where
  "list_is_first list head h = do { p \<leftarrow> get_prev list h; Some (p = head) }"

definition list_is_last :: "'a ptr \<Rightarrow> 'a ptr \<Rightarrow> 'a lheap \<Rightarrow> bool option" where
  "list_is_last list head h = do { n \<leftarrow> get_next list h; Some (n = head) }"

definition list_is_head :: "'a ptr \<Rightarrow> 'a ptr \<Rightarrow> bool" where
  "list_is_head list head \<longleftrightarrow> list = head"

definition list_empty :: "'a ptr \<Rightarrow> 'a lheap \<Rightarrow> bool option" where
  "list_empty head h = do { n \<leftarrow> get_next head h; Some (n = head) }"

definition list_rotate_left :: "'a ptr \<Rightarrow> 'a lheap update" where
  "list_rotate_left head h = do {
     e \<leftarrow> list_empty head h;
     if \<not> e then do {
       first \<leftarrow> get_next head h;
       list_move_tail first head h
     } else Some h
   }"

definition list_rotate_to_front :: "'a ptr \<Rightarrow> 'a ptr \<Rightarrow> 'a lheap update" where
  "list_rotate_to_front list head h = list_move_tail head list h"

definition list_is_singular :: "'a ptr \<Rightarrow> 'a lheap \<Rightarrow> bool option" where
  "list_is_singular head h = do {
     e \<leftarrow> list_empty head h;
     n \<leftarrow> get_next head h;
     p \<leftarrow> get_prev head h;
     Some (\<not> e \<and> n = p)
   }"

definition list_cut_position_internal :: "'a ptr \<Rightarrow> 'a ptr \<Rightarrow> 'a ptr \<Rightarrow> 'a lheap update" where
  "list_cut_position_internal list head entry h = do {
     new_first \<leftarrow> get_next entry h;
     n \<leftarrow> get_next head h;
     h \<leftarrow> set_next list n h;
     n' \<leftarrow> get_next list h;
     h \<leftarrow> set_prev n' list h;
     h \<leftarrow> set_prev list entry h;
     h \<leftarrow> set_next entry list h;
     h \<leftarrow> set_next head new_first h;
     set_prev new_first head h
   }"

definition list_cut_position :: "'a ptr \<Rightarrow> 'a ptr \<Rightarrow> 'a ptr \<Rightarrow> 'a lheap update" where
  "list_cut_position list head entry h = do {
     e \<leftarrow> list_empty head h;
     if e then Some h
     else do {
       sg \<leftarrow> list_is_singular head h;
       n \<leftarrow> get_next head h;
       if sg \<and> \<not> list_is_head entry head \<and> entry \<noteq> n then Some h
       else if list_is_head entry head then INIT_LIST_HEAD list h
       else list_cut_position_internal list head entry h
     }
   }"

definition list_cut_before :: "'a ptr \<Rightarrow> 'a ptr \<Rightarrow> 'a ptr \<Rightarrow> 'a lheap update" where
  "list_cut_before list head entry h = do {
     n \<leftarrow> get_next head h;
     if n = entry then INIT_LIST_HEAD list h
     else do {
       h \<leftarrow> set_next list n h;
       n' \<leftarrow> get_next list h;
       h \<leftarrow> set_prev n' list h;
       p \<leftarrow> get_prev entry h;
       h \<leftarrow> set_prev list p h;
       p' \<leftarrow> get_prev list h;
       h \<leftarrow> set_next p' list h;
       h \<leftarrow> set_next head entry h;
       set_prev entry head h
     }
   }"

definition list_splice_internal :: "'a ptr \<Rightarrow> 'a ptr \<Rightarrow> 'a ptr \<Rightarrow> 'a lheap update" where
  "list_splice_internal list prev next h = do {
     first \<leftarrow> get_next list h;
     last \<leftarrow> get_prev list h;
     h \<leftarrow> set_prev first prev h;
     h \<leftarrow> set_next prev first h;
     h \<leftarrow> set_next last next h;
     set_prev next last h
   }"

definition list_splice :: "'a ptr \<Rightarrow> 'a ptr \<Rightarrow> 'a lheap update" where
  "list_splice list head h = do {
     e \<leftarrow> list_empty list h;
     if \<not> e then do {
       n \<leftarrow> get_next head h;
       list_splice_internal list head n h
     } else Some h
   }"

definition list_splice_tail :: "'a ptr \<Rightarrow> 'a ptr \<Rightarrow> 'a lheap update" where
  "list_splice_tail list head h = do {
     e \<leftarrow> list_empty list h;
     if \<not> e then do {
       p \<leftarrow> get_prev head h;
       list_splice_internal list p head h
     } else Some h
   }"

definition list_splice_init :: "'a ptr \<Rightarrow> 'a ptr \<Rightarrow> 'a lheap update" where
  "list_splice_init list head h = do {
     e \<leftarrow> list_empty list h;
     if \<not> e then do {
       n \<leftarrow> get_next head h;
       h \<leftarrow> list_splice_internal list head n h;
       INIT_LIST_HEAD list h
     } else Some h
   }"

definition list_splice_tail_init :: "'a ptr \<Rightarrow> 'a ptr \<Rightarrow> 'a lheap update" where
  "list_splice_tail_init list head h = do {
     e \<leftarrow> list_empty list h;
     if \<not> e then do {
       p \<leftarrow> get_prev head h;
       h \<leftarrow> list_splice_internal list p head h;
       INIT_LIST_HEAD list h
     } else Some h
   }"

section \<open>The entry and iteration macros\<close>

text \<open>
  \<open>container_of\<close> subtracts the offset of a member from its address.  Here it is a
  partial function from the address of a member to the object that embeds it, given by the
  caller; an address that is not that member of an object has no container.
\<close>

definition list_first_entry :: "('a \<Rightarrow> 'e option) \<Rightarrow> 'a ptr \<Rightarrow> 'a lheap \<Rightarrow> 'e option" where
  "list_first_entry container p h = do { n \<leftarrow> get_next p h; n' \<leftarrow> n; container n' }"

definition list_last_entry :: "('a \<Rightarrow> 'e option) \<Rightarrow> 'a ptr \<Rightarrow> 'a lheap \<Rightarrow> 'e option" where
  "list_last_entry container p h = do { n \<leftarrow> get_prev p h; n' \<leftarrow> n; container n' }"

text \<open>
  The loops.  The body gets the cursor and the state (the heap and whatever else it
  updates); a loop over a list that never comes back to its head does not return.
\<close>

partial_function (option) list_for_each_continue ::
  "('a ptr \<Rightarrow> 'a lheap \<times> 's \<Rightarrow> ('a lheap \<times> 's) option) \<Rightarrow> 'a ptr \<Rightarrow> 'a ptr
    \<Rightarrow> 'a lheap \<times> 's \<Rightarrow> ('a lheap \<times> 's) option" where
  "list_for_each_continue body head pos s = do {
     pos \<leftarrow> get_next pos (fst s);
     if list_is_head pos head then Some s
     else do {
       s \<leftarrow> body pos s;
       list_for_each_continue body head pos s
     }
   }"

definition list_for_each ::
  "('a ptr \<Rightarrow> 'a lheap \<times> 's \<Rightarrow> ('a lheap \<times> 's) option) \<Rightarrow> 'a ptr
    \<Rightarrow> 'a lheap \<times> 's \<Rightarrow> ('a lheap \<times> 's) option" where
  "list_for_each body head s = list_for_each_continue body head head s"

partial_function (option) list_for_each_prev_from ::
  "('a ptr \<Rightarrow> 'a lheap \<times> 's \<Rightarrow> ('a lheap \<times> 's) option) \<Rightarrow> 'a ptr \<Rightarrow> 'a ptr
    \<Rightarrow> 'a lheap \<times> 's \<Rightarrow> ('a lheap \<times> 's) option" where
  "list_for_each_prev_from body head pos s = do {
     pos \<leftarrow> get_prev pos (fst s);
     if list_is_head pos head then Some s
     else do {
       s \<leftarrow> body pos s;
       list_for_each_prev_from body head pos s
     }
   }"

definition list_for_each_prev ::
  "('a ptr \<Rightarrow> 'a lheap \<times> 's \<Rightarrow> ('a lheap \<times> 's) option) \<Rightarrow> 'a ptr
    \<Rightarrow> 'a lheap \<times> 's \<Rightarrow> ('a lheap \<times> 's) option" where
  "list_for_each_prev body head s = list_for_each_prev_from body head head s"

text \<open>\<open>list_for_each_safe\<close> reads the successor \<open>n\<close> before the body runs.\<close>

partial_function (option) list_for_each_safe_from ::
  "('a ptr \<Rightarrow> 'a lheap \<times> 's \<Rightarrow> ('a lheap \<times> 's) option) \<Rightarrow> 'a ptr \<Rightarrow> 'a ptr \<Rightarrow> 'a ptr
    \<Rightarrow> 'a lheap \<times> 's \<Rightarrow> ('a lheap \<times> 's) option" where
  "list_for_each_safe_from body head pos n s =
     (if list_is_head pos head then Some s
      else do {
        s \<leftarrow> body pos s;
        n' \<leftarrow> get_next n (fst s);
        list_for_each_safe_from body head n n' s
      })"

definition list_for_each_safe ::
  "('a ptr \<Rightarrow> 'a lheap \<times> 's \<Rightarrow> ('a lheap \<times> 's) option) \<Rightarrow> 'a ptr
    \<Rightarrow> 'a lheap \<times> 's \<Rightarrow> ('a lheap \<times> 's) option" where
  "list_for_each_safe body head s = do {
     pos \<leftarrow> get_next head (fst s);
     n \<leftarrow> get_next pos (fst s);
     list_for_each_safe_from body head pos n s
   }"

section \<open>The list helpers of util.h\<close>

definition list_safe_del :: "'a ptr \<Rightarrow> 'a lheap update" where
  "list_safe_del node h = do {
     n \<leftarrow> get_next node h;
     p \<leftarrow> get_prev node h;
     if \<not> (n = None \<and> p = None) then do {
       h \<leftarrow> list_del node h;
       h \<leftarrow> set_prev node None h;
       set_next node None h
     } else Some h
   }"

text \<open>
  \<open>list_search\<close> returns the pointer found, \<open>None\<close> for the \<open>NULL\<close> of a list without the
  item; the outer option is the fault or the loop that does not end.  The comparison returns
  0 (here \<open>False\<close>) on equal items.
\<close>

partial_function (option) list_search_from ::
  "'a ptr \<Rightarrow> 'a ptr \<Rightarrow> ('a ptr \<Rightarrow> 'a ptr \<Rightarrow> bool) \<Rightarrow> 'a ptr \<Rightarrow> 'a lheap \<Rightarrow> 'a ptr option" where
  "list_search_from item head cmp tmp h =
     (if tmp = head then Some None
      else if \<not> cmp item tmp then Some tmp
      else do {
        tmp' \<leftarrow> get_next tmp h;
        list_search_from item head cmp tmp' h
      })"

definition list_search ::
  "'a ptr \<Rightarrow> 'a ptr \<Rightarrow> ('a ptr \<Rightarrow> 'a ptr \<Rightarrow> bool) \<Rightarrow> 'a lheap \<Rightarrow> 'a ptr option" where
  "list_search item head cmp h = do {
     tmp \<leftarrow> get_next head h;
     list_search_from item head cmp tmp h
   }"

definition list_cmp :: "'a ptr \<Rightarrow> 'a ptr \<Rightarrow> bool" where
  "list_cmp a b \<longleftrightarrow> a \<noteq> b"

definition list_contains :: "'a ptr \<Rightarrow> 'a ptr \<Rightarrow> 'a lheap \<Rightarrow> bool option" where
  "list_contains item head h = do {
     r \<leftarrow> list_search item head list_cmp h;
     Some (r \<noteq> None)
   }"

definition list_null :: "'a ptr \<Rightarrow> 'a lheap \<Rightarrow> bool option" where
  "list_null head h = do {
     p \<leftarrow> get_prev head h;
     n \<leftarrow> get_next head h;
     Some (p = None \<and> n = None)
   }"

partial_function (option) list_size_from :: "'a ptr \<Rightarrow> 'a ptr \<Rightarrow> int \<Rightarrow> 'a lheap \<Rightarrow> int option" where
  "list_size_from head tmp n h =
     (if tmp = head then Some n
      else do {
        tmp' \<leftarrow> get_next tmp h;
        list_size_from head tmp' (n + 1) h
      })"

definition list_size :: "'a ptr \<Rightarrow> 'a lheap \<Rightarrow> int option" where
  "list_size head h = do {
     tmp \<leftarrow> get_next head h;
     list_size_from head tmp 0 h
   }"

section \<open>What a well-formed list is\<close>

text \<open>
  \<open>chain h a xs b\<close>: starting at \<open>a\<close>, the \<open>next\<close> pointers go through \<open>xs\<close> to \<open>b\<close> and the
  \<open>prev\<close> pointers go back.  A list with head \<open>r\<close> and entries \<open>xs\<close> is a chain from the head
  to itself without repetition.
\<close>

fun chain :: "'a lheap \<Rightarrow> 'a \<Rightarrow> 'a list \<Rightarrow> 'a \<Rightarrow> bool" where
  "chain h a [] b \<longleftrightarrow> nxt h a = Some b \<and> prv h b = Some a"
| "chain h a (x # xs) b \<longleftrightarrow> nxt h a = Some x \<and> prv h x = Some a \<and> chain h x xs b"

definition dll :: "'a lheap \<Rightarrow> 'a \<Rightarrow> 'a list \<Rightarrow> bool" where
  "dll h r xs \<longleftrightarrow> distinct (r # xs) \<and> chain h r xs r"

lemma chain_append [simp]:
  "chain h a (xs @ y # ys) b \<longleftrightarrow> chain h a xs y \<and> chain h y ys b"
  by (induction xs arbitrary: a) auto

lemma chain_cong:
  assumes "\<And>c. c \<in> insert a (set xs) \<Longrightarrow> nxt h' c = nxt h c"
    and "\<And>c. c \<in> insert b (set xs) \<Longrightarrow> prv h' c = prv h c"
  shows "chain h' a xs b = chain h a xs b"
  using assms by (induction xs arbitrary: a) auto

lemma chain_last_first:
  "chain h a xs b \<Longrightarrow>
    nxt h a = Some (case xs of [] \<Rightarrow> b | x # _ \<Rightarrow> x) \<and>
    prv h b = Some (last (a # xs))"
  by (induction xs arbitrary: a) auto

lemma dll_next: "dll h r xs \<Longrightarrow> nxt h r = Some (case xs of [] \<Rightarrow> r | x # _ \<Rightarrow> x)"
  by (auto simp: dll_def dest: chain_last_first)

lemma dll_prev: "dll h r xs \<Longrightarrow> prv h r = Some (last (r # xs))"
  by (auto simp: dll_def dest!: chain_last_first)

lemma dll_cong:
  assumes "\<And>c. c \<in> insert r (set xs) \<Longrightarrow> nxt h' c = nxt h c \<and> prv h' c = prv h c"
  shows "dll h' r xs = dll h r xs"
proof -
  have "chain h' r xs r = chain h r xs r"
    using assms by (intro chain_cong) auto
  then show ?thesis by (simp add: dll_def)
qed

lemma dll_notNone: "dll h r xs \<Longrightarrow> c \<in> insert r (set xs) \<Longrightarrow> nxt h c \<noteq> None"
proof -
  have "chain h a xs b \<Longrightarrow> c \<in> insert a (set xs) \<Longrightarrow> nxt h c \<noteq> None" for a b
    by (induction xs arbitrary: a) auto
  then show "dll h r xs \<Longrightarrow> c \<in> insert r (set xs) \<Longrightarrow> nxt h c \<noteq> None"
    by (auto simp: dll_def)
qed

lemma dll_unique: "dll h r xs \<Longrightarrow> dll h r ys \<Longrightarrow> xs = ys"
proof -
  have "chain h a xs b \<Longrightarrow> chain h a ys b \<Longrightarrow> b \<notin> set xs \<Longrightarrow> b \<notin> set ys \<Longrightarrow> xs = ys" for a b
  proof (induction xs arbitrary: a ys)
    case Nil
    then show ?case by (cases ys) auto
  next
    case (Cons x xs)
    then show ?case by (cases ys) auto
  qed
  then show "dll h r xs \<Longrightarrow> dll h r ys \<Longrightarrow> xs = ys"
    by (auto simp: dll_def)
qed

section \<open>Insertion and removal on one list\<close>

lemma list_add_internal_Some [simp]:
  "list_add_internal (Some n) (Some p) (Some q) h =
     Some (h\<lparr>nxt := (nxt h)(n := Some q, p := Some n),
             prv := (prv h)(q := Some n, n := Some p)\<rparr>)"
  by (simp add: list_add_internal_def list_add_valid_def heap_defs)

lemma list_del_internal_Some [simp]:
  "list_del_internal (Some p) (Some q) h =
     Some (h\<lparr>nxt := (nxt h)(p := Some q), prv := (prv h)(q := Some p)\<rparr>)"
  by (simp add: list_del_internal_def heap_defs)

lemma chain_insert:
  assumes "chain h a (xs @ ys) b" and "distinct (a # xs @ ys)" and "b \<notin> set (xs @ ys)"
    and "n \<notin> insert a (insert b (set (xs @ ys)))"
    and "p = last (a # xs)" and "q = hd (ys @ [b])"
  shows "chain (h\<lparr>nxt := (nxt h)(n := Some q, p := Some n),
                  prv := (prv h)(q := Some n, n := Some p)\<rparr>) a (xs @ n # ys) b"
    (is "chain ?h _ _ _")
proof -
  have p: "p \<notin> set ys"
    using assms(2,5) by (cases xs rule: rev_cases) auto
  have right: "chain ?h n ys b"
  proof (cases ys)
    case Nil
    with assms show ?thesis by auto
  next
    case (Cons y zs)
    have "chain ?h y zs b = chain h y zs b"
      using assms Cons p by (intro chain_cong) (auto split: if_splits)
    with assms Cons show ?thesis by auto
  qed
  have left: "chain ?h a xs n"
  proof (cases xs rule: rev_cases)
    case Nil
    with assms show ?thesis by auto
  next
    case (snoc zs z)
    have "chain ?h a zs z = chain h a zs z"
      using assms snoc by (intro chain_cong) (cases ys; auto split: if_splits)+
    with assms snoc show ?thesis by auto
  qed
  from left right show ?thesis by simp
qed

lemma chain_remove:
  assumes "chain h a (xs @ n # ys) b" and "distinct (a # xs @ n # ys)" and "b \<notin> set (xs @ n # ys)"
    and "p = last (a # xs)" and "q = hd (ys @ [b])"
  shows "chain (h\<lparr>nxt := (nxt h)(p := Some q), prv := (prv h)(q := Some p)\<rparr>) a (xs @ ys) b"
    (is "chain ?h _ _ _")
proof (cases ys)
  case Nil
  show ?thesis
  proof (cases xs rule: rev_cases)
    case Nil
    with assms \<open>ys = []\<close> show ?thesis by auto
  next
    case (snoc zs z)
    have "chain ?h a zs z = chain h a zs z"
      using assms snoc \<open>ys = []\<close> by (intro chain_cong) (auto split: if_splits)
    with assms snoc \<open>ys = []\<close> show ?thesis by auto
  qed
next
  case (Cons y us)
  have p: "p \<notin> set ys"
    using assms(2,4) by (cases xs rule: rev_cases) auto
  have right: "chain ?h y us b"
    using assms Cons p by (subst chain_cong [of _ _ _ h]) (auto split: if_splits)
  show ?thesis
  proof (cases xs rule: rev_cases)
    case Nil
    with assms Cons right show ?thesis by auto
  next
    case (snoc zs z)
    have "chain ?h a zs z = chain h a zs z"
      using assms snoc Cons by (intro chain_cong) (auto split: if_splits)
    with assms snoc Cons right show ?thesis by auto
  qed
qed

lemma dll_split_links:
  assumes "dll h r (xs @ n # ys)"
  shows "nxt h n = Some (hd (ys @ [r]))" and "prv h n = Some (last (r # xs))"
proof -
  from assms have "chain h r xs n" "chain h n ys r"
    by (auto simp: dll_def)
  then show "nxt h n = Some (hd (ys @ [r]))" "prv h n = Some (last (r # xs))"
    by (auto dest!: chain_last_first split: list.splits)
qed

end
