(* ===== verification/List_Abs.thy ===== *)
theory List_Abs
  imports Lists
begin

text \<open>
  The abstraction of a heap of \<open>struct list_head\<close>: a map from the heads of the lists to
  their entries.  \<open>heap_abs h L\<close> says that the lists of \<open>h\<close> are exactly those of \<open>L\<close>, that
  they share no node, and that every other node is unlinked (both fields \<open>NULL\<close>), which is
  the state \<open>list_del\<close>, \<open>resetPcb\<close> and zero-initialised memory leave a node in.  Each
  operation of \<open>list.h\<close> is shown to be the corresponding operation on the map, so that the
  components above never reason about pointers.
\<close>

definition lnodes :: "('a \<rightharpoonup> 'a list) \<Rightarrow> 'a set" where
  "lnodes L = {n. \<exists>r xs. L r = Some xs \<and> n \<in> insert r (set xs)}"

definition heap_abs :: "'a lheap \<Rightarrow> ('a \<rightharpoonup> 'a list) \<Rightarrow> bool" where
  "heap_abs h L \<longleftrightarrow>
     (\<forall>r xs. L r = Some xs \<longrightarrow> dll h r xs) \<and>
     (\<forall>r r' xs ys. L r = Some xs \<longrightarrow> L r' = Some ys \<longrightarrow> r \<noteq> r' \<longrightarrow>
        insert r (set xs) \<inter> insert r' (set ys) = {}) \<and>
     (\<forall>n. n \<notin> lnodes L \<longrightarrow> nxt h n = None \<and> prv h n = None)"

text \<open>Taking a node out of whatever list it is an entry of.\<close>

definition unlink :: "'a \<Rightarrow> ('a \<rightharpoonup> 'a list) \<Rightarrow> ('a \<rightharpoonup> 'a list)" where
  "unlink n L = (\<lambda>r. map_option (removeAll n) (L r))"

lemma heap_abs_dll: "heap_abs h L \<Longrightarrow> L r = Some xs \<Longrightarrow> dll h r xs"
  by (simp add: heap_abs_def)

lemma heap_abs_distinct: "heap_abs h L \<Longrightarrow> L r = Some xs \<Longrightarrow> distinct (r # xs)"
  by (drule (1) heap_abs_dll) (simp add: dll_def)

lemma heap_abs_disjoint:
  "heap_abs h L \<Longrightarrow> L r = Some xs \<Longrightarrow> L r' = Some ys \<Longrightarrow> c \<in> insert r (set xs) \<Longrightarrow>
    c \<in> insert r' (set ys) \<Longrightarrow> r = r'"
  unfolding heap_abs_def by blast

lemma heap_abs_null: "heap_abs h L \<Longrightarrow> n \<notin> lnodes L \<Longrightarrow> nxt h n = None \<and> prv h n = None"
  by (simp add: heap_abs_def)

lemma lnodesI: "L r = Some xs \<Longrightarrow> n \<in> insert r (set xs) \<Longrightarrow> n \<in> lnodes L"
  by (auto simp: lnodes_def)

lemma lnodesE:
  assumes "n \<in> lnodes L"
  obtains r xs where "L r = Some xs" and "n \<in> insert r (set xs)"
  using assms by (auto simp: lnodes_def)

text \<open>An entry of a list is never a head, and is an entry of one list only.\<close>

lemma heap_abs_entry_not_head:
  "heap_abs h L \<Longrightarrow> L r = Some xs \<Longrightarrow> n \<in> set xs \<Longrightarrow> L n = None"
proof (rule ccontr)
  assume a: "heap_abs h L" "L r = Some xs" "n \<in> set xs" "L n \<noteq> None"
  then obtain ys where "L n = Some ys" by auto
  with a have "r = n" by (auto intro: heap_abs_disjoint)
  with a show False by (auto dest: heap_abs_distinct)
qed

lemma unlink_entry:
  assumes "heap_abs h L" and "L r = Some xs" and "n \<in> set xs"
  shows "unlink n L = L(r \<mapsto> removeAll n xs)"
proof
  fix r'
  show "unlink n L r' = (L(r \<mapsto> removeAll n xs)) r'"
  proof (cases "r' = r")
    case True
    with assms show ?thesis by (simp add: unlink_def)
  next
    case False
    have "n \<notin> set ys" if "L r' = Some ys" for ys
      using heap_abs_disjoint [OF assms(1,2) that, of n] assms(3) False by auto
    with False show ?thesis by (cases "L r'") (auto simp: unlink_def)
  qed
qed

lemma unlink_other: "n \<notin> lnodes L \<Longrightarrow> unlink n L = L"
proof
  fix r assume "n \<notin> lnodes L"
  then have "n \<notin> set xs" if "L r = Some xs" for xs
    using that by (auto simp: lnodes_def)
  then show "unlink n L r = L r" by (cases "L r") (auto simp: unlink_def)
qed

lemma lnodes_unlink: "L n = None \<Longrightarrow> lnodes (unlink n L) = lnodes L - {n}"
  by (fastforce simp: lnodes_def unlink_def)

lemma lnodes_upd:
  assumes "heap_abs h L" and "L r = Some xs \<or> r \<notin> lnodes L \<and> xs = []"
  shows "lnodes (L(r \<mapsto> ys)) = lnodes L - set xs \<union> insert r (set ys)"
proof (cases "L r = Some xs")
  case True
  have "c \<notin> set xs" if "L r' = Some zs" "r' \<noteq> r" "c \<in> insert r' (set zs)" for c r' zs
    using heap_abs_disjoint [OF assms(1) that(1) True that(3)] that(2) by auto
  then have "\<And>c. c \<in> lnodes (L(r \<mapsto> ys)) \<Longrightarrow> c \<in> lnodes L - set xs \<union> insert r (set ys)"
    unfolding lnodes_def by (auto split: if_splits)
  moreover have "c \<in> lnodes (L(r \<mapsto> ys))" if "c \<in> lnodes L - set xs \<union> insert r (set ys)" for c
  proof (cases "c \<in> insert r (set ys)")
    case True
    then show ?thesis by (auto simp: lnodes_def)
  next
    case False
    with that \<open>L r = Some xs\<close> show ?thesis
      by (auto simp: lnodes_def elim!: lnodesE split: if_splits) (metis option.inject)+
  qed
  ultimately show ?thesis by blast
next
  case False
  with assms(2) have "L r = None" and "xs = []"
    by (auto intro: lnodesI split: option.split) (metis insertI1 lnodesI not_None_eq)
  then show ?thesis
    by (auto simp: lnodes_def split: if_splits) (metis option.distinct(1))+
qed

section \<open>The update lemma\<close>

text \<open>
  Every operation rewrites one list: the nodes that stay or come in form the new list, those
  that leave are cleared, and the fields of all other nodes keep their values.
\<close>

lemma heap_abs_update:
  assumes abs: "heap_abs h L"
    and old: "L r = Some xs \<or> r \<notin> lnodes L \<and> xs = []"
    and new: "dll h' r ys"
    and fresh: "\<And>y. y \<in> set ys \<Longrightarrow> y \<in> set xs \<or> y \<notin> lnodes L"
    and frame: "\<And>c. c \<notin> insert r (set xs \<union> set ys) \<Longrightarrow> nxt h' c = nxt h c \<and> prv h' c = prv h c"
    and gone: "\<And>c. c \<in> set xs \<Longrightarrow> c \<notin> set ys \<Longrightarrow> nxt h' c = None \<and> prv h' c = None"
  shows "heap_abs h' (L(r \<mapsto> ys))"
proof -
  have apart: "insert r (set xs \<union> set ys) \<inter> insert r' (set zs) = {}"
    if "L r' = Some zs" "r' \<noteq> r" for r' zs
  proof -
    have "insert r (set xs) \<inter> insert r' (set zs) = {}"
    proof (cases "L r = Some xs")
      case True
      with abs that show ?thesis by (auto simp: heap_abs_def)
    next
      case False
      with old that show ?thesis by (auto simp: lnodes_def)
    qed
    moreover have "y \<notin> insert r' (set zs)" if "y \<in> set ys" "y \<notin> set xs" for y
      using fresh [of y] that \<open>L r' = Some zs\<close> by (auto simp: lnodes_def)
    ultimately show ?thesis by auto
  qed
  have lists: "dll h' r' zs" if "(L(r \<mapsto> ys)) r' = Some zs" for r' zs
  proof (cases "r' = r")
    case True
    with that new show ?thesis by simp
  next
    case False
    with that have Lr': "L r' = Some zs" by simp
    have "nxt h' c = nxt h c \<and> prv h' c = prv h c" if "c \<in> insert r' (set zs)" for c
      using apart [OF Lr' False] that by (intro frame) blast
    then have "dll h' r' zs = dll h r' zs" by (intro dll_cong) blast
    with abs Lr' show ?thesis by (simp add: heap_abs_dll)
  qed
  have disj: "insert r1 (set zs1) \<inter> insert r2 (set zs2) = {}"
    if "(L(r \<mapsto> ys)) r1 = Some zs1" "(L(r \<mapsto> ys)) r2 = Some zs2" "r1 \<noteq> r2" for r1 r2 zs1 zs2
  proof (cases "r1 = r \<or> r2 = r")
    case True
    with that apart [of r1 zs1] apart [of r2 zs2] show ?thesis by (auto split: if_splits)
  next
    case False
    with that abs show ?thesis by (auto simp: heap_abs_def)
  qed
  have rest: "nxt h' n = None \<and> prv h' n = None" if "n \<notin> lnodes (L(r \<mapsto> ys))" for n
  proof (cases "n \<in> set xs")
    case True
    with that show ?thesis
      using lnodesI [of "L(r \<mapsto> ys)" r ys n] by (intro gone) auto
  next
    case False
    with that have "n \<notin> lnodes L" "n \<notin> insert r (set xs \<union> set ys)"
      by (auto simp: lnodes_upd [OF abs old])
    then show ?thesis using frame heap_abs_null [OF abs] by simp
  qed
  from lists disj rest show ?thesis by (simp add: heap_abs_def)
qed

section \<open>Each operation on the abstraction\<close>

lemma heap_abs_empty: "heap_abs \<lparr>nxt = (\<lambda>_. None), prv = (\<lambda>_. None)\<rparr> Map.empty"
  by (simp add: heap_abs_def)

lemma INIT_LIST_HEAD_abs:
  assumes "heap_abs h L" and "r \<notin> lnodes L \<or> L r = Some []"
  shows "\<exists>h'. INIT_LIST_HEAD (Some r) h = Some h' \<and> heap_abs h' (L(r \<mapsto> []))"
  unfolding INIT_LIST_HEAD_def heap_defs
  using assms by (auto intro!: heap_abs_update [where xs = "[]"] simp: dll_def)

lemma list_empty_abs:
  "heap_abs h L \<Longrightarrow> L r = Some xs \<Longrightarrow> list_empty (Some r) h = Some (xs = [])"
proof -
  assume "heap_abs h L" "L r = Some xs"
  then have "dll h r xs" by (rule heap_abs_dll)
  then show ?thesis
    by (auto simp: list_empty_def heap_defs dll_next dll_def split: list.splits)
qed

lemma get_next_abs:
  "heap_abs h L \<Longrightarrow> L r = Some xs \<Longrightarrow>
    get_next (Some r) h = Some (Some (case xs of [] \<Rightarrow> r | x # _ \<Rightarrow> x))"
  by (drule (1) heap_abs_dll) (simp add: get_next_def dll_next)

lemma list_first_entry_abs:
  "heap_abs h L \<Longrightarrow> L r = Some (x # xs) \<Longrightarrow> list_first_entry f (Some r) h = f x"
  by (simp add: list_first_entry_def get_next_abs)

lemma list_last_entry_abs:
  "heap_abs h L \<Longrightarrow> L r = Some (xs @ [x]) \<Longrightarrow> list_last_entry f (Some r) h = f x"
  by (drule (1) heap_abs_dll) (simp add: list_last_entry_def get_prev_def dll_prev)

lemma dll_insert_between:
  assumes abs: "heap_abs h L" and r: "L r = Some (xs @ ys)" and n: "n \<notin> lnodes L"
  shows "\<exists>h'. list_add_internal (Some n) (Some (last (r # xs))) (Some (hd (ys @ [r]))) h = Some h'
    \<and> heap_abs h' (L(r \<mapsto> xs @ n # ys))"
proof -
  let ?p = "last (r # xs)" and ?q = "hd (ys @ [r])"
  let ?h = "h\<lparr>nxt := (nxt h)(n := Some ?q, ?p := Some n),
             prv := (prv h)(?q := Some n, n := Some ?p)\<rparr>"
  have d: "dll h r (xs @ ys)" using abs r by (rule heap_abs_dll)
  have out: "n \<notin> insert r (set (xs @ ys))" using n r lnodesI [of L r "xs @ ys" n] by blast
  have mem: "?p \<in> insert r (set xs)" "?q \<in> insert r (set ys)"
    by (auto simp: hd_append)
  have "chain ?h r (xs @ n # ys) r"
    using d out by (intro chain_insert) (auto simp: dll_def)
  then have "dll ?h r (xs @ n # ys)"
    using d out by (auto simp: dll_def)
  then have "heap_abs ?h (L(r \<mapsto> xs @ n # ys))"
    using mem n by (intro heap_abs_update [OF abs, where xs = "xs @ ys"]) (auto simp: r)
  then show ?thesis by simp
qed

lemma list_add_abs:
  assumes "heap_abs h L" and "L r = Some xs" and "n \<notin> lnodes L"
  shows "\<exists>h'. list_add (Some n) (Some r) h = Some h' \<and> heap_abs h' (L(r \<mapsto> n # xs))"
proof -
  have "nxt h r = Some (hd (xs @ [r]))"
    using heap_abs_dll [OF assms(1,2)] by (auto simp: dll_next split: list.splits)
  then show ?thesis
    using dll_insert_between [of h L r "[]" xs n] assms by (simp add: list_add_def get_next_def)
qed

lemma list_add_tail_abs:
  assumes "heap_abs h L" and "L r = Some xs" and "n \<notin> lnodes L"
  shows "\<exists>h'. list_add_tail (Some n) (Some r) h = Some h' \<and> heap_abs h' (L(r \<mapsto> xs @ [n]))"
proof -
  have "prv h r = Some (last (r # xs))"
    using heap_abs_dll [OF assms(1,2)] by (rule dll_prev)
  then show ?thesis
    using dll_insert_between [of h L r xs "[]" n] assms by (simp add: list_add_tail_def get_prev_def)
qed

text \<open>
  \<open>list_del\<close> of an entry takes it out of its list and clears its fields.  On a node whose
  fields are \<open>NULL\<close> it stores through \<open>NULL\<close>: that is why the kernel has \<open>list_safe_del\<close>.
\<close>

lemma list_del_abs:
  assumes abs: "heap_abs h L" and r: "L r = Some xs" and n: "n \<in> set xs"
  shows "\<exists>h'. list_del (Some n) h = Some h' \<and> heap_abs h' (L(r \<mapsto> removeAll n xs))"
proof -
  obtain us vs where xs: "xs = us @ n # vs" using n by (auto simp: in_set_conv_decomp)
  let ?p = "last (r # us)" and ?q = "hd (vs @ [r])"
  have d: "dll h r (us @ n # vs)" using heap_abs_dll [OF abs r] xs by simp
  then have dist: "distinct (r # us @ n # vs)" by (simp add: dll_def)
  note links = dll_split_links [OF d]
  have mem: "?p \<in> insert r (set us)" "?q \<in> insert r (set vs)"
    by (auto simp: hd_append)
  let ?h1 = "h\<lparr>nxt := (nxt h)(?p := Some ?q), prv := (prv h)(?q := Some ?p)\<rparr>"
  let ?h = "?h1\<lparr>nxt := (nxt ?h1)(n := None), prv := (prv ?h1)(n := None)\<rparr>"
  have run: "list_del (Some n) h = Some ?h"
    using links by (simp add: list_del_def list_del_entry_internal_def list_del_entry_valid_def
        heap_defs del: last.simps)
  have "chain ?h1 r (us @ vs) r"
    using d dist by (intro chain_remove [where n = n]) (auto simp: dll_def)
  moreover have "chain ?h r (us @ vs) r = chain ?h1 r (us @ vs) r"
    using dist by (intro chain_cong) auto
  ultimately have "dll ?h r (us @ vs)" using dist by (auto simp: dll_def)
  then have "heap_abs ?h (L(r \<mapsto> us @ vs))"
    using mem dist by (intro heap_abs_update [OF abs, where xs = xs]) (auto simp: r xs)
  moreover have "removeAll n xs = us @ vs" using dist xs by simp
  ultimately show ?thesis using run by simp
qed

lemma list_del_unlinked_faults:
  "heap_abs h L \<Longrightarrow> n \<notin> lnodes L \<Longrightarrow> list_del (Some n) h = None"
  by (drule (1) heap_abs_null)
    (simp add: list_del_def list_del_entry_internal_def list_del_entry_valid_def
      list_del_internal_def heap_defs)

lemma list_safe_del_unlinked:
  "heap_abs h L \<Longrightarrow> n \<notin> lnodes L \<Longrightarrow> list_safe_del (Some n) h = Some h"
  by (drule (1) heap_abs_null) (simp add: list_safe_del_def heap_defs)

lemma list_safe_del_linked:
  assumes abs: "heap_abs h L" and r: "L r = Some xs" and n: "n \<in> set xs"
  shows "list_safe_del (Some n) h = list_del (Some n) h"
proof -
  have "nxt h n \<noteq> None"
    using dll_notNone [OF heap_abs_dll [OF abs r], of n] n by simp
  moreover obtain h' where h': "list_del (Some n) h = Some h'"
    using list_del_abs [OF assms] by blast
  moreover from h' have "h'\<lparr>prv := (prv h')(n := None)\<rparr>\<lparr>nxt := (nxt h')(n := None)\<rparr> = h'"
    by (auto simp: list_del_def heap_defs bind_Some_iff)
  ultimately show ?thesis
    by (simp add: list_safe_del_def heap_defs)
qed

lemma list_safe_del_abs:
  assumes "heap_abs h L" and "L n = None"
  shows "\<exists>h'. list_safe_del (Some n) h = Some h' \<and> heap_abs h' (unlink n L)"
proof (cases "n \<in> lnodes L")
  case True
  then obtain r xs where "L r = Some xs" "n \<in> set xs"
    using assms(2) by (auto elim!: lnodesE)
  with assms(1) show ?thesis
    using list_del_abs list_safe_del_linked unlink_entry by metis
next
  case False
  with assms(1) show ?thesis by (simp add: list_safe_del_unlinked unlink_other)
qed

section \<open>Moves between lists\<close>

lemma list_del_entry_abs:
  assumes abs: "heap_abs h L" and r: "L r = Some xs" and n: "n \<in> set xs"
  shows "\<exists>h1 h'. list_del_entry_internal (Some n) h = Some h1
    \<and> heap_abs h' (L(r \<mapsto> removeAll n xs))
    \<and> h' = h1\<lparr>nxt := (nxt h1)(n := None), prv := (prv h1)(n := None)\<rparr>"
proof -
  from list_del_abs [OF assms] obtain h' where
    "list_del (Some n) h = Some h'" and "heap_abs h' (L(r \<mapsto> removeAll n xs))" by blast
  then show ?thesis
    by (cases "list_del_entry_internal (Some n) h")
      (auto simp: list_del_def heap_defs)
qed

lemma list_del_init_abs:
  assumes abs: "heap_abs h L" and r: "L r = Some xs" and n: "n \<in> set xs"
  shows "\<exists>h'. list_del_init (Some n) h = Some h' \<and>
    heap_abs h' (L(r \<mapsto> removeAll n xs, n \<mapsto> []))"
proof -
  from list_del_entry_abs [OF assms] obtain h1 h' where
    run: "list_del_entry_internal (Some n) h = Some h1" and
    abs': "heap_abs h' (L(r \<mapsto> removeAll n xs))" and
    h': "h' = h1\<lparr>nxt := (nxt h1)(n := None), prv := (prv h1)(n := None)\<rparr>" by blast
  have Ln: "L n = None" using abs r n by (rule heap_abs_entry_not_head)
  have out: "n \<notin> lnodes (L(r \<mapsto> removeAll n xs))"
    using lnodes_unlink [of L n] Ln unlink_entry [OF assms] by auto
  from INIT_LIST_HEAD_abs [OF abs', of n] out obtain h2 where
    "INIT_LIST_HEAD (Some n) h' = Some h2" and
    "heap_abs h2 (L(r \<mapsto> removeAll n xs, n \<mapsto> []))" by blast
  moreover have "INIT_LIST_HEAD (Some n) h' = INIT_LIST_HEAD (Some n) h1"
    by (simp add: INIT_LIST_HEAD_def heap_defs h')
  ultimately show ?thesis by (auto simp: list_del_init_def run)
qed

text \<open>
  The moves unlink the entry without clearing its fields; the insertion that follows
  overwrites them, so the result is that of a removal and an insertion.
\<close>

lemma list_add_internal_cleared:
  assumes "n \<noteq> p" and "n \<noteq> q"
  shows "list_add_internal (Some n) (Some p) (Some q)
      (h\<lparr>nxt := (nxt h)(n := a), prv := (prv h)(n := b)\<rparr>)
    = list_add_internal (Some n) (Some p) (Some q) h"
  using assms by (simp add: fun_upd_twist)

lemma list_move_abs:
  assumes abs: "heap_abs h L" and r: "L r = Some xs" and n: "n \<in> set xs" and r': "r' \<in> dom L"
  shows "\<exists>h'. list_move (Some n) (Some r') h = Some h' \<and>
    heap_abs h' ((unlink n L)(r' \<mapsto> n # the (unlink n L r')))"
proof -
  from list_del_entry_abs [OF abs r n] obtain h1 h' where
    run: "list_del_entry_internal (Some n) h = Some h1" and
    abs': "heap_abs h' (unlink n L)" and
    h': "h' = h1\<lparr>nxt := (nxt h1)(n := None), prv := (prv h1)(n := None)\<rparr>"
    unfolding unlink_entry [OF abs r n] by blast
  have Ln: "L n = None" using abs r n by (rule heap_abs_entry_not_head)
  with r' have "n \<noteq> r'" by auto
  from r' obtain ys where ys: "unlink n L r' = Some ys" by (auto simp: unlink_def)
  have out: "n \<notin> lnodes (unlink n L)" using lnodes_unlink [of L n] Ln by simp
  have nx: "nxt h' r' = Some (hd (ys @ [r']))"
    using heap_abs_dll [OF abs' ys] by (auto simp: dll_next split: list.splits)
  from out ys have "n \<noteq> hd (ys @ [r'])"
    using lnodesI [of "unlink n L" r' ys "hd (ys @ [r'])"] by (auto simp: hd_append)
  then have "list_add_internal (Some n) (Some r') (Some (hd (ys @ [r']))) h'
      = list_add_internal (Some n) (Some r') (Some (hd (ys @ [r']))) h1"
    unfolding h' using \<open>n \<noteq> r'\<close> by (rule list_add_internal_cleared [rotated])
  moreover have "nxt h1 r' = nxt h' r'" using \<open>n \<noteq> r'\<close> by (simp add: h')
  ultimately have "list_add (Some n) (Some r') h1 = list_add (Some n) (Some r') h'"
    by (simp add: list_add_def get_next_def nx del: list_add_internal_Some)
  moreover from list_add_abs [OF abs' ys out] obtain h2 where
    h2: "list_add (Some n) (Some r') h' = Some h2" "heap_abs h2 ((unlink n L)(r' \<mapsto> n # ys))"
    by blast
  ultimately have "list_move (Some n) (Some r') h = Some h2"
    by (simp only: list_move_def run bind.simps)
  with h2(2) ys show ?thesis by simp
qed

lemma list_move_tail_abs:
  assumes abs: "heap_abs h L" and r: "L r = Some xs" and n: "n \<in> set xs" and r': "r' \<in> dom L"
  shows "\<exists>h'. list_move_tail (Some n) (Some r') h = Some h' \<and>
    heap_abs h' ((unlink n L)(r' \<mapsto> the (unlink n L r') @ [n]))"
proof -
  from list_del_entry_abs [OF abs r n] obtain h1 h' where
    run: "list_del_entry_internal (Some n) h = Some h1" and
    abs': "heap_abs h' (unlink n L)" and
    h': "h' = h1\<lparr>nxt := (nxt h1)(n := None), prv := (prv h1)(n := None)\<rparr>"
    unfolding unlink_entry [OF abs r n] by blast
  have Ln: "L n = None" using abs r n by (rule heap_abs_entry_not_head)
  with r' have "n \<noteq> r'" by auto
  from r' obtain ys where ys: "unlink n L r' = Some ys" by (auto simp: unlink_def)
  have out: "n \<notin> lnodes (unlink n L)" using lnodes_unlink [of L n] Ln by simp
  have pv: "prv h' r' = Some (last (r' # ys))"
    using heap_abs_dll [OF abs' ys] by (rule dll_prev)
  from out ys have "n \<noteq> last (r' # ys)"
    using lnodesI [of "unlink n L" r' ys "last (r' # ys)"] by (auto split: if_splits)
  then have "list_add_internal (Some n) (Some (last (r' # ys))) (Some r') h'
      = list_add_internal (Some n) (Some (last (r' # ys))) (Some r') h1"
    unfolding h' using \<open>n \<noteq> r'\<close> by (rule list_add_internal_cleared)
  moreover have "prv h1 r' = prv h' r'" using \<open>n \<noteq> r'\<close> by (simp add: h')
  ultimately have "list_add_tail (Some n) (Some r') h1 = list_add_tail (Some n) (Some r') h'"
    by (simp add: list_add_tail_def get_prev_def pv del: list_add_internal_Some last.simps)
  moreover from list_add_tail_abs [OF abs' ys out] obtain h2 where
    h2: "list_add_tail (Some n) (Some r') h' = Some h2" "heap_abs h2 ((unlink n L)(r' \<mapsto> ys @ [n]))"
    by blast
  ultimately have "list_move_tail (Some n) (Some r') h = Some h2"
    by (simp only: list_move_tail_def run bind.simps)
  with h2(2) ys show ?thesis by simp
qed

lemma list_rotate_left_abs:
  assumes abs: "heap_abs h L" and r: "L r = Some xs"
  shows "\<exists>h'. list_rotate_left (Some r) h = Some h' \<and> heap_abs h' (L(r \<mapsto> rotate1 xs))"
proof (cases xs)
  case Nil
  with abs r have "L(r \<mapsto> rotate1 xs) = L" by (auto simp: fun_upd_idem)
  with abs Nil show ?thesis by (simp add: list_rotate_left_def list_empty_abs [OF abs r])
next
  case (Cons x ys)
  have x: "x \<in> set xs" "removeAll x xs = ys"
    using heap_abs_distinct [OF abs r] Cons by auto
  have "unlink x L = L(r \<mapsto> ys)" using unlink_entry [OF abs r x(1)] x(2) by simp
  then show ?thesis
    using list_move_tail_abs [OF abs r x(1), of r] r Cons
    by (auto simp: list_rotate_left_def list_empty_abs [OF abs r] get_next_abs [OF abs r])
qed

section \<open>The loops\<close>

lemma list_search_from_chain:
  "chain h a xs r \<Longrightarrow> r \<notin> set xs \<Longrightarrow>
    list_search_from item (Some r) cmp (nxt h a) h = Some (find (\<lambda>x. \<not> cmp item (Some x)) xs)"
proof (induction xs arbitrary: a)
  case Nil
  then show ?case by (simp add: list_search_from.simps)
next
  case (Cons x xs)
  then show ?case by (subst list_search_from.simps) (auto simp: get_next_def)
qed

lemma list_search_abs:
  "heap_abs h L \<Longrightarrow> L r = Some xs \<Longrightarrow>
    list_search item (Some r) cmp h = Some (find (\<lambda>x. \<not> cmp item (Some x)) xs)"
  by (drule (1) heap_abs_dll) (auto simp: list_search_def get_next_def dll_def list_search_from_chain)

lemma list_contains_abs:
  "heap_abs h L \<Longrightarrow> L r = Some xs \<Longrightarrow> list_contains (Some n) (Some r) h = Some (n \<in> set xs)"
proof -
  assume "heap_abs h L" "L r = Some xs"
  moreover have "find ((=) n) xs \<noteq> None \<longleftrightarrow> n \<in> set xs"
    by (metis find_None_iff)
  ultimately show ?thesis
    by (simp add: list_contains_def list_search_abs list_cmp_def del: not_None_eq)
qed

lemma list_size_from_chain:
  "chain h a xs r \<Longrightarrow> r \<notin> set xs \<Longrightarrow>
    list_size_from (Some r) (nxt h a) k h = Some (k + int (length xs))"
proof (induction xs arbitrary: a k)
  case Nil
  then show ?case by (simp add: list_size_from.simps)
next
  case (Cons x xs)
  then show ?case by (subst list_size_from.simps) (auto simp: get_next_def)
qed

lemma list_size_abs:
  "heap_abs h L \<Longrightarrow> L r = Some xs \<Longrightarrow> list_size (Some r) h = Some (int (length xs))"
  by (drule (1) heap_abs_dll) (auto simp: list_size_def get_next_def dll_def list_size_from_chain)

text \<open>A loop whose body leaves the list alone visits the entries in order.\<close>

lemma list_for_each_continue_chain:
  assumes "chain h a xs r" and "r \<notin> set xs"
    and "\<And>x s. x \<in> set xs \<Longrightarrow> body (Some x) (h, s) = map_option (Pair h) (f x s)"
  shows "list_for_each_continue body (Some r) (Some a) (h, s) = map_option (Pair h) (foldM f xs s)"
  using assms
proof (induction xs arbitrary: a s)
  case Nil
  then show ?case by (subst list_for_each_continue.simps) (simp add: get_next_def list_is_head_def)
next
  case (Cons x xs)
  then show ?case
    by (subst list_for_each_continue.simps)
      (cases "f x s"; auto simp: get_next_def list_is_head_def)
qed

lemma list_for_each_abs:
  assumes "heap_abs h L" and "L r = Some xs"
    and "\<And>x s. x \<in> set xs \<Longrightarrow> body (Some x) (h, s) = map_option (Pair h) (f x s)"
  shows "list_for_each body (Some r) (h, s) = map_option (Pair h) (foldM f xs s)"
  using heap_abs_dll [OF assms(1,2)] assms(3)
  by (simp add: list_for_each_def dll_def list_for_each_continue_chain)

text \<open>
  The safe loop may delete the entry it visits: deleting every entry empties the list.
\<close>

lemma list_for_each_safe_del_from:
  assumes "heap_abs h L" and "L r = Some xs"
    and "\<And>x h. x \<in> set xs \<Longrightarrow> body (Some x) (h, u) = map_option (\<lambda>h. (h, u)) (list_del (Some x) h)"
  shows "\<exists>h'. list_for_each_safe_from body (Some r) (Some (hd (xs @ [r]))) (nxt h (hd (xs @ [r]))) (h, u) = Some (h', u)
    \<and> heap_abs h' (L(r \<mapsto> []))"
  using assms
proof (induction xs arbitrary: h L)
  case Nil
  then have "L(r \<mapsto> []) = L" by auto
  with Nil show ?case
    by (subst list_for_each_safe_from.simps) (simp add: list_is_head_def)
next
  case (Cons x xs)
  have dist: "distinct (r # x # xs)" using Cons.prems(1,2) by (rule heap_abs_distinct)
  from list_del_abs [OF Cons.prems(1,2), of x] dist obtain h1 where
    h1: "list_del (Some x) h = Some h1" "heap_abs h1 (L(r \<mapsto> xs))" by auto
  have b: "body (Some x) (h, u) = Some (h1, u)" using Cons.prems(3) h1(1) by simp
  have nx: "nxt h x = Some (hd (xs @ [r]))"
    using dll_split_links(1) [of h r "[]" x xs] heap_abs_dll [OF Cons.prems(1,2)] by simp
  from Cons.IH [OF h1(2) _ Cons.prems(3)] obtain h' where
    "list_for_each_safe_from body (Some r) (Some (hd (xs @ [r]))) (nxt h1 (hd (xs @ [r]))) (h1, u) = Some (h', u)"
    and "heap_abs h' (L(r \<mapsto> []))" by (auto simp del: fun_upd_apply simp add: fun_upd_same)
  moreover have "x \<noteq> r" using dist by auto
  ultimately show ?case
    by (subst list_for_each_safe_from.simps)
      (auto simp: list_is_head_def b nx get_next_def)
qed

lemma list_for_each_safe_del_abs:
  assumes "heap_abs h L" and "L r = Some xs"
    and "\<And>x h. x \<in> set xs \<Longrightarrow> body (Some x) (h, u) = map_option (\<lambda>h. (h, u)) (list_del (Some x) h)"
  shows "\<exists>h'. list_for_each_safe body (Some r) (h, u) = Some (h', u) \<and> heap_abs h' (L(r \<mapsto> []))"
proof -
  have "nxt h r = Some (hd (xs @ [r]))"
    using heap_abs_dll [OF assms(1,2)] by (auto simp: dll_next split: list.splits)
  then show ?thesis
    using list_for_each_safe_del_from [OF assms] by (simp add: list_for_each_safe_def get_next_def)
qed

text \<open>The plain loop may not: after the first deletion its cursor is \<open>NULL\<close>.\<close>

lemma list_for_each_del_faults:
  assumes "heap_abs h L" and "L r = Some (x # xs)"
  shows "list_for_each (\<lambda>pos (h, u). map_option (\<lambda>h. (h, u)) (list_del pos h))
      (Some r) (h, u) = None"
proof -
  have "x \<noteq> r" using heap_abs_distinct [OF assms] by auto
  have nr: "nxt h r = Some x" using heap_abs_dll [OF assms] by (simp add: dll_next)
  obtain h1 where h1: "list_del (Some x) h = Some h1"
    using list_del_abs [OF assms, of x] by auto
  then have "nxt h1 x = None" by (auto simp: list_del_def heap_defs bind_Some_iff)
  moreover have "list_del None h1 = None"
    by (simp add: list_del_def list_del_entry_internal_def list_del_entry_valid_def heap_defs)
  ultimately show ?thesis
    using \<open>x \<noteq> r\<close> nr h1
    by (simp add: list_for_each_def list_for_each_continue.simps get_next_def list_is_head_def)
qed

end
