(* ===== verification/Hlist.thy ===== *)
theory Hlist
  imports Prelude
begin

text \<open>
  The singly headed hash lists of the second half of \<open>pandos/phase1/include/list.h\<close>, the
  static hash tables of \<open>hashtable.h\<close>, the hash function of \<open>hash.h\<close> and the logarithm of
  \<open>log2.h\<close>.  A \<open>pprev\<close> field holds the address of the pointer that points at the node:
  either the \<open>first\<close> field of a head or the \<open>next\<close> field of another node.
\<close>

unbundle bit_operations_syntax

section \<open>The heap of hash lists\<close>

datatype ('h, 'n) ploc = AtFirst 'h | AtNext 'n

record ('h, 'n) hheap =
  hfirst :: "'h \<Rightarrow> 'n ptr"
  hnext :: "'n \<Rightarrow> 'n ptr"
  hpprev :: "'n \<Rightarrow> ('h, 'n) ploc ptr"

text \<open>Loads and stores; through a \<open>NULL\<close> pointer they fault.\<close>

definition get_hnext :: "'n ptr \<Rightarrow> ('h, 'n) hheap \<Rightarrow> 'n ptr option" where
  "get_hnext n h = map_option (hnext h) n"

definition get_pprev :: "'n ptr \<Rightarrow> ('h, 'n) hheap \<Rightarrow> ('h, 'n) ploc ptr option" where
  "get_pprev n h = map_option (hpprev h) n"

definition set_hnext :: "'n ptr \<Rightarrow> 'n ptr \<Rightarrow> ('h, 'n) hheap update" where
  "set_hnext n v h = map_option (\<lambda>a. h\<lparr>hnext := (hnext h)(a := v)\<rparr>) n"

definition set_pprev :: "'n ptr \<Rightarrow> ('h, 'n) ploc ptr \<Rightarrow> ('h, 'n) hheap update" where
  "set_pprev n v h = map_option (\<lambda>a. h\<lparr>hpprev := (hpprev h)(a := v)\<rparr>) n"

fun load_ploc :: "('h, 'n) ploc \<Rightarrow> ('h, 'n) hheap \<Rightarrow> 'n ptr" where
  "load_ploc (AtFirst b) h = hfirst h b"
| "load_ploc (AtNext n) h = hnext h n"

fun store_ploc :: "('h, 'n) ploc \<Rightarrow> 'n ptr \<Rightarrow> ('h, 'n) hheap \<Rightarrow> ('h, 'n) hheap" where
  "store_ploc (AtFirst b) v h = h\<lparr>hfirst := (hfirst h)(b := v)\<rparr>"
| "store_ploc (AtNext n) v h = h\<lparr>hnext := (hnext h)(n := v)\<rparr>"

lemmas hlist_heap_defs [heap_defs] = get_hnext_def get_pprev_def set_hnext_def set_pprev_def

section \<open>The hlist operations of list.h\<close>

definition INIT_HLIST_HEAD :: "'h \<Rightarrow> ('h, 'n) hheap \<Rightarrow> ('h, 'n) hheap" where
  "INIT_HLIST_HEAD b h = h\<lparr>hfirst := (hfirst h)(b := None)\<rparr>"

definition INIT_HLIST_NODE :: "'n ptr \<Rightarrow> ('h, 'n) hheap update" where
  "INIT_HLIST_NODE n h = do {
     h \<leftarrow> set_hnext n None h;
     set_pprev n None h
   }"

definition hlist_unhashed :: "'n ptr \<Rightarrow> ('h, 'n) hheap \<Rightarrow> bool option" where
  "hlist_unhashed n h = do { p \<leftarrow> get_pprev n h; Some (p = None) }"

definition hlist_unhashed_lockless :: "'n ptr \<Rightarrow> ('h, 'n) hheap \<Rightarrow> bool option" where
  "hlist_unhashed_lockless n h = do { p \<leftarrow> get_pprev n h; Some (p = None) }"

definition hlist_empty :: "'h \<Rightarrow> ('h, 'n) hheap \<Rightarrow> bool" where
  "hlist_empty b h \<longleftrightarrow> hfirst h b = None"

definition hlist_del_internal :: "'n ptr \<Rightarrow> ('h, 'n) hheap update" where
  "hlist_del_internal n h = do {
     nx \<leftarrow> get_hnext n h;
     pp \<leftarrow> get_pprev n h;
     loc \<leftarrow> pp;
     let h = store_ploc loc nx h;
     if nx \<noteq> None then set_pprev nx pp h else Some h
   }"

definition hlist_del :: "'n ptr \<Rightarrow> ('h, 'n) hheap update" where
  "hlist_del n h = do {
     h \<leftarrow> hlist_del_internal n h;
     h \<leftarrow> set_hnext n None h;
     set_pprev n None h
   }"

definition hlist_del_init :: "'n ptr \<Rightarrow> ('h, 'n) hheap update" where
  "hlist_del_init n h = do {
     u \<leftarrow> hlist_unhashed n h;
     if \<not> u then do {
       h \<leftarrow> hlist_del_internal n h;
       INIT_HLIST_NODE n h
     } else Some h
   }"

definition hlist_add_head :: "'n ptr \<Rightarrow> 'h \<Rightarrow> ('h, 'n) hheap update" where
  "hlist_add_head n b h = do {
     let first = hfirst h b;
     h \<leftarrow> set_hnext n first h;
     n' \<leftarrow> n;
     h \<leftarrow> (if first \<noteq> None then set_pprev first (Some (AtNext n')) h else Some h);
     let h = h\<lparr>hfirst := (hfirst h)(b := n)\<rparr>;
     set_pprev n (Some (AtFirst b)) h
   }"

definition hlist_add_before :: "'n ptr \<Rightarrow> 'n ptr \<Rightarrow> ('h, 'n) hheap update" where
  "hlist_add_before n next h = do {
     pp \<leftarrow> get_pprev next h;
     h \<leftarrow> set_pprev n pp h;
     h \<leftarrow> set_hnext n next h;
     n' \<leftarrow> n;
     h \<leftarrow> set_pprev next (Some (AtNext n')) h;
     pp \<leftarrow> get_pprev n h;
     loc \<leftarrow> pp;
     Some (store_ploc loc n h)
   }"

definition hlist_add_behind :: "'n ptr \<Rightarrow> 'n ptr \<Rightarrow> ('h, 'n) hheap update" where
  "hlist_add_behind n prev h = do {
     pn \<leftarrow> get_hnext prev h;
     h \<leftarrow> set_hnext n pn h;
     h \<leftarrow> set_hnext prev n h;
     prev' \<leftarrow> prev;
     h \<leftarrow> set_pprev n (Some (AtNext prev')) h;
     nn \<leftarrow> get_hnext n h;
     n' \<leftarrow> n;
     if nn \<noteq> None then set_pprev nn (Some (AtNext n')) h else Some h
   }"

definition hlist_add_fake :: "'n ptr \<Rightarrow> ('h, 'n) hheap update" where
  "hlist_add_fake n h = do {
     n' \<leftarrow> n;
     set_pprev n (Some (AtNext n')) h
   }"

definition hlist_fake :: "'n ptr \<Rightarrow> ('h, 'n) hheap \<Rightarrow> bool option" where
  "hlist_fake n h = do {
     pp \<leftarrow> get_pprev n h;
     n' \<leftarrow> n;
     Some (pp = Some (AtNext n'))
   }"

definition hlist_is_singular_node :: "'n ptr \<Rightarrow> 'h \<Rightarrow> ('h, 'n) hheap \<Rightarrow> bool option" where
  "hlist_is_singular_node n b h = do {
     nx \<leftarrow> get_hnext n h;
     pp \<leftarrow> get_pprev n h;
     Some (nx = None \<and> pp = Some (AtFirst b))
   }"

definition hlist_move_list :: "'h \<Rightarrow> 'h \<Rightarrow> ('h, 'n) hheap update" where
  "hlist_move_list old new h = do {
     let h = h\<lparr>hfirst := (hfirst h)(new := hfirst h old)\<rparr>;
     let first = hfirst h new;
     h \<leftarrow> (if first \<noteq> None then set_pprev first (Some (AtFirst new)) h else Some h);
     Some (h\<lparr>hfirst := (hfirst h)(old := None)\<rparr>)
   }"

text \<open>
  \<open>hlist_for_each_entry\<close> with a body that may return from the function early: the body
  answers \<open>Inl\<close> to return and \<open>Inr\<close> to go on; the loop answers \<open>Inr\<close> when it ran off the
  end of the list.
\<close>

partial_function (option) hlist_for_each_from ::
  "('n \<Rightarrow> ('r + unit) option) \<Rightarrow> 'n ptr \<Rightarrow> ('h, 'n) hheap \<Rightarrow> ('r + unit) option" where
  "hlist_for_each_from body pos h = (case pos of
     None \<Rightarrow> Some (Inr ())
   | Some n \<Rightarrow> do {
       r \<leftarrow> body n;
       (case r of
          Inl v \<Rightarrow> Some (Inl v)
        | Inr _ \<Rightarrow> hlist_for_each_from body (hnext h n) h)
     })"

definition hlist_for_each_entry ::
  "('n \<Rightarrow> ('r + unit) option) \<Rightarrow> 'h \<Rightarrow> ('h, 'n) hheap \<Rightarrow> ('r + unit) option" where
  "hlist_for_each_entry body b h = hlist_for_each_from body (hfirst h b) h"

section \<open>log2.h and hash.h\<close>

text \<open>
  \<open>const_ilog2\<close> of a constant: the macro tests the bits from 63 down to 2, and answers 0
  below 2 and 1 for what is left.
\<close>

fun ilog2_bits :: "nat \<Rightarrow> u64 \<Rightarrow> int" where
  "ilog2_bits i n =
     (if i < 2 then 1
      else if n AND push_bit i 1 \<noteq> 0 then int i
      else ilog2_bits (i - 1) n)"

declare ilog2_bits.simps [simp del]

definition const_ilog2 :: "u64 \<Rightarrow> int" where
  "const_ilog2 n = (if n < 2 then 0 else ilog2_bits 63 n)"

definition GOLDEN_RATIO_32 :: u32 where
  "GOLDEN_RATIO_32 = 0x61C88647"

definition hash_32_generic :: "u32 \<Rightarrow> u32" where
  "hash_32_generic val = val * GOLDEN_RATIO_32"

definition hash_32 :: "u32 \<Rightarrow> u32 \<Rightarrow> u32" where
  "hash_32 val bits = drop_bit (unat (32 - bits)) (hash_32_generic val)"

definition hash_ptr :: "u32 \<Rightarrow> u32 \<Rightarrow> u32" where
  "hash_ptr p bits = hash_32 p bits"

definition hash32_ptr :: "u32 \<Rightarrow> u32" where
  "hash32_ptr p = p"

section \<open>hashtable.h\<close>

text \<open>
  A table is the array of its heads, \<open>HASH_SIZE\<close> of them; the table of the kernel is made by
  \<open>DEFINE_HASHTABLE(semd_h, 12)\<close>.  On the target \<open>unsigned long\<close> has 32 bits.
\<close>

definition HASH_SIZE :: "nat \<Rightarrow> nat" where
  "HASH_SIZE bits = 2 ^ bits"

definition HASH_BITS :: "nat \<Rightarrow> u32" where
  "HASH_BITS sz = word_of_int (const_ilog2 (of_nat sz))"

definition hash_min :: "u32 \<Rightarrow> u32 \<Rightarrow> u32" where
  "hash_min val bits = hash_32 val bits"

fun hash_init_from :: "nat \<Rightarrow> nat \<Rightarrow> (nat, 'n) hheap \<Rightarrow> (nat, 'n) hheap" where
  "hash_init_from i 0 h = h"
| "hash_init_from i (Suc k) h = hash_init_from (Suc i) k (INIT_HLIST_HEAD i h)"

definition hash_init :: "nat \<Rightarrow> (nat, 'n) hheap \<Rightarrow> (nat, 'n) hheap" where
  "hash_init sz h = hash_init_from 0 sz h"

definition bucket_of :: "nat \<Rightarrow> u32 \<Rightarrow> nat" where
  "bucket_of sz key = unat (hash_min key (HASH_BITS sz))"

definition hash_add :: "nat \<Rightarrow> 'n ptr \<Rightarrow> u32 \<Rightarrow> (nat, 'n) hheap update" where
  "hash_add sz node key h = hlist_add_head node (bucket_of sz key) h"

definition hash_hashed :: "'n ptr \<Rightarrow> ('h, 'n) hheap \<Rightarrow> bool option" where
  "hash_hashed node h = map_option Not (hlist_unhashed node h)"

fun hash_empty_from :: "nat \<Rightarrow> nat \<Rightarrow> (nat, 'n) hheap \<Rightarrow> bool" where
  "hash_empty_from i 0 h = True"
| "hash_empty_from i (Suc k) h = (if \<not> hlist_empty i h then False else hash_empty_from (Suc i) k h)"

definition hash_empty :: "nat \<Rightarrow> (nat, 'n) hheap \<Rightarrow> bool" where
  "hash_empty sz h = hash_empty_from 0 sz h"

definition hash_del :: "'n ptr \<Rightarrow> ('h, 'n) hheap update" where
  "hash_del node h = hlist_del_init node h"

definition hash_for_each_possible ::
  "nat \<Rightarrow> ('n \<Rightarrow> ('r + unit) option) \<Rightarrow> u32 \<Rightarrow> (nat, 'n) hheap \<Rightarrow> ('r + unit) option" where
  "hash_for_each_possible sz body key h = hlist_for_each_entry body (bucket_of sz key) h"

fun hash_for_each_from ::
  "nat \<Rightarrow> nat \<Rightarrow> ('n \<Rightarrow> ('r + unit) option) \<Rightarrow> (nat, 'n) hheap \<Rightarrow> ('r + unit) option" where
  "hash_for_each_from bkt 0 body h = Some (Inr ())"
| "hash_for_each_from bkt (Suc k) body h = do {
     r \<leftarrow> hlist_for_each_entry body bkt h;
     (case r of
        Inl v \<Rightarrow> Some (Inl v)
      | Inr _ \<Rightarrow> hash_for_each_from (Suc bkt) k body h)
   }"

definition hash_for_each ::
  "nat \<Rightarrow> ('n \<Rightarrow> ('r + unit) option) \<Rightarrow> (nat, 'n) hheap \<Rightarrow> ('r + unit) option" where
  "hash_for_each sz body h = hash_for_each_from 0 sz body h"

section \<open>The abstraction: buckets as lists\<close>

fun hchain :: "('h, 'n) hheap \<Rightarrow> ('h, 'n) ploc \<Rightarrow> 'n list \<Rightarrow> bool" where
  "hchain h loc [] \<longleftrightarrow> load_ploc loc h = None"
| "hchain h loc (x # xs) \<longleftrightarrow>
     load_ploc loc h = Some x \<and> hpprev h x = Some loc \<and> hchain h (AtNext x) xs"

definition hnodes :: "('h \<Rightarrow> 'n list) \<Rightarrow> 'n set" where
  "hnodes B = (\<Union>b. set (B b))"

definition hash_abs :: "('h, 'n) hheap \<Rightarrow> ('h \<Rightarrow> 'n list) \<Rightarrow> bool" where
  "hash_abs h B \<longleftrightarrow>
     (\<forall>b. distinct (B b) \<and> hchain h (AtFirst b) (B b)) \<and>
     (\<forall>b b'. b \<noteq> b' \<longrightarrow> set (B b) \<inter> set (B b') = {}) \<and>
     (\<forall>n. n \<notin> hnodes B \<longrightarrow> hnext h n = None \<and> hpprev h n = None)"

lemma hash_abs_hchain: "hash_abs h B \<Longrightarrow> hchain h (AtFirst b) (B b)"
  by (simp add: hash_abs_def)

lemma hash_abs_distinct: "hash_abs h B \<Longrightarrow> distinct (B b)"
  by (simp add: hash_abs_def)

lemma hash_abs_disjoint: "hash_abs h B \<Longrightarrow> n \<in> set (B b) \<Longrightarrow> n \<in> set (B b') \<Longrightarrow> b = b'"
  unfolding hash_abs_def by blast

lemma hash_abs_unhashed: "hash_abs h B \<Longrightarrow> n \<notin> hnodes B \<Longrightarrow> hnext h n = None \<and> hpprev h n = None"
  by (simp add: hash_abs_def)

lemma hnodesI: "n \<in> set (B b) \<Longrightarrow> n \<in> hnodes B"
  by (auto simp: hnodes_def)

lemma hchain_cong:
  assumes "load_ploc loc h' = load_ploc loc h"
    and "\<And>c. c \<in> set xs \<Longrightarrow> hnext h' c = hnext h c \<and> hpprev h' c = hpprev h c"
  shows "hchain h' loc xs = hchain h loc xs"
  using assms by (induction xs arbitrary: loc) auto


text \<open>The location reached after going through \<open>xs\<close> from \<open>loc\<close>.\<close>

definition hend :: "('h, 'n) ploc \<Rightarrow> 'n list \<Rightarrow> ('h, 'n) ploc" where
  "hend loc xs = (if xs = [] then loc else AtNext (last xs))"

fun hseg :: "('h, 'n) hheap \<Rightarrow> ('h, 'n) ploc \<Rightarrow> 'n list \<Rightarrow> bool" where
  "hseg h loc [] \<longleftrightarrow> True"
| "hseg h loc (x # xs) \<longleftrightarrow>
     load_ploc loc h = Some x \<and> hpprev h x = Some loc \<and> hseg h (AtNext x) xs"

lemma hchain_append:
  "hchain h loc (xs @ ys) \<longleftrightarrow> hseg h loc xs \<and> hchain h (hend loc xs) ys"
  by (induction xs arbitrary: loc) (auto simp: hend_def)

lemma hseg_cong:
  assumes "xs \<noteq> [] \<Longrightarrow> load_ploc loc h' = load_ploc loc h"
    and "\<And>c. c \<in> set (butlast xs) \<Longrightarrow> hnext h' c = hnext h c"
    and "\<And>c. c \<in> set xs \<Longrightarrow> hpprev h' c = hpprev h c"
  shows "hseg h' loc xs = hseg h loc xs"
  using assms
proof (induction xs arbitrary: loc)
  case Nil
  then show ?case by simp
next
  case (Cons x xs)
  have "hseg h' (AtNext x) xs = hseg h (AtNext x) xs"
    using Cons.prems by (intro Cons.IH) (cases xs; auto)+
  with Cons.prems(1,3) show ?case by simp
qed

lemma hash_abs_update:
  assumes abs: "hash_abs h B"
    and dist: "distinct ys"
    and new: "hchain h' (AtFirst b) ys"
    and fresh: "\<And>y. y \<in> set ys \<Longrightarrow> y \<in> set (B b) \<or> y \<notin> hnodes B"
    and firsts: "\<And>b'. b' \<noteq> b \<Longrightarrow> hfirst h' b' = hfirst h b'"
    and frame: "\<And>c. c \<notin> set (B b) \<union> set ys \<Longrightarrow> hnext h' c = hnext h c \<and> hpprev h' c = hpprev h c"
    and gone: "\<And>c. c \<in> set (B b) \<Longrightarrow> c \<notin> set ys \<Longrightarrow> hnext h' c = None \<and> hpprev h' c = None"
  shows "hash_abs h' (B(b := ys))"
proof -
  have apart: "set (B b') \<inter> (set (B b) \<union> set ys) = {}" if "b' \<noteq> b" for b'
    using abs that fresh unfolding hash_abs_def hnodes_def by blast
  have chains: "hchain h' (AtFirst b') ((B(b := ys)) b')" for b'
  proof (cases "b' = b")
    case True
    with new show ?thesis by simp
  next
    case False
    then have "hchain h' (AtFirst b') (B b') = hchain h (AtFirst b') (B b')"
      using apart [OF False] frame firsts by (intro hchain_cong) auto
    with False abs show ?thesis by (simp add: hash_abs_hchain)
  qed
  have dists: "distinct ((B(b := ys)) b')" for b'
    using dist abs by (simp add: hash_abs_distinct)
  have disj: "set ((B(b := ys)) b1) \<inter> set ((B(b := ys)) b2) = {}" if "b1 \<noteq> b2" for b1 b2
    using apart [of b1] apart [of b2] that abs by (auto simp: hash_abs_def)
  have rest: "hnext h' n = None \<and> hpprev h' n = None" if "n \<notin> hnodes (B(b := ys))" for n
  proof (cases "n \<in> set (B b)")
    case True
    with that show ?thesis by (intro gone) (auto simp: hnodes_def split: if_splits)
  next
    case False
    with that have "n \<notin> hnodes B" "n \<notin> set ys"
      by (auto simp: hnodes_def split: if_splits)
    with False show ?thesis using frame hash_abs_unhashed [OF abs] by simp
  qed
  from chains dists disj rest show ?thesis unfolding hash_abs_def by blast
qed

lemma hash_abs_empty:
  "hash_abs \<lparr>hfirst = (\<lambda>_. None), hnext = (\<lambda>_. None), hpprev = (\<lambda>_. None)\<rparr> (\<lambda>_. [])"
  by (simp add: hash_abs_def hnodes_def)

lemma hlist_empty_abs: "hash_abs h B \<Longrightarrow> hlist_empty b h \<longleftrightarrow> B b = []"
  using hash_abs_hchain [of h B b] by (cases "B b") (auto simp: hlist_empty_def)

lemma hlist_add_head_abs:
  assumes abs: "hash_abs h B" and n: "n \<notin> hnodes B"
  shows "\<exists>h'. hlist_add_head (Some n) b h = Some h' \<and> hash_abs h' (B(b := n # B b))"
proof -
  have out: "n \<notin> set (B b)" using n by (auto intro: hnodesI)
  have ch: "hchain h (AtFirst b) (B b)" using abs by (rule hash_abs_hchain)
  show ?thesis
  proof (cases "B b")
    case Nil
    then show ?thesis
      using abs n ch unfolding hlist_add_head_def heap_defs Let_def
      by (auto intro!: hash_abs_update)
  next
    case (Cons x xs)
    have dist: "distinct (x # xs)" using hash_abs_distinct [OF abs, of b] Cons by simp
    let ?h = "h\<lparr>hnext := (hnext h)(n := Some x),
               hpprev := (hpprev h)(x := Some (AtNext n), n := Some (AtFirst b)),
               hfirst := (hfirst h)(b := Some n)\<rparr>"
    have "hchain ?h (AtNext x) xs = hchain h (AtNext x) xs"
      using dist out Cons by (intro hchain_cong) auto
    then have "hchain ?h (AtFirst b) (n # B b)"
      using ch out Cons by auto
    then have "hash_abs ?h (B(b := n # B b))"
      using n dist out Cons by (intro hash_abs_update [OF abs]) auto
    moreover have "hlist_add_head (Some n) b h = Some ?h"
      using ch Cons by (simp add: hlist_add_head_def heap_defs)
    ultimately show ?thesis by blast
  qed
qed

lemma hlist_del_init_abs:
  assumes abs: "hash_abs h B" and n: "n \<in> set (B b)"
  shows "\<exists>h'. hlist_del_init (Some n) h = Some h' \<and> hash_abs h' (B(b := removeAll n (B b)))"
proof -
  obtain us vs where Bb: "B b = us @ n # vs" using n by (auto simp: in_set_conv_decomp)
  let ?loc = "hend (AtFirst b) us"
  have ch: "hchain h (AtFirst b) (us @ n # vs)" using hash_abs_hchain [OF abs, of b] Bb by simp
  have dist: "distinct (us @ n # vs)" using hash_abs_distinct [OF abs, of b] Bb by simp
  have seg: "hseg h (AtFirst b) us" and pn: "hpprev h n = Some ?loc"
    and rest: "hchain h (AtNext n) vs"
    using ch by (auto simp: hchain_append)
  define nx where "nx = (case vs of [] \<Rightarrow> None | v # _ \<Rightarrow> Some v)"
  have hn: "hnext h n = nx" using rest by (cases vs) (auto simp: nx_def)
  define h1 where "h1 = store_ploc ?loc nx h"
  define h2 where "h2 = (case nx of None \<Rightarrow> h1 | Some v \<Rightarrow> h1\<lparr>hpprev := (hpprev h1)(v := Some ?loc)\<rparr>)"
  define h3 where "h3 = h2\<lparr>hnext := (hnext h2)(n := None), hpprev := (hpprev h2)(n := None)\<rparr>"
  have run: "hlist_del_init (Some n) h = Some h3"
    by (auto simp: hlist_del_init_def hlist_unhashed_def hlist_del_internal_def INIT_HLIST_NODE_def
        heap_defs pn hn Let_def h1_def h2_def h3_def split: option.splits)
  have last_us: "us \<noteq> [] \<Longrightarrow> last us \<in> set us \<and> last us \<notin> set (butlast us) \<and> last us \<notin> set vs"
    using dist by (cases us rule: rev_cases) auto
  have fields: "hpprev h3 c = (if c = n then None else if nx = Some c then Some ?loc else hpprev h c)"
    "hnext h3 c = (if c = n then None else if us \<noteq> [] \<and> c = last us then nx else hnext h c)"
    "hfirst h3 b' = (if us = [] \<and> b' = b then nx else hfirst h b')" for c b'
    by (auto simp: h3_def h2_def h1_def hend_def split: option.splits)
  have nxv: "nx = Some c \<Longrightarrow> c \<in> set vs" for c by (auto simp: nx_def split: list.splits)
  have l1: "load_ploc ?loc h3 = nx"
    using last_us dist by (cases "us = []") (auto simp: fields hend_def)
  have "hseg h3 (AtFirst b) us = hseg h (AtFirst b) us"
    using dist last_us nxv by (intro hseg_cong) (auto simp: fields dest: in_set_butlastD)
  with seg have s3: "hseg h3 (AtFirst b) us" by simp
  have c3: "hchain h3 ?loc vs"
  proof (cases vs)
    case Nil
    with l1 show ?thesis by (simp add: nx_def)
  next
    case (Cons v ws)
    have "hchain h3 (AtNext v) ws = hchain h (AtNext v) ws"
      using dist last_us Cons by (intro hchain_cong) (auto simp: fields nx_def)
    moreover have "v \<noteq> n" using dist Cons by auto
    ultimately show ?thesis using rest l1 Cons by (auto simp: nx_def fields)
  qed
  have "hash_abs h3 (B(b := us @ vs))"
    using dist last_us nxv s3 c3 Bb
    by (intro hash_abs_update [OF abs]) (auto simp: fields hchain_append)
  moreover have "removeAll n (B b) = us @ vs" using dist Bb by simp
  ultimately show ?thesis using run by simp
qed

lemma hlist_del_init_unhashed:
  "hash_abs h B \<Longrightarrow> n \<notin> hnodes B \<Longrightarrow> hlist_del_init (Some n) h = Some h"
  by (drule (1) hash_abs_unhashed) (simp add: hlist_del_init_def hlist_unhashed_def heap_defs)

section \<open>The loops and the table operations on the abstraction\<close>

text \<open>A loop with early return over a list of nodes.\<close>

fun first_return :: "('n \<Rightarrow> ('r + unit) option) \<Rightarrow> 'n list \<Rightarrow> ('r + unit) option" where
  "first_return body [] = Some (Inr ())"
| "first_return body (x # xs) = do {
     r \<leftarrow> body x;
     (case r of Inl v \<Rightarrow> Some (Inl v) | Inr _ \<Rightarrow> first_return body xs)
   }"

lemma first_return_append:
  "first_return body (xs @ ys) = do {
     r \<leftarrow> first_return body xs;
     (case r of Inl v \<Rightarrow> Some (Inl v) | Inr _ \<Rightarrow> first_return body ys)
   }"
proof (induction xs)
  case (Cons x xs)
  show ?case
  proof (cases "body x")
    case (Some r)
    with Cons show ?thesis by (cases r) auto
  qed simp
qed simp

lemma hlist_for_each_from_hchain:
  "hchain h loc xs \<Longrightarrow> hlist_for_each_from body (load_ploc loc h) h = first_return body xs"
proof (induction xs arbitrary: loc)
  case Nil
  then show ?case by (simp add: hlist_for_each_from.simps)
next
  case (Cons x xs)
  then have "hlist_for_each_from body (hnext h x) h = first_return body xs"
    by (metis hchain.simps(2) load_ploc.simps(2))
  with Cons.prems show ?case by (subst hlist_for_each_from.simps) simp
qed

lemma hlist_for_each_entry_abs:
  "hash_abs h B \<Longrightarrow> hlist_for_each_entry body b h = first_return body (B b)"
  using hlist_for_each_from_hchain [of h "AtFirst b" "B b" body] hash_abs_hchain [of h B b]
  by (simp add: hlist_for_each_entry_def)

lemma hash_for_each_possible_abs:
  "hash_abs h B \<Longrightarrow>
    hash_for_each_possible sz body key h = first_return body (B (bucket_of sz key))"
  by (simp add: hash_for_each_possible_def hlist_for_each_entry_abs)

lemma hash_for_each_from_abs:
  assumes "hash_abs h B"
  shows "hash_for_each_from bkt k body h = first_return body (concat (map B [bkt..<bkt + k]))"
proof (induction k arbitrary: bkt)
  case (Suc k)
  have "[bkt..<bkt + Suc k] = bkt # [Suc bkt..<Suc bkt + k]" by (simp add: upt_conv_Cons)
  with Suc show ?case
    by (simp add: hlist_for_each_entry_abs [OF assms] first_return_append)
qed simp

lemma hash_for_each_abs:
  "hash_abs h B \<Longrightarrow> hash_for_each sz body h = first_return body (concat (map B [0..<sz]))"
  using hash_for_each_from_abs [of h B 0 sz body] by (simp add: hash_for_each_def)

lemma hash_add_abs:
  assumes "hash_abs h B" and "n \<notin> hnodes B"
  shows "\<exists>h'. hash_add sz (Some n) key h = Some h' \<and>
    hash_abs h' (B(bucket_of sz key := n # B (bucket_of sz key)))"
  using hlist_add_head_abs [OF assms] by (simp add: hash_add_def)

lemma hash_del_abs:
  assumes "hash_abs h B" and "n \<in> set (B b)"
  shows "\<exists>h'. hash_del (Some n) h = Some h' \<and> hash_abs h' (B(b := removeAll n (B b)))"
  using hlist_del_init_abs [OF assms] by (simp add: hash_del_def)

section \<open>The logarithm and the range of the buckets\<close>

lemma ilog2_bits_floor:
  "2 \<le> unat n \<Longrightarrow> unat n < 2 ^ (i + 1) \<Longrightarrow>
    \<exists>k. ilog2_bits i n = int k \<and> 2 ^ k \<le> unat n \<and> unat n < 2 ^ (k + 1)"
proof (induction i)
  case 0
  then show ?case by simp
next
  case (Suc i)
  show ?case
  proof (cases "n AND push_bit (Suc i) 1 = 0")
    case False
    then have "bit n (Suc i)"
      by (simp add: push_bit_eq_mult and_exp_eq_0_iff_not_bit del: power_Suc)
    then have "bit (unat n) (Suc i)" by (simp add: bit_unsigned_iff)
    then have "odd (unat n div 2 ^ Suc i)" by (simp only: bit_iff_odd simp_thms)
    then have "2 ^ Suc i \<le> unat n" by (metis div_less even_zero not_le)
    moreover have "ilog2_bits (Suc i) n = int (Suc i)" if "1 \<le> i"
      using False that by (simp add: ilog2_bits.simps)
    moreover have "ilog2_bits (Suc i) n = 1" if "\<not> 1 \<le> i"
      using that by (simp add: ilog2_bits.simps)
    ultimately show ?thesis using Suc.prems
      by (cases i) (auto intro: exI [of _ "Suc i"])
  next
    case True
    then have "\<not> bit n (Suc i)"
      by (simp add: push_bit_eq_mult and_exp_eq_0_iff_not_bit del: power_Suc)
    then have "\<not> bit (unat n) (Suc i)" by (simp add: bit_unsigned_iff)
    then have "even (unat n div 2 ^ Suc i)" by (simp only: bit_iff_odd simp_thms)
    moreover have "unat n div 2 ^ Suc i < 2"
      using Suc.prems by (simp add: less_mult_imp_div_less)
    ultimately have "unat n div 2 ^ Suc i = 0" by (cases "unat n div 2 ^ Suc i" rule: nat.exhaust) (auto simp: less_Suc_eq numeral_2_eq_2)
    then have small: "unat n < 2 ^ Suc i" by (simp add: div_eq_0_iff)
    show ?thesis
    proof (cases "1 \<le> i")
      case False
      with small Suc.prems show ?thesis by (cases i) auto
    next
      case 1: True
      then have "ilog2_bits (Suc i) n = ilog2_bits i n"
        using True by (subst ilog2_bits.simps) simp
      with Suc.IH [OF Suc.prems(1)] small show ?thesis by simp
    qed
  qed
qed

lemma const_ilog2_floor:
  "2 \<le> unat n \<Longrightarrow>
    \<exists>k. const_ilog2 n = int k \<and> 2 ^ k \<le> unat n \<and> unat n < 2 ^ (k + 1)"
  using ilog2_bits_floor [of n 63] unsigned_less [of n]
  by (auto simp: const_ilog2_def word_less_nat_alt)

lemma HASH_BITS_4096: "HASH_BITS 4096 = 12"
proof -
  obtain k where k: "const_ilog2 4096 = int k" "(2::nat) ^ k \<le> 2 ^ 12" "(2::nat) ^ 12 < 2 ^ (k + 1)"
    using const_ilog2_floor [of 4096] by auto
  from k(2) have "k \<le> 12" by (rule power_le_imp_le_exp [rotated]) simp
  moreover from k(3) have "12 < k + 1" by (rule power_less_imp_less_exp [rotated]) simp
  ultimately have "k = 12" by simp
  then show ?thesis using k(1) by (simp add: HASH_BITS_def)
qed

lemma bucket_of_less: "bucket_of 4096 key < 4096"
proof -
  have "unat (drop_bit 20 w) < 4096" for w :: u32
  proof -
    have "unat (drop_bit 20 w) = unat w div 2 ^ 20" by (simp add: drop_bit_eq_div unat_div)
    moreover have "unat w < 2 ^ 32" using unsigned_less [of w] by simp
    ultimately show ?thesis by (simp add: less_mult_imp_div_less)
  qed
  then show ?thesis
    by (simp add: bucket_of_def HASH_BITS_4096 hash_min_def hash_32_def)
qed

end
