(* ===== verification/Machine.thy ===== *)
theory Machine
  imports List_Abs Hlist
begin

text \<open>
  The data of the kernel (\<open>pandos_types.h\<close>, \<open>pandos_const.h\<close>) and its state: the tables and
  static variables of every \<open>.c\<close> file, the processor registers it reads and writes, and the
  memory it reaches through addresses it did not allocate (the semaphores, the device
  registers, the arguments of the system calls).

  What the uMPS3 headers define is not part of the repository.  It is the parameter
  \<open>A :: umps\<close> of the definitions that use it: the layout of \<open>state_t\<close>, the addresses of the
  device registers and bitmaps, the codes of the CP0 registers.  The addresses the linker gives
  the static arrays are fields of the same record.
\<close>

section \<open>Constants of pandos\_const.h\<close>

definition MAXPROC :: nat where "MAXPROC = 20"
definition WORDLEN :: u32 where "WORDLEN = 4"

definition NS_PID :: u32 where "NS_PID = 0"
definition NS_TYPE_MAX :: nat where "NS_TYPE_MAX = 1"

definition CREATEPROCESS :: u32 where "CREATEPROCESS = 1"
definition TERMPROCESS :: u32 where "TERMPROCESS = 2"
definition PASSEREN :: u32 where "PASSEREN = 3"
definition VERHOGEN :: u32 where "VERHOGEN = 4"
definition DOIO :: u32 where "DOIO = 5"
definition GETTIME :: u32 where "GETTIME = 6"
definition CLOCKWAIT :: u32 where "CLOCKWAIT = 7"
definition GETSUPPORTPTR :: u32 where "GETSUPPORTPTR = 8"
definition GETPROCESSID :: u32 where "GETPROCESSID = 9"
definition GETCHILDREN :: u32 where "GETCHILDREN = 10"

lemmas syscall_codes =
  CREATEPROCESS_def TERMPROCESS_def PASSEREN_def VERHOGEN_def DOIO_def GETTIME_def
  CLOCKWAIT_def GETSUPPORTPTR_def GETPROCESSID_def GETCHILDREN_def

definition IEPON :: u32 where "IEPON = 0x00000004"
definition IECON :: u32 where "IECON = 0x00000001"
definition IMON :: u32 where "IMON = 0x0000FF00"
definition TEBITON :: u32 where "TEBITON = 0x08000000"

definition PGFAULTEXCEPT :: nat where "PGFAULTEXCEPT = 0"
definition GENERALEXCEPT :: nat where "GENERALEXCEPT = 1"

definition NEVER :: u32 where "NEVER = 0x7FFFFFFF"
definition TIMESLICE :: u32 where "TIMESLICE = 5000"
definition KERNELSTACK :: u32 where "KERNELSTACK = 0x20001000"
definition RAMBASEADDR :: u32 where "RAMBASEADDR = 0x10000000"
definition RAMBASESIZE :: u32 where "RAMBASESIZE = 0x10000004"
definition TIMESCALEADDR :: u32 where "TIMESCALEADDR = 0x10000024"

section \<open>Types of pandos\_types.h\<close>

text \<open>The processor state: the fields of \<open>state_t\<close> the kernel reads and writes.\<close>

record state_t =
  entry_hi :: u32
  cause :: u32
  status :: u32
  pc_epc :: u32
  gpr :: "nat \<Rightarrow> u32"
  r_hi :: u32
  r_lo :: u32

record pteEntry_t =
  pte_entryHI :: u32
  pte_entryLO :: u32

record context_t =
  ctx_stackPtr :: u32
  ctx_status :: u32
  ctx_pc :: u32

record support_t =
  sup_asid :: u32
  sup_exceptState :: "nat \<Rightarrow> state_t"
  sup_exceptContext :: "nat \<Rightarrow> context_t"
  sup_privatePgTbl :: "nat \<Rightarrow> pteEntry_t"

text \<open>
  The links of a namespace, a PCB or a semaphore descriptor are nodes of the list heap; the
  rest of the object is its record.  A pointer into one of the kernel's tables is the index of
  the entry; a pointer the kernel gets from outside (a semaphore, a support structure, a status
  buffer) is the machine address, with 0 for \<open>NULL\<close>.
\<close>

record nsd_t =
  n_type :: u32

record pcb_t =
  p_parent :: "nat ptr"
  p_s :: state_t
  p_time :: u32
  p_semAdd :: u32
  p_supportStruct :: u32
  namespaces :: "nat \<Rightarrow> nat ptr"
  p_pid :: u32
  p_savedDeviceStatus :: u32

record semd_t =
  s_key :: u32

datatype lnode =
    PcbFree_h | Ready_queue | PID_nsFree_h | PID_nsList_h | SemdFree_h
  | P_list nat | P_child nat | P_sib nat
  | N_link nat
  | S_procq nat | S_freelink nat

text \<open>\<open>container_of\<close> for each embedded link.\<close>

fun pcb_of_p_list :: "lnode \<Rightarrow> nat option" where
  "pcb_of_p_list (P_list i) = Some i"
| "pcb_of_p_list _ = None"

fun pcb_of_p_sib :: "lnode \<Rightarrow> nat option" where
  "pcb_of_p_sib (P_sib i) = Some i"
| "pcb_of_p_sib _ = None"

fun nsd_of_n_link :: "lnode \<Rightarrow> nat option" where
  "nsd_of_n_link (N_link i) = Some i"
| "nsd_of_n_link _ = None"

fun semd_of_s_freelink :: "lnode \<Rightarrow> nat option" where
  "semd_of_s_freelink (S_freelink i) = Some i"
| "semd_of_s_freelink _ = None"

section \<open>The machine interface\<close>

record umps =
  \<comment> \<open>\<open>umps/types.h\<close>: the registers in \<open>gpr\<close>, a \<open>state_t\<close> in memory\<close>
  STATE_GPR_LEN :: nat
  ix_v0 :: nat
  ix_a0 :: nat
  ix_a1 :: nat
  ix_a2 :: nat
  ix_a3 :: nat
  ix_sp :: nat
  ix_t9 :: nat
  load_state :: "(u32 \<Rightarrow> u32) \<Rightarrow> u32 \<Rightarrow> state_t"
  \<comment> \<open>\<open>umps/arch.h\<close> and \<open>umps/const.h\<close>: interrupt lines and device registers\<close>
  DEVPERINT :: u32
  DEVINTNUM :: u32
  DEV_IL_START :: u32
  DEV_REG_START :: u32
  DEV_REG_SIZE :: u32
  DEV_REG_ADDR :: "u32 \<Rightarrow> u32 \<Rightarrow> u32"
  CDEV_BITMAP_ADDR :: "u32 \<Rightarrow> u32"
  IDEV_BITMAP_ADDR :: "u32 \<Rightarrow> u32"
  EXT_IL_INDEX :: "u32 \<Rightarrow> u32"
  N_DEV_PER_IL :: u32
  IL_DISK :: u32
  IL_FLASH :: u32
  IL_ETHERNET :: u32
  IL_PRINTER :: u32
  IL_TERMINAL :: u32
  DISKINT :: u32
  FLASHINT :: u32
  NETWINT :: u32
  PRNTINT :: u32
  TERMINT :: u32
  off_status :: u32
  off_command :: u32
  off_data0 :: u32
  off_data1 :: u32
  off_recv_status :: u32
  off_recv_command :: u32
  off_transm_status :: u32
  off_transm_command :: u32
  ix_STATUS :: u32
  ix_COMMAND :: u32
  ix_DATA0 :: u32
  ix_DATA1 :: u32
  READY :: u32
  BUSY :: u32
  ACK :: u32
  \<comment> \<open>\<open>umps/cp0.h\<close>\<close>
  CAUSE_GET_EXCCODE :: "u32 \<Rightarrow> u32"
  CAUSE_IP :: "u32 \<Rightarrow> u32"
  CAUSE_EXCCODE_BIT :: nat
  STATUS_KUp :: u32
  STATUS_KUp_BIT :: nat
  STATUS_TE :: u32
  STATUS_TE_BIT :: nat
  EXC_INT :: u32
  EXC_MOD :: u32
  EXC_TLBL :: u32
  EXC_TLBS :: u32
  EXC_SYS :: u32
  EXC_RI :: u32
  \<comment> \<open>addresses given by the linker\<close>
  dev_sems_addr :: u32
  pseudo_clock_sem_addr :: u32
  PID_nsd_addr :: u32
  test_addr :: u32
  uTLB_RefillHandler_addr :: u32
  exceptionHandler_addr :: u32
  \<comment> \<open>the word the machine answers a load of \<open>NULL->n_type\<close> (address 0) with, if it answers\<close>
  null_n_type :: "u32 option"

section \<open>The state of the kernel\<close>

record passupvector_t =
  tlb_refill_handler :: u32
  tlb_refill_stackPtr :: u32
  exception_handler :: u32
  exception_stackPtr :: u32

record kstate =
  lists :: "lnode lheap"
  semd_h :: "(nat, nat) hheap"
  pcbs :: "nat \<Rightarrow> pcb_t"
  nsds :: "nat \<Rightarrow> nsd_t"
  semds :: "nat \<Rightarrow> semd_t"
  process_count :: u32
  soft_block_count :: u32
  current_active_process :: "nat ptr"
  pid_counter :: u32
  start_time :: u32
  mem :: "u32 \<Rightarrow> u32"
  supports :: "u32 \<Rightarrow> support_t"
  bios_state :: state_t
  passupvector :: passupvector_t
  reg_STATUS :: u32
  reg_CAUSE :: u32
  reg_TIMER :: u32
  interval_timer :: u32
  tod :: u32

text \<open>What a handler ends in: none of these calls returns to the kernel.\<close>

datatype outcome = LDST state_t | LDCXT u32 u32 u32 | HALT | WAIT | PANIC

text \<open>Loads and stores through a pointer to a PCB; through \<open>NULL\<close> they fault.\<close>

definition load_pcb :: "nat ptr \<Rightarrow> kstate \<Rightarrow> pcb_t option" where
  "load_pcb p s = map_option (pcbs s) p"

definition store_pcb :: "nat ptr \<Rightarrow> (pcb_t \<Rightarrow> pcb_t) \<Rightarrow> kstate update" where
  "store_pcb p f s = map_option (\<lambda>i. s\<lparr>pcbs := (pcbs s)(i := f (pcbs s i))\<rparr>) p"

text \<open>An operation of \<open>list.h\<close> on the kernel's list heap.\<close>

definition on_lists :: "lnode lheap update \<Rightarrow> kstate update" where
  "on_lists f s = map_option (\<lambda>h. s\<lparr>lists := h\<rparr>) (f (lists s))"

definition on_hash :: "(nat, nat) hheap update \<Rightarrow> kstate update" where
  "on_hash f s = map_option (\<lambda>h. s\<lparr>semd_h := h\<rparr>) (f (semd_h s))"

definition store_word :: "u32 \<Rightarrow> u32 \<Rightarrow> kstate \<Rightarrow> kstate" where
  "store_word a v s = s\<lparr>mem := (mem s)(a := v)\<rparr>"

text \<open>\<open>*s\<close> and \<open>*s = v\<close> for a semaphore \<open>s\<close>; through \<open>NULL\<close> they fault.\<close>

definition load_sem :: "u32 \<Rightarrow> kstate \<Rightarrow> u32 option" where
  "load_sem a s = (if a = 0 then None else Some (mem s a))"

definition store_sem :: "u32 \<Rightarrow> u32 \<Rightarrow> kstate update" where
  "store_sem a v s = (if a = 0 then None else Some (store_word a v s))"

lemma load_sem_simps [simp]: "a \<noteq> 0 \<Longrightarrow> load_sem a s = Some (mem s a)" "load_sem 0 s = None"
  by (simp_all add: load_sem_def)

lemma store_sem_simps [simp]: "a \<noteq> 0 \<Longrightarrow> store_sem a v s = Some (store_word a v s)" "store_sem 0 v s = None"
  by (simp_all add: store_sem_def)

lemma load_pcb_Some [simp]: "load_pcb (Some i) s = Some (pcbs s i)"
  by (simp add: load_pcb_def)

lemma load_pcb_None [simp]: "load_pcb None s = None"
  by (simp add: load_pcb_def)

lemma store_pcb_Some [simp]:
  "store_pcb (Some i) f s = Some (s\<lparr>pcbs := (pcbs s)(i := f (pcbs s i))\<rparr>)"
  by (simp add: store_pcb_def)

lemma store_pcb_None [simp]: "store_pcb None f s = None"
  by (simp add: store_pcb_def)

lemma on_lists_Some: "f (lists s) = Some h \<Longrightarrow> on_lists f s = Some (s\<lparr>lists := h\<rparr>)"
  by (simp add: on_lists_def)

lemma on_hash_Some: "f (semd_h s) = Some h \<Longrightarrow> on_hash f s = Some (s\<lparr>semd_h := h\<rparr>)"
  by (simp add: on_hash_def)

lemma lists_upd_eq: "s\<lparr>lists := h\<rparr> = s\<lparr>lists := h'\<rparr> \<longleftrightarrow> h = h'"
  by (metis kstate.select_convs(1) kstate.surjective kstate.update_convs(1))

lemma on_lists_iff: "on_lists f s = Some (s\<lparr>lists := h\<rparr>) \<longleftrightarrow> f (lists s) = Some h"
  by (auto simp: on_lists_def lists_upd_eq)

end
