(* ===== verification/Pcb.thy ===== *)
theory Pcb
  imports Machine
begin

text \<open>
  \<open>pandos/phase1/pcb.c\<close> and \<open>util.c\<close>: the free list of process control blocks, the process
  queues and the process trees.  \<open>&p->p_list\<close> of a null \<open>p\<close> is the null pointer, since
  \<open>p_list\<close> is the first field; for the other two links a null \<open>p\<close> gives an address that is no
  list node, and using it faults as \<open>NULL\<close> does.
\<close>

section \<open>Links of a PCB\<close>

definition p_list :: "nat ptr \<Rightarrow> lnode ptr" where
  "p_list p = map_option P_list p"

definition p_child :: "nat ptr \<Rightarrow> lnode ptr" where
  "p_child p = map_option P_child p"

definition p_sib :: "nat ptr \<Rightarrow> lnode ptr" where
  "p_sib p = map_option P_sib p"

lemma p_list_simps [simp]: "p_list (Some i) = Some (P_list i)" "p_list None = None"
  by (simp_all add: p_list_def)

lemma p_child_simps [simp]: "p_child (Some i) = Some (P_child i)" "p_child None = None"
  by (simp_all add: p_child_def)

lemma p_sib_simps [simp]: "p_sib (Some i) = Some (P_sib i)" "p_sib None = None"
  by (simp_all add: p_sib_def)

section \<open>util.c\<close>

fun reset_gpr :: "nat \<Rightarrow> (nat \<Rightarrow> u32) \<Rightarrow> nat \<Rightarrow> u32" where
  "reset_gpr 0 g = g"
| "reset_gpr (Suc n) g = (reset_gpr n g)(n := 0)"

definition reset_state :: "umps \<Rightarrow> state_t \<Rightarrow> state_t" where
  "reset_state A st = st\<lparr>entry_hi := 0, cause := 0, status := 0, pc_epc := 0, r_hi := 0, r_lo := 0,
     gpr := reset_gpr (STATE_GPR_LEN A) (gpr st)\<rparr>"

definition resetPcb :: "umps \<Rightarrow> nat ptr \<Rightarrow> (kstate, nat ptr) action" where
  "resetPcb A p s =
     (if p = None then Some (None, s)
      else do {
        s \<leftarrow> on_lists (set_next (p_list p) None) s;
        s \<leftarrow> on_lists (set_prev (p_list p) None) s;
        s \<leftarrow> on_lists (INIT_LIST_HEAD (p_child p)) s;
        s \<leftarrow> store_pcb p (\<lambda>b. b\<lparr>p_parent := None\<rparr>) s;
        s \<leftarrow> on_lists (set_next (p_sib p) None) s;
        s \<leftarrow> on_lists (set_prev (p_sib p) None) s;
        s \<leftarrow> store_pcb p (\<lambda>b. b\<lparr>p_s := reset_state A (p_s b)\<rparr>) s;
        s \<leftarrow> store_pcb p (\<lambda>b. b\<lparr>p_supportStruct := 0, p_savedDeviceStatus := 0,
               p_time := 0, p_semAdd := 0\<rparr>) s;
        Some (p, s)
      })"

section \<open>Allocation\<close>

partial_function (option) searchPcbByPid_from ::
  "u32 \<Rightarrow> lnode ptr \<Rightarrow> lnode ptr \<Rightarrow> kstate \<Rightarrow> nat ptr option" where
  "searchPcbByPid_from pid list pos s =
     (if pos = list then Some None
      else do {
        n \<leftarrow> pos;
        p \<leftarrow> pcb_of_p_list n;
        if p_pid (pcbs s p) = pid then Some (Some p)
        else do {
          pos' \<leftarrow> get_next pos (lists s);
          searchPcbByPid_from pid list pos' s
        }
      })"

definition searchPcbByPid :: "u32 \<Rightarrow> lnode ptr \<Rightarrow> kstate \<Rightarrow> nat ptr option" where
  "searchPcbByPid pid list s = do {
     pos \<leftarrow> get_next list (lists s);
     searchPcbByPid_from pid list pos s
   }"

definition initPcbs :: "kstate update" where
  "initPcbs s = do {
     s \<leftarrow> on_lists (INIT_LIST_HEAD (Some PcbFree_h)) s;
     foldM (\<lambda>i. on_lists (list_add (Some (P_list i)) (Some PcbFree_h))) [0..<MAXPROC] s
   }"

definition freePcb :: "nat ptr \<Rightarrow> kstate update" where
  "freePcb p s =
     (if p = None then Some s
      else do {
        s \<leftarrow> on_lists (list_safe_del (p_list p)) s;
        s \<leftarrow> store_pcb p (\<lambda>b. b\<lparr>p_semAdd := 0\<rparr>) s;
        on_lists (list_add (p_list p) (Some PcbFree_h)) s
      })"

definition allocPcb :: "umps \<Rightarrow> (kstate, nat ptr) action" where
  "allocPcb A s = do {
     e \<leftarrow> list_empty (Some PcbFree_h) (lists s);
     if e then Some (None, s)
     else do {
       first \<leftarrow> list_first_entry pcb_of_p_list (Some PcbFree_h) (lists s);
       n \<leftarrow> get_next (Some PcbFree_h) (lists s);
       s \<leftarrow> on_lists (list_safe_del n) s;
       resetPcb A (Some first) s
     }
   }"

section \<open>Process queues\<close>

definition mkEmptyProcQ :: "lnode ptr \<Rightarrow> kstate update" where
  "mkEmptyProcQ head s = do {
     e \<leftarrow> list_empty head (lists s);
     if e then Some s else on_lists (INIT_LIST_HEAD head) s
   }"

definition emptyProcQ :: "lnode ptr \<Rightarrow> kstate \<Rightarrow> bool option" where
  "emptyProcQ head s = (if head = None then Some True else list_empty head (lists s))"

definition insertProcQ :: "lnode ptr \<Rightarrow> nat ptr \<Rightarrow> kstate update" where
  "insertProcQ head p s =
     (if p = None \<or> head = None then Some s
      else do {
        s \<leftarrow> on_lists (list_safe_del (p_list p)) s;
        on_lists (list_add_tail (p_list p) head) s
      })"

definition headProcQ :: "lnode ptr \<Rightarrow> kstate \<Rightarrow> nat ptr option" where
  "headProcQ head s = do {
     e \<leftarrow> list_empty head (lists s);
     if e \<or> head = None then Some None
     else map_option Some (list_first_entry pcb_of_p_list head (lists s))
   }"

definition outProcQ :: "lnode ptr \<Rightarrow> nat ptr \<Rightarrow> (kstate, nat ptr) action" where
  "outProcQ head p s = do {
     c \<leftarrow> list_contains (p_list p) head (lists s);
     if \<not> c \<or> head = None \<or> p = None then Some (None, s)
     else do {
       s \<leftarrow> on_lists (list_safe_del (p_list p)) s;
       Some (p, s)
     }
   }"

definition removeProcQ :: "lnode ptr \<Rightarrow> (kstate, nat ptr) action" where
  "removeProcQ head s = do {
     e \<leftarrow> list_empty head (lists s);
     if e \<or> head = None then Some (None, s)
     else do {
       toremove \<leftarrow> list_first_entry pcb_of_p_list head (lists s);
       outProcQ head (Some toremove) s
     }
   }"

section \<open>Process trees\<close>

definition emptyChild :: "nat ptr \<Rightarrow> kstate \<Rightarrow> bool option" where
  "emptyChild p s = (if p = None then Some False else list_empty (p_child p) (lists s))"

definition insertChild :: "nat ptr \<Rightarrow> nat ptr \<Rightarrow> kstate update" where
  "insertChild prnt p s =
     (if prnt = None \<or> p = None then Some s
      else do {
        s \<leftarrow> store_pcb p (\<lambda>b. b\<lparr>p_parent := prnt\<rparr>) s;
        on_lists (list_add_tail (p_sib p) (p_child prnt)) s
      })"

text \<open>The test of \<open>outChild\<close> short-circuits: the parent's list is read only if it has one.\<close>

definition outChild :: "nat ptr \<Rightarrow> (kstate, nat ptr) action" where
  "outChild p s =
     (if p = None then Some (None, s)
      else do {
        b \<leftarrow> load_pcb p s;
        if p_parent b = None then Some (None, s)
        else do {
          e \<leftarrow> list_empty (p_child (p_parent b)) (lists s);
          if e then Some (None, s)
          else do {
            s \<leftarrow> on_lists (list_del (p_sib p)) s;
            s \<leftarrow> store_pcb p (\<lambda>b. b\<lparr>p_parent := None\<rparr>) s;
            Some (p, s)
          }
        }
      })"

definition removeChild :: "nat ptr \<Rightarrow> (kstate, nat ptr) action" where
  "removeChild p s = do {
     e \<leftarrow> emptyChild p s;
     if e \<or> p = None then Some (None, s)
     else do {
       c \<leftarrow> list_first_entry pcb_of_p_sib (p_child p) (lists s);
       outChild (Some c) s
     }
   }"

end
