(* ===== verification/Ash.thy ===== *)
theory Ash
  imports Pcb
begin

text \<open>
  \<open>pandos/phase1/ash.c\<close>: the active semaphore hash table.  A semaphore is known by its
  address; while processes are blocked on it, a descriptor of \<open>semdFree_table\<close> holds their
  queue and hangs in the bucket of the address.  \<open>&sem->s_link\<close> is the index of the descriptor.

  A loop whose body returns from the function is split into the search, which does not write,
  and what is done with the descriptor it found.
\<close>

definition HASHSZ :: nat where "HASHSZ = 4096"

lemma HASHSZ_HASH_SIZE: "HASHSZ = HASH_SIZE 12"
  by (simp add: HASHSZ_def HASH_SIZE_def)

text \<open>The loop shared by the four operations: the first descriptor of the bucket with the key.\<close>

definition find_semd :: "u32 \<Rightarrow> kstate \<Rightarrow> nat ptr option" where
  "find_semd semAdd s = do {
     r \<leftarrow> hash_for_each_possible HASHSZ
            (\<lambda>sem. Some (if s_key (semds s sem) = semAdd then Inl sem else Inr ())) semAdd (semd_h s);
     Some (case r of Inl sem \<Rightarrow> Some sem | Inr _ \<Rightarrow> None)
   }"

definition insertBlocked :: "u32 \<Rightarrow> nat ptr \<Rightarrow> (kstate, nat) action" where
  "insertBlocked semAdd p s =
     (if semAdd = 0 \<or> p = None then Some (1, s)
      else do {
        b \<leftarrow> load_pcb p s;
        if p_semAdd b \<noteq> 0 then Some (2, s)
        else do {
          r \<leftarrow> find_semd semAdd s;
          (case r of
             Some sem \<Rightarrow> do {
               s \<leftarrow> on_lists (list_add_tail (p_list p) (Some (S_procq sem))) s;
               s \<leftarrow> store_pcb p (\<lambda>b. b\<lparr>p_semAdd := semAdd\<rparr>) s;
               Some (0, s)
             }
           | None \<Rightarrow> do {
               e \<leftarrow> list_empty (Some SemdFree_h) (lists s);
               if e then Some (3, s)
               else do {
                 sem \<leftarrow> list_first_entry semd_of_s_freelink (Some SemdFree_h) (lists s);
                 s \<leftarrow> on_lists (list_del (Some (S_freelink sem))) s;
                 let s = s\<lparr>semds := (semds s)(sem := (semds s sem)\<lparr>s_key := semAdd\<rparr>)\<rparr>;
                 s \<leftarrow> on_lists (INIT_LIST_HEAD (Some (S_procq sem))) s;
                 s \<leftarrow> on_lists (list_add_tail (p_list p) (Some (S_procq sem))) s;
                 s \<leftarrow> store_pcb p (\<lambda>b. b\<lparr>p_semAdd := semAdd\<rparr>) s;
                 s \<leftarrow> on_hash (hash_add HASHSZ (Some sem) semAdd) s;
                 Some (0, s)
               }
             })
        }
      })"

text \<open>What \<open>removeBlocked\<close> and \<open>outBlocked\<close> do when a queue has become empty.\<close>

definition release_semd :: "nat \<Rightarrow> kstate update" where
  "release_semd sem s = do {
     e \<leftarrow> list_empty (Some (S_procq sem)) (lists s);
     if e then do {
       s \<leftarrow> on_hash (hash_del (Some sem)) s;
       on_lists (list_add (Some (S_freelink sem)) (Some SemdFree_h)) s
     } else Some s
   }"

definition removeBlocked :: "u32 \<Rightarrow> (kstate, nat ptr) action" where
  "removeBlocked semAdd s =
     (if semAdd = 0 then Some (None, s)
      else do {
        r \<leftarrow> find_semd semAdd s;
        (case r of
           None \<Rightarrow> Some (None, s)
         | Some sem \<Rightarrow> do {
             e \<leftarrow> list_empty (Some (S_procq sem)) (lists s);
             if e then Some (None, s)
             else do {
               p \<leftarrow> list_first_entry pcb_of_p_list (Some (S_procq sem)) (lists s);
               s \<leftarrow> on_lists (list_del (Some (P_list p))) s;
               s \<leftarrow> store_pcb (Some p) (\<lambda>b. b\<lparr>p_semAdd := 0\<rparr>) s;
               s \<leftarrow> release_semd sem s;
               Some (Some p, s)
             }
           })
      })"

definition outBlocked :: "nat ptr \<Rightarrow> (kstate, nat ptr) action" where
  "outBlocked p s =
     (if p = None then Some (None, s)
      else do {
        b \<leftarrow> load_pcb p s;
        if p_semAdd b = 0 then Some (None, s)
        else do {
          r \<leftarrow> find_semd (p_semAdd b) s;
          (case r of
             None \<Rightarrow> Some (None, s)
           | Some sem \<Rightarrow> do {
               s \<leftarrow> on_lists (list_del (p_list p)) s;
               s \<leftarrow> store_pcb p (\<lambda>b. b\<lparr>p_semAdd := 0\<rparr>) s;
               s \<leftarrow> release_semd sem s;
               Some (p, s)
             })
        }
      })"

definition headBlocked :: "u32 \<Rightarrow> kstate \<Rightarrow> nat ptr option" where
  "headBlocked semAdd s =
     (if semAdd = 0 then Some None
      else do {
        r \<leftarrow> find_semd semAdd s;
        (case r of
           None \<Rightarrow> Some None
         | Some sem \<Rightarrow> do {
             e \<leftarrow> list_empty (Some (S_procq sem)) (lists s);
             if e then Some None
             else map_option Some (list_first_entry pcb_of_p_list (Some (S_procq sem)) (lists s))
           })
      })"

definition initASH :: "kstate update" where
  "initASH s = do {
     s \<leftarrow> on_lists (INIT_LIST_HEAD (Some SemdFree_h)) s;
     s \<leftarrow> on_hash (\<lambda>h. Some (hash_init HASHSZ h)) s;
     foldM (\<lambda>i. on_lists (list_add (Some (S_freelink i)) (Some SemdFree_h))) [0..<MAXPROC] s
   }"

definition findPcb :: "u32 \<Rightarrow> lnode ptr \<Rightarrow> kstate \<Rightarrow> nat ptr option" where
  "findPcb pid list s = do {
     p \<leftarrow> searchPcbByPid pid list s;
     if p = None then do {
       r \<leftarrow> hash_for_each HASHSZ
              (\<lambda>it. do {
                 q \<leftarrow> searchPcbByPid pid (Some (S_procq it)) s;
                 Some (case q of None \<Rightarrow> Inr () | Some i \<Rightarrow> Inl i)
               }) (semd_h s);
       Some (case r of Inl i \<Rightarrow> Some i | Inr _ \<Rightarrow> None)
     } else Some p
   }"

end
