(* ===== verification/Ns.thy ===== *)
theory Ns
  imports Pcb
begin

text \<open>
  \<open>pandos/phase1/ns.c\<close>: the table of namespaces, its free and used lists, and the
  association of a namespace with a process and all its descendants.
\<close>

definition n_link :: "nat ptr \<Rightarrow> lnode ptr" where
  "n_link ns = map_option N_link ns"

lemma n_link_simps [simp]: "n_link (Some i) = Some (N_link i)" "n_link None = None"
  by (simp_all add: n_link_def)

text \<open>
  \<open>ns->n_type\<close>.  Through \<open>NULL\<close> the load is from address 0: C leaves it undefined, and what
  the machine answers is the parameter \<open>null_n_type\<close> (\<open>None\<close> if it faults).
\<close>

definition load_n_type :: "umps \<Rightarrow> nat ptr \<Rightarrow> kstate \<Rightarrow> u32 option" where
  "load_n_type A ns s = (case ns of None \<Rightarrow> null_n_type A | Some i \<Rightarrow> Some (n_type (nsds s i)))"

definition initNamespaces :: "kstate update" where
  "initNamespaces s = do {
     s \<leftarrow> on_lists (INIT_LIST_HEAD (Some PID_nsFree_h)) s;
     s \<leftarrow> on_lists (INIT_LIST_HEAD (Some PID_nsList_h)) s;
     foldM (\<lambda>i s. do {
         s \<leftarrow> on_lists (INIT_LIST_HEAD (Some (N_link i))) s;
         on_lists (list_add_tail (Some (N_link i)) (Some PID_nsFree_h)) s
       }) [0..<MAXPROC] s
   }"

text \<open>The loop of \<open>getNamespace\<close> from index \<open>i\<close>, with \<open>k\<close> entries left.\<close>

fun getNamespace_from :: "umps \<Rightarrow> nat \<Rightarrow> nat \<Rightarrow> pcb_t \<Rightarrow> u32 \<Rightarrow> kstate \<Rightarrow> nat ptr option" where
  "getNamespace_from A i 0 b type s = Some None"
| "getNamespace_from A i (Suc k) b type s = do {
     t \<leftarrow> load_n_type A (namespaces b i) s;
     if t = type then Some (namespaces b i)
     else getNamespace_from A (Suc i) k b type s
   }"

definition getNamespace :: "umps \<Rightarrow> nat ptr \<Rightarrow> u32 \<Rightarrow> kstate \<Rightarrow> nat ptr option" where
  "getNamespace A p type s = do {
     b \<leftarrow> load_pcb p s;
     getNamespace_from A 0 NS_TYPE_MAX b type s
   }"

text \<open>\<open>p->namespaces[ns->n_type] = ns\<close>; a type out of the array's range is a store out of bounds.\<close>

definition set_namespace :: "umps \<Rightarrow> nat ptr \<Rightarrow> nat ptr \<Rightarrow> kstate update" where
  "set_namespace A p ns s = do {
     t \<leftarrow> load_n_type A ns s;
     if unat t < NS_TYPE_MAX
     then store_pcb p (\<lambda>b. b\<lparr>namespaces := (namespaces b)(unat t := ns)\<rparr>) s
     else None
   }"

text \<open>
  The loop over the siblings, with the recursion into the children of each: the cursor \<open>pos\<close>
  walks the list \<open>head\<close>.
\<close>

partial_function (option) setAllChildNamespace_from ::
  "umps \<Rightarrow> nat ptr \<Rightarrow> lnode ptr \<Rightarrow> lnode ptr \<Rightarrow> kstate update" where
  "setAllChildNamespace_from A ns head pos s =
     (if pos = head then Some s
      else do {
        n \<leftarrow> pos;
        child \<leftarrow> pcb_of_p_sib n;
        s \<leftarrow> set_namespace A (Some child) ns s;
        first \<leftarrow> get_next (p_child (Some child)) (lists s);
        s \<leftarrow> setAllChildNamespace_from A ns (p_child (Some child)) first s;
        pos' \<leftarrow> get_next pos (lists s);
        setAllChildNamespace_from A ns head pos' s
      })"

definition setAllChildNamespace :: "umps \<Rightarrow> lnode ptr \<Rightarrow> nat ptr \<Rightarrow> kstate update" where
  "setAllChildNamespace A p ns s = do {
     first \<leftarrow> get_next p (lists s);
     setAllChildNamespace_from A ns p first s
   }"

definition addNamespace :: "umps \<Rightarrow> nat ptr \<Rightarrow> nat ptr \<Rightarrow> (kstate, bool) action" where
  "addNamespace A p ns s =
     (if ns = None \<or> p = None then Some (False, s)
      else do {
        s \<leftarrow> set_namespace A p ns s;
        s \<leftarrow> setAllChildNamespace A (p_child p) ns s;
        s \<leftarrow> on_lists (list_safe_del (n_link ns)) s;
        s \<leftarrow> on_lists (list_add_tail (n_link ns) (Some PID_nsList_h)) s;
        Some (True, s)
      })"

definition allocNamespace :: "u32 \<Rightarrow> (kstate, nat ptr) action" where
  "allocNamespace type s = do {
     e \<leftarrow> list_empty (Some PID_nsFree_h) (lists s);
     if e then Some (None, s)
     else do {
       ns \<leftarrow> list_first_entry nsd_of_n_link (Some PID_nsFree_h) (lists s);
       s \<leftarrow> on_lists (list_del (Some (N_link ns))) s;
       Some (Some ns, s\<lparr>nsds := (nsds s)(ns := (nsds s ns)\<lparr>n_type := type\<rparr>)\<rparr>)
     }
   }"

definition freeNamespace :: "nat ptr \<Rightarrow> kstate update" where
  "freeNamespace ns s = do {
     s \<leftarrow> on_lists (list_safe_del (n_link ns)) s;
     on_lists (list_add_tail (n_link ns) (Some PID_nsFree_h)) s
   }"

end
