(* ===== verification/Scheduler.thy ===== *)
theory Scheduler
  imports Ash Ns
begin

text \<open>
  \<open>pandos/phase2/devices.c\<close> (the semaphores of the devices and of the pseudo clock),
  \<open>processor.h\<close> (the timers) and \<open>scheduler.c\<close>.

  \<open>HALT\<close>, \<open>PANIC\<close>, \<open>WAIT\<close>, \<open>LDST\<close> and \<open>LDCXT\<close> do not return to the code that calls them:
  a function that ends in one of them answers an \<open>outcome\<close>.  (\<open>WAIT\<close> stops the processor until
  an interrupt, whose handler loads the state of a process: \<open>schedule\<close> has set
  \<open>current_active_process\<close> to \<open>NULL\<close>, and the interrupt handler then ends in \<open>schedule\<close>.)
  The diagnostics printed before a \<open>PANIC\<close> are not modelled here.
\<close>

section \<open>devices.c\<close>

definition SEM_NUM :: "umps \<Rightarrow> nat" where
  "SEM_NUM A = unat ((DEVINTNUM A + 1) * DEVPERINT A)"

definition getDevSem :: "umps \<Rightarrow> u32 \<Rightarrow> u32" where
  "getDevSem A index = dev_sems_addr A + 4 * index"

definition getPseudoClockSem :: "umps \<Rightarrow> u32" where
  "getPseudoClockSem A = pseudo_clock_sem_addr A"

definition initDevSems :: "umps \<Rightarrow> kstate \<Rightarrow> kstate" where
  "initDevSems A s =
     store_word (pseudo_clock_sem_addr A) 0
       (fold (\<lambda>i. store_word (getDevSem A (of_nat i)) 0) [0..<SEM_NUM A] s)"

section \<open>processor.h\<close>

text \<open>\<open>TRANSLATE_TIME\<close> multiplies by the word at \<open>TIMESCALEADDR\<close>.\<close>

definition TRANSLATE_TIME :: "u32 \<Rightarrow> kstate \<Rightarrow> u32" where
  "TRANSLATE_TIME t s = t * mem s TIMESCALEADDR"

definition resetPLT :: "kstate \<Rightarrow> kstate" where
  "resetPLT s = s\<lparr>reg_TIMER := TRANSLATE_TIME TIMESLICE s\<rparr>"

definition EXTRATIME :: u32 where "EXTRATIME = 100"
definition ITINTERVAL :: u32 where "ITINTERVAL = 100000 + EXTRATIME"

definition resetIntervalTimer :: "kstate \<Rightarrow> kstate" where
  "resetIntervalTimer s = s\<lparr>interval_timer := ITINTERVAL\<rparr>"

section \<open>scheduler.c\<close>

definition getReadyQueue :: "lnode ptr" where
  "getReadyQueue = Some Ready_queue"

definition initScheduler :: "kstate update" where
  "initScheduler s = do {
     let s = s\<lparr>process_count := 0, soft_block_count := 0, current_active_process := None,
               pid_counter := 1, start_time := tod s\<rparr>;
     mkEmptyProcQ (Some Ready_queue) s
   }"

definition getNewPid :: "kstate \<Rightarrow> u32 \<times> kstate" where
  "getNewPid s = (pid_counter s, s\<lparr>pid_counter := pid_counter s + 1\<rparr>)"

definition enqueueReady :: "nat ptr \<Rightarrow> kstate update" where
  "enqueueReady proc s = do {
     s \<leftarrow> insertProcQ (Some Ready_queue) proc s;
     Some (if proc = current_active_process s then s\<lparr>current_active_process := None\<rparr> else s)
   }"

definition incrementProcessCount :: "kstate \<Rightarrow> kstate" where
  "incrementProcessCount s = s\<lparr>process_count := process_count s + 1\<rparr>"

definition decrementProcessCount :: "kstate \<Rightarrow> kstate" where
  "decrementProcessCount s = s\<lparr>process_count := process_count s - 1\<rparr>"

definition incrementSoftBlockCount :: "kstate \<Rightarrow> kstate" where
  "incrementSoftBlockCount s = s\<lparr>soft_block_count := soft_block_count s + 1\<rparr>"

definition decrementSoftBlockCount :: "kstate \<Rightarrow> kstate" where
  "decrementSoftBlockCount s = s\<lparr>soft_block_count := soft_block_count s - 1\<rparr>"

definition currentProc :: "kstate \<Rightarrow> nat ptr" where
  "currentProc s = current_active_process s"

definition getStartTime :: "kstate \<Rightarrow> u32" where
  "getStartTime s = start_time s"

text \<open>The end of \<open>schedule\<close>: take the first ready process and run it.\<close>

definition dispatch :: "(kstate, outcome) action" where
  "dispatch s = do {
     (p, s) \<leftarrow> removeProcQ (Some Ready_queue) s;
     let s = resetPLT (s\<lparr>current_active_process := p\<rparr>);
     let s = s\<lparr>start_time := tod s\<rparr>;
     b \<leftarrow> load_pcb p s;
     Some (LDST (p_s b), s)
   }"

definition schedule :: "(kstate, outcome) action" where
  "schedule s = do {
     let s = s\<lparr>current_active_process := None\<rparr>;
     e \<leftarrow> emptyProcQ (Some Ready_queue) s;
     if e then
       (if process_count s = 0 then Some (HALT, s)
        else if process_count s > 0 \<and> soft_block_count s > 0
        then Some (WAIT, s\<lparr>reg_STATUS := and (or IECON IMON) (not TEBITON)\<rparr>)
        else if process_count s > 0 \<and> soft_block_count s = 0 then Some (PANIC, s)
        else dispatch s)
     else dispatch s
   }"

end
