(* ===== verification/Interrupt.thy ===== *)
theory Interrupt
  imports Scheduler
begin

text \<open>
  \<open>pandos/phase2/interrupt.c\<close>: the operations on the semaphores of the devices and of the
  clock, and the interrupt handler.  The registers \<open>CAUSE\<close> and \<open>STATUS\<close> are read as they are
  when the handler starts; the device registers are words of the memory.
\<close>

unbundle bit_operations_syntax

section \<open>P and V\<close>

text \<open>\<open>*s <= 0\<close> on an unsigned semaphore is \<open>*s = 0\<close>.\<close>

definition P_sem :: "u32 \<Rightarrow> kstate update" where
  "P_sem sem s = do {
     x \<leftarrow> load_sem sem s;
     if x \<le> 0 then do {
       (_, s) \<leftarrow> insertBlocked sem (currentProc s) s;
       Some (incrementSoftBlockCount s)
     } else store_sem sem 0 s
   }"

definition V_sem :: "u32 \<Rightarrow> (kstate, nat ptr) action" where
  "V_sem sem s = do {
     hp \<leftarrow> headBlocked sem s;
     if hp = None then do {
       s \<leftarrow> store_sem sem 1 s;
       Some (None, s)
     }
     else do {
       (proc, s) \<leftarrow> removeBlocked sem s;
       s \<leftarrow> enqueueReady proc s;
       Some (proc, decrementSoftBlockCount s)
     }
   }"

section \<open>Devices\<close>

function getInterruptingDevice_loop :: "u32 \<Rightarrow> u32 \<Rightarrow> u32 \<Rightarrow> u32" where
  "getInterruptingDevice_loop n_dev bitmap dev_num =
     (if bitmap > 1 \<and> dev_num < n_dev
      then getInterruptingDevice_loop n_dev (drop_bit 1 bitmap) (dev_num + 1)
      else dev_num)"
  by pat_completeness auto
termination
proof (relation "measure (\<lambda>(n_dev, bitmap, dev_num). unat bitmap)")
  fix n_dev bitmap dev_num :: u32
  assume "bitmap > 1 \<and> dev_num < n_dev"
  then have "1 < unat bitmap" by (simp add: word_less_nat_alt)
  then show "((n_dev, drop_bit 1 bitmap, dev_num + 1), n_dev, bitmap, dev_num)
      \<in> measure (\<lambda>(n_dev, bitmap, dev_num). unat bitmap)"
    by (simp add: unat_drop_bit_eq drop_bit_eq_div [of _ "unat bitmap"])
qed simp

declare getInterruptingDevice_loop.simps [simp del]

definition getInterruptingDevice :: "umps \<Rightarrow> u32 \<Rightarrow> kstate \<Rightarrow> u32" where
  "getInterruptingDevice A line s =
     getInterruptingDevice_loop (N_DEV_PER_IL A) (mem s (CDEV_BITMAP_ADDR A line)) 0"

definition set_v0 :: "umps \<Rightarrow> u32 \<Rightarrow> state_t \<Rightarrow> state_t" where
  "set_v0 A v st = st\<lparr>gpr := (gpr st)(ix_v0 A := v)\<rparr>"

definition TERMSTATMASK :: u32 where "TERMSTATMASK = 0xFF"
definition TERMOPSUCCESS :: u32 where "TERMOPSUCCESS = 5"
definition IOOPFAILED :: u32 where "IOOPFAILED = -1"
definition IOOPSUCCESS :: u32 where "IOOPSUCCESS = 0"

text \<open>The completion both kinds of device share: result and status to the process, then ready.\<close>

definition complete_io :: "umps \<Rightarrow> nat ptr \<Rightarrow> u32 \<Rightarrow> u32 \<Rightarrow> kstate update" where
  "complete_io A p v0 stat s =
     (if p \<noteq> None then do {
        s \<leftarrow> store_pcb p (\<lambda>b. b\<lparr>p_s := set_v0 A v0 (p_s b)\<rparr>) s;
        b \<leftarrow> load_pcb p s;
        let s = store_word (p_savedDeviceStatus b + 4 * ix_STATUS A) stat s;
        enqueueReady p s
      } else Some s)"

definition manageDevices :: "umps \<Rightarrow> u32 \<Rightarrow> kstate update" where
  "manageDevices A line s = do {
     let dev_num = getInterruptingDevice A line s;
     let base = DEV_REG_ADDR A line dev_num;
     let stat = mem s (base + off_status A);
     let s = store_word (base + off_command A) (ACK A) s;
     let sem = getDevSem A (EXT_IL_INDEX A line * DEVPERINT A + dev_num);
     (p, s) \<leftarrow> V_sem sem s;
     complete_io A p (if stat = READY A then IOOPSUCCESS else IOOPFAILED) stat s
   }"

definition manageTerminal :: "umps \<Rightarrow> kstate update" where
  "manageTerminal A s = do {
     let dev_num = getInterruptingDevice A (IL_TERMINAL A) s;
     let base = DEV_REG_ADDR A (IL_TERMINAL A) dev_num;
     let index = EXT_IL_INDEX A (IL_TERMINAL A) * DEVPERINT A + dev_num * 2;
     s \<leftarrow>
       (let transm = mem s (base + off_transm_status A) in
        if transm \<ge> READY A \<and> transm \<noteq> BUSY A then do {
          let stat = transm AND 0xFF;
          let s = store_word (base + off_transm_command A) (ACK A) s;
          (p, s) \<leftarrow> V_sem (getDevSem A (index + 1)) s;
          complete_io A p (if stat = TERMOPSUCCESS then IOOPSUCCESS else IOOPFAILED) stat s
        } else Some s);
     let recv = mem s (base + off_recv_status A);
     if recv \<ge> READY A \<and> recv \<noteq> BUSY A then do {
       let stat = recv AND TERMSTATMASK;
       let s = store_word (base + off_recv_command A) (ACK A) s;
       (p, s) \<leftarrow> V_sem (getDevSem A index) s;
       complete_io A p (if stat = TERMOPSUCCESS then IOOPSUCCESS else IOOPFAILED) stat s
     } else Some s
   }"

section \<open>Timers\<close>

definition plt_interrupt :: "umps \<Rightarrow> kstate update" where
  "plt_interrupt A s =
     (if drop_bit (STATUS_TE_BIT A) (reg_STATUS s AND STATUS_TE A) \<noteq> 0 then do {
        let s = s\<lparr>reg_TIMER := NEVER\<rparr>;
        s \<leftarrow> store_pcb (currentProc s) (\<lambda>b. b\<lparr>p_s := bios_state s\<rparr>) s;
        enqueueReady (currentProc s) s
      } else Some s)"

partial_function (option) wake_clock :: "u32 \<Rightarrow> kstate update" where
  "wake_clock sem s = do {
     hp \<leftarrow> headBlocked sem s;
     if hp = None then Some s
     else do {
       (proc, s) \<leftarrow> removeBlocked sem s;
       s \<leftarrow> enqueueReady proc s;
       wake_clock sem (decrementSoftBlockCount s)
     }
   }"

definition clock_interrupt :: "umps \<Rightarrow> kstate update" where
  "clock_interrupt A s = do {
     let s = resetIntervalTimer s;
     s \<leftarrow> wake_clock (getPseudoClockSem A) s;
     Some (store_word (getPseudoClockSem A) 0 s)
   }"

section \<open>The handler\<close>

definition INT_LINE :: "umps \<Rightarrow> u32 \<Rightarrow> kstate \<Rightarrow> bool" where
  "INT_LINE A line s \<longleftrightarrow> reg_CAUSE s AND CAUSE_IP A line \<noteq> 0"

definition when_line :: "umps \<Rightarrow> u32 \<Rightarrow> kstate update \<Rightarrow> kstate update" where
  "when_line A line f s = (if INT_LINE A line s then f s else Some s)"

definition interruptHandler :: "umps \<Rightarrow> (kstate, outcome) action" where
  "interruptHandler A s = do {
     s \<leftarrow> when_line A 1 (plt_interrupt A) s;
     s \<leftarrow> when_line A 2 (clock_interrupt A) s;
     s \<leftarrow> when_line A (DISKINT A) (manageDevices A (IL_DISK A)) s;
     s \<leftarrow> when_line A (FLASHINT A) (manageDevices A (IL_FLASH A)) s;
     s \<leftarrow> when_line A (NETWINT A) (manageDevices A (IL_ETHERNET A)) s;
     s \<leftarrow> when_line A (PRNTINT A) (manageDevices A (IL_PRINTER A)) s;
     s \<leftarrow> when_line A (TERMINT A) (manageTerminal A) s;
     if currentProc s = None then schedule s
     else Some (LDST (bios_state s), s)
   }"

end
