(* ===== verification/Syscall.thy ===== *)
theory Syscall
  imports Interrupt
begin

text \<open>
  \<open>pandos/phase2/syscall.c\<close>: the ten system calls.  The processor state of the caller is the
  one the BIOS saved (\<open>bios_state\<close>); the calls write their result to its \<open>v0\<close>.
\<close>

section \<open>Processes\<close>

definition createProcess :: "umps \<Rightarrow> state_t \<Rightarrow> u32 \<Rightarrow> nat ptr \<Rightarrow> (kstate, u32) action" where
  "createProcess A state supportStruct nsd s = do {
     (new_p, s) \<leftarrow> allocPcb A s;
     if new_p = None then Some (-1, s)
     else do {
       let (pid, s) = getNewPid s;
       s \<leftarrow> store_pcb new_p (\<lambda>b. b\<lparr>p_pid := pid\<rparr>) s;
       s \<leftarrow> enqueueReady new_p s;
       let s = incrementProcessCount s;
       s \<leftarrow> insertChild (currentProc s) new_p s;
       s \<leftarrow> store_pcb new_p (\<lambda>b. b\<lparr>p_s := state\<rparr>) s;
       s \<leftarrow> store_pcb new_p (\<lambda>b. b\<lparr>p_supportStruct := supportStruct\<rparr>) s;
       (ok, s) \<leftarrow> addNamespace A new_p nsd s;
       s \<leftarrow> (if \<not> ok then
               foldM (\<lambda>i s. do {
                   ns \<leftarrow> getNamespace A (currentProc s) (of_nat i) s;
                   (_, s) \<leftarrow> addNamespace A new_p ns s;
                   Some s
                 }) [0..<NS_TYPE_MAX] s
             else Some s);
       b \<leftarrow> load_pcb new_p s;
       Some (p_pid b, s)
     }
   }"

definition isSoftBlocked :: "umps \<Rightarrow> u32 \<Rightarrow> bool" where
  "isSoftBlocked A semAdd \<longleftrightarrow>
     (semAdd \<ge> getDevSem A 0 \<and> semAdd \<le> getDevSem A 47) \<or> semAdd = getPseudoClockSem A"

text \<open>What \<open>__terminateProcess\<close> does after its loop.\<close>

definition reap :: "umps \<Rightarrow> nat ptr \<Rightarrow> kstate update" where
  "reap A p s = do {
     b \<leftarrow> load_pcb p s;
     let s = (if isSoftBlocked A (p_semAdd b) then decrementSoftBlockCount s else s);
     (_, s) \<leftarrow> outBlocked p s;
     s \<leftarrow> freePcb p s;
     Some (decrementProcessCount s)
   }"

text \<open>
  \<open>__terminateProcess\<close>: while a child is removed, terminate it and go round the loop again;
  then the rest.
\<close>

partial_function (option) terminateProcess_internal :: "umps \<Rightarrow> nat ptr \<Rightarrow> kstate update" where
  "terminateProcess_internal A p s = do {
     (child, s) \<leftarrow> removeChild p s;
     if child \<noteq> None then do {
       (_, s) \<leftarrow> outProcQ getReadyQueue child s;
       s \<leftarrow> terminateProcess_internal A child s;
       terminateProcess_internal A p s
     } else reap A p s
   }"

definition terminateProcess :: "umps \<Rightarrow> nat ptr \<Rightarrow> (kstate, outcome) action" where
  "terminateProcess A p s = do {
     (_, s) \<leftarrow> outChild p s;
     s \<leftarrow> terminateProcess_internal A p s;
     schedule s
   }"

section \<open>Semaphores\<close>

text \<open>Both answer 1 when the caller was blocked and 0 when it goes on.\<close>

definition passeren :: "u32 \<Rightarrow> (kstate, nat) action" where
  "passeren sem s = do {
     x \<leftarrow> load_sem sem s;
     if x = 0 then do {
       (_, s) \<leftarrow> insertBlocked sem (currentProc s) s;
       Some (1, s)
     } else do {
       hp \<leftarrow> headBlocked sem s;
       if hp \<noteq> None then do {
         (p, s) \<leftarrow> removeBlocked sem s;
         s \<leftarrow> enqueueReady p s;
         Some (0, s)
       } else do {
         x \<leftarrow> load_sem sem s;
         s \<leftarrow> store_sem sem (x - 1) s;
         Some (0, s)
       }
     }
   }"

definition verhogen :: "u32 \<Rightarrow> (kstate, nat) action" where
  "verhogen sem s = do {
     x \<leftarrow> load_sem sem s;
     if x = 1 then do {
       (_, s) \<leftarrow> insertBlocked sem (currentProc s) s;
       Some (1, s)
     } else do {
       hp \<leftarrow> headBlocked sem s;
       if hp \<noteq> None then do {
         (proc, s) \<leftarrow> removeBlocked sem s;
         s \<leftarrow> enqueueReady proc s;
         Some (0, s)
       } else do {
         x \<leftarrow> load_sem sem s;
         s \<leftarrow> store_sem sem (x + 1) s;
         Some (0, s)
       }
     }
   }"

section \<open>Input and output\<close>

definition sdiv32 :: "u32 \<Rightarrow> u32 \<Rightarrow> u32" where
  "sdiv32 a b = word_of_int (sint a sdiv sint b)"

text \<open>\<open>1 << k\<close> on \<open>int\<close>: undefined for a count that is negative or not below the width.\<close>

definition shl1 :: "u32 \<Rightarrow> u32 option" where
  "shl1 k = (if unat k < 32 then Some (push_bit (unat k) 1) else None)"

definition doIO :: "umps \<Rightarrow> u32 \<Rightarrow> u32 \<Rightarrow> kstate update" where
  "doIO A cmdAddr cmdValues s = do {
     s \<leftarrow> store_pcb (currentProc s) (\<lambda>b. b\<lparr>p_savedDeviceStatus := cmdValues\<rparr>) s;
     let int_line = (cmdAddr - DEV_REG_START A) div (DEV_REG_SIZE A * DEVPERINT A) + DEV_IL_START A;
     let temp = (if int_line = IL_TERMINAL A then DEVPERINT A else DEVPERINT A * 2);
     let dev_num = sdiv32 (cmdAddr - DEV_REG_ADDR A int_line 0) temp;
     let dev_index = EXT_IL_INDEX A int_line * DEVPERINT A + dev_num;
     bit \<leftarrow> shl1 (sdiv32 (cmdAddr - DEV_REG_ADDR A int_line 0) 16);
     if mem s (IDEV_BITMAP_ADDR A int_line) AND bit = 0 then do {
       let s = store_word (cmdValues + 4 * ix_STATUS A) 0 s;
       store_pcb (currentProc s) (\<lambda>b. b\<lparr>p_s := set_v0 A (-1) (p_s b)\<rparr>) s
     } else do {
       let s =
         (if int_line = IL_TERMINAL A then
            (if odd (unat dev_index) then
               store_word (cmdAddr - DEV_REG_SIZE A div 2 + off_transm_command A)
                 (mem s (cmdValues + 4 * ix_COMMAND A)) s
             else
               store_word (cmdAddr + off_recv_command A)
                 (mem s (cmdValues + 4 * ix_COMMAND A)) s)
          else
            (let s = store_word (cmdAddr + off_command A) (mem s (cmdValues + 4 * ix_COMMAND A)) s;
                 s = store_word (cmdAddr + off_data0 A) (mem s (cmdValues + 4 * ix_DATA0 A)) s
             in store_word (cmdAddr + off_data1 A) (mem s (cmdValues + 4 * ix_DATA1 A)) s));
       P_sem (getDevSem A dev_index) s
     }
   }"

section \<open>Queries\<close>

definition getProcessID :: "umps \<Rightarrow> u32 \<Rightarrow> kstate \<Rightarrow> u32 option" where
  "getProcessID A parent s =
     (if parent \<noteq> 0 then do {
        nsd \<leftarrow> getNamespace A (currentProc s) NS_PID s;
        b \<leftarrow> load_pcb (currentProc s) s;
        nsd' \<leftarrow> getNamespace A (p_parent b) NS_PID s;
        if nsd = nsd' then map_option p_pid (load_pcb (p_parent b) s) else Some 0
      } else map_option p_pid (load_pcb (currentProc s) s))"

text \<open>\<open>children[retVal] = child->p_pid\<close> while \<open>retVal < size\<close> (both \<open>int\<close>).\<close>

partial_function (option) getChildren_from ::
  "umps \<Rightarrow> u32 \<Rightarrow> u32 \<Rightarrow> nat ptr \<Rightarrow> lnode ptr \<Rightarrow> lnode ptr \<Rightarrow> u32 \<Rightarrow> (kstate, u32) action" where
  "getChildren_from A children sz nsd head pos retVal s =
     (if pos = head then Some (retVal, s)
      else do {
        n \<leftarrow> pos;
        child \<leftarrow> pcb_of_p_sib n;
        ns \<leftarrow> getNamespace A (Some child) NS_PID s;
        let s' = (if nsd = ns \<and> sint retVal < sint sz
                  then store_word (children + 4 * retVal) (p_pid (pcbs s child)) s else s);
        pos' \<leftarrow> get_next pos (lists s);
        getChildren_from A children sz nsd head pos' (if nsd = ns then retVal + 1 else retVal) s'
      })"

definition getChildren :: "umps \<Rightarrow> u32 \<Rightarrow> u32 \<Rightarrow> (kstate, u32) action" where
  "getChildren A children sz s = do {
     e \<leftarrow> emptyChild (currentProc s) s;
     if \<not> e then do {
       nsd \<leftarrow> getNamespace A (currentProc s) NS_PID s;
       first \<leftarrow> get_next (p_child (currentProc s)) (lists s);
       getChildren_from A children sz nsd (p_child (currentProc s)) first 0 s
     } else Some (0, s)
   }"

end
