(* ===== verification/Exception.thy ===== *)
theory Exception
  imports Syscall
begin

text \<open>
  The entry points of the kernel: \<open>passUpOrDie\<close> and \<open>exceptionHandler\<close> of
  \<open>pandos/phase2/exception.c\<close>, \<open>syscallHandler\<close> of \<open>syscall.c\<close> and the initialisation of
  \<open>main.c\<close>.  \<open>excState\<close> is the state at \<open>BIOSDATAPAGE\<close>.
\<close>

unbundle bit_operations_syntax

section \<open>Pass up or die\<close>

definition passUpOrDie :: "umps \<Rightarrow> nat \<Rightarrow> (kstate, outcome) action" where
  "passUpOrDie A excCode s =
     (if \<not> (excCode = PGFAULTEXCEPT \<or> excCode = GENERALEXCEPT) then Some (PANIC, s)
      else do {
        let proc = currentProc s;
        b \<leftarrow> load_pcb proc s;
        if p_supportStruct b = 0 then terminateProcess A proc s
        else do {
          let a = p_supportStruct b;
          let sup = supports s a;
          let sup = sup\<lparr>sup_exceptState := (sup_exceptState sup)(excCode := bios_state s)\<rparr>;
          let s = s\<lparr>supports := (supports s)(a := sup)\<rparr>;
          let c = sup_exceptContext sup excCode;
          Some (LDCXT (ctx_stackPtr c) (ctx_status c) (ctx_pc c), s)
        }
      })"

section \<open>The system call handler\<close>

definition RETURN_SYS_VALUE :: "umps \<Rightarrow> u32 \<Rightarrow> kstate \<Rightarrow> kstate" where
  "RETURN_SYS_VALUE A v s = s\<lparr>bios_state := set_v0 A v (bios_state s)\<rparr>"

definition FIRST_PARAM :: "umps \<Rightarrow> kstate \<Rightarrow> u32" where
  "FIRST_PARAM A s = gpr (bios_state s) (ix_a1 A)"

definition SECOND_PARAM :: "umps \<Rightarrow> kstate \<Rightarrow> u32" where
  "SECOND_PARAM A s = gpr (bios_state s) (ix_a2 A)"

definition THIRD_PARAM :: "umps \<Rightarrow> kstate \<Rightarrow> u32" where
  "THIRD_PARAM A s = gpr (bios_state s) (ix_a3 A)"

text \<open>
  The cast of a parameter to \<open>nsd_t *\<close>: \<open>NULL\<close> or an entry of \<open>PID_nsd\<close> (an \<open>nsd_t\<close> is an
  \<open>int\<close> and two pointers, 12 bytes); any other address is no namespace.
\<close>

definition nsd_of_addr :: "umps \<Rightarrow> u32 \<Rightarrow> nat ptr option" where
  "nsd_of_addr A a =
     (if a = 0 then Some None
      else map_option Some (find (\<lambda>i. a = PID_nsd_addr A + 12 * of_nat i) [0..<MAXPROC]))"

text \<open>The blocking calls save the caller's state and give the processor away.\<close>

definition save_and_schedule :: "(kstate, outcome) action" where
  "save_and_schedule s = do {
     s \<leftarrow> store_pcb (currentProc s) (\<lambda>b. b\<lparr>p_s := bios_state s\<rparr>) s;
     schedule s
   }"

definition return_to_caller :: "(kstate, outcome) action" where
  "return_to_caller s = Some (LDST (bios_state s), s)"

definition syscall_switch :: "umps \<Rightarrow> (kstate, outcome) action" where
  "syscall_switch A s =
    (let a0 = gpr (bios_state s) (ix_a0 A) in
     if a0 = CREATEPROCESS then do {
       nsd \<leftarrow> nsd_of_addr A (THIRD_PARAM A s);
       (pid, s) \<leftarrow> createProcess A (load_state A (mem s) (FIRST_PARAM A s)) (SECOND_PARAM A s) nsd s;
       return_to_caller (RETURN_SYS_VALUE A pid s)
     }
     else if a0 = TERMPROCESS then do {
       let pid = FIRST_PARAM A s;
       p \<leftarrow> (if pid = 0 then Some (currentProc s) else findPcb pid getReadyQueue s);
       terminateProcess A p s
     }
     else if a0 = PASSEREN then do {
       (r, s) \<leftarrow> passeren (FIRST_PARAM A s) s;
       if r \<noteq> 0 then save_and_schedule s else return_to_caller s
     }
     else if a0 = VERHOGEN then do {
       (r, s) \<leftarrow> verhogen (FIRST_PARAM A s) s;
       if r \<noteq> 0 then save_and_schedule s else return_to_caller s
     }
     else if a0 = DOIO then do {
       s \<leftarrow> doIO A (FIRST_PARAM A s) (SECOND_PARAM A s) s;
       save_and_schedule s
     }
     else if a0 = GETTIME then do {
       b \<leftarrow> load_pcb (currentProc s) s;
       return_to_caller (RETURN_SYS_VALUE A (p_time b) s)
     }
     else if a0 = CLOCKWAIT then do {
       s \<leftarrow> P_sem (getPseudoClockSem A) s;
       save_and_schedule s
     }
     else if a0 = GETSUPPORTPTR then do {
       b \<leftarrow> load_pcb (currentProc s) s;
       return_to_caller (RETURN_SYS_VALUE A (p_supportStruct b) s)
     }
     else if a0 = GETPROCESSID then do {
       pid \<leftarrow> getProcessID A (FIRST_PARAM A s) s;
       return_to_caller (RETURN_SYS_VALUE A pid s)
     }
     else if a0 = GETCHILDREN then do {
       (r, s) \<leftarrow> getChildren A (FIRST_PARAM A s) (SECOND_PARAM A s) s;
       return_to_caller (RETURN_SYS_VALUE A r s)
     }
     else passUpOrDie A GENERALEXCEPT s)"

definition syscallHandler :: "umps \<Rightarrow> (kstate, outcome) action" where
  "syscallHandler A s =
    (let s = s\<lparr>bios_state := (bios_state s)\<lparr>pc_epc := pc_epc (bios_state s) + WORDLEN\<rparr>\<rparr> in
     if drop_bit (STATUS_KUp_BIT A) (reg_STATUS s AND STATUS_KUp A) \<noteq> 0 then
       passUpOrDie A GENERALEXCEPT
         (s\<lparr>bios_state := (bios_state s)\<lparr>cause := push_bit (CAUSE_EXCCODE_BIT A) (EXC_RI A)\<rparr>\<rparr>)
     else syscall_switch A s)"

section \<open>The exception handler\<close>

definition update_time :: "kstate update" where
  "update_time s =
     (if currentProc s \<noteq> None
      then store_pcb (currentProc s) (\<lambda>b. b\<lparr>p_time := p_time b + (tod s - getStartTime s)\<rparr>) s
      else Some s)"

definition exceptionHandler :: "umps \<Rightarrow> (kstate, outcome) action" where
  "exceptionHandler A s = do {
     let excCode = CAUSE_GET_EXCCODE A (cause (bios_state s));
     s \<leftarrow> update_time s;
     if excCode = EXC_INT A then interruptHandler A s
     else if excCode = EXC_MOD A \<or> excCode = EXC_TLBL A \<or> excCode = EXC_TLBS A
     then passUpOrDie A PGFAULTEXCEPT s
     else if excCode = EXC_SYS A then syscallHandler A s
     else passUpOrDie A GENERALEXCEPT s
   }"

section \<open>main.c\<close>

text \<open>\<open>RAMTOP\<close> adds the words at \<open>RAMBASEADDR\<close> and \<open>RAMBASESIZE\<close>.\<close>

definition RAMTOP :: "kstate \<Rightarrow> u32" where
  "RAMTOP s = mem s RAMBASEADDR + mem s RAMBASESIZE"

definition entry_state :: "umps \<Rightarrow> u32 \<Rightarrow> u32 \<Rightarrow> state_t \<Rightarrow> state_t" where
  "entry_state A pc sp st =
     st\<lparr>pc_epc := pc, gpr := (gpr st)(ix_t9 A := pc, ix_sp A := sp),
        status := IEPON OR IMON OR TEBITON\<rparr>"

text \<open>The result is the panic of an empty free list, if it happens.\<close>

definition initKernel :: "umps \<Rightarrow> u32 \<Rightarrow> (kstate, outcome option) action" where
  "initKernel A pc s = do {
     s \<leftarrow> initPcbs s;
     s \<leftarrow> initASH s;
     s \<leftarrow> initNamespaces s;
     let s = initDevSems A s;
     let s = s\<lparr>passupvector := \<lparr>tlb_refill_handler = uTLB_RefillHandler_addr A,
       tlb_refill_stackPtr = KERNELSTACK, exception_handler = exceptionHandler_addr A,
       exception_stackPtr = KERNELSTACK\<rparr>\<rparr>;
     s \<leftarrow> initScheduler s;
     let s = resetIntervalTimer s;
     (proc, s) \<leftarrow> allocPcb A s;
     if proc = None then Some (Some PANIC, s)
     else do {
       s \<leftarrow> enqueueReady proc s;
       let s = incrementProcessCount s;
       let (pid, s) = getNewPid s;
       s \<leftarrow> store_pcb proc (\<lambda>b. b\<lparr>p_pid := pid\<rparr>) s;
       s \<leftarrow> store_pcb proc (\<lambda>b. b\<lparr>p_s := entry_state A pc (RAMTOP s) (p_s b)\<rparr>) s;
       Some (None, s)
     }
   }"

definition main_entry :: "umps \<Rightarrow> (kstate, outcome) action" where
  "main_entry A s = do {
     (stop, s) \<leftarrow> initKernel A (test_addr A) s;
     (case stop of
        Some out \<Rightarrow> Some (out, s)
      | None \<Rightarrow> schedule s)
   }"

end
