(* ===== verification/Kernel_Abs.thy ===== *)
theory Kernel_Abs
  imports Exception
begin

text \<open>
  The abstract state of the kernel's structures: the lists of PCB, namespace and descriptor
  indices, in order.  \<open>links s a\<close> says that the list heap and the hash table of \<open>s\<close> are the
  ones \<open>a\<close> describes; each operation of \<open>pcb.c\<close> is then an operation on \<open>a\<close>.
\<close>

section \<open>The abstract state\<close>

text \<open>
  The lists of children and the queues of descriptors are options: \<open>None\<close> is a head that was
  never initialised.
\<close>

record akernel =
  a_free :: "nat list"
  a_ready :: "nat list"
  a_kids :: "nat \<Rightarrow> nat list option"
  a_nsfree :: "nat list"
  a_nslist :: "nat list"
  a_semfree :: "nat list"
  a_procq :: "nat \<Rightarrow> nat list option"
  a_bkt :: "nat \<Rightarrow> nat list"

fun Lmap :: "akernel \<Rightarrow> lnode \<Rightarrow> lnode list option" where
  "Lmap a PcbFree_h = Some (map P_list (a_free a))"
| "Lmap a Ready_queue = Some (map P_list (a_ready a))"
| "Lmap a PID_nsFree_h = Some (map N_link (a_nsfree a))"
| "Lmap a PID_nsList_h = Some (map N_link (a_nslist a))"
| "Lmap a SemdFree_h = Some (map S_freelink (a_semfree a))"
| "Lmap a (P_child i) = map_option (map P_sib) (a_kids a i)"
| "Lmap a (S_procq i) = map_option (map P_list) (a_procq a i)"
| "Lmap a (P_list i) = None"
| "Lmap a (P_sib i) = None"
| "Lmap a (N_link i) = None"
| "Lmap a (S_freelink i) = None"

definition links :: "kstate \<Rightarrow> akernel \<Rightarrow> bool" where
  "links s a \<longleftrightarrow> heap_abs (lists s) (Lmap a) \<and> hash_abs (semd_h s) (a_bkt a)"

lemma links_lists: "links s a \<Longrightarrow> heap_abs (lists s) (Lmap a)"
  by (simp add: links_def)

lemma links_cong:
  "lists s' = lists s \<Longrightarrow> semd_h s' = semd_h s \<Longrightarrow> links s' a = links s a"
  by (simp add: links_def)

text \<open>Taking a process out of the queue it is in, whichever it is.\<close>

definition a_unlink :: "nat \<Rightarrow> akernel \<Rightarrow> akernel" where
  "a_unlink p a = a\<lparr>a_free := removeAll p (a_free a), a_ready := removeAll p (a_ready a),
     a_procq := (\<lambda>i. map_option (removeAll p) (a_procq a i))\<rparr>"

definition queued :: "nat \<Rightarrow> akernel \<Rightarrow> bool" where
  "queued p a \<longleftrightarrow> p \<in> set (a_free a) \<or> p \<in> set (a_ready a) \<or>
     (\<exists>i q. a_procq a i = Some q \<and> p \<in> set q)"

lemma inj_links: "inj P_list" "inj P_sib" "inj N_link" "inj S_freelink"
  by (simp_all add: inj_def)

lemmas map_links = inj_links [THEN removeAll_map_inj]

lemma Lmap_upd [abs_simps]:
  "(Lmap a)(PcbFree_h \<mapsto> map P_list xs) = Lmap (a\<lparr>a_free := xs\<rparr>)"
  "(Lmap a)(Ready_queue \<mapsto> map P_list xs) = Lmap (a\<lparr>a_ready := xs\<rparr>)"
  "(Lmap a)(PID_nsFree_h \<mapsto> map N_link xs) = Lmap (a\<lparr>a_nsfree := xs\<rparr>)"
  "(Lmap a)(PID_nsList_h \<mapsto> map N_link xs) = Lmap (a\<lparr>a_nslist := xs\<rparr>)"
  "(Lmap a)(SemdFree_h \<mapsto> map S_freelink xs) = Lmap (a\<lparr>a_semfree := xs\<rparr>)"
  "(Lmap a)(P_child i \<mapsto> map P_sib xs) = Lmap (a\<lparr>a_kids := (a_kids a)(i \<mapsto> xs)\<rparr>)"
  "(Lmap a)(S_procq i \<mapsto> map P_list xs) = Lmap (a\<lparr>a_procq := (a_procq a)(i \<mapsto> xs)\<rparr>)"
proof -
  have eq: "f = Lmap b" if "\<And>n. f n = Lmap b n" for f b using that by blast
  show "(Lmap a)(PcbFree_h \<mapsto> map P_list xs) = Lmap (a\<lparr>a_free := xs\<rparr>)"
    by (rule eq, case_tac n) auto
  show "(Lmap a)(Ready_queue \<mapsto> map P_list xs) = Lmap (a\<lparr>a_ready := xs\<rparr>)"
    by (rule eq, case_tac n) auto
  show "(Lmap a)(PID_nsFree_h \<mapsto> map N_link xs) = Lmap (a\<lparr>a_nsfree := xs\<rparr>)"
    by (rule eq, case_tac n) auto
  show "(Lmap a)(PID_nsList_h \<mapsto> map N_link xs) = Lmap (a\<lparr>a_nslist := xs\<rparr>)"
    by (rule eq, case_tac n) auto
  show "(Lmap a)(SemdFree_h \<mapsto> map S_freelink xs) = Lmap (a\<lparr>a_semfree := xs\<rparr>)"
    by (rule eq, case_tac n) auto
  show "(Lmap a)(P_child i \<mapsto> map P_sib xs) = Lmap (a\<lparr>a_kids := (a_kids a)(i \<mapsto> xs)\<rparr>)"
    by (rule eq, case_tac n) auto
  show "(Lmap a)(S_procq i \<mapsto> map P_list xs) = Lmap (a\<lparr>a_procq := (a_procq a)(i \<mapsto> xs)\<rparr>)"
    by (rule eq, case_tac n) auto
qed

lemma unlink_P_list [abs_simps]: "unlink (P_list p) (Lmap a) = Lmap (a_unlink p a)"
proof
  fix n
  have other: "removeAll (P_list p) (map f xs) = map f xs" if "P_list p \<notin> range f" for f :: "nat \<Rightarrow> lnode" and xs
    using that by (induction xs) auto
  show "unlink (P_list p) (Lmap a) n = Lmap (a_unlink p a) n"
    by (cases n)
      (auto simp: unlink_def a_unlink_def map_links other image_iff option.map_comp comp_def
        cong: map_option_cong)
qed

lemma P_list_in_lnodes: "P_list p \<in> lnodes (Lmap a) \<longleftrightarrow> queued p a"
proof
  assume "P_list p \<in> lnodes (Lmap a)"
  then obtain r xs where r: "Lmap a r = Some xs" "P_list p \<in> insert r (set xs)"
    by (rule lnodesE)
  then show "queued p a" by (cases r) (auto simp: queued_def)
next
  assume "queued p a"
  then consider "p \<in> set (a_free a)" | "p \<in> set (a_ready a)"
    | i q where "a_procq a i = Some q" "p \<in> set q"
    by (auto simp: queued_def)
  then show "P_list p \<in> lnodes (Lmap a)"
  proof cases
    case 1
    then show ?thesis by (intro lnodesI [of _ PcbFree_h]) auto
  next
    case 2
    then show ?thesis by (intro lnodesI [of _ Ready_queue]) auto
  next
    case 3
    then show ?thesis by (intro lnodesI [of _ "S_procq i"]) auto
  qed
qed

lemma P_sib_in_lnodes: "P_sib p \<in> lnodes (Lmap a) \<longleftrightarrow> (\<exists>i q. a_kids a i = Some q \<and> p \<in> set q)"
proof
  assume "P_sib p \<in> lnodes (Lmap a)"
  then obtain r xs where r: "Lmap a r = Some xs" "P_sib p \<in> insert r (set xs)"
    by (rule lnodesE)
  then show "\<exists>i q. a_kids a i = Some q \<and> p \<in> set q" by (cases r) (auto, blast)
next
  assume "\<exists>i q. a_kids a i = Some q \<and> p \<in> set q"
  then obtain i q where "a_kids a i = Some q" "p \<in> set q" by blast
  then show "P_sib p \<in> lnodes (Lmap a)" by (intro lnodesI [of _ "P_child i"]) auto
qed

lemma P_child_in_lnodes: "P_child p \<in> lnodes (Lmap a) \<longleftrightarrow> a_kids a p \<noteq> None"
proof
  assume "P_child p \<in> lnodes (Lmap a)"
  then obtain r xs where r: "Lmap a r = Some xs" "P_child p \<in> insert r (set xs)"
    by (rule lnodesE)
  then show "a_kids a p \<noteq> None" by (cases r) auto
qed (auto intro: lnodesI [of _ "P_child p"])

lemma N_link_in_lnodes: "N_link i \<in> lnodes (Lmap a) \<longleftrightarrow> i \<in> set (a_nsfree a) \<union> set (a_nslist a)"
proof
  assume "N_link i \<in> lnodes (Lmap a)"
  then obtain r xs where r: "Lmap a r = Some xs" "N_link i \<in> insert r (set xs)"
    by (rule lnodesE)
  then show "i \<in> set (a_nsfree a) \<union> set (a_nslist a)" by (cases r) auto
qed (auto intro: lnodesI [of _ PID_nsFree_h] lnodesI [of _ PID_nsList_h])

lemma S_freelink_in_lnodes: "S_freelink i \<in> lnodes (Lmap a) \<longleftrightarrow> i \<in> set (a_semfree a)"
proof
  assume "S_freelink i \<in> lnodes (Lmap a)"
  then obtain r xs where r: "Lmap a r = Some xs" "S_freelink i \<in> insert r (set xs)"
    by (rule lnodesE)
  then show "i \<in> set (a_semfree a)" by (cases r) auto
qed (auto intro: lnodesI [of _ SemdFree_h])

lemma S_procq_in_lnodes: "S_procq i \<in> lnodes (Lmap a) \<longleftrightarrow> a_procq a i \<noteq> None"
proof
  assume "S_procq i \<in> lnodes (Lmap a)"
  then obtain r xs where r: "Lmap a r = Some xs" "S_procq i \<in> insert r (set xs)"
    by (rule lnodesE)
  then show "a_procq a i \<noteq> None" by (cases r) auto
qed (auto intro: lnodesI [of _ "S_procq i"])

lemmas in_lnodes = P_list_in_lnodes P_sib_in_lnodes P_child_in_lnodes N_link_in_lnodes
  S_freelink_in_lnodes S_procq_in_lnodes

section \<open>What a well-formed heap says about the abstract lists\<close>

lemma links_distinct:
  assumes "links s a"
  shows "distinct (a_free a)" and "distinct (a_ready a)" and "distinct (a_nsfree a)"
    and "distinct (a_nslist a)" and "distinct (a_semfree a)"
    and "a_procq a i = Some q \<Longrightarrow> distinct q" and "a_kids a i = Some q \<Longrightarrow> distinct q"
proof -
  note d = heap_abs_distinct [OF links_lists [OF assms]]
  show "distinct (a_free a)" using d [of PcbFree_h] by (simp add: distinct_map)
  show "distinct (a_ready a)" using d [of Ready_queue] by (simp add: distinct_map)
  show "distinct (a_nsfree a)" using d [of PID_nsFree_h] by (simp add: distinct_map)
  show "distinct (a_nslist a)" using d [of PID_nsList_h] by (simp add: distinct_map)
  show "distinct (a_semfree a)" using d [of SemdFree_h] by (simp add: distinct_map)
  show "a_procq a i = Some q \<Longrightarrow> distinct q" using d [of "S_procq i"] by (simp add: distinct_map)
  show "a_kids a i = Some q \<Longrightarrow> distinct q" using d [of "P_child i"] by (simp add: distinct_map)
qed

lemma links_disjoint:
  assumes "links s a" and "Lmap a r = Some xs" and "Lmap a r' = Some ys" and "n \<in> set xs" and "n \<in> set ys"
  shows "r = r'"
  using heap_abs_disjoint [OF links_lists [OF assms(1)] assms(2,3), of n] assms(4,5) by simp

text \<open>A process is in one queue at most.\<close>

lemma links_one_queue:
  assumes "links s a"
  shows "p \<in> set (a_free a) \<Longrightarrow> p \<notin> set (a_ready a)"
    and "p \<in> set (a_free a) \<Longrightarrow> a_procq a i = Some q \<Longrightarrow> p \<notin> set q"
    and "p \<in> set (a_ready a) \<Longrightarrow> a_procq a i = Some q \<Longrightarrow> p \<notin> set q"
    and "a_procq a i = Some q \<Longrightarrow> a_procq a j = Some q' \<Longrightarrow> p \<in> set q \<Longrightarrow> p \<in> set q' \<Longrightarrow> i = j"
    and "a_kids a i = Some q \<Longrightarrow> a_kids a j = Some q' \<Longrightarrow> p \<in> set q \<Longrightarrow> p \<in> set q' \<Longrightarrow> i = j"
proof -
  note d = links_disjoint [OF assms]
  show "p \<in> set (a_free a) \<Longrightarrow> p \<notin> set (a_ready a)"
    using d [of PcbFree_h "map P_list (a_free a)" Ready_queue "map P_list (a_ready a)" "P_list p"]
    by auto
  show "p \<in> set (a_free a) \<Longrightarrow> a_procq a i = Some q \<Longrightarrow> p \<notin> set q"
    using d [of PcbFree_h "map P_list (a_free a)" "S_procq i" "map P_list q" "P_list p"] by auto
  show "p \<in> set (a_ready a) \<Longrightarrow> a_procq a i = Some q \<Longrightarrow> p \<notin> set q"
    using d [of Ready_queue "map P_list (a_ready a)" "S_procq i" "map P_list q" "P_list p"] by auto
  show "a_procq a i = Some q \<Longrightarrow> a_procq a j = Some q' \<Longrightarrow> p \<in> set q \<Longrightarrow> p \<in> set q' \<Longrightarrow> i = j"
    using d [of "S_procq i" "map P_list q" "S_procq j" "map P_list q'" "P_list p"] by auto
  show "a_kids a i = Some q \<Longrightarrow> a_kids a j = Some q' \<Longrightarrow> p \<in> set q \<Longrightarrow> p \<in> set q' \<Longrightarrow> i = j"
    using d [of "P_child i" "map P_sib q" "P_child j" "map P_sib q'" "P_sib p"] by auto
qed

end
