(* ===== verification/Pcb_Abs.thy ===== *)
theory Pcb_Abs
  imports Kernel_Abs
begin

text \<open>
  Every operation of \<open>pcb.c\<close> on the abstract lists: what it returns, what it does to the
  queues, and which other parts of the state it leaves alone (the results are written as
  updates of the state before the call).
\<close>

section \<open>Single list operations on the kernel state\<close>

lemma safe_del_P_list:
  assumes "links s a"
  shows "\<exists>h. on_lists (list_safe_del (Some (P_list p))) s = Some (s\<lparr>lists := h\<rparr>)
    \<and> links (s\<lparr>lists := h\<rparr>) (a_unlink p a)"
  using list_safe_del_abs [OF links_lists [OF assms], of "P_list p"] assms
  by (auto simp: on_lists_def links_def abs_simps a_unlink_def)

lemma not_queued_unlink: "\<not> queued p (a_unlink p a)"
  by (auto simp: queued_def a_unlink_def)

lemma add_tail_ready:
  assumes "links s a" and "\<not> queued p a"
  shows "\<exists>h. on_lists (list_add_tail (Some (P_list p)) (Some Ready_queue)) s = Some (s\<lparr>lists := h\<rparr>)
    \<and> links (s\<lparr>lists := h\<rparr>) (a\<lparr>a_ready := a_ready a @ [p]\<rparr>)"
  using list_add_tail_abs [OF links_lists [OF assms(1)], of Ready_queue _ "P_list p"]
    Lmap_upd(2) [of a "a_ready a @ [p]"] assms
  by (auto simp: on_lists_def links_def in_lnodes)

lemma add_tail_procq:
  assumes "links s a" and "a_procq a i = Some q" and "\<not> queued p a"
  shows "\<exists>h. on_lists (list_add_tail (Some (P_list p)) (Some (S_procq i))) s = Some (s\<lparr>lists := h\<rparr>)
    \<and> links (s\<lparr>lists := h\<rparr>) (a\<lparr>a_procq := (a_procq a)(i \<mapsto> q @ [p])\<rparr>)"
  using list_add_tail_abs [OF links_lists [OF assms(1)], of "S_procq i" _ "P_list p"]
    Lmap_upd(7) [of a i "q @ [p]"] assms
  by (auto simp: on_lists_def links_def in_lnodes)

lemma add_free:
  assumes "links s a" and "\<not> queued p a"
  shows "\<exists>h. on_lists (list_add (Some (P_list p)) (Some PcbFree_h)) s = Some (s\<lparr>lists := h\<rparr>)
    \<and> links (s\<lparr>lists := h\<rparr>) (a\<lparr>a_free := p # a_free a\<rparr>)"
  using list_add_abs [OF links_lists [OF assms(1)], of PcbFree_h _ "P_list p"]
    Lmap_upd(1) [of a "p # a_free a"] assms
  by (auto simp: on_lists_def links_def in_lnodes)

lemma add_tail_child:
  assumes "links s a" and "a_kids a i = Some q"
    and "\<And>j q. a_kids a j = Some q \<Longrightarrow> p \<notin> set q"
  shows "\<exists>h. on_lists (list_add_tail (Some (P_sib p)) (Some (P_child i))) s = Some (s\<lparr>lists := h\<rparr>)
    \<and> links (s\<lparr>lists := h\<rparr>) (a\<lparr>a_kids := (a_kids a)(i \<mapsto> q @ [p])\<rparr>)"
  using list_add_tail_abs [OF links_lists [OF assms(1)], of "P_child i" _ "P_sib p"]
    Lmap_upd(6) [of a i "q @ [p]"] assms
  by (auto simp: on_lists_def links_def in_lnodes)

lemma del_P_sib:
  assumes "links s a" and "a_kids a i = Some q" and "p \<in> set q"
  shows "\<exists>h. on_lists (list_del (Some (P_sib p))) s = Some (s\<lparr>lists := h\<rparr>)
    \<and> links (s\<lparr>lists := h\<rparr>) (a\<lparr>a_kids := (a_kids a)(i \<mapsto> removeAll p q)\<rparr>)"
  using list_del_abs [OF links_lists [OF assms(1)], of "P_child i" _ "P_sib p"]
    Lmap_upd(6) [of a i "removeAll p q"] assms
  by (auto simp: on_lists_def links_def map_links)

lemma del_P_list_procq:
  assumes "links s a" and "a_procq a i = Some q" and "p \<in> set q"
  shows "\<exists>h. on_lists (list_del (Some (P_list p))) s = Some (s\<lparr>lists := h\<rparr>)
    \<and> links (s\<lparr>lists := h\<rparr>) (a\<lparr>a_procq := (a_procq a)(i \<mapsto> removeAll p q)\<rparr>)"
  using list_del_abs [OF links_lists [OF assms(1)], of "S_procq i" _ "P_list p"]
    Lmap_upd(7) [of a i "removeAll p q"] assms
  by (auto simp: on_lists_def links_def map_links)

lemma empty_lists_abs:
  assumes "links s a"
  shows "list_empty (Some PcbFree_h) (lists s) = Some (a_free a = [])"
    and "list_empty (Some Ready_queue) (lists s) = Some (a_ready a = [])"
    and "list_empty (Some PID_nsFree_h) (lists s) = Some (a_nsfree a = [])"
    and "list_empty (Some SemdFree_h) (lists s) = Some (a_semfree a = [])"
    and "a_procq a i = Some q \<Longrightarrow> list_empty (Some (S_procq i)) (lists s) = Some (q = [])"
    and "a_kids a i = Some q \<Longrightarrow> list_empty (Some (P_child i)) (lists s) = Some (q = [])"
  by (simp_all add: list_empty_abs [OF links_lists [OF assms]])

lemma first_entries_abs:
  assumes "links s a"
  shows "a_free a = p # ps \<Longrightarrow> list_first_entry pcb_of_p_list (Some PcbFree_h) (lists s) = Some p"
    and "a_ready a = p # ps \<Longrightarrow> list_first_entry pcb_of_p_list (Some Ready_queue) (lists s) = Some p"
    and "a_nsfree a = p # ps \<Longrightarrow> list_first_entry nsd_of_n_link (Some PID_nsFree_h) (lists s) = Some p"
    and "a_semfree a = p # ps \<Longrightarrow>
      list_first_entry semd_of_s_freelink (Some SemdFree_h) (lists s) = Some p"
    and "a_procq a i = Some (p # ps) \<Longrightarrow>
      list_first_entry pcb_of_p_list (Some (S_procq i)) (lists s) = Some p"
    and "a_kids a i = Some (p # ps) \<Longrightarrow>
      list_first_entry pcb_of_p_sib (Some (P_child i)) (lists s) = Some p"
  by (simp_all add: list_first_entry_abs [OF links_lists [OF assms]])

section \<open>Process queues\<close>

definition a_enqueue :: "nat \<Rightarrow> akernel \<Rightarrow> akernel" where
  "a_enqueue p a = (a_unlink p a)\<lparr>a_ready := removeAll p (a_ready a) @ [p]\<rparr>"

lemma insertProcQ_abs:
  assumes "links s a"
  shows "\<exists>h. insertProcQ (Some Ready_queue) (Some p) s = Some (s\<lparr>lists := h\<rparr>)
    \<and> links (s\<lparr>lists := h\<rparr>) (a_enqueue p a)"
proof -
  from safe_del_P_list [OF assms] obtain h1 where
    1: "on_lists (list_safe_del (Some (P_list p))) s = Some (s\<lparr>lists := h1\<rparr>)"
    "links (s\<lparr>lists := h1\<rparr>) (a_unlink p a)" by blast
  from add_tail_ready [OF 1(2) not_queued_unlink] obtain h2 where
    2: "on_lists (list_add_tail (Some (P_list p)) (Some Ready_queue)) (s\<lparr>lists := h1\<rparr>)
      = Some (s\<lparr>lists := h2\<rparr>)"
    "links (s\<lparr>lists := h2\<rparr>) ((a_unlink p a)\<lparr>a_ready := a_ready (a_unlink p a) @ [p]\<rparr>)" by auto
  have "(a_unlink p a)\<lparr>a_ready := a_ready (a_unlink p a) @ [p]\<rparr> = a_enqueue p a"
    by (simp add: a_enqueue_def a_unlink_def)
  with 1 2 show ?thesis by (intro exI [of _ h2]) (simp add: insertProcQ_def)
qed

lemma insertProcQ_null [simp]: "insertProcQ head None s = Some s" "insertProcQ None p s = Some s"
  by (simp_all add: insertProcQ_def)

lemma emptyProcQ_abs: "links s a \<Longrightarrow> emptyProcQ (Some Ready_queue) s = Some (a_ready a = [])"
  by (simp add: emptyProcQ_def empty_lists_abs)

lemma headProcQ_abs:
  "links s a \<Longrightarrow> headProcQ (Some Ready_queue) s =
    Some (case a_ready a of [] \<Rightarrow> None | p # _ \<Rightarrow> Some p)"
  by (auto simp: headProcQ_def empty_lists_abs first_entries_abs split: list.split)

lemma outProcQ_abs:
  assumes "links s a"
  shows "\<exists>h. outProcQ (Some Ready_queue) (Some p) s
      = Some (if p \<in> set (a_ready a) then Some p else None, s\<lparr>lists := h\<rparr>)
    \<and> links (s\<lparr>lists := h\<rparr>) (a\<lparr>a_ready := removeAll p (a_ready a)\<rparr>)"
proof (cases "p \<in> set (a_ready a)")
  case True
  have c: "list_contains (Some (P_list p)) (Some Ready_queue) (lists s) = Some True"
    using True by (subst list_contains_abs [OF links_lists [OF assms]]) auto
  from safe_del_P_list [OF assms] obtain h where
    1: "on_lists (list_safe_del (Some (P_list p))) s = Some (s\<lparr>lists := h\<rparr>)"
    "links (s\<lparr>lists := h\<rparr>) (a_unlink p a)" by blast
  have "a_unlink p a = a\<lparr>a_ready := removeAll p (a_ready a)\<rparr>"
  proof -
    have "map_option (removeAll p) (a_procq a i) = a_procq a i" for i
      using links_one_queue(3) [OF assms True] by (cases "a_procq a i") auto
    moreover have "p \<notin> set (a_free a)" using links_one_queue(1) [OF assms] True by blast
    ultimately show ?thesis by (simp add: a_unlink_def)
  qed
  with 1 c True show ?thesis by (intro exI [of _ h]) (simp add: outProcQ_def)
next
  case False
  have "list_contains (Some (P_list p)) (Some Ready_queue) (lists s) = Some False"
    using False by (subst list_contains_abs [OF links_lists [OF assms]]) auto
  moreover have "s = s\<lparr>lists := lists s\<rparr>" by simp
  ultimately show ?thesis using False assms
    by (intro exI [of _ "lists s"]) (simp add: outProcQ_def)
qed

lemma removeProcQ_empty:
  "links s a \<Longrightarrow> a_ready a = [] \<Longrightarrow> removeProcQ (Some Ready_queue) s = Some (None, s)"
  by (simp add: removeProcQ_def empty_lists_abs)

lemma removeProcQ_abs:
  assumes "links s a" and "a_ready a = p # ps"
  shows "\<exists>h. removeProcQ (Some Ready_queue) s = Some (Some p, s\<lparr>lists := h\<rparr>)
    \<and> links (s\<lparr>lists := h\<rparr>) (a\<lparr>a_ready := ps\<rparr>)"
  using outProcQ_abs [OF assms(1), of p] links_distinct(2) [OF assms(1)] assms
  by (auto simp: removeProcQ_def empty_lists_abs first_entries_abs)

text \<open>A null head is read before it is tested: the guards against it come too late.\<close>

lemma headProcQ_null_faults: "headProcQ None s = None"
  by (simp add: headProcQ_def list_empty_def get_next_def)

lemma outProcQ_null_head_faults: "outProcQ None p s = None"
  by (simp add: outProcQ_def list_contains_def list_search_def get_next_def)

lemma removeProcQ_null_faults: "removeProcQ None s = None"
  by (simp add: removeProcQ_def list_empty_def get_next_def)

section \<open>Searching by pid\<close>

lemma searchPcbByPid_from_chain:
  "chain (lists s) a (map P_list ps) r \<Longrightarrow> r \<notin> set (map P_list ps) \<Longrightarrow>
    searchPcbByPid_from pid (Some r) (nxt (lists s) a) s =
      Some (find (\<lambda>p. p_pid (pcbs s p) = pid) ps)"
proof (induction ps arbitrary: a)
  case Nil
  then show ?case by (simp add: searchPcbByPid_from.simps)
next
  case (Cons p ps)
  then show ?case
    by (subst searchPcbByPid_from.simps) (auto simp: get_next_def)
qed

lemma searchPcbByPid_abs:
  assumes "links s a" and "Lmap a r = Some (map P_list ps)"
  shows "searchPcbByPid pid (Some r) s = Some (find (\<lambda>p. p_pid (pcbs s p) = pid) ps)"
proof -
  have "dll (lists s) r (map P_list ps)"
    using links_lists [OF assms(1)] assms(2) by (rule heap_abs_dll)
  then show ?thesis
    by (simp add: searchPcbByPid_def get_next_def dll_def searchPcbByPid_from_chain
        del: set_map)
qed

section \<open>Allocation\<close>

definition a_freePcb :: "nat \<Rightarrow> akernel \<Rightarrow> akernel" where
  "a_freePcb p a = (a_unlink p a)\<lparr>a_free := p # removeAll p (a_free a)\<rparr>"

lemma freePcb_abs:
  assumes "links s a"
  shows "\<exists>h. freePcb (Some p) s
      = Some (s\<lparr>lists := h, pcbs := (pcbs s)(p := (pcbs s p)\<lparr>p_semAdd := 0\<rparr>)\<rparr>)
    \<and> links (s\<lparr>lists := h\<rparr>) (a_freePcb p a)"
proof -
  from safe_del_P_list [OF assms] obtain h1 where
    1: "on_lists (list_safe_del (Some (P_list p))) s = Some (s\<lparr>lists := h1\<rparr>)"
    "links (s\<lparr>lists := h1\<rparr>) (a_unlink p a)" by blast
  let ?s = "s\<lparr>lists := h1, pcbs := (pcbs s)(p := (pcbs s p)\<lparr>p_semAdd := 0\<rparr>)\<rparr>"
  have "links ?s (a_unlink p a)" using 1(2) by (simp add: links_def)
  from add_free [OF this not_queued_unlink] obtain h2 where
    2: "on_lists (list_add (Some (P_list p)) (Some PcbFree_h)) ?s = Some (?s\<lparr>lists := h2\<rparr>)"
    "links (?s\<lparr>lists := h2\<rparr>) ((a_unlink p a)\<lparr>a_free := p # a_free (a_unlink p a)\<rparr>)" by blast
  have "(a_unlink p a)\<lparr>a_free := p # a_free (a_unlink p a)\<rparr> = a_freePcb p a"
    by (simp add: a_freePcb_def a_unlink_def)
  with 1(1) 2 show ?thesis
    by (intro exI [of _ h2]) (simp add: freePcb_def links_def)
qed

definition reset_pcb :: "umps \<Rightarrow> pcb_t \<Rightarrow> pcb_t" where
  "reset_pcb A b = b\<lparr>p_parent := None, p_s := reset_state A (p_s b), p_supportStruct := 0,
     p_savedDeviceStatus := 0, p_time := 0, p_semAdd := 0\<rparr>"

lemma resetPcb_abs:
  assumes links: "links s a" and q: "\<not> queued p a" and sib: "\<And>j ks. a_kids a j = Some ks \<Longrightarrow> p \<notin> set ks"
    and kids: "a_kids a p = None \<or> a_kids a p = Some []"
  shows "\<exists>h. resetPcb A (Some p) s
      = Some (Some p, s\<lparr>lists := h, pcbs := (pcbs s)(p := reset_pcb A (pcbs s p))\<rparr>)
    \<and> links (s\<lparr>lists := h\<rparr>) (a\<lparr>a_kids := (a_kids a)(p \<mapsto> [])\<rparr>)"
proof -
  have "P_list p \<notin> lnodes (Lmap a)" "P_sib p \<notin> lnodes (Lmap a)"
    using q sib by (auto simp: in_lnodes)
  then have null: "nxt (lists s) (P_list p) = None" "prv (lists s) (P_list p) = None"
    "nxt (lists s) (P_sib p) = None" "prv (lists s) (P_sib p) = None"
    using heap_abs_null [OF links_lists [OF links]] by auto
  have same: "(lists s)\<lparr>nxt := (nxt (lists s))(P_list p := None)\<rparr> = lists s"
    "(lists s)\<lparr>prv := (prv (lists s))(P_list p := None)\<rparr> = lists s"
    using null by (simp_all add: fun_upd_idem)
  have "P_child p \<notin> lnodes (Lmap a) \<or> Lmap a (P_child p) = Some []"
    using kids by (auto simp: in_lnodes)
  from INIT_LIST_HEAD_abs [OF links_lists [OF links] this] obtain h where
    h: "INIT_LIST_HEAD (Some (P_child p)) (lists s) = Some h"
    "heap_abs h (Lmap (a\<lparr>a_kids := (a_kids a)(p \<mapsto> [])\<rparr>))"
    using Lmap_upd(6) [of a p "[]"] by auto
  have "P_sib p \<notin> lnodes (Lmap (a\<lparr>a_kids := (a_kids a)(p \<mapsto> [])\<rparr>))"
    using sib by (auto simp: in_lnodes split: if_splits)
  then have null': "nxt h (P_sib p) = None" "prv h (P_sib p) = None"
    using heap_abs_null [OF h(2)] by auto
  have same': "h\<lparr>nxt := (nxt h)(P_sib p := None)\<rparr> = h" "h\<lparr>prv := (prv h)(P_sib p := None)\<rparr> = h"
    using null' by (simp_all add: fun_upd_idem)
  have "resetPcb A (Some p) s
      = Some (Some p, s\<lparr>lists := h, pcbs := (pcbs s)(p := reset_pcb A (pcbs s p))\<rparr>)"
    using h(1) by (simp add: resetPcb_def on_lists_def set_next_def set_prev_def same same'
        reset_pcb_def)
  with h(2) links show ?thesis by (auto simp: links_def)
qed

lemma allocPcb_empty:
  "links s a \<Longrightarrow> a_free a = [] \<Longrightarrow> allocPcb A s = Some (None, s)"
  by (simp add: allocPcb_def empty_lists_abs)

lemma allocPcb_abs:
  assumes links: "links s a" and free: "a_free a = p # fs"
    and sib: "\<And>j ks. a_kids a j = Some ks \<Longrightarrow> p \<notin> set ks"
    and kids: "a_kids a p = None \<or> a_kids a p = Some []"
  shows "\<exists>h. allocPcb A s
      = Some (Some p, s\<lparr>lists := h, pcbs := (pcbs s)(p := reset_pcb A (pcbs s p))\<rparr>)
    \<and> links (s\<lparr>lists := h\<rparr>) (a\<lparr>a_free := fs, a_kids := (a_kids a)(p \<mapsto> [])\<rparr>)"
proof -
  from safe_del_P_list [OF links] obtain h1 where
    1: "on_lists (list_safe_del (Some (P_list p))) s = Some (s\<lparr>lists := h1\<rparr>)"
    "links (s\<lparr>lists := h1\<rparr>) (a_unlink p a)" by blast
  have "p \<notin> set fs" using links_distinct(1) [OF links] free by simp
  moreover have "p \<notin> set (a_ready a)" using links_one_queue(1) [OF links] free by simp
  moreover have "map_option (removeAll p) (a_procq a i) = a_procq a i" for i
    using links_one_queue(2) [OF links, of p i] free by (cases "a_procq a i") auto
  ultimately have un: "a_unlink p a = a\<lparr>a_free := fs\<rparr>"
    by (simp add: a_unlink_def free)
  have nx: "get_next (Some PcbFree_h) (lists s) = Some (Some (P_list p))"
    using get_next_abs [OF links_lists [OF links], of PcbFree_h] free by simp
  have "\<exists>h. resetPcb A (Some p) (s\<lparr>lists := h1\<rparr>)
      = Some (Some p, s\<lparr>lists := h1\<rparr>\<lparr>lists := h,
          pcbs := (pcbs (s\<lparr>lists := h1\<rparr>))(p := reset_pcb A (pcbs (s\<lparr>lists := h1\<rparr>) p))\<rparr>)
    \<and> links (s\<lparr>lists := h1\<rparr>\<lparr>lists := h\<rparr>) ((a_unlink p a)\<lparr>a_kids := (a_kids (a_unlink p a))(p \<mapsto> [])\<rparr>)"
    by (rule resetPcb_abs [OF 1(2) not_queued_unlink]) (use sib kids in \<open>auto simp: un\<close>)
  then obtain h where
    "resetPcb A (Some p) (s\<lparr>lists := h1\<rparr>)
      = Some (Some p, s\<lparr>lists := h, pcbs := (pcbs s)(p := reset_pcb A (pcbs s p))\<rparr>)"
    "links (s\<lparr>lists := h\<rparr>) (a\<lparr>a_free := fs, a_kids := (a_kids a)(p \<mapsto> [])\<rparr>)"
    by (auto simp: un)
  then show ?thesis
    using 1(1) by (intro exI [of _ h])
      (simp add: allocPcb_def empty_lists_abs [OF links] first_entries_abs [OF links] free nx)
qed

section \<open>Process trees\<close>

lemma emptyChild_abs:
  "links s a \<Longrightarrow> a_kids a p = Some ks \<Longrightarrow> emptyChild (Some p) s = Some (ks = [])"
  by (simp add: emptyChild_def empty_lists_abs)

lemma insertChild_abs:
  assumes "links s a" and "a_kids a q = Some ks"
    and "\<And>j ks. a_kids a j = Some ks \<Longrightarrow> p \<notin> set ks"
  shows "\<exists>h. insertChild (Some q) (Some p) s
      = Some (s\<lparr>lists := h, pcbs := (pcbs s)(p := (pcbs s p)\<lparr>p_parent := Some q\<rparr>)\<rparr>)
    \<and> links (s\<lparr>lists := h\<rparr>) (a\<lparr>a_kids := (a_kids a)(q \<mapsto> ks @ [p])\<rparr>)"
proof -
  let ?s = "s\<lparr>pcbs := (pcbs s)(p := (pcbs s p)\<lparr>p_parent := Some q\<rparr>)\<rparr>"
  have "links ?s a" using assms(1) by (simp add: links_def)
  then have "\<exists>h. on_lists (list_add_tail (Some (P_sib p)) (Some (P_child q))) ?s = Some (?s\<lparr>lists := h\<rparr>)
    \<and> links (?s\<lparr>lists := h\<rparr>) (a\<lparr>a_kids := (a_kids a)(q \<mapsto> ks @ [p])\<rparr>)"
    by (rule add_tail_child) (use assms(2,3) in auto)
  then obtain h where
    "on_lists (list_add_tail (Some (P_sib p)) (Some (P_child q))) ?s = Some (?s\<lparr>lists := h\<rparr>)"
    "links (?s\<lparr>lists := h\<rparr>) (a\<lparr>a_kids := (a_kids a)(q \<mapsto> ks @ [p])\<rparr>)" by blast
  then show ?thesis by (intro exI [of _ h]) (simp add: insertChild_def links_def)
qed

lemma outChild_orphan: "p_parent (pcbs s p) = None \<Longrightarrow> outChild (Some p) s = Some (None, s)"
  by (simp add: outChild_def)

lemma outChild_abs:
  assumes "links s a" and "p_parent (pcbs s p) = Some q" and "a_kids a q = Some ks" and "p \<in> set ks"
  shows "\<exists>h. outChild (Some p) s
      = Some (Some p, s\<lparr>lists := h, pcbs := (pcbs s)(p := (pcbs s p)\<lparr>p_parent := None\<rparr>)\<rparr>)
    \<and> links (s\<lparr>lists := h\<rparr>) (a\<lparr>a_kids := (a_kids a)(q \<mapsto> removeAll p ks)\<rparr>)"
proof -
  from del_P_sib [OF assms(1,3,4)] obtain h where
    "on_lists (list_del (Some (P_sib p))) s = Some (s\<lparr>lists := h\<rparr>)"
    "links (s\<lparr>lists := h\<rparr>) (a\<lparr>a_kids := (a_kids a)(q \<mapsto> removeAll p ks)\<rparr>)" by blast
  moreover have "ks \<noteq> []" using assms(4) by auto
  ultimately show ?thesis
    using assms(2) by (intro exI [of _ h]) (simp add: outChild_def empty_lists_abs(6) [OF assms(1,3)])
qed

lemma removeChild_none:
  "links s a \<Longrightarrow> a_kids a p = Some [] \<Longrightarrow> removeChild (Some p) s = Some (None, s)"
  by (simp add: removeChild_def emptyChild_abs)

lemma removeChild_abs:
  assumes "links s a" and "a_kids a q = Some (c # ks)" and "p_parent (pcbs s c) = Some q"
  shows "\<exists>h. removeChild (Some q) s
      = Some (Some c, s\<lparr>lists := h, pcbs := (pcbs s)(c := (pcbs s c)\<lparr>p_parent := None\<rparr>)\<rparr>)
    \<and> links (s\<lparr>lists := h\<rparr>) (a\<lparr>a_kids := (a_kids a)(q \<mapsto> ks)\<rparr>)"
  using outChild_abs [OF assms(1,3,2)] links_distinct(7) [OF assms(1,2)]
  by (simp add: removeChild_def emptyChild_abs [OF assms(1,2)] first_entries_abs(6) [OF assms(1,2)])

end
