(* ===== verification/Ash_Abs.thy ===== *)
theory Ash_Abs
  imports Pcb_Abs
begin

text \<open>
  The abstraction of the active semaphore hash table: a map from the address of a semaphore to
  the queue of the processes blocked on it.  \<open>ash_inv s a\<close> is the invariant of the table; under
  it each operation of \<open>ash.c\<close> is an operation on that map.
\<close>

section \<open>Descriptors\<close>

definition hashed :: "akernel \<Rightarrow> nat set" where
  "hashed a = hnodes (a_bkt a)"

definition desc :: "kstate \<Rightarrow> akernel \<Rightarrow> u32 \<Rightarrow> nat option" where
  "desc s a k = find (\<lambda>i. s_key (semds s i) = k) (a_bkt a (bucket_of HASHSZ k))"

definition queue_of :: "akernel \<Rightarrow> nat \<Rightarrow> nat list" where
  "queue_of a i = (case a_procq a i of None \<Rightarrow> [] | Some q \<Rightarrow> q)"

definition semq :: "kstate \<Rightarrow> akernel \<Rightarrow> u32 \<Rightarrow> nat list" where
  "semq s a k = (case desc s a k of None \<Rightarrow> [] | Some i \<Rightarrow> queue_of a i)"

text \<open>
  Every hashed descriptor hangs in the bucket of its key, no two have the same key, their
  queues are exactly the queues that are not empty, the other descriptors are free, and
  \<open>p_semAdd\<close> of a process is the key of the descriptor it is queued on (0 if there is none).
\<close>

definition ash_inv :: "kstate \<Rightarrow> akernel \<Rightarrow> bool" where
  "ash_inv s a \<longleftrightarrow>
     (\<forall>b. \<forall>i \<in> set (a_bkt a b). s_key (semds s i) \<noteq> 0 \<and> bucket_of HASHSZ (s_key (semds s i)) = b) \<and>
     inj_on (\<lambda>i. s_key (semds s i)) (hashed a) \<and>
     (\<forall>i. i \<in> hashed a \<longleftrightarrow> queue_of a i \<noteq> []) \<and>
     set (a_semfree a) = {..<MAXPROC} - hashed a \<and> hashed a \<subseteq> {..<MAXPROC} \<and>
     (\<forall>p k. k \<noteq> 0 \<longrightarrow> (p_semAdd (pcbs s p) = k \<longleftrightarrow>
        (\<exists>i. i \<in> hashed a \<and> s_key (semds s i) = k \<and> p \<in> set (queue_of a i))))"

lemma ash_invD:
  assumes "ash_inv s a"
  shows "i \<in> set (a_bkt a b) \<Longrightarrow> s_key (semds s i) \<noteq> 0"
    and "i \<in> set (a_bkt a b) \<Longrightarrow> bucket_of HASHSZ (s_key (semds s i)) = b"
    and "inj_on (\<lambda>i. s_key (semds s i)) (hashed a)"
    and "i \<in> hashed a \<longleftrightarrow> queue_of a i \<noteq> []"
    and "set (a_semfree a) = {..<MAXPROC} - hashed a"
    and "hashed a \<subseteq> {..<MAXPROC}"
    and "k \<noteq> 0 \<Longrightarrow> p_semAdd (pcbs s p) = k \<longleftrightarrow>
      (\<exists>i. i \<in> hashed a \<and> s_key (semds s i) = k \<and> p \<in> set (queue_of a i))"
  using assms unfolding ash_inv_def by blast+

lemma hashed_key: "ash_inv s a \<Longrightarrow> i \<in> hashed a \<Longrightarrow>
    s_key (semds s i) \<noteq> 0 \<and> i \<in> set (a_bkt a (bucket_of HASHSZ (s_key (semds s i))))"
  unfolding hashed_def hnodes_def using ash_invD(1,2) [of s a i] by blast

lemma desc_SomeD: "desc s a k = Some i \<Longrightarrow> i \<in> hashed a \<and> s_key (semds s i) = k"
proof -
  assume "desc s a k = Some i"
  then have "i \<in> set (a_bkt a (bucket_of HASHSZ k))" "s_key (semds s i) = k"
    by (auto simp: desc_def find_Some_iff)
  then show ?thesis by (auto simp: hashed_def intro: hnodesI)
qed

lemma desc_Some:
  assumes "ash_inv s a"
  shows "desc s a k = Some i \<longleftrightarrow> i \<in> hashed a \<and> s_key (semds s i) = k"
proof
  assume "desc s a k = Some i"
  then show "i \<in> hashed a \<and> s_key (semds s i) = k" by (rule desc_SomeD)
next
  assume i: "i \<in> hashed a \<and> s_key (semds s i) = k"
  with hashed_key [OF assms] have "i \<in> set (a_bkt a (bucket_of HASHSZ k))" by blast
  with i obtain j where j: "desc s a k = Some j"
    by (cases "desc s a k") (auto simp: desc_def find_None_iff)
  then have "s_key (semds s j) = k" "j \<in> hashed a"
    using desc_SomeD by blast+
  with i ash_invD(3) [OF assms] have "i = j" by (auto dest: inj_onD)
  with j show "desc s a k = Some i" by simp
qed

lemma desc_None:
  "ash_inv s a \<Longrightarrow> desc s a k = None \<longleftrightarrow> (\<forall>i \<in> hashed a. s_key (semds s i) \<noteq> k)"
  using desc_Some [of s a k] by (metis not_None_eq)

lemma semq_hashed: "ash_inv s a \<Longrightarrow> i \<in> hashed a \<Longrightarrow> semq s a (s_key (semds s i)) = queue_of a i"
  using desc_Some [of s a "s_key (semds s i)" i] by (simp add: semq_def)

lemma semq_zero: "ash_inv s a \<Longrightarrow> semq s a 0 = []"
  using desc_None [of s a 0] hashed_key [of s a] by (auto simp: semq_def)

lemma semq_empty: "ash_inv s a \<Longrightarrow> semq s a k = [] \<longleftrightarrow> desc s a k = None"
  using desc_Some [of s a k] ash_invD(4) [of s a] by (auto simp: semq_def split: option.split)

lemma in_semq_desc:
  assumes "ash_inv s a"
  shows "p \<in> set (semq s a k) \<longleftrightarrow> (\<exists>i. i \<in> hashed a \<and> s_key (semds s i) = k \<and> p \<in> set (queue_of a i))"
proof (cases "desc s a k")
  case None
  then show ?thesis using desc_None [OF assms, of k] by (auto simp: semq_def)
next
  case (Some j)
  then have "i \<in> hashed a \<and> s_key (semds s i) = k \<longleftrightarrow> i = j" for i
    using desc_Some [OF assms, of k i] by auto
  then have "(\<exists>i. i \<in> hashed a \<and> s_key (semds s i) = k \<and> p \<in> set (queue_of a i))
    \<longleftrightarrow> p \<in> set (queue_of a j)" by metis
  with Some show ?thesis by (simp add: semq_def)
qed

lemma in_semq: "ash_inv s a \<Longrightarrow> k \<noteq> 0 \<Longrightarrow> p \<in> set (semq s a k) \<longleftrightarrow> p_semAdd (pcbs s p) = k"
  by (simp add: in_semq_desc ash_invD(7))

lemma in_semq_semAdd: "ash_inv s a \<Longrightarrow> p \<in> set (semq s a k) \<Longrightarrow> p_semAdd (pcbs s p) = k \<and> k \<noteq> 0"
  using in_semq [of s a k p] semq_zero [of s a] by (cases "k = 0") auto

text \<open>Two ways of looking at the queues: by descriptor, where the links are, and by key.\<close>

lemma queued_semq:
  assumes "ash_inv s a"
  shows "queued p a \<longleftrightarrow> p \<in> set (a_free a) \<or> p \<in> set (a_ready a) \<or> p_semAdd (pcbs s p) \<noteq> 0"
proof -
  have "(\<exists>i q. a_procq a i = Some q \<and> p \<in> set q) \<longleftrightarrow> (\<exists>i. p \<in> set (queue_of a i))"
  proof
    assume "\<exists>i q. a_procq a i = Some q \<and> p \<in> set q"
    then obtain i q where "a_procq a i = Some q" "p \<in> set q" by blast
    then have "p \<in> set (queue_of a i)" by (simp add: queue_of_def)
    then show "\<exists>i. p \<in> set (queue_of a i)" ..
  next
    assume "\<exists>i. p \<in> set (queue_of a i)"
    then obtain i where "p \<in> set (queue_of a i)" by blast
    then show "\<exists>i q. a_procq a i = Some q \<and> p \<in> set q"
      by (cases "a_procq a i") (auto simp: queue_of_def)
  qed
  also have "\<dots> \<longleftrightarrow> p_semAdd (pcbs s p) \<noteq> 0"
  proof
    assume "\<exists>i. p \<in> set (queue_of a i)"
    then obtain i where i: "p \<in> set (queue_of a i)" by blast
    then have "i \<in> hashed a" using ash_invD(4) [OF assms, of i] by auto
    with i hashed_key [OF assms this] ash_invD(7) [OF assms, of "s_key (semds s i)" p]
    show "p_semAdd (pcbs s p) \<noteq> 0" by auto
  next
    assume "p_semAdd (pcbs s p) \<noteq> 0"
    then show "\<exists>i. p \<in> set (queue_of a i)" using ash_invD(7) [OF assms] by blast
  qed
  finally show ?thesis by (simp add: queued_def)
qed

text \<open>The invariant reads only the fields it names.\<close>

lemma ash_inv_cong:
  assumes "semds s' = semds s" and "\<And>p. p_semAdd (pcbs s' p) = p_semAdd (pcbs s p)"
    and "a_bkt a' = a_bkt a" and "\<And>i. queue_of a' i = queue_of a i" and "set (a_semfree a') = set (a_semfree a)"
  shows "ash_inv s' a' = ash_inv s a" and "semq s' a' = semq s a"
proof -
  have "hashed a' = hashed a" by (simp add: hashed_def assms)
  then show "ash_inv s' a' = ash_inv s a" by (simp add: ash_inv_def assms)
  have "semq s' a' k = semq s a k" for k
    by (simp add: semq_def desc_def assms cong: option.case_cong)
  then show "semq s' a' = semq s a" ..
qed

section \<open>The search\<close>

lemma first_return_find:
  "first_return (\<lambda>x. Some (if P x then Inl x else Inr ())) xs =
    Some (case find P xs of None \<Rightarrow> Inr () | Some x \<Rightarrow> Inl x)"
  by (induction xs) auto

lemma find_semd_abs: "links s a \<Longrightarrow> find_semd k s = Some (desc s a k)"
  by (auto simp: find_semd_def desc_def links_def hash_for_each_possible_abs [where B = "a_bkt a"]
      first_return_find split: option.split)

lemma semd_procq:
  "ash_inv s a \<Longrightarrow> desc s a k = Some i \<Longrightarrow> a_procq a i = Some (semq s a k) \<and> semq s a k \<noteq> []"
  using desc_Some [of s a k i] ash_invD(4) [of s a i]
  by (auto simp: semq_def queue_of_def split: option.splits)

lemma headBlocked_abs:
  assumes "links s a" and "ash_inv s a"
  shows "headBlocked k s = Some (case semq s a k of [] \<Rightarrow> None | p # _ \<Rightarrow> Some p)"
proof (cases "k = 0 \<or> desc s a k = None")
  case True
  then show ?thesis using semq_zero [OF assms(2)] semq_empty [OF assms(2), of k]
    by (auto simp: headBlocked_def find_semd_abs [OF assms(1)])
next
  case False
  then obtain i where i: "desc s a k = Some i" by auto
  from semd_procq [OF assms(2) i] obtain p q where "semq s a k = p # q" "a_procq a i = Some (p # q)"
    by (cases "semq s a k") auto
  then show ?thesis using False i
    by (simp add: headBlocked_def find_semd_abs [OF assms(1)] empty_lists_abs(5) [OF assms(1)]
        first_entries_abs(5) [OF assms(1)])
qed

section \<open>Changes of the table that keep its invariant\<close>

text \<open>
  A process joins the queue of a descriptor in use, or of a fresh one; it leaves a queue that
  others still wait in, or one that becomes empty and gives its descriptor back.
\<close>

lemma ash_join:
  assumes inv: "ash_inv s a" and i: "desc s a k = Some i" and p: "p_semAdd (pcbs s p) = 0"
    and ds: "semds s' = semds s"
    and ad: "\<And>x. p_semAdd (pcbs s' x) = (if x = p then k else p_semAdd (pcbs s x))"
  defines "a' \<equiv> a\<lparr>a_procq := (a_procq a)(i \<mapsto> semq s a k @ [p])\<rparr>"
  shows "ash_inv s' a'" and "semq s' a' = (semq s a)(k := semq s a k @ [p])"
proof -
  have ik: "i \<in> hashed a" "s_key (semds s i) = k" "semq s a k = queue_of a i" "k \<noteq> 0"
    using desc_SomeD [OF i] i hashed_key [OF inv, of i] by (auto simp: semq_def)
  have h: "hashed a' = hashed a" by (simp add: hashed_def a'_def)
  have q: "queue_of a' j = (if j = i then queue_of a i @ [p] else queue_of a j)" for j
    by (simp add: queue_of_def a'_def ik)
  have nq: "p \<notin> set (queue_of a j)" if "j \<in> hashed a" for j
    using ash_invD(7) [OF inv, of "s_key (semds s j)" p] hashed_key [OF inv that] that p by auto
  have mem: "p_semAdd (pcbs s' x) = k' \<longleftrightarrow>
      (\<exists>j. j \<in> hashed a' \<and> s_key (semds s' j) = k' \<and> x \<in> set (queue_of a' j))" if "k' \<noteq> 0" for x k'
  proof (cases "x = p")
    case True
    have "j \<in> hashed a' \<and> s_key (semds s' j) = k' \<and> p \<in> set (queue_of a' j) \<longleftrightarrow> j = i \<and> k' = k" for j
      using ik nq [of j] by (auto simp: h ds q)
    then show ?thesis using True by (auto simp: ad)
  next
    case False
    then have "x \<in> set (queue_of a' j) \<longleftrightarrow> x \<in> set (queue_of a j)" for j by (simp add: q)
    then show ?thesis using False ash_invD(7) [OF inv that, of x] by (simp add: ad h ds)
  qed
  have "queue_of a' j \<noteq> [] \<longleftrightarrow> queue_of a j \<noteq> []" for j
    using ash_invD(4) [OF inv, of i] ik by (simp add: q)
  moreover have "a_bkt a' = a_bkt a" "a_semfree a' = a_semfree a" by (simp_all add: a'_def)
  ultimately show "ash_inv s' a'"
    unfolding ash_inv_def using mem ash_invD [OF inv] by (simp add: h ds)
  have d: "desc s' a' k' = desc s a k'" for k' by (simp add: desc_def ds a'_def)
  show "semq s' a' = (semq s a)(k := semq s a k @ [p])"
  proof
    fix k'
    show "semq s' a' k' = ((semq s a)(k := semq s a k @ [p])) k'"
      using i desc_SomeD [of s a k'] ik by (cases "desc s a k'") (auto simp: semq_def d q)
  qed
qed

lemma hnodes_cons: "hnodes (B(b := i # B b)) = insert i (hnodes B)"
  by (auto simp: hnodes_def split: if_splits)

lemma ash_join_new:
  assumes inv: "ash_inv s a" and none: "desc s a k = None" and k: "k \<noteq> 0"
    and p: "p_semAdd (pcbs s p) = 0" and fs: "a_semfree a = i # fs" and dist: "distinct (a_semfree a)"
    and ds: "semds s' = (semds s)(i := d)" "s_key d = k"
    and ad: "\<And>x. p_semAdd (pcbs s' x) = (if x = p then k else p_semAdd (pcbs s x))"
  defines "a' \<equiv> a\<lparr>a_semfree := fs, a_procq := (a_procq a)(i \<mapsto> [p]),
    a_bkt := (a_bkt a)(bucket_of HASHSZ k := i # a_bkt a (bucket_of HASHSZ k))\<rparr>"
  shows "ash_inv s' a'" and "semq s' a' = (semq s a)(k := semq s a k @ [p])"
proof -
  have i: "i \<notin> hashed a" "i < MAXPROC" using ash_invD(5) [OF inv] fs by auto
  then have ib: "i \<notin> set (a_bkt a b)" for b using hnodesI [of i "a_bkt a" b] by (auto simp: hashed_def)
  have h: "hashed a' = insert i (hashed a)" by (simp add: hashed_def a'_def hnodes_cons)
  have q: "queue_of a' j = (if j = i then [p] else queue_of a j)" for j
    by (simp add: queue_of_def a'_def)
  have key: "s_key (semds s' j) = (if j = i then k else s_key (semds s j))" for j
    by (simp add: ds)
  have nk: "s_key (semds s j) \<noteq> k" if "j \<in> hashed a" for j
    using none that desc_None [OF inv] by blast
  have nq: "p \<notin> set (queue_of a j)" if "j \<in> hashed a" for j
    using ash_invD(7) [OF inv, of "s_key (semds s j)" p] hashed_key [OF inv that] that p by auto
  have bkt: "\<forall>b. \<forall>j \<in> set (a_bkt a' b). s_key (semds s' j) \<noteq> 0 \<and> bucket_of HASHSZ (s_key (semds s' j)) = b"
    using ash_invD(1,2) [OF inv] k by (auto simp: a'_def ds ib split: if_splits)
  have inj: "inj_on (\<lambda>j. s_key (semds s' j)) (hashed a')"
    using ash_invD(3) [OF inv] nk i by (auto simp: h key inj_on_def)
  have mem: "p_semAdd (pcbs s' x) = k' \<longleftrightarrow>
      (\<exists>j. j \<in> hashed a' \<and> s_key (semds s' j) = k' \<and> x \<in> set (queue_of a' j))" if "k' \<noteq> 0" for x k'
  proof (cases "x = p")
    case True
    have "j \<in> hashed a' \<and> s_key (semds s' j) = k' \<and> p \<in> set (queue_of a' j) \<longleftrightarrow> j = i \<and> k' = k" for j
      using i nq [of j] by (auto simp: h key q)
    then show ?thesis using True by (auto simp: ad)
  next
    case False
    then have "j \<in> hashed a' \<and> s_key (semds s' j) = k' \<and> x \<in> set (queue_of a' j)
      \<longleftrightarrow> j \<in> hashed a \<and> s_key (semds s j) = k' \<and> x \<in> set (queue_of a j)" for j
      using i by (auto simp: h key q)
    with False show ?thesis using ash_invD(7) [OF inv that, of x] by (simp add: ad)
  qed
  have ne: "\<forall>j. j \<in> hashed a' \<longleftrightarrow> queue_of a' j \<noteq> []"
    using ash_invD(4) [OF inv] by (simp add: h q)
  have fr: "set (a_semfree a') = {..<MAXPROC} - hashed a'"
  proof -
    have "set fs = set (a_semfree a) - {i}" using fs dist by auto
    moreover have "a_semfree a' = fs" by (simp add: a'_def)
    ultimately show ?thesis using ash_invD(5) [OF inv] unfolding h by blast
  qed
  have "hashed a' \<subseteq> {..<MAXPROC}" using ash_invD(6) [OF inv] i by (simp add: h)
  with bkt inj mem ne fr show inv': "ash_inv s' a'" unfolding ash_inv_def by blast
  show "semq s' a' = (semq s a)(k := semq s a k @ [p])"
  proof
    fix k'
    have "desc s' a' k' = (if k' = k then Some i else desc s a k')"
    proof (cases "desc s a k'")
      case None
      then show ?thesis using desc_None [OF inv, of k'] desc_None [OF inv', of k'] desc_Some [OF inv', of k i] i
        by (auto simp: h key split: if_splits)
    next
      case (Some j)
      with none have "k' \<noteq> k" by auto
      with Some desc_SomeD [OF Some] i show ?thesis
        using desc_Some [OF inv', of k' j] by (auto simp: h key)
    qed
    then show "semq s' a' k' = ((semq s a)(k := semq s a k @ [p])) k'"
      using none desc_SomeD [of s a k'] i by (auto simp: semq_def q split: option.split)
  qed
qed

lemma ash_leave_queues:
  assumes inv: "ash_inv s a" and i: "desc s a k = Some i" and p: "p \<in> set (semq s a k)"
    and q: "\<And>j. queue_of a' j = (if j = i then removeAll p (semq s a k) else queue_of a j)"
    and h: "hashed a' = (if removeAll p (semq s a k) = [] then hashed a - {i} else hashed a)"
    and ds: "semds s' = semds s"
    and ad: "\<And>x. p_semAdd (pcbs s' x) = (if x = p then 0 else p_semAdd (pcbs s x))"
  shows "\<forall>j. j \<in> hashed a' \<longleftrightarrow> queue_of a' j \<noteq> []"
    and "\<forall>x k'. k' \<noteq> 0 \<longrightarrow> (p_semAdd (pcbs s' x) = k' \<longleftrightarrow>
      (\<exists>j. j \<in> hashed a' \<and> s_key (semds s' j) = k' \<and> x \<in> set (queue_of a' j)))"
proof -
  have ik: "i \<in> hashed a" "s_key (semds s i) = k" "semq s a k = queue_of a i"
    using desc_SomeD [OF i] i by (auto simp: semq_def)
  have pk: "p_semAdd (pcbs s p) = k" "k \<noteq> 0" using in_semq_semAdd [OF inv p] by auto
  show ne: "\<forall>j. j \<in> hashed a' \<longleftrightarrow> queue_of a' j \<noteq> []"
    using ash_invD(4) [OF inv] ik by (simp add: h q)
  have out: "p \<notin> set (queue_of a j)" if "j \<in> hashed a" "j \<noteq> i" for j
  proof
    assume "p \<in> set (queue_of a j)"
    with that(1) ash_invD(7) [OF inv, of "s_key (semds s j)" p] hashed_key [OF inv that(1)]
    have "s_key (semds s j) = k" using pk by auto
    with ash_invD(3) [OF inv] ik that show False by (auto dest: inj_onD)
  qed
  have "p_semAdd (pcbs s' x) = k' \<longleftrightarrow>
      (\<exists>j. j \<in> hashed a' \<and> s_key (semds s' j) = k' \<and> x \<in> set (queue_of a' j))" if "k' \<noteq> 0" for x k'
  proof (cases "x = p")
    case True
    have "\<not> (j \<in> hashed a' \<and> s_key (semds s' j) = k' \<and> p \<in> set (queue_of a' j))" for j
      using out [of j] by (auto simp: h q split: if_splits)
    with True that show ?thesis by (auto simp: ad)
  next
    case False
    have "j \<in> hashed a' \<and> s_key (semds s' j) = k' \<and> x \<in> set (queue_of a' j)
      \<longleftrightarrow> j \<in> hashed a \<and> s_key (semds s j) = k' \<and> x \<in> set (queue_of a j)" for j
    proof (cases "j = i")
      case True
      have "x \<in> set (removeAll p (semq s a k)) \<longleftrightarrow> x \<in> set (queue_of a i)"
        using False ik(3) by auto
      moreover from this have "x \<in> set (queue_of a i) \<Longrightarrow> removeAll p (semq s a k) \<noteq> []"
        by (auto simp del: set_removeAll)
      ultimately show ?thesis using True ik(1) by (auto simp add: h q ds simp del: set_removeAll)
    next
      case False
      then show ?thesis by (simp add: h q ds)
    qed
    with False show ?thesis using ash_invD(7) [OF inv that, of x] by (simp add: ad)
  qed
  then show "\<forall>x k'. k' \<noteq> 0 \<longrightarrow> (p_semAdd (pcbs s' x) = k' \<longleftrightarrow>
      (\<exists>j. j \<in> hashed a' \<and> s_key (semds s' j) = k' \<and> x \<in> set (queue_of a' j)))" by blast
qed

lemma ash_leave:
  assumes inv: "ash_inv s a" and i: "desc s a k = Some i" and p: "p \<in> set (semq s a k)"
    and r: "removeAll p (semq s a k) \<noteq> []" and ds: "semds s' = semds s"
    and ad: "\<And>x. p_semAdd (pcbs s' x) = (if x = p then 0 else p_semAdd (pcbs s x))"
  defines "a' \<equiv> a\<lparr>a_procq := (a_procq a)(i \<mapsto> removeAll p (semq s a k))\<rparr>"
  shows "ash_inv s' a'" and "semq s' a' = (semq s a)(k := removeAll p (semq s a k))"
proof -
  have q: "queue_of a' j = (if j = i then removeAll p (semq s a k) else queue_of a j)" for j
    by (simp add: queue_of_def a'_def)
  have h: "hashed a' = hashed a" by (simp add: hashed_def a'_def)
  have "hashed a' = (if removeAll p (semq s a k) = [] then hashed a - {i} else hashed a)"
    using r h by simp
  note qs = ash_leave_queues [OF inv i p q this ds ad]
  have same: "a_bkt a' = a_bkt a" "a_semfree a' = a_semfree a" by (simp_all add: a'_def)
  show "ash_inv s' a'"
    unfolding ash_inv_def same using ash_invD(1,2,3,5,6) [OF inv] qs by (simp add: h ds)
  have d: "desc s' a' k' = desc s a k'" for k' by (simp add: desc_def ds a'_def)
  show "semq s' a' = (semq s a)(k := removeAll p (semq s a k))"
  proof
    fix k'
    show "semq s' a' k' = ((semq s a)(k := removeAll p (semq s a k))) k'"
      using i desc_SomeD [of s a k'] desc_SomeD [OF i] by (cases "desc s a k'") (auto simp: semq_def d q)
  qed
qed

lemma ash_leave_last:
  assumes inv: "ash_inv s a" and i: "desc s a k = Some i" and p: "p \<in> set (semq s a k)"
    and r: "removeAll p (semq s a k) = []" and ds: "semds s' = semds s"
    and ad: "\<And>x. p_semAdd (pcbs s' x) = (if x = p then 0 else p_semAdd (pcbs s x))"
  defines "a' \<equiv> a\<lparr>a_procq := (a_procq a)(i \<mapsto> []), a_semfree := i # a_semfree a,
    a_bkt := (a_bkt a)(bucket_of HASHSZ k := removeAll i (a_bkt a (bucket_of HASHSZ k)))\<rparr>"
  shows "ash_inv s' a'" and "semq s' a' = (semq s a)(k := removeAll p (semq s a k))"
proof -
  have ik: "i \<in> hashed a" "s_key (semds s i) = k" using desc_SomeD [OF i] by auto
  have q: "queue_of a' j = (if j = i then removeAll p (semq s a k) else queue_of a j)" for j
    using r by (simp add: queue_of_def a'_def)
  have bkt: "set (a_bkt a' b) = set (a_bkt a b) - {i}" for b
    using ash_invD(2) [OF inv, of i b] ik(2) by (auto simp: a'_def)
  then have h: "hashed a' = hashed a - {i}" by (auto simp: hashed_def hnodes_def)
  have "hashed a' = (if removeAll p (semq s a k) = [] then hashed a - {i} else hashed a)"
    using r h by simp
  note qs = ash_leave_queues [OF inv i p q this ds ad]
  have "\<forall>b. \<forall>j \<in> set (a_bkt a' b). s_key (semds s' j) \<noteq> 0 \<and> bucket_of HASHSZ (s_key (semds s' j)) = b"
    unfolding bkt ds using ash_invD(1,2) [OF inv] by blast
  moreover have "inj_on (\<lambda>j. s_key (semds s' j)) (hashed a')"
    using ash_invD(3) [OF inv] by (simp add: h ds inj_on_diff)
  moreover have "set (a_semfree a') = {..<MAXPROC} - hashed a'"
  proof -
    have "a_semfree a' = i # a_semfree a" by (simp add: a'_def)
    then show ?thesis using ash_invD(5,6) [OF inv] ik unfolding h by auto
  qed
  moreover have "hashed a' \<subseteq> {..<MAXPROC}" using ash_invD(6) [OF inv] h by blast
  ultimately show inv': "ash_inv s' a'" unfolding ash_inv_def using qs by blast
  have d: "desc s' a' k' = (if k' = k then None else desc s a k')" for k'
  proof (cases "desc s a k'")
    case None
    then show ?thesis using i desc_None [OF inv, of k'] desc_None [OF inv', of k']
      by (auto simp: h ds)
  next
    case (Some j)
    show ?thesis
    proof (cases "k' = k")
      case True
      have "j = i" if "j \<in> hashed a" "s_key (semds s j) = k" for j
        using desc_Some [OF inv, of k j] that i by simp
      then show ?thesis using True desc_None [OF inv', of k] by (auto simp: h ds)
    next
      case False
      then show ?thesis using Some desc_SomeD [OF Some] ik desc_Some [OF inv', of k' j]
        by (auto simp: h ds)
    qed
  qed
  show "semq s' a' = (semq s a)(k := removeAll p (semq s a k))"
  proof
    fix k'
    show "semq s' a' k' = ((semq s a)(k := removeAll p (semq s a k))) k'"
      using r desc_SomeD [of s a k'] ik by (auto simp: semq_def d q split: option.split)
  qed
qed

section \<open>The operations of ash.c\<close>

definition same_rest :: "akernel \<Rightarrow> akernel \<Rightarrow> bool" where
  "same_rest a a' \<longleftrightarrow> a_free a' = a_free a \<and> a_ready a' = a_ready a \<and> a_kids a' = a_kids a \<and>
     a_nsfree a' = a_nsfree a \<and> a_nslist a' = a_nslist a"

definition set_semAdd :: "nat \<Rightarrow> u32 \<Rightarrow> kstate \<Rightarrow> kstate" where
  "set_semAdd p k s = s\<lparr>pcbs := (pcbs s)(p := (pcbs s p)\<lparr>p_semAdd := k\<rparr>)\<rparr>"

lemma insertBlocked_errors:
  "insertBlocked 0 p s = Some (1, s)" "insertBlocked k None s = Some (1, s)"
  "k \<noteq> 0 \<Longrightarrow> p_semAdd (pcbs s i) \<noteq> 0 \<Longrightarrow> insertBlocked k (Some i) s = Some (2, s)"
  by (simp_all add: insertBlocked_def)

lemma insertBlocked_full:
  assumes "links s a" and "k \<noteq> 0" and "p_semAdd (pcbs s p) = 0" and "desc s a k = None" and "a_semfree a = []"
  shows "insertBlocked k (Some p) s = Some (3, s)"
  using assms by (simp add: insertBlocked_def find_semd_abs empty_lists_abs)

lemma insertBlocked_found:
  assumes links: "links s a" and inv: "ash_inv s a" and k: "k \<noteq> 0"
    and p: "p_semAdd (pcbs s p) = 0" "\<not> queued p a" and i: "desc s a k = Some i"
  shows "\<exists>h a'. insertBlocked k (Some p) s = Some (0, set_semAdd p k (s\<lparr>lists := h\<rparr>))
    \<and> links (set_semAdd p k (s\<lparr>lists := h\<rparr>)) a' \<and> ash_inv (set_semAdd p k (s\<lparr>lists := h\<rparr>)) a'
    \<and> semq (set_semAdd p k (s\<lparr>lists := h\<rparr>)) a' = (semq s a)(k := semq s a k @ [p]) \<and> same_rest a a'"
proof -
  let ?a = "a\<lparr>a_procq := (a_procq a)(i \<mapsto> semq s a k @ [p])\<rparr>"
  from add_tail_procq [OF links, of i "semq s a k" p] semd_procq [OF inv i] p obtain h where
    h: "on_lists (list_add_tail (Some (P_list p)) (Some (S_procq i))) s = Some (s\<lparr>lists := h\<rparr>)"
    "links (s\<lparr>lists := h\<rparr>) ?a" by auto
  let ?s = "set_semAdd p k (s\<lparr>lists := h\<rparr>)"
  have "insertBlocked k (Some p) s = Some (0, ?s)"
    using k p i h(1) by (simp add: insertBlocked_def find_semd_abs [OF links] set_semAdd_def)
  moreover have "links ?s ?a" using h(2) by (simp add: links_def set_semAdd_def)
  moreover have "ash_inv ?s ?a" "semq ?s ?a = (semq s a)(k := semq s a k @ [p])"
    by (rule ash_join [OF inv i p(1)]; simp add: set_semAdd_def)+
  moreover have "same_rest a ?a" by (simp add: same_rest_def)
  ultimately show ?thesis by blast
qed

lemma insertBlocked_fresh:
  assumes links: "links s a" and inv: "ash_inv s a" and k: "k \<noteq> 0"
    and p: "p_semAdd (pcbs s p) = 0" "\<not> queued p a" and none: "desc s a k = None"
    and fs: "a_semfree a = i # fs"
  defines "t \<equiv> \<lambda>h hh. set_semAdd p k (s\<lparr>lists := h, semd_h := hh,
    semds := (semds s)(i := (semds s i)\<lparr>s_key := k\<rparr>)\<rparr>)"
  shows "\<exists>h hh a'. insertBlocked k (Some p) s = Some (0, t h hh)
    \<and> links (t h hh) a' \<and> ash_inv (t h hh) a'
    \<and> semq (t h hh) a' = (semq s a)(k := semq s a k @ [p]) \<and> same_rest a a'"
proof -
  have i: "i \<notin> hashed a" using ash_invD(5) [OF inv] fs by auto
  have dist: "distinct (a_semfree a)" by (rule links_distinct(5) [OF links])
  note L = links_lists [OF links]
  obtain h1 where h1: "list_del (Some (S_freelink i)) (lists s) = Some h1"
    "heap_abs h1 (Lmap (a\<lparr>a_semfree := fs\<rparr>))"
    using list_del_abs [OF L, of SemdFree_h "map S_freelink (a_semfree a)" "S_freelink i"] fs dist
      Lmap_upd(5) [of a fs] by (auto simp: map_links)
  have "queue_of a i = []" using ash_invD(4) [OF inv, of i] i by simp
  then have "a_procq a i = None \<or> a_procq a i = Some []"
    by (auto simp: queue_of_def split: option.splits)
  then have "S_procq i \<notin> lnodes (Lmap (a\<lparr>a_semfree := fs\<rparr>)) \<or> Lmap (a\<lparr>a_semfree := fs\<rparr>) (S_procq i) = Some []"
    by (auto simp: S_procq_in_lnodes)
  from INIT_LIST_HEAD_abs [OF h1(2) this] obtain h2 where
    h2: "INIT_LIST_HEAD (Some (S_procq i)) h1 = Some h2"
    "heap_abs h2 (Lmap (a\<lparr>a_semfree := fs, a_procq := (a_procq a)(i \<mapsto> [])\<rparr>))"
    using Lmap_upd(7) [of "a\<lparr>a_semfree := fs\<rparr>" i "[]"] by auto
  let ?a2 = "a\<lparr>a_semfree := fs, a_procq := (a_procq a)(i \<mapsto> [])\<rparr>"
  let ?s2 = "s\<lparr>lists := h2, semds := (semds s)(i := (semds s i)\<lparr>s_key := k\<rparr>)\<rparr>"
  have l2: "links ?s2 ?a2" using h2(2) links by (simp add: links_def)
  have "\<not> queued p ?a2" using p(2) by (auto simp: queued_def split: if_splits)
  from add_tail_procq [OF l2, of i "[]" p] this obtain h3 where
    h3: "on_lists (list_add_tail (Some (P_list p)) (Some (S_procq i))) ?s2 = Some (?s2\<lparr>lists := h3\<rparr>)"
    "links (?s2\<lparr>lists := h3\<rparr>) (?a2\<lparr>a_procq := (a_procq ?a2)(i \<mapsto> [p])\<rparr>)" by auto
  have "i \<notin> hnodes (a_bkt a)" using i by (simp add: hashed_def)
  from hash_add_abs [OF _ this, of "semd_h s" HASHSZ k] links obtain hh where
    hh: "hash_add HASHSZ (Some i) k (semd_h s) = Some hh"
    "hash_abs hh ((a_bkt a)(bucket_of HASHSZ k := i # a_bkt a (bucket_of HASHSZ k)))"
    by (auto simp: links_def)
  let ?a = "a\<lparr>a_semfree := fs, a_procq := (a_procq a)(i \<mapsto> [p]),
    a_bkt := (a_bkt a)(bucket_of HASHSZ k := i # a_bkt a (bucket_of HASHSZ k))\<rparr>"
  have "insertBlocked k (Some p) s = Some (0, t h3 hh)"
    using k p none fs h1(1) h2(1) h3(1) [unfolded on_lists_iff] hh(1)
    by (simp add: insertBlocked_def find_semd_abs [OF links] empty_lists_abs(4) [OF links]
        first_entries_abs(4) [OF links] on_lists_def on_hash_def set_semAdd_def t_def Let_def)
  moreover have "links (t h3 hh) ?a"
  proof -
    have "Lmap ?a = Lmap (?a2\<lparr>a_procq := (a_procq ?a2)(i \<mapsto> [p])\<rparr>)"
      by (rule ext, case_tac x) auto
    then show ?thesis using h3(2) hh(2) by (simp add: links_def set_semAdd_def t_def)
  qed
  moreover have "ash_inv (t h3 hh) ?a" "semq (t h3 hh) ?a = (semq s a)(k := semq s a k @ [p])"
    by (rule ash_join_new [OF inv none k p(1) fs dist, where d = "(semds s i)\<lparr>s_key := k\<rparr>"];
        simp add: set_semAdd_def t_def)+
  moreover have "same_rest a ?a" by (simp add: same_rest_def)
  ultimately show ?thesis by blast
qed

lemma semq_distinct: "links s a \<Longrightarrow> ash_inv s a \<Longrightarrow> distinct (semq s a k)"
  using semd_procq [of s a k] links_distinct(6) [of s a _ "semq s a k"]
  by (cases "desc s a k") (auto simp: semq_def)

lemma insertBlocked_abs:
  assumes "links s a" and "ash_inv s a" and "k \<noteq> 0"
    and "p_semAdd (pcbs s p) = 0" and "\<not> queued p a" and "semq s a k \<noteq> [] \<or> a_semfree a \<noteq> []"
  shows "\<exists>h hh ds a'. let t = set_semAdd p k (s\<lparr>lists := h, semd_h := hh, semds := ds\<rparr>) in
    insertBlocked k (Some p) s = Some (0, t) \<and> links t a' \<and> ash_inv t a'
    \<and> semq t a' = (semq s a)(k := semq s a k @ [p]) \<and> same_rest a a'"
proof (cases "desc s a k")
  case (Some i)
  from insertBlocked_found [OF assms(1-5) Some] obtain h a' where
    "insertBlocked k (Some p) s = Some (0, set_semAdd p k (s\<lparr>lists := h\<rparr>))
      \<and> links (set_semAdd p k (s\<lparr>lists := h\<rparr>)) a' \<and> ash_inv (set_semAdd p k (s\<lparr>lists := h\<rparr>)) a'
      \<and> semq (set_semAdd p k (s\<lparr>lists := h\<rparr>)) a' = (semq s a)(k := semq s a k @ [p]) \<and> same_rest a a'"
    by blast
  moreover have "s\<lparr>lists := h\<rparr> = s\<lparr>lists := h, semd_h := semd_h s, semds := semds s\<rparr>" by simp
  ultimately show ?thesis unfolding Let_def by metis
next
  case None
  with assms(2,6) obtain i fs where "a_semfree a = i # fs"
    using semq_empty [of s a k] by (cases "a_semfree a") auto
  from insertBlocked_fresh [OF assms(1-5) None this] show ?thesis unfolding Let_def by blast
qed

lemma leave_queue:
  assumes links: "links s a" and inv: "ash_inv s a" and i: "desc s a k = Some i" and p: "p \<in> set (semq s a k)"
  shows "\<exists>h hh a'. let t = set_semAdd p 0 (s\<lparr>lists := h, semd_h := hh\<rparr>) in
    do {
      s \<leftarrow> on_lists (list_del (Some (P_list p))) s;
      s \<leftarrow> store_pcb (Some p) (\<lambda>b. b\<lparr>p_semAdd := 0\<rparr>) s;
      s \<leftarrow> release_semd i s;
      Some (Some p, s)
    } = Some (Some p, t) \<and> links t a' \<and> ash_inv t a'
    \<and> semq t a' = (semq s a)(k := removeAll p (semq s a k)) \<and> same_rest a a'"
proof -
  let ?r = "removeAll p (semq s a k)"
  let ?a1 = "a\<lparr>a_procq := (a_procq a)(i \<mapsto> ?r)\<rparr>"
  have ik: "i \<in> hashed a" "s_key (semds s i) = k" using desc_SomeD [OF i] by auto
  from del_P_list_procq [OF links, of i "semq s a k" p] semd_procq [OF inv i] p obtain h1 where
    h1: "on_lists (list_del (Some (P_list p))) s = Some (s\<lparr>lists := h1\<rparr>)"
    "links (s\<lparr>lists := h1\<rparr>) ?a1" by auto
  let ?s1 = "set_semAdd p 0 (s\<lparr>lists := h1\<rparr>)"
  have l1: "links ?s1 ?a1" using h1(2) by (simp add: links_def set_semAdd_def)
  have e: "list_empty (Some (S_procq i)) (lists ?s1) = Some (?r = [])"
    by (rule empty_lists_abs(5) [OF l1]) simp
  show ?thesis
  proof (cases "?r = []")
    case False
    have "ash_inv ?s1 ?a1" "semq ?s1 ?a1 = (semq s a)(k := ?r)"
      by (rule ash_leave [OF inv i p False]; simp add: set_semAdd_def)+
    moreover have "same_rest a ?a1" by (simp add: same_rest_def)
    moreover have "?s1 = set_semAdd p 0 (s\<lparr>lists := h1, semd_h := semd_h s\<rparr>)"
      by (simp add: set_semAdd_def)
    ultimately show ?thesis
      using h1(1) e False l1
      by (intro exI [of _ h1] exI [of _ "semd_h s"] exI [of _ ?a1])
        (simp add: set_semAdd_def release_semd_def Let_def)
  next
    case True
    have ib: "i \<in> set (a_bkt a (bucket_of HASHSZ k))" using hashed_key [OF inv ik(1)] ik(2) by simp
    from hash_del_abs [of "semd_h s" "a_bkt a" i "bucket_of HASHSZ k"] links this obtain hh where
      hh: "hash_del (Some i) (semd_h s) = Some hh"
      "hash_abs hh ((a_bkt a)(bucket_of HASHSZ k := removeAll i (a_bkt a (bucket_of HASHSZ k))))"
      by (auto simp: links_def)
    have "S_freelink i \<notin> lnodes (Lmap ?a1)"
      using ash_invD(5) [OF inv] ik by (simp add: in_lnodes)
    from list_add_abs [OF links_lists [OF l1], of SemdFree_h _ "S_freelink i"] this obtain h2 where
      h2: "list_add (Some (S_freelink i)) (Some SemdFree_h) (lists ?s1) = Some h2"
      "heap_abs h2 (Lmap (?a1\<lparr>a_semfree := i # a_semfree a\<rparr>))"
      using Lmap_upd(5) [of ?a1 "i # a_semfree a"] by auto
    let ?a = "a\<lparr>a_procq := (a_procq a)(i \<mapsto> []), a_semfree := i # a_semfree a,
      a_bkt := (a_bkt a)(bucket_of HASHSZ k := removeAll i (a_bkt a (bucket_of HASHSZ k)))\<rparr>"
    let ?t = "set_semAdd p 0 (s\<lparr>lists := h2, semd_h := hh\<rparr>)"
    have "ash_inv ?t ?a" "semq ?t ?a = (semq s a)(k := ?r)"
      by (rule ash_leave_last [OF inv i p True]; simp add: set_semAdd_def)+
    moreover have "links ?t ?a"
    proof -
      have "Lmap ?a = Lmap (?a1\<lparr>a_semfree := i # a_semfree a\<rparr>)"
        unfolding True by (rule ext, case_tac x) auto
      then show ?thesis using h2(2) hh(2) by (simp add: links_def set_semAdd_def)
    qed
    moreover have "same_rest a ?a" by (simp add: same_rest_def)
    ultimately show ?thesis
      using h1(1) [unfolded on_lists_iff] e True h2(1) hh(1)
      by (intro exI [of _ h2] exI [of _ hh] exI [of _ ?a])
        (simp add: set_semAdd_def release_semd_def on_hash_def on_lists_def Let_def)
  qed
qed

lemma removeBlocked_none:
  "links s a \<Longrightarrow> ash_inv s a \<Longrightarrow> semq s a k = [] \<Longrightarrow> removeBlocked k s = Some (None, s)"
  by (simp add: removeBlocked_def find_semd_abs semq_empty)

lemma removeBlocked_abs:
  assumes "links s a" and "ash_inv s a" and q: "semq s a k = p # ps"
  shows "\<exists>h hh a'. let t = set_semAdd p 0 (s\<lparr>lists := h, semd_h := hh\<rparr>) in
    removeBlocked k s = Some (Some p, t) \<and> links t a' \<and> ash_inv t a'
    \<and> semq t a' = (semq s a)(k := ps) \<and> same_rest a a'"
proof -
  have "k \<noteq> 0" using semq_zero [OF assms(2)] q by auto
  moreover obtain i where i: "desc s a k = Some i"
    using semq_empty [OF assms(2), of k] q by auto
  moreover have "a_procq a i = Some (p # ps)" using semd_procq [OF assms(2) i] q by simp
  moreover have "removeAll p (semq s a k) = ps" using semq_distinct [OF assms(1,2), of k] q by simp
  ultimately show ?thesis
    using leave_queue [OF assms(1,2) i, of p] q
    by (simp add: removeBlocked_def find_semd_abs [OF assms(1)] empty_lists_abs(5) [OF assms(1)]
        first_entries_abs(5) [OF assms(1)])
qed

lemma outBlocked_none: "p_semAdd (pcbs s p) = 0 \<Longrightarrow> outBlocked (Some p) s = Some (None, s)"
  by (simp add: outBlocked_def)

lemma outBlocked_abs:
  assumes "links s a" and "ash_inv s a" and k: "p_semAdd (pcbs s p) = k" "k \<noteq> 0"
  shows "\<exists>h hh a'. let t = set_semAdd p 0 (s\<lparr>lists := h, semd_h := hh\<rparr>) in
    outBlocked (Some p) s = Some (Some p, t) \<and> links t a' \<and> ash_inv t a'
    \<and> semq t a' = (semq s a)(k := removeAll p (semq s a k)) \<and> same_rest a a'"
proof -
  have p: "p \<in> set (semq s a k)" using in_semq [OF assms(2) k(2)] k(1) by blast
  then obtain i where i: "desc s a k = Some i"
    by (cases "desc s a k") (auto simp: semq_def)
  show ?thesis using leave_queue [OF assms(1,2) i p] i k
    by (simp add: outBlocked_def find_semd_abs [OF assms(1)])
qed

end
