(* ===== verification/Interfaces.thy ===== *)
theory Interfaces
  imports Prelude
begin

text \<open>
  The contracts the kernel's data structures offer to the code above them, as locales: a pool
  of resources (the free lists of PCBs and of namespaces), a first-in first-out queue of
  processes (the ready queue, the queue of one semaphore) and the table of the queues of all
  semaphores.  The clients of a contract are proved here once; the theories of the components
  that provide it interpret it on the model.

  \<open>rel s xs\<close> says that the state represents the list; every operation may fault, and the laws
  say when it does not.
\<close>

section \<open>Clients: loops over the operations of an interface\<close>

fun alloc_many :: "('s, 'r option) action \<Rightarrow> nat \<Rightarrow> ('s, 'r option list) action" where
  "alloc_many alloc 0 s = Some ([], s)"
| "alloc_many alloc (Suc n) s = do {
     (r, s) \<leftarrow> alloc s;
     (rs, s) \<leftarrow> alloc_many alloc n s;
     Some (r # rs, s)
   }"

text \<open>One turn of a round robin: the first process leaves the queue and goes to its end.\<close>

definition rotate_once :: "('r \<Rightarrow> 's update) \<Rightarrow> ('s, 'r option) action \<Rightarrow> ('s, 'r option) action" where
  "rotate_once enq deq s = do {
     (r, s) \<leftarrow> deq s;
     (case r of
        None \<Rightarrow> Some (None, s)
      | Some p \<Rightarrow> do { s \<leftarrow> enq p s; Some (Some p, s) })
   }"

section \<open>A pool of resources\<close>

locale pool =
  fixes rel :: "'s \<Rightarrow> 'r list \<Rightarrow> bool"
    and alloc :: "('s, 'r option) action"
  assumes alloc_empty: "rel s [] \<Longrightarrow> alloc s = Some (None, s)"
    and alloc_cons: "rel s (x # xs) \<Longrightarrow> \<exists>s'. alloc s = Some (Some x, s') \<and> rel s' xs"
begin

text \<open>Allocating \<open>n\<close> times hands out the first resources of the pool, then only nulls.\<close>

lemma alloc_many_pool:
  "rel s xs \<Longrightarrow> \<exists>s'. alloc_many alloc n s =
      Some (map Some (take n xs) @ replicate (n - length xs) None, s') \<and> rel s' (drop n xs)"
proof (induction n arbitrary: s xs)
  case (Suc n)
  show ?case
  proof (cases xs)
    case Nil
    with Suc show ?thesis using alloc_empty [of s] by fastforce
  next
    case (Cons y ys)
    with Suc.prems alloc_cons obtain s1 where 1: "alloc s = Some (Some y, s1)" "rel s1 ys" by blast
    from Suc.IH [OF 1(2)] obtain s2 where
      "alloc_many alloc n s1 = Some (map Some (take n ys) @ replicate (n - length ys) None, s2)"
      "rel s2 (drop n ys)" by blast
    with 1 Cons show ?thesis by simp
  qed
qed simp

end

locale lifo_pool = pool rel alloc
  for rel :: "'s \<Rightarrow> 'r list \<Rightarrow> bool" and alloc :: "('s, 'r option) action" +
  fixes ok :: "'s \<Rightarrow> 'r \<Rightarrow> bool" and release :: "'r \<Rightarrow> 's update"
  assumes release: "rel s xs \<Longrightarrow> ok s x \<Longrightarrow> \<exists>s'. release x s = Some s' \<and> rel s' (x # xs)"
begin

text \<open>What was released last is allocated next.\<close>

lemma realloc:
  "rel s xs \<Longrightarrow> ok s x \<Longrightarrow>
    \<exists>s' s''. release x s = Some s' \<and> alloc s' = Some (Some x, s'') \<and> rel s'' xs"
  using release alloc_cons by meson

end

section \<open>A first-in first-out queue\<close>

locale fifo =
  fixes rel :: "'s \<Rightarrow> 'r list \<Rightarrow> bool"
    and idle :: "'s \<Rightarrow> 'r \<Rightarrow> bool"
    and enq :: "'r \<Rightarrow> 's update"
    and deq :: "('s, 'r option) action"
  assumes enq: "rel s xs \<Longrightarrow> idle s x \<Longrightarrow> \<exists>s'. enq x s = Some s' \<and> rel s' (xs @ [x])"
    and deq_empty: "rel s [] \<Longrightarrow> deq s = Some (None, s)"
    and deq_cons: "rel s (x # xs) \<Longrightarrow> \<exists>s'. deq s = Some (Some x, s') \<and> rel s' xs \<and> idle s' x"
begin

lemma rotate_once_cons:
  assumes "rel s (x # xs)"
  shows "\<exists>s'. rotate_once enq deq s = Some (Some x, s') \<and> rel s' (xs @ [x])"
proof -
  from deq_cons [OF assms] obtain s1 where 1: "deq s = Some (Some x, s1)" "rel s1 xs" "idle s1 x" by blast
  from enq [OF 1(2,3)] obtain s2 where "enq x s1 = Some s2" "rel s2 (xs @ [x])" by blast
  with 1 show ?thesis by (simp add: rotate_once_def)
qed

text \<open>
  Round robin: \<open>n\<close> turns bring up the first \<open>n\<close> processes in order; a process at position \<open>n\<close>
  is the next one, and a whole round leaves the queue as it was.
\<close>

lemma rotations:
  "rel s xs \<Longrightarrow> n \<le> length xs \<Longrightarrow>
    \<exists>s'. alloc_many (rotate_once enq deq) n s = Some (map Some (take n xs), s')
      \<and> rel s' (drop n xs @ take n xs)"
proof (induction n arbitrary: s xs)
  case (Suc n)
  then obtain y ys where xs: "xs = y # ys" by (cases xs) auto
  with rotate_once_cons Suc.prems(1) obtain s1 where
    1: "rotate_once enq deq s = Some (Some y, s1)" "rel s1 (ys @ [y])" by blast
  from Suc.IH [OF 1(2)] Suc.prems(2) xs obtain s2 where
    "alloc_many (rotate_once enq deq) n s1 = Some (map Some (take n ys), s2)"
    "rel s2 (drop n ys @ y # take n ys)" by auto
  with 1 xs show ?case by simp
qed simp

end

text \<open>Removing is allocating from a pool: the processes come out in the order of the queue.\<close>

sublocale fifo \<subseteq> drain: pool rel deq
  by unfold_locales (use deq_empty deq_cons in blast)+

section \<open>The table of blocked processes\<close>

locale blocked_table =
  fixes rel :: "'s \<Rightarrow> ('k \<Rightarrow> 'r list) \<Rightarrow> bool"
    and key_ok :: "'k \<Rightarrow> bool"
    and idle :: "'s \<Rightarrow> 'r \<Rightarrow> bool"
    and block :: "'k \<Rightarrow> 'r \<Rightarrow> 's update"
    and unblock :: "'k \<Rightarrow> ('s, 'r option) action"
  assumes block: "rel s Q \<Longrightarrow> key_ok k \<Longrightarrow> idle s p \<Longrightarrow>
      \<exists>s'. block k p s = Some s' \<and> rel s' (Q(k := Q k @ [p]))"
    and unblock_empty: "rel s Q \<Longrightarrow> Q k = [] \<Longrightarrow> unblock k s = Some (None, s)"
    and unblock_cons: "rel s Q \<Longrightarrow> Q k = p # ps \<Longrightarrow>
      \<exists>s'. unblock k s = Some (Some p, s') \<and> rel s' (Q(k := ps)) \<and> idle s' p"
    and key_used: "rel s Q \<Longrightarrow> Q k \<noteq> [] \<Longrightarrow> key_ok k"
begin

text \<open>Operations on one semaphore leave the queues of the others alone.\<close>

lemma block_other:
  "rel s Q \<Longrightarrow> key_ok k \<Longrightarrow> idle s p \<Longrightarrow> k' \<noteq> k \<Longrightarrow>
    \<exists>s' Q'. block k p s = Some s' \<and> rel s' Q' \<and> Q' k' = Q k' \<and> Q' k = Q k @ [p]"
  using block [of s Q k p] by fastforce

end

text \<open>One row of the table is a queue.\<close>

locale blocked_row = blocked_table rel key_ok idle block unblock
  for rel :: "'s \<Rightarrow> ('k \<Rightarrow> 'r list) \<Rightarrow> bool" and key_ok and idle and block and unblock +
  fixes key :: 'k

sublocale blocked_row \<subseteq> row: fifo "\<lambda>s xs. \<exists>Q. rel s Q \<and> Q key = xs" "\<lambda>s x. key_ok key \<and> idle s x"
  "block key" "unblock key"
proof
  show "\<exists>Q. rel s Q \<and> Q key = xs \<Longrightarrow> key_ok key \<and> idle s x \<Longrightarrow>
      \<exists>s'. block key x s = Some s' \<and> (\<exists>Q. rel s' Q \<and> Q key = xs @ [x])" for s xs x
    using block by fastforce
  show "\<exists>Q. rel s Q \<and> Q key = [] \<Longrightarrow> unblock key s = Some (None, s)" for s
    using unblock_empty by blast
  show "\<exists>Q. rel s Q \<and> Q key = x # xs \<Longrightarrow>
      \<exists>s'. unblock key s = Some (Some x, s') \<and> (\<exists>Q. rel s' Q \<and> Q key = xs) \<and> key_ok key \<and> idle s' x"
    for s x xs
  proof -
    assume "\<exists>Q. rel s Q \<and> Q key = x # xs"
    then obtain Q where Q: "rel s Q" "Q key = x # xs" by blast
    from unblock_cons [OF Q] obtain s' where
      "unblock key s = Some (Some x, s')" "rel s' (Q(key := xs))" "idle s' x" by blast
    moreover have "key_ok key" using key_used [OF Q(1)] Q(2) by simp
    ultimately show ?thesis by fastforce
  qed
qed

end
