(* ===== verification/Kernel_View.thy ===== *)
theory Kernel_View
  imports Ash_Abs Interfaces
begin

text \<open>
  What the kernel above the data structures sees: the free list, the ready queue, the children
  of each process, the lists of namespaces and the queue of each semaphore.  \<open>kabs s v\<close> says
  that the heap, the hash table and the descriptors of \<open>s\<close> represent \<open>v\<close> and that the fields
  \<open>p_parent\<close> and \<open>p_semAdd\<close> of the PCBs agree with it.

  The operations are stated with \<open>runs_to\<close> and \<open>ends_in\<close>: the call returns, with this result,
  in a state that is the given one except for links and descriptors, and that represents the
  given view.  So each statement also says what the call does not touch.
\<close>

section \<open>The view\<close>

record kview =
  v_free :: "nat list"
  v_ready :: "nat list"
  v_kids :: "nat \<Rightarrow> nat list"
  v_nsfree :: "nat list"
  v_nslist :: "nat list"
  v_semq :: "u32 \<Rightarrow> nat list"

definition kids_of :: "akernel \<Rightarrow> nat \<Rightarrow> nat list" where
  "kids_of a p = (case a_kids a p of None \<Rightarrow> [] | Some ks \<Rightarrow> ks)"

definition view :: "kstate \<Rightarrow> akernel \<Rightarrow> kview" where
  "view s a = \<lparr>v_free = a_free a, v_ready = a_ready a, v_kids = kids_of a,
     v_nsfree = a_nsfree a, v_nslist = a_nslist a, v_semq = semq s a\<rparr>"

definition tree_inv :: "kstate \<Rightarrow> akernel \<Rightarrow> bool" where
  "tree_inv s a \<longleftrightarrow>
     (\<forall>p q. p \<in> set (kids_of a q) \<longleftrightarrow> p_parent (pcbs s p) = Some q) \<and>
     (\<forall>p \<in> set (a_free a). kids_of a p = [] \<and> p_parent (pcbs s p) = None) \<and>
     (\<forall>p < MAXPROC. a_kids a p = None \<longrightarrow> p \<in> set (a_free a))"

definition kabs :: "kstate \<Rightarrow> kview \<Rightarrow> bool" where
  "kabs s v \<longleftrightarrow> (\<exists>a. links s a \<and> ash_inv s a \<and> tree_inv s a \<and> view s a = v)"

lemma kabsE:
  assumes "kabs s v"
  obtains a where "links s a" and "ash_inv s a" and "tree_inv s a" and "v = view s a"
  using assms by (auto simp: kabs_def)

lemma kabsI: "links s a \<Longrightarrow> ash_inv s a \<Longrightarrow> tree_inv s a \<Longrightarrow> v = view s a \<Longrightarrow> kabs s v"
  by (auto simp: kabs_def)

lemma kabs_cong:
  assumes "kabs s v" and "lists s' = lists s" and "semd_h s' = semd_h s" and "semds s' = semds s"
    and "\<And>p. p_semAdd (pcbs s' p) = p_semAdd (pcbs s p)" and "\<And>p. p_parent (pcbs s' p) = p_parent (pcbs s p)"
  shows "kabs s' v"
proof -
  from assms(1) obtain a where a: "links s a" "ash_inv s a" "tree_inv s a" "v = view s a" by (rule kabsE)
  show ?thesis
  proof (rule kabsI)
    show "links s' a" using a(1) assms(2,3) by (simp add: links_def)
    show "ash_inv s' a" using a(2) assms(4,5) by (subst ash_inv_cong [where s = s and a = a]) auto
    show "tree_inv s' a" using a(3) assms(6) by (simp add: tree_inv_def)
    show "v = view s' a"
      using a(4) assms(4,5) ash_inv_cong(2) [of s' s a a] by (simp add: view_def)
  qed
qed

section \<open>Runs that end in a represented state\<close>

abbreviation relink :: "lnode lheap \<Rightarrow> (nat, nat) hheap \<Rightarrow> (nat \<Rightarrow> semd_t) \<Rightarrow> kstate \<Rightarrow> kstate" where
  "relink h hh ds t \<equiv> t\<lparr>lists := h, semd_h := hh, semds := ds\<rparr>"

definition ends_in :: "kstate option \<Rightarrow> kstate \<Rightarrow> kview \<Rightarrow> bool" where
  "ends_in m t v \<longleftrightarrow> (\<exists>h hh ds. m = Some (relink h hh ds t) \<and> kabs (relink h hh ds t) v)"

definition runs_to :: "('r \<times> kstate) option \<Rightarrow> 'r \<Rightarrow> kstate \<Rightarrow> kview \<Rightarrow> bool" where
  "runs_to m r t v \<longleftrightarrow> (\<exists>h hh ds. m = Some (r, relink h hh ds t) \<and> kabs (relink h hh ds t) v)"

lemma ends_in_relink: "ends_in m (relink h hh ds t) v = ends_in m t v"
  by (simp add: ends_in_def)

lemma runs_to_relink: "runs_to m r (relink h hh ds t) v = runs_to m r t v"
  by (simp add: runs_to_def)

lemma ends_in_Some: "kabs t v \<Longrightarrow> ends_in (Some t) t v"
  unfolding ends_in_def
  by (intro exI [of _ "lists t"] exI [of _ "semd_h t"] exI [of _ "semds t"]) simp

lemma runs_to_Some: "kabs t v \<Longrightarrow> runs_to (Some (r, t)) r t v"
  unfolding runs_to_def
  by (intro exI [of _ "lists t"] exI [of _ "semd_h t"] exI [of _ "semds t"]) simp

text \<open>The order in which a state was updated does not matter.\<close>

lemma ends_in_SomeI: "s' = t \<Longrightarrow> kabs s' v \<Longrightarrow> ends_in (Some s') t v"
  by (simp add: ends_in_Some)

lemma runs_to_SomeI: "s' = t \<Longrightarrow> kabs s' v \<Longrightarrow> runs_to (Some (r, s')) r t v"
  by (simp add: runs_to_Some)

lemma ends_in_bind:
  assumes "ends_in m t v"
    and "\<And>h hh ds. kabs (relink h hh ds t) v \<Longrightarrow> ends_in (f (relink h hh ds t)) (relink h hh ds u) v'"
  shows "ends_in (Option.bind m f) u v'"
  using assms by (fastforce simp: ends_in_def)

lemma ends_in_bind_runs:
  assumes "ends_in m t v"
    and "\<And>h hh ds. kabs (relink h hh ds t) v \<Longrightarrow> runs_to (f (relink h hh ds t)) r (relink h hh ds u) v'"
  shows "runs_to (Option.bind m f) r u v'"
  using assms by (fastforce simp: ends_in_def runs_to_def)

lemma runs_to_bind:
  assumes "runs_to m r t v"
    and "\<And>h hh ds. kabs (relink h hh ds t) v \<Longrightarrow> runs_to (f (r, relink h hh ds t)) r' (relink h hh ds u) v'"
  shows "runs_to (Option.bind m f) r' u v'"
  using assms by (fastforce simp: runs_to_def)

lemma runs_to_bind_ends:
  assumes "runs_to m r t v"
    and "\<And>h hh ds. kabs (relink h hh ds t) v \<Longrightarrow> ends_in (f (r, relink h hh ds t)) (relink h hh ds u) v'"
  shows "ends_in (Option.bind m f) u v'"
  using assms by (fastforce simp: runs_to_def ends_in_def)

lemma ends_inE:
  assumes "ends_in m t v"
  obtains h hh ds where "m = Some (relink h hh ds t)" and "kabs (relink h hh ds t) v"
  using assms by (auto simp: ends_in_def)

lemma runs_toE:
  assumes "runs_to m r t v"
  obtains h hh ds where "m = Some (r, relink h hh ds t)" and "kabs (relink h hh ds t) v"
  using assms by (auto simp: runs_to_def)

text \<open>How an update of the abstract lists and of the PCBs shows in the view.\<close>

lemma runs_toI:
  assumes "m = Some (r, relink h hh ds t)" and "links (relink h hh ds t) a"
    and "ash_inv (relink h hh ds t) a" and "tree_inv (relink h hh ds t) a" and "v = view (relink h hh ds t) a"
  shows "runs_to m r t v"
  using assms by (auto simp: runs_to_def kabs_def)

lemma ends_inI:
  assumes "m = Some (relink h hh ds t)" and "links (relink h hh ds t) a"
    and "ash_inv (relink h hh ds t) a" and "tree_inv (relink h hh ds t) a" and "v = view (relink h hh ds t) a"
  shows "ends_in m t v"
  using assms by (auto simp: ends_in_def kabs_def)

lemma ash_inv_lists [simp]: "ash_inv (s\<lparr>lists := h\<rparr>) a = ash_inv s a"
  by (rule ash_inv_cong) simp_all

lemma semq_lists [simp]: "semq (s\<lparr>lists := h\<rparr>) a = semq s a"
  by (rule ash_inv_cong) simp_all

lemma ash_inv_upd [simp]:
  "ash_inv s (a\<lparr>a_free := xs\<rparr>) = ash_inv s a" "ash_inv s (a\<lparr>a_ready := xs\<rparr>) = ash_inv s a"
  "ash_inv s (a\<lparr>a_kids := ks\<rparr>) = ash_inv s a" "ash_inv s (a\<lparr>a_nsfree := xs\<rparr>) = ash_inv s a"
  "ash_inv s (a\<lparr>a_nslist := xs\<rparr>) = ash_inv s a"
  by (rule ash_inv_cong; simp add: queue_of_def)+

lemma semq_upd [simp]:
  "semq s (a\<lparr>a_free := xs\<rparr>) = semq s a" "semq s (a\<lparr>a_ready := xs\<rparr>) = semq s a"
  "semq s (a\<lparr>a_kids := ks\<rparr>) = semq s a" "semq s (a\<lparr>a_nsfree := xs\<rparr>) = semq s a"
  "semq s (a\<lparr>a_nslist := xs\<rparr>) = semq s a"
  by (rule ash_inv_cong; simp add: queue_of_def)+

lemma kids_of_upd [simp]:
  "kids_of (a\<lparr>a_free := xs\<rparr>) = kids_of a" "kids_of (a\<lparr>a_ready := xs\<rparr>) = kids_of a"
  "kids_of (a\<lparr>a_nsfree := xs\<rparr>) = kids_of a" "kids_of (a\<lparr>a_nslist := xs\<rparr>) = kids_of a"
  "kids_of (a\<lparr>a_kids := (a_kids a)(p \<mapsto> ks)\<rparr>) = (kids_of a)(p := ks)"
  by (auto simp: kids_of_def fun_eq_iff)

lemma tree_inv_upd [simp]:
  "tree_inv s (a\<lparr>a_ready := xs\<rparr>) = tree_inv s a" "tree_inv s (a\<lparr>a_nsfree := xs\<rparr>) = tree_inv s a"
  "tree_inv s (a\<lparr>a_nslist := xs\<rparr>) = tree_inv s a" "tree_inv (s\<lparr>lists := h\<rparr>) a = tree_inv s a"
  by (simp_all add: tree_inv_def)

lemma tree_inv_cong:
  "(\<And>p. p_parent (pcbs s' p) = p_parent (pcbs s p)) \<Longrightarrow> a_free a' = a_free a \<Longrightarrow> a_kids a' = a_kids a \<Longrightarrow>
    tree_inv s' a' = tree_inv s a"
  by (simp add: tree_inv_def kids_of_def)

lemma lists_only: "t\<lparr>lists := h\<rparr> = relink h (semd_h t) (semds t) t"
  by simp

lemma runs_to_lists:
  assumes "m = Some (r, t\<lparr>lists := h\<rparr>)" and "links (t\<lparr>lists := h\<rparr>) a"
    and "ash_inv t a" and "tree_inv t a" and "v = view t a"
  shows "runs_to m r t v"
proof (rule runs_toI)
  show "m = Some (r, relink h (semd_h t) (semds t) t)" using assms(1) by simp
  show "links (relink h (semd_h t) (semds t) t) a" using assms(2) by simp
  show "ash_inv (relink h (semd_h t) (semds t) t) a" using assms(3) by simp
  show "tree_inv (relink h (semd_h t) (semds t) t) a"
    using assms(4) by (simp add: tree_inv_def)
  show "v = view (relink h (semd_h t) (semds t) t) a" using assms(5) by (simp add: view_def)
qed

lemma ends_in_runs: "ends_in m t v \<longleftrightarrow> runs_to (map_option (Pair ()) m) () t v"
  by (auto simp: ends_in_def runs_to_def)

lemma ends_in_lists:
  assumes "m = Some (t\<lparr>lists := h\<rparr>)" and "links (t\<lparr>lists := h\<rparr>) a"
    and "ash_inv t a" and "tree_inv t a" and "v = view t a"
  shows "ends_in m t v"
  unfolding ends_in_runs using assms by (intro runs_to_lists [where h = h and a = a]) simp_all

section \<open>Facts of a represented state\<close>

lemma kabs_facts:
  assumes "kabs s v"
  shows "distinct (v_free v)" and "distinct (v_ready v)" and "distinct (v_kids v p)" and "distinct (v_semq v k)"
    and "distinct (v_nsfree v)" and "distinct (v_nslist v)"
    and "set (v_free v) \<inter> set (v_ready v) = {}"
    and "k \<noteq> 0 \<Longrightarrow> p \<in> set (v_semq v k) \<longleftrightarrow> p_semAdd (pcbs s p) = k"
    and "v_semq v 0 = []"
    and "p \<in> set (v_free v) \<union> set (v_ready v) \<Longrightarrow> p_semAdd (pcbs s p) = 0"
    and "c \<in> set (v_kids v p) \<longleftrightarrow> p_parent (pcbs s c) = Some p"
    and "p \<in> set (v_free v) \<Longrightarrow> v_kids v p = [] \<and> p_parent (pcbs s p) = None"
proof -
  from assms obtain a where a: "links s a" "ash_inv s a" "tree_inv s a" "v = view s a" by (rule kabsE)
  note d = links_distinct [OF a(1)]
  show "distinct (v_free v)" "distinct (v_ready v)" "distinct (v_nsfree v)" "distinct (v_nslist v)"
    using d by (simp_all add: a(4) view_def)
  show "distinct (v_kids v p)" using d(7) [of p]
    by (auto simp: a(4) view_def kids_of_def split: option.split)
  show "distinct (v_semq v k)" using semq_distinct [OF a(1,2)] by (simp add: a(4) view_def)
  show "set (v_free v) \<inter> set (v_ready v) = {}"
    using links_one_queue(1) [OF a(1)] by (auto simp: a(4) view_def)
  show "k \<noteq> 0 \<Longrightarrow> p \<in> set (v_semq v k) \<longleftrightarrow> p_semAdd (pcbs s p) = k"
    using in_semq [OF a(2)] by (simp add: a(4) view_def)
  show "v_semq v 0 = []" using semq_zero [OF a(2)] by (simp add: a(4) view_def)
  show "c \<in> set (v_kids v p) \<longleftrightarrow> p_parent (pcbs s c) = Some p"
    using a(3) by (simp add: a(4) view_def tree_inv_def)
  show "p \<in> set (v_free v) \<Longrightarrow> v_kids v p = [] \<and> p_parent (pcbs s p) = None"
    using a(3) by (simp add: a(4) view_def tree_inv_def)
  assume p: "p \<in> set (v_free v) \<union> set (v_ready v)"
  show "p_semAdd (pcbs s p) = 0"
  proof (rule ccontr)
    assume "p_semAdd (pcbs s p) \<noteq> 0"
    then obtain i where "p \<in> set (queue_of a i)"
      using ash_invD(7) [OF a(2), of "p_semAdd (pcbs s p)" p] by auto
    then obtain q where "a_procq a i = Some q" "p \<in> set q"
      by (cases "a_procq a i") (auto simp: queue_of_def)
    moreover from p have "p \<in> set (a_free a) \<or> p \<in> set (a_ready a)" by (auto simp: a(4) view_def)
    ultimately show False
      using links_one_queue(2) [OF a(1), of p i q] links_one_queue(3) [OF a(1), of p i q] by blast
  qed
qed

definition v_queued :: "kstate \<Rightarrow> nat \<Rightarrow> kview \<Rightarrow> bool" where
  "v_queued s p v \<longleftrightarrow> p \<in> set (v_free v) \<or> p \<in> set (v_ready v) \<or> p_semAdd (pcbs s p) \<noteq> 0"

lemma queued_view: "ash_inv s a \<Longrightarrow> queued p a = v_queued s p (view s a)"
  by (simp add: queued_semq v_queued_def view_def)

text \<open>A process that no semaphore holds is taken out of the free list and the ready queue only.\<close>

lemma a_unlink_unblocked:
  assumes "ash_inv s a" and "p_semAdd (pcbs s p) = 0"
  shows "a_procq (a_unlink p a) = a_procq a"
proof
  fix i
  have "p \<notin> set q" if "a_procq a i = Some q" for q
  proof
    assume "p \<in> set q"
    with that have q: "p \<in> set (queue_of a i)" by (simp add: queue_of_def)
    then have i: "i \<in> hashed a" using ash_invD(4) [OF assms(1), of i] by auto
    with q ash_invD(7) [OF assms(1), of "s_key (semds s i)" p] hashed_key [OF assms(1) i] assms(2)
    show False by auto
  qed
  then show "a_procq (a_unlink p a) i = a_procq a i"
    by (cases "a_procq a i") (auto simp: a_unlink_def)
qed

section \<open>Process queues\<close>

lemma insertProcQ_view:
  assumes "kabs s v" and p: "p \<notin> set (v_free v)" "p_semAdd (pcbs s p) = 0"
  shows "ends_in (insertProcQ (Some Ready_queue) (Some p) s) s (v\<lparr>v_ready := removeAll p (v_ready v) @ [p]\<rparr>)"
proof -
  from assms(1) obtain a where a: "links s a" "ash_inv s a" "tree_inv s a" "v = view s a" by (rule kabsE)
  from insertProcQ_abs [OF a(1), of p] obtain h where
    h: "insertProcQ (Some Ready_queue) (Some p) s = Some (s\<lparr>lists := h\<rparr>)"
    "links (s\<lparr>lists := h\<rparr>) (a_enqueue p a)" by blast
  have eq: "a_enqueue p a = a\<lparr>a_ready := removeAll p (a_ready a) @ [p]\<rparr>"
    using a_unlink_unblocked [OF a(2) p(2)] p(1) a(4)
    by (simp add: a_enqueue_def a_unlink_def view_def)
  show ?thesis
    using h a by (intro ends_in_lists [where h = h and a = "a\<lparr>a_ready := removeAll p (a_ready a) @ [p]\<rparr>"])
      (simp_all add: eq view_def)
qed

lemma emptyProcQ_view: "kabs s v \<Longrightarrow> emptyProcQ (Some Ready_queue) s = Some (v_ready v = [])"
  by (erule kabsE) (simp add: emptyProcQ_abs view_def)

lemma headProcQ_view:
  "kabs s v \<Longrightarrow> headProcQ (Some Ready_queue) s =
    Some (case v_ready v of [] \<Rightarrow> None | p # _ \<Rightarrow> Some p)"
  by (erule kabsE) (simp add: headProcQ_abs view_def)

lemma outProcQ_view:
  assumes "kabs s v"
  shows "runs_to (outProcQ (Some Ready_queue) (Some p) s)
    (if p \<in> set (v_ready v) then Some p else None) s (v\<lparr>v_ready := removeAll p (v_ready v)\<rparr>)"
proof -
  from assms obtain a where a: "links s a" "ash_inv s a" "tree_inv s a" "v = view s a" by (rule kabsE)
  from outProcQ_abs [OF a(1), of p] obtain h where
    h: "outProcQ (Some Ready_queue) (Some p) s
      = Some (if p \<in> set (a_ready a) then Some p else None, s\<lparr>lists := h\<rparr>)"
    "links (s\<lparr>lists := h\<rparr>) (a\<lparr>a_ready := removeAll p (a_ready a)\<rparr>)" by blast
  then show ?thesis using a
    by (intro runs_to_lists [where h = h and a = "a\<lparr>a_ready := removeAll p (a_ready a)\<rparr>"])
      (simp_all add: view_def)
qed

lemma removeProcQ_view_empty: "kabs s v \<Longrightarrow> v_ready v = [] \<Longrightarrow> removeProcQ (Some Ready_queue) s = Some (None, s)"
  by (erule kabsE) (simp add: removeProcQ_empty view_def)

lemma removeProcQ_view:
  assumes "kabs s v" and "v_ready v = p # ps"
  shows "runs_to (removeProcQ (Some Ready_queue) s) (Some p) s (v\<lparr>v_ready := ps\<rparr>)"
proof -
  from assms obtain a where a: "links s a" "ash_inv s a" "tree_inv s a" "v = view s a" by (blast elim: kabsE)
  then have "a_ready a = p # ps" using assms(2) by (simp add: view_def)
  from removeProcQ_abs [OF a(1) this] obtain h where
    "removeProcQ (Some Ready_queue) s = Some (Some p, s\<lparr>lists := h\<rparr>)"
    "links (s\<lparr>lists := h\<rparr>) (a\<lparr>a_ready := ps\<rparr>)" by blast
  then show ?thesis using a
    by (intro runs_to_lists [where h = h and a = "a\<lparr>a_ready := ps\<rparr>"]) (simp_all add: view_def)
qed

section \<open>Allocation\<close>

definition set_pcb :: "nat \<Rightarrow> (pcb_t \<Rightarrow> pcb_t) \<Rightarrow> kstate \<Rightarrow> kstate" where
  "set_pcb p f s = s\<lparr>pcbs := (pcbs s)(p := f (pcbs s p))\<rparr>"

lemma set_semAdd_eq: "set_semAdd p k = set_pcb p (\<lambda>b. b\<lparr>p_semAdd := k\<rparr>)"
  by (simp add: set_semAdd_def set_pcb_def fun_eq_iff)

lemma ash_set_pcb:
  assumes "p_semAdd (f (pcbs s p)) = p_semAdd (pcbs s p)"
  shows "ash_inv (set_pcb p f s) a = ash_inv s a" and "semq (set_pcb p f s) a = semq s a"
  unfolding set_pcb_def by (rule ash_inv_cong; simp add: assms)+

lemma allocPcb_view_empty: "kabs s v \<Longrightarrow> v_free v = [] \<Longrightarrow> allocPcb A s = Some (None, s)"
  by (erule kabsE) (simp add: allocPcb_empty view_def)

lemma kids_of_Some: "a_kids a q = Some ks \<Longrightarrow> kids_of a q = ks"
  by (simp add: kids_of_def)

lemma allocPcb_view:
  assumes "kabs s v" and "v_free v = p # fs"
  shows "runs_to (allocPcb A s) (Some p) (set_pcb p (reset_pcb A) s) (v\<lparr>v_free := fs\<rparr>)"
proof -
  from assms obtain a where a: "links s a" "ash_inv s a" "tree_inv s a" "v = view s a" by (blast elim: kabsE)
  then have f: "a_free a = p # fs" using assms(2) by (simp add: view_def)
  have pf: "p \<in> set (v_free v)" using assms(2) by simp
  have p0: "p_semAdd (pcbs s p) = 0" "p_parent (pcbs s p) = None" "kids_of a p = []"
    using kabs_facts(10,12) [OF assms(1), of p] pf a(4) by (auto simp: view_def)
  have sib: "p \<notin> set ks" if "a_kids a j = Some ks" for j ks
    using that a(3) p0(2) kids_of_Some [OF that] by (auto simp: tree_inv_def)
  have "a_kids a p = None \<or> a_kids a p = Some []"
    using p0(3) by (auto simp: kids_of_def split: option.splits)
  then have "\<exists>h. allocPcb A s = Some (Some p, s\<lparr>lists := h, pcbs := (pcbs s)(p := reset_pcb A (pcbs s p))\<rparr>)
    \<and> links (s\<lparr>lists := h\<rparr>) (a\<lparr>a_free := fs, a_kids := (a_kids a)(p \<mapsto> [])\<rparr>)"
    by (intro allocPcb_abs [OF a(1) f]) (use sib in auto)
  then obtain h where
    h: "allocPcb A s = Some (Some p, s\<lparr>lists := h, pcbs := (pcbs s)(p := reset_pcb A (pcbs s p))\<rparr>)"
    "links (s\<lparr>lists := h\<rparr>) (a\<lparr>a_free := fs, a_kids := (a_kids a)(p \<mapsto> [])\<rparr>)" by blast
  let ?t = "set_pcb p (reset_pcb A) s" and ?a = "a\<lparr>a_free := fs, a_kids := (a_kids a)(p \<mapsto> [])\<rparr>"
  have kk: "kids_of ?a = kids_of a" using p0(3) by (auto simp: kids_of_def fun_eq_iff)
  have sem: "ash_inv ?t a = ash_inv s a" "semq ?t a = semq s a"
    by (simp_all add: ash_set_pcb reset_pcb_def p0)
  show ?thesis
  proof (rule runs_to_lists)
    show "allocPcb A s = Some (Some p, ?t\<lparr>lists := h\<rparr>)" using h(1) by (simp add: set_pcb_def)
    show "links (?t\<lparr>lists := h\<rparr>) ?a" using h(2) by (simp add: links_def set_pcb_def)
    show "ash_inv ?t ?a" using a(2) sem by simp
    show "tree_inv ?t ?a" using a(3) p0 f unfolding tree_inv_def kk
      by (auto simp: set_pcb_def reset_pcb_def split: if_splits)
    show "v\<lparr>v_free := fs\<rparr> = view ?t ?a" using a(4) kk sem by (simp add: view_def)
  qed
qed

lemma freePcb_view:
  assumes "kabs s v" and p: "p_semAdd (pcbs s p) = 0" "v_kids v p = []" "p_parent (pcbs s p) = None"
  shows "ends_in (freePcb (Some p) s) s
    (v\<lparr>v_free := p # removeAll p (v_free v), v_ready := removeAll p (v_ready v)\<rparr>)"
proof -
  from assms obtain a where a: "links s a" "ash_inv s a" "tree_inv s a" "v = view s a" by (blast elim: kabsE)
  have same: "(pcbs s)(p := (pcbs s p)\<lparr>p_semAdd := 0\<rparr>) = pcbs s"
    using p(1) by (intro fun_upd_idem) (cases "pcbs s p"; simp)
  from freePcb_abs [OF a(1), of p] obtain h where
    h: "freePcb (Some p) s = Some (s\<lparr>lists := h, pcbs := (pcbs s)(p := (pcbs s p)\<lparr>p_semAdd := 0\<rparr>)\<rparr>)"
    "links (s\<lparr>lists := h\<rparr>) (a_freePcb p a)" by blast
  have eq: "a_freePcb p a = a\<lparr>a_free := p # removeAll p (a_free a), a_ready := removeAll p (a_ready a)\<rparr>"
    using a_unlink_unblocked [OF a(2) p(1)] by (simp add: a_freePcb_def a_unlink_def)
  show ?thesis
  proof (rule ends_in_lists)
    show "freePcb (Some p) s = Some (s\<lparr>lists := h\<rparr>)" using h(1) unfolding same by simp
    show "links (s\<lparr>lists := h\<rparr>) (a_freePcb p a)" by (rule h(2))
    show "ash_inv s (a_freePcb p a)" using a(2) by (simp add: eq)
    show "tree_inv s (a_freePcb p a)" using a(3,4) p(2,3) by (auto simp: tree_inv_def eq view_def)
    show "v\<lparr>v_free := p # removeAll p (v_free v), v_ready := removeAll p (v_ready v)\<rparr> = view s (a_freePcb p a)"
      using a(4) by (simp add: view_def eq)
  qed
qed

section \<open>Process trees\<close>

lemma kids_Some:
  "tree_inv s a \<Longrightarrow> q < MAXPROC \<Longrightarrow> q \<notin> set (a_free a) \<Longrightarrow> a_kids a q = Some (kids_of a q)"
  by (cases "a_kids a q") (auto simp: tree_inv_def kids_of_def)

lemma emptyChild_view:
  "kabs s v \<Longrightarrow> q < MAXPROC \<Longrightarrow> q \<notin> set (v_free v) \<Longrightarrow> emptyChild (Some q) s = Some (v_kids v q = [])"
  by (erule kabsE) (simp add: emptyChild_abs [OF _ kids_Some] view_def)

lemma insertChild_view:
  assumes "kabs s v" and q: "q < MAXPROC" "q \<notin> set (v_free v)"
    and p: "p_parent (pcbs s p) = None" "p \<notin> set (v_free v)"
  shows "ends_in (insertChild (Some q) (Some p) s) (set_pcb p (\<lambda>b. b\<lparr>p_parent := Some q\<rparr>) s)
    (v\<lparr>v_kids := (v_kids v)(q := v_kids v q @ [p])\<rparr>)"
proof -
  from assms obtain a where a: "links s a" "ash_inv s a" "tree_inv s a" "v = view s a" by (blast elim: kabsE)
  let ?t = "set_pcb p (\<lambda>b. b\<lparr>p_parent := Some q\<rparr>) s"
  let ?a = "a\<lparr>a_kids := (a_kids a)(q \<mapsto> kids_of a q @ [p])\<rparr>"
  have qk: "a_kids a q = Some (kids_of a q)" using kids_Some [OF a(3) q(1)] q(2) a(4) by (simp add: view_def)
  have sib: "p \<notin> set ks" if "a_kids a j = Some ks" for j ks
    using that a(3) p(1) kids_of_Some [OF that] by (auto simp: tree_inv_def)
  have "\<exists>h. insertChild (Some q) (Some p) s
      = Some (s\<lparr>lists := h, pcbs := (pcbs s)(p := (pcbs s p)\<lparr>p_parent := Some q\<rparr>)\<rparr>)
    \<and> links (s\<lparr>lists := h\<rparr>) ?a"
    by (rule insertChild_abs [OF a(1) qk]) (rule sib)
  then obtain h where "insertChild (Some q) (Some p) s
      = Some (s\<lparr>lists := h, pcbs := (pcbs s)(p := (pcbs s p)\<lparr>p_parent := Some q\<rparr>)\<rparr>)"
    and "links (s\<lparr>lists := h\<rparr>) ?a" by blast
  then have h: "insertChild (Some q) (Some p) s = Some (?t\<lparr>lists := h\<rparr>)" "links (?t\<lparr>lists := h\<rparr>) ?a"
    by (simp_all add: set_pcb_def links_def)
  have kids: "kids_of ?a = (kids_of a)(q := kids_of a q @ [p])" by simp
  show ?thesis
  proof (rule ends_in_lists [OF h])
    show "ash_inv ?t ?a" using a(2) by (simp add: ash_set_pcb)
    show "v\<lparr>v_kids := (v_kids v)(q := v_kids v q @ [p])\<rparr> = view ?t ?a"
      using a(4) by (simp add: view_def ash_set_pcb)
    show "tree_inv ?t ?a"
      using a(3,4) p q unfolding tree_inv_def kids by (auto simp: set_pcb_def view_def)
  qed
qed

lemma outChild_view_orphan: "p_parent (pcbs s p) = None \<Longrightarrow> outChild (Some p) s = Some (None, s)"
  by (rule outChild_orphan)

lemma outChild_view:
  assumes "kabs s v" and p: "p_parent (pcbs s p) = Some q"
  shows "runs_to (outChild (Some p) s) (Some p) (set_pcb p (\<lambda>b. b\<lparr>p_parent := None\<rparr>) s)
    (v\<lparr>v_kids := (v_kids v)(q := removeAll p (v_kids v q))\<rparr>)"
proof -
  from assms obtain a where a: "links s a" "ash_inv s a" "tree_inv s a" "v = view s a" by (blast elim: kabsE)
  let ?t = "set_pcb p (\<lambda>b. b\<lparr>p_parent := None\<rparr>) s"
  let ?a = "a\<lparr>a_kids := (a_kids a)(q \<mapsto> removeAll p (kids_of a q))\<rparr>"
  have pk: "p \<in> set (kids_of a q)" using a(3) p by (simp add: tree_inv_def)
  then have qk: "a_kids a q = Some (kids_of a q)" by (cases "a_kids a q") (auto simp: kids_of_def)
  from outChild_abs [OF a(1) p qk pk] obtain h where
    "outChild (Some p) s
      = Some (Some p, s\<lparr>lists := h, pcbs := (pcbs s)(p := (pcbs s p)\<lparr>p_parent := None\<rparr>)\<rparr>)"
    "links (s\<lparr>lists := h\<rparr>) ?a" by blast
  then have h: "outChild (Some p) s = Some (Some p, ?t\<lparr>lists := h\<rparr>)" "links (?t\<lparr>lists := h\<rparr>) ?a"
    by (simp_all add: set_pcb_def links_def)
  have kids: "kids_of ?a = (kids_of a)(q := removeAll p (kids_of a q))" by simp
  show ?thesis
  proof (rule runs_to_lists [OF h])
    show "ash_inv ?t ?a" using a(2) by (simp add: ash_set_pcb)
    show "v\<lparr>v_kids := (v_kids v)(q := removeAll p (v_kids v q))\<rparr> = view ?t ?a"
      using a(4) by (simp add: view_def ash_set_pcb)
    have "\<And>x. x \<in> set (kids_of a q) \<longleftrightarrow> p_parent (pcbs s x) = Some q" using a(3) by (simp add: tree_inv_def)
    then show "tree_inv ?t ?a"
      using a(3,4) p unfolding tree_inv_def kids by (auto simp: set_pcb_def view_def)
  qed
qed

lemma removeChild_view_none:
  "kabs s v \<Longrightarrow> q < MAXPROC \<Longrightarrow> q \<notin> set (v_free v) \<Longrightarrow> v_kids v q = [] \<Longrightarrow> removeChild (Some q) s = Some (None, s)"
  by (erule kabsE) (simp add: removeChild_none view_def kids_Some)

lemma removeChild_view:
  assumes "kabs s v" and c: "v_kids v q = c # ks"
  shows "runs_to (removeChild (Some q) s) (Some c) (set_pcb c (\<lambda>b. b\<lparr>p_parent := None\<rparr>) s)
    (v\<lparr>v_kids := (v_kids v)(q := ks)\<rparr>)"
proof -
  from assms obtain a where a: "links s a" "ash_inv s a" "tree_inv s a" "v = view s a" by (blast elim: kabsE)
  have par: "p_parent (pcbs s c) = Some q" using kabs_facts(11) [OF assms(1), of c q] c by simp
  have k: "kids_of a q = c # ks" using c a(4) by (simp add: view_def)
  then have qk: "a_kids a q = Some (c # ks)" by (cases "a_kids a q") (auto simp: kids_of_def)
  have "removeChild (Some q) s = outChild (Some c) s"
    by (simp add: removeChild_def emptyChild_abs [OF a(1) qk] first_entries_abs(6) [OF a(1) qk])
  moreover have "removeAll c (v_kids v q) = ks" using kabs_facts(3) [OF assms(1), of q] c by simp
  ultimately show ?thesis using outChild_view [OF assms(1) par] by simp
qed

section \<open>Blocked processes\<close>

lemma headBlocked_view:
  "kabs s v \<Longrightarrow> headBlocked k s = Some (case v_semq v k of [] \<Rightarrow> None | p # _ \<Rightarrow> Some p)"
  by (erule kabsE) (simp add: headBlocked_abs view_def)

lemma same_rest_view:
  assumes "same_rest a a'" and "tree_inv s a" and "\<And>p. p_parent (pcbs t p) = p_parent (pcbs s p)"
    and "semq t a' = (semq s a)(k := q)"
  shows "tree_inv t a'" and "view t a' = (view s a)\<lparr>v_semq := (v_semq (view s a))(k := q)\<rparr>"
proof -
  have r: "a_free a' = a_free a" "a_ready a' = a_ready a" "a_kids a' = a_kids a"
    "a_nsfree a' = a_nsfree a" "a_nslist a' = a_nslist a"
    using assms(1) by (simp_all add: same_rest_def)
  show "tree_inv t a'" using assms(2,3) r by (subst tree_inv_cong [where s = s and a = a]) auto
  have "kids_of a' = kids_of a" using r by (simp add: kids_of_def fun_eq_iff)
  then show "view t a' = (view s a)\<lparr>v_semq := (v_semq (view s a))(k := q)\<rparr>"
    using r assms(4) by (simp add: view_def)
qed

text \<open>
  There are as many descriptors as PCBs, and a process that is about to block is in no queue:
  so a descriptor is always free for it.
\<close>

lemma semd_free:
  assumes "links s a" and inv: "ash_inv s a" and "p < MAXPROC" and p: "p_semAdd (pcbs s p) = 0"
    and bound: "\<And>i x. x \<in> set (queue_of a i) \<Longrightarrow> x < MAXPROC"
  shows "a_semfree a \<noteq> []"
proof
  assume "a_semfree a = []"
  then have h: "hashed a = {..<MAXPROC}" using ash_invD(5,6) [OF inv] by auto
  let ?f = "\<lambda>i. hd (queue_of a i)"
  have mem: "?f i \<in> set (queue_of a i)" if "i \<in> hashed a" for i
    using ash_invD(4) [OF inv, of i] that by simp
  have "?f i \<noteq> p" if "i \<in> hashed a" for i
    using mem [OF that] ash_invD(7) [OF inv, of "s_key (semds s i)" p] hashed_key [OF inv that] that p by auto
  then have range: "?f ` hashed a \<subseteq> {..<MAXPROC} - {p}" using mem bound by blast
  have "inj_on ?f (hashed a)"
  proof (rule inj_onI)
    fix i j assume ij: "i \<in> hashed a" "j \<in> hashed a" "?f i = ?f j"
    then obtain q q' where "a_procq a i = Some q" "?f i \<in> set q" "a_procq a j = Some q'" "?f i \<in> set q'"
      using mem [OF ij(1)] mem [OF ij(2)]
      by (cases "a_procq a i"; cases "a_procq a j") (auto simp: queue_of_def)
    then show "i = j" by (intro links_one_queue(4) [OF assms(1)])
  qed
  then have "card (hashed a) \<le> card ({..<MAXPROC} - {p})" by (rule card_inj_on_le [OF _ range]) simp
  then show False using assms(3) by (simp add: h MAXPROC_def)
qed

lemma insertBlocked_view:
  assumes "kabs s v" and "k \<noteq> 0" and p: "p < MAXPROC" "\<not> v_queued s p v"
    and bound: "\<And>k x. x \<in> set (v_semq v k) \<Longrightarrow> x < MAXPROC"
  shows "runs_to (insertBlocked k (Some p) s) 0 (set_semAdd p k s) (v\<lparr>v_semq := (v_semq v)(k := v_semq v k @ [p])\<rparr>)"
proof -
  from assms obtain a where a: "links s a" "ash_inv s a" "tree_inv s a" "v = view s a" by (blast elim: kabsE)
  have p0: "p_semAdd (pcbs s p) = 0" using p(2) by (simp add: v_queued_def)
  have "x < MAXPROC" if "x \<in> set (queue_of a i)" for i x
  proof -
    have i: "i \<in> hashed a" using ash_invD(4) [OF a(2), of i] that by auto
    show ?thesis using bound [of x "s_key (semds s i)"] that semq_hashed [OF a(2) i]
      by (simp add: a(4) view_def)
  qed
  then have fs: "a_semfree a \<noteq> []" by (rule semd_free [OF a(1,2) p(1) p0])
  have nq: "\<not> queued p a" using p(2) queued_view [OF a(2)] a(4) by simp
  from insertBlocked_abs [OF a(1,2) assms(2) p0 nq] fs obtain h hh ds a' where
    t: "insertBlocked k (Some p) s = Some (0, set_semAdd p k (relink h hh ds s))"
    "links (set_semAdd p k (relink h hh ds s)) a'" "ash_inv (set_semAdd p k (relink h hh ds s)) a'"
    "semq (set_semAdd p k (relink h hh ds s)) a' = (semq s a)(k := semq s a k @ [p])" "same_rest a a'"
    unfolding Let_def by blast
  have comm: "set_semAdd p k (relink h hh ds s) = relink h hh ds (set_semAdd p k s)"
    by (simp add: set_semAdd_def)
  note sr = same_rest_view [OF t(5) a(3) _ t(4)]
  show ?thesis
    using t sr a(4) unfolding comm
    by (intro runs_toI [where h = h and hh = hh and ds = ds and a = a']) (simp_all add: view_def set_semAdd_def)
qed

lemma removeBlocked_view_none:
  "kabs s v \<Longrightarrow> v_semq v k = [] \<Longrightarrow> removeBlocked k s = Some (None, s)"
  by (erule kabsE) (simp add: removeBlocked_none view_def)

lemma removeBlocked_view:
  assumes "kabs s v" and q: "v_semq v k = p # ps"
  shows "runs_to (removeBlocked k s) (Some p) (set_semAdd p 0 s) (v\<lparr>v_semq := (v_semq v)(k := ps)\<rparr>)"
proof -
  from assms obtain a where a: "links s a" "ash_inv s a" "tree_inv s a" "v = view s a" by (blast elim: kabsE)
  then have "semq s a k = p # ps" using q by (simp add: view_def)
  from removeBlocked_abs [OF a(1,2) this] obtain h hh a' where
    t: "removeBlocked k s = Some (Some p, set_semAdd p 0 (s\<lparr>lists := h, semd_h := hh\<rparr>))"
    "links (set_semAdd p 0 (s\<lparr>lists := h, semd_h := hh\<rparr>)) a'"
    "ash_inv (set_semAdd p 0 (s\<lparr>lists := h, semd_h := hh\<rparr>)) a'"
    "semq (set_semAdd p 0 (s\<lparr>lists := h, semd_h := hh\<rparr>)) a' = (semq s a)(k := ps)" "same_rest a a'"
    unfolding Let_def by blast
  have comm: "set_semAdd p 0 (s\<lparr>lists := h, semd_h := hh\<rparr>) = relink h hh (semds s) (set_semAdd p 0 s)"
    by (simp add: set_semAdd_def)
  note sr = same_rest_view [OF t(5) a(3) _ t(4)]
  show ?thesis
    using t sr a(4) unfolding comm
    by (intro runs_toI [where h = h and hh = hh and ds = "semds s" and a = a']) (simp_all add: view_def set_semAdd_def)
qed

lemma outBlocked_view_none: "p_semAdd (pcbs s p) = 0 \<Longrightarrow> outBlocked (Some p) s = Some (None, s)"
  by (rule outBlocked_none)

lemma outBlocked_view:
  assumes "kabs s v" and k: "p_semAdd (pcbs s p) = k" "k \<noteq> 0"
  shows "runs_to (outBlocked (Some p) s) (Some p) (set_semAdd p 0 s)
    (v\<lparr>v_semq := (v_semq v)(k := removeAll p (v_semq v k))\<rparr>)"
proof -
  from assms obtain a where a: "links s a" "ash_inv s a" "tree_inv s a" "v = view s a" by (blast elim: kabsE)
  from outBlocked_abs [OF a(1,2) k] obtain h hh a' where
    t: "outBlocked (Some p) s = Some (Some p, set_semAdd p 0 (s\<lparr>lists := h, semd_h := hh\<rparr>))"
    "links (set_semAdd p 0 (s\<lparr>lists := h, semd_h := hh\<rparr>)) a'"
    "ash_inv (set_semAdd p 0 (s\<lparr>lists := h, semd_h := hh\<rparr>)) a'"
    "semq (set_semAdd p 0 (s\<lparr>lists := h, semd_h := hh\<rparr>)) a' = (semq s a)(k := removeAll p (semq s a k))"
    "same_rest a a'"
    unfolding Let_def by blast
  have comm: "set_semAdd p 0 (s\<lparr>lists := h, semd_h := hh\<rparr>) = relink h hh (semds s) (set_semAdd p 0 s)"
    by (simp add: set_semAdd_def)
  note sr = same_rest_view [OF t(5) a(3) _ t(4)]
  show ?thesis
    using t sr a(4) unfolding comm
    by (intro runs_toI [where h = h and hh = hh and ds = "semds s" and a = a']) (simp_all add: view_def set_semAdd_def)
qed

section \<open>Namespaces\<close>

lemma allocNamespace_view_empty: "kabs s v \<Longrightarrow> v_nsfree v = [] \<Longrightarrow> allocNamespace ty s = Some (None, s)"
  by (erule kabsE) (simp add: allocNamespace_def empty_lists_abs view_def)

lemma allocNamespace_view:
  assumes "kabs s v" and "v_nsfree v = n # ns"
  shows "runs_to (allocNamespace ty s) (Some n) (s\<lparr>nsds := (nsds s)(n := (nsds s n)\<lparr>n_type := ty\<rparr>)\<rparr>)
    (v\<lparr>v_nsfree := ns\<rparr>)"
proof -
  from assms obtain a where a: "links s a" "ash_inv s a" "tree_inv s a" "v = view s a" by (blast elim: kabsE)
  then have f: "a_nsfree a = n # ns" using assms(2) by (simp add: view_def)
  have "n \<notin> set ns" using links_distinct(3) [OF a(1)] f by simp
  then have "removeAll (N_link n) (map N_link (a_nsfree a)) = map N_link ns"
    using f by (simp add: map_links)
  then obtain h where h: "list_del (Some (N_link n)) (lists s) = Some h"
    "heap_abs h (Lmap (a\<lparr>a_nsfree := ns\<rparr>))"
    using list_del_abs [OF links_lists [OF a(1)], of PID_nsFree_h "map N_link (a_nsfree a)" "N_link n"] f
      Lmap_upd(3) [of a ns] by auto
  let ?t = "s\<lparr>nsds := (nsds s)(n := (nsds s n)\<lparr>n_type := ty\<rparr>)\<rparr>"
  show ?thesis
  proof (rule runs_to_lists)
    show "allocNamespace ty s = Some (Some n, ?t\<lparr>lists := h\<rparr>)"
      using h(1) by (simp add: allocNamespace_def empty_lists_abs [OF a(1)] first_entries_abs [OF a(1)] f
          on_lists_def)
    show "links (?t\<lparr>lists := h\<rparr>) (a\<lparr>a_nsfree := ns\<rparr>)" using h(2) a(1) by (simp add: links_def)
    have "ash_inv ?t a = ash_inv s a" "semq ?t a = semq s a" by (rule ash_inv_cong; simp)+
    then show "ash_inv ?t (a\<lparr>a_nsfree := ns\<rparr>)" "v\<lparr>v_nsfree := ns\<rparr> = view ?t (a\<lparr>a_nsfree := ns\<rparr>)"
      using a by (simp_all add: view_def)
    show "tree_inv ?t (a\<lparr>a_nsfree := ns\<rparr>)" using a(3) by (simp add: tree_inv_def)
  qed
qed

lemma unlink_N_link: "unlink (N_link n) (Lmap a)
    = Lmap (a\<lparr>a_nsfree := removeAll n (a_nsfree a), a_nslist := removeAll n (a_nslist a)\<rparr>)"
proof
  fix r
  have other: "removeAll (N_link n) (map f xs) = map f xs" if "N_link n \<notin> range f" for f :: "nat \<Rightarrow> lnode" and xs
    using that by (induction xs) auto
  show "unlink (N_link n) (Lmap a) r
      = Lmap (a\<lparr>a_nsfree := removeAll n (a_nsfree a), a_nslist := removeAll n (a_nslist a)\<rparr>) r"
    by (cases r) (auto simp: unlink_def map_links other image_iff option.map_comp comp_def cong: map_option_cong)
qed

lemma freeNamespace_view:
  assumes "kabs s v"
  shows "ends_in (freeNamespace (Some n) s) s
    (v\<lparr>v_nsfree := removeAll n (v_nsfree v) @ [n], v_nslist := removeAll n (v_nslist v)\<rparr>)"
proof -
  from assms obtain a where a: "links s a" "ash_inv s a" "tree_inv s a" "v = view s a" by (blast elim: kabsE)
  let ?a = "a\<lparr>a_nsfree := removeAll n (a_nsfree a), a_nslist := removeAll n (a_nslist a)\<rparr>"
  from list_safe_del_abs [OF links_lists [OF a(1)], of "N_link n"] obtain h1 where
    h1: "list_safe_del (Some (N_link n)) (lists s) = Some h1" "heap_abs h1 (Lmap ?a)"
    by (auto simp: unlink_N_link)
  have "N_link n \<notin> lnodes (Lmap ?a)" by (simp add: in_lnodes)
  from list_add_tail_abs [OF h1(2), of PID_nsFree_h _ "N_link n"] this obtain h2 where
    h2: "list_add_tail (Some (N_link n)) (Some PID_nsFree_h) h1 = Some h2"
    "heap_abs h2 (Lmap (?a\<lparr>a_nsfree := removeAll n (a_nsfree a) @ [n]\<rparr>))"
    using Lmap_upd(3) [of ?a "removeAll n (a_nsfree a) @ [n]"] by auto
  show ?thesis
  proof (rule ends_in_lists)
    show "freeNamespace (Some n) s = Some (s\<lparr>lists := h2\<rparr>)"
      using h1(1) h2(1) by (simp add: freeNamespace_def on_lists_def)
    show "links (s\<lparr>lists := h2\<rparr>) (?a\<lparr>a_nsfree := removeAll n (a_nsfree a) @ [n]\<rparr>)"
      using h2(2) a(1) by (simp add: links_def)
  qed (use a in \<open>simp_all add: view_def\<close>)
qed

section \<open>The interfaces the structures provide\<close>

text \<open>A PCB whose \<open>p_list\<close> is null is in no queue.\<close>

definition idle :: "kstate \<Rightarrow> nat \<Rightarrow> bool" where
  "idle s p \<longleftrightarrow> nxt (lists s) (P_list p) = None"

lemma idle_view: "kabs s v \<Longrightarrow> idle s p \<longleftrightarrow> \<not> v_queued s p v"
proof (erule kabsE)
  fix a assume a: "links s a" "ash_inv s a" "tree_inv s a" "v = view s a"
  have "nxt (lists s) (P_list p) = None \<longleftrightarrow> P_list p \<notin> lnodes (Lmap a)"
  proof
    assume n: "nxt (lists s) (P_list p) = None"
    show "P_list p \<notin> lnodes (Lmap a)"
    proof
      assume "P_list p \<in> lnodes (Lmap a)"
      then obtain r xs where r: "Lmap a r = Some xs" "P_list p \<in> insert r (set xs)" by (rule lnodesE)
      then show False using dll_notNone [OF heap_abs_dll [OF links_lists [OF a(1)] r(1)], of "P_list p"] n
        by simp
    qed
  next
    assume "P_list p \<notin> lnodes (Lmap a)"
    then show "nxt (lists s) (P_list p) = None" using heap_abs_null [OF links_lists [OF a(1)]] by blast
  qed
  then show "idle s p \<longleftrightarrow> \<not> v_queued s p v"
    using queued_view [OF a(2), of p] a(4) by (simp add: idle_def P_list_in_lnodes)
qed

definition free_rel :: "kstate \<Rightarrow> nat list \<Rightarrow> bool" where
  "free_rel s xs \<longleftrightarrow> (\<exists>v. kabs s v \<and> v_free v = xs)"

definition releasable :: "kstate \<Rightarrow> nat \<Rightarrow> bool" where
  "releasable s p \<longleftrightarrow> idle s p \<and> p_parent (pcbs s p) = None \<and> (\<forall>c. p_parent (pcbs s c) \<noteq> Some p)"

lemma runs_to_ex: "runs_to m r t v \<Longrightarrow> \<exists>s'. m = Some (r, s') \<and> kabs s' v"
  by (auto simp: runs_to_def)

lemma ends_in_ex: "ends_in m t v \<Longrightarrow> \<exists>s'. m = Some s' \<and> kabs s' v"
  by (auto simp: ends_in_def)

interpretation pcb_pool: lifo_pool free_rel "allocPcb A" releasable "\<lambda>p. freePcb (Some p)"
proof
  show "free_rel s [] \<Longrightarrow> allocPcb A s = Some (None, s)" for s
    using allocPcb_view_empty by (auto simp: free_rel_def)
  show "free_rel s (x # xs) \<Longrightarrow> \<exists>s'. allocPcb A s = Some (Some x, s') \<and> free_rel s' xs" for s x xs
    using runs_to_ex [OF allocPcb_view] by (fastforce simp: free_rel_def)
  show "free_rel s xs \<Longrightarrow> releasable s x \<Longrightarrow> \<exists>s'. freePcb (Some x) s = Some s' \<and> free_rel s' (x # xs)"
    for s xs x
  proof -
    assume "free_rel s xs" "releasable s x"
    then obtain v where v: "kabs s v" "v_free v = xs" "\<not> v_queued s x v" "p_parent (pcbs s x) = None"
      "\<forall>c. p_parent (pcbs s c) \<noteq> Some x" by (auto simp: free_rel_def releasable_def idle_view)
    then have k: "v_kids v x = []" using kabs_facts(11) [OF v(1), of _ x] by (cases "v_kids v x") fastforce+
    have
      "ends_in (freePcb (Some x) s) s (v\<lparr>v_free := x # removeAll x (v_free v), v_ready := removeAll x (v_ready v)\<rparr>)"
      by (rule freePcb_view [OF v(1)]) (use v k in \<open>auto simp: v_queued_def\<close>)
    from ends_in_ex [OF this] v(2,3) show ?thesis by (fastforce simp: free_rel_def v_queued_def)
  qed
qed

interpretation namespace_pool: pool "\<lambda>s xs. \<exists>v. kabs s v \<and> v_nsfree v = xs" "allocNamespace ty"
proof
  show "\<exists>v. kabs s v \<and> v_nsfree v = [] \<Longrightarrow> allocNamespace ty s = Some (None, s)" for s
    using allocNamespace_view_empty by blast
  show "\<exists>v. kabs s v \<and> v_nsfree v = x # xs \<Longrightarrow>
      \<exists>s'. allocNamespace ty s = Some (Some x, s') \<and> (\<exists>v. kabs s' v \<and> v_nsfree v = xs)" for s x xs
    using runs_to_ex [OF allocNamespace_view] by fastforce
qed

definition ready_rel :: "kstate \<Rightarrow> nat list \<Rightarrow> bool" where
  "ready_rel s xs \<longleftrightarrow> (\<exists>v. kabs s v \<and> v_ready v = xs)"

interpretation ready: fifo ready_rel idle "\<lambda>p. insertProcQ (Some Ready_queue) (Some p)"
  "removeProcQ (Some Ready_queue)"
proof
  show "ready_rel s xs \<Longrightarrow> idle s x \<Longrightarrow>
      \<exists>s'. insertProcQ (Some Ready_queue) (Some x) s = Some s' \<and> ready_rel s' (xs @ [x])" for s xs x
    using ends_in_ex [OF insertProcQ_view] by (fastforce simp: ready_rel_def idle_view v_queued_def)
  show "ready_rel s [] \<Longrightarrow> removeProcQ (Some Ready_queue) s = Some (None, s)" for s
    using removeProcQ_view_empty by (auto simp: ready_rel_def)
  show "ready_rel s (x # xs) \<Longrightarrow>
      \<exists>s'. removeProcQ (Some Ready_queue) s = Some (Some x, s') \<and> ready_rel s' xs \<and> idle s' x" for s x xs
  proof -
    assume "ready_rel s (x # xs)"
    then obtain v where v: "kabs s v" "v_ready v = x # xs" by (auto simp: ready_rel_def)
    from removeProcQ_view [OF v] obtain h hh ds where
      r: "removeProcQ (Some Ready_queue) s = Some (Some x, relink h hh ds s)"
      "kabs (relink h hh ds s) (v\<lparr>v_ready := xs\<rparr>)" by (rule runs_toE)
    have "\<not> v_queued (relink h hh ds s) x (v\<lparr>v_ready := xs\<rparr>)"
      using kabs_facts(2,7) [OF v(1)] kabs_facts(10) [OF v(1), of x] v(2) by (auto simp: v_queued_def)
    with r show ?thesis using idle_view [OF r(2)] by (auto simp: ready_rel_def)
  qed
qed

text \<open>
  The table of blocked processes.  \<open>block\<close> is \<open>insertBlocked\<close> with its error codes taken as
  failures.
\<close>

definition blocked_rel :: "kstate \<Rightarrow> (u32 \<Rightarrow> nat list) \<Rightarrow> bool" where
  "blocked_rel s Q \<longleftrightarrow> (\<exists>v. kabs s v \<and> v_semq v = Q \<and> (\<forall>k. set (Q k) \<subseteq> {..<MAXPROC}))"

definition block_ok :: "u32 \<Rightarrow> nat \<Rightarrow> kstate update" where
  "block_ok k p s = do {
     (r, s) \<leftarrow> insertBlocked k (Some p) s;
     if r = 0 then Some s else None
   }"

lemma unblocked_idle:
  assumes "kabs s v" and "v_semq v k = p # ps" and "kabs t (v\<lparr>v_semq := (v_semq v)(k := ps)\<rparr>)"
    and "p_semAdd (pcbs t p) = 0"
  shows "idle t p"
proof -
  have "p_semAdd (pcbs s p) \<noteq> 0"
    using kabs_facts(8) [OF assms(1), of k p] kabs_facts(9) [OF assms(1)] assms(2) by (cases "k = 0") auto
  then have "p \<notin> set (v_free v) \<union> set (v_ready v)" using kabs_facts(10) [OF assms(1)] by blast
  then show ?thesis using idle_view [OF assms(3)] assms(4) by (simp add: v_queued_def)
qed

interpretation blocked: blocked_row blocked_rel "\<lambda>k. k \<noteq> 0" "\<lambda>s p. idle s p \<and> p < MAXPROC"
  block_ok removeBlocked k for k
proof
  show "\<exists>s'. block_ok k p s = Some s' \<and> blocked_rel s' (Q(k := Q k @ [p]))"
    if Q: "blocked_rel s Q" and k: "k \<noteq> 0" and p: "idle s p \<and> p < MAXPROC" for s Q k p
  proof -
    from Q obtain v where v: "kabs s v" "v_semq v = Q" "\<And>k. set (Q k) \<subseteq> {..<MAXPROC}"
      by (auto simp: blocked_rel_def)
    have "runs_to (insertBlocked k (Some p) s) 0 (set_semAdd p k s)
        (v\<lparr>v_semq := (v_semq v)(k := v_semq v k @ [p])\<rparr>)"
      by (rule insertBlocked_view [OF v(1) k]) (use p v idle_view [OF v(1)] in auto)
    from runs_to_ex [OF this] obtain s' where
      "insertBlocked k (Some p) s = Some (0, s')" "kabs s' (v\<lparr>v_semq := (v_semq v)(k := v_semq v k @ [p])\<rparr>)"
      by blast
    moreover have "set ((Q(k := Q k @ [p])) k') \<subseteq> {..<MAXPROC}" for k' using v(3) p by auto
    ultimately show ?thesis using v(2) by (auto simp: block_ok_def blocked_rel_def)
  qed
  show "removeBlocked k s = Some (None, s)" if "blocked_rel s Q" "Q k = []" for s Q k
    using that removeBlocked_view_none by (auto simp: blocked_rel_def)
  show "\<exists>s'. removeBlocked k s = Some (Some p, s') \<and> blocked_rel s' (Q(k := ps)) \<and> idle s' p \<and> p < MAXPROC"
    if Q: "blocked_rel s Q" and q: "Q k = p # ps" for s Q k p ps
  proof -
    from Q obtain v where v: "kabs s v" "v_semq v = Q" "\<And>k. set (Q k) \<subseteq> {..<MAXPROC}"
      by (auto simp: blocked_rel_def)
    from removeBlocked_view [OF v(1)] q v(2) obtain h hh ds where
      r: "removeBlocked k s = Some (Some p, relink h hh ds (set_semAdd p 0 s))"
      "kabs (relink h hh ds (set_semAdd p 0 s)) (v\<lparr>v_semq := (v_semq v)(k := ps)\<rparr>)"
      by (blast elim: runs_toE)
    have "idle (relink h hh ds (set_semAdd p 0 s)) p"
      using unblocked_idle [OF v(1) _ r(2)] q v(2) by (simp add: set_semAdd_def)
    moreover have "set ((Q(k := ps)) k') \<subseteq> {..<MAXPROC}" for k' using v(3) [of k'] v(3) [of k] q by auto
    moreover have "p < MAXPROC" using v(3) [of k] q by auto
    ultimately show ?thesis using r v(2) unfolding blocked_rel_def by fastforce
  qed
  show "k \<noteq> 0" if "blocked_rel s Q" "Q k \<noteq> []" for s Q k
    using that kabs_facts(9) by (auto simp: blocked_rel_def)
qed

end
