(* ===== verification/Kernel_Inv.thy ===== *)
theory Kernel_Inv
  imports Kernel_View
begin

text \<open>
  The invariant of the kernel between two exceptions, and the operations of the scheduler on
  the view.
\<close>

section \<open>The invariant\<close>

text \<open>The edges of the process forest, from a child to its parent.\<close>

definition kid_rel :: "kview \<Rightarrow> (nat \<times> nat) set" where
  "kid_rel v = {(c, q). c \<in> set (v_kids v q)}"

definition in_table :: "kview \<Rightarrow> bool" where
  "in_table v \<longleftrightarrow> set (v_free v) \<union> set (v_ready v) \<subseteq> {..<MAXPROC} \<and>
     (\<forall>k. set (v_semq v k) \<subseteq> {..<MAXPROC}) \<and> kid_rel v \<subseteq> {..<MAXPROC} \<times> {..<MAXPROC}"

text \<open>
  The queues hold PCBs of the table, the process tree has no cycle, and \<open>process_count\<close> counts
  the PCBs that are not free.  Between two exceptions the running process is in no queue.
\<close>

definition inv_core :: "kstate \<Rightarrow> kview \<Rightarrow> bool" where
  "inv_core s v \<longleftrightarrow> in_table v \<and> acyclic (kid_rel v) \<and>
     process_count s = of_nat (MAXPROC - length (v_free v))"

definition cur_ok :: "kstate \<Rightarrow> kview \<Rightarrow> bool" where
  "cur_ok s v \<longleftrightarrow>
     (\<forall>p. current_active_process s = Some p \<longrightarrow> p < MAXPROC \<and> \<not> v_queued s p v)"

definition kinv :: "kstate \<Rightarrow> kview \<Rightarrow> bool" where
  "kinv s v \<longleftrightarrow> kabs s v \<and> inv_core s v \<and> cur_ok s v"

lemma kinvD:
  assumes "kinv s v"
  shows "kabs s v" and "inv_core s v" and "in_table v" and "acyclic (kid_rel v)"
    and "current_active_process s = Some p \<Longrightarrow> p < MAXPROC \<and> \<not> v_queued s p v"
    and "process_count s = of_nat (MAXPROC - length (v_free v))"
  using assms by (simp_all add: kinv_def inv_core_def cur_ok_def)

lemma in_tableD:
  assumes "in_table v"
  shows "p \<in> set (v_free v) \<Longrightarrow> p < MAXPROC" and "p \<in> set (v_ready v) \<Longrightarrow> p < MAXPROC"
    and "p \<in> set (v_semq v k) \<Longrightarrow> p < MAXPROC"
    and "c \<in> set (v_kids v q) \<Longrightarrow> c < MAXPROC \<and> q < MAXPROC"
  using assms by (auto simp: in_table_def kid_rel_def)

lemma finite_kid_rel: "in_table v \<Longrightarrow> finite (kid_rel v)"
  unfolding in_table_def by (auto intro: finite_subset)

lemma free_length: "kabs s v \<Longrightarrow> in_table v \<Longrightarrow> length (v_free v) \<le> MAXPROC"
  using kabs_facts(1) [of s v] distinct_card [of "v_free v"] card_mono [of "{..<MAXPROC}" "set (v_free v)"]
  by (auto simp: in_table_def)

lemma v_queued_cong [simp]:
  "v_queued (s\<lparr>lists := h\<rparr>) p v = v_queued s p v" "v_queued (s\<lparr>semd_h := hh\<rparr>) p v = v_queued s p v"
  "v_queued (s\<lparr>semds := ds\<rparr>) p v = v_queued s p v"
  by (simp_all add: v_queued_def)

lemma inv_core_relink [simp]: "inv_core (relink h hh ds s) v = inv_core s v"
  by (simp add: inv_core_def)

lemma cur_ok_relink [simp]: "cur_ok (relink h hh ds s) v = cur_ok s v"
  by (simp add: cur_ok_def)

lemma runs_to_kinv:
  "runs_to m r t v \<Longrightarrow> inv_core t v \<Longrightarrow> cur_ok t v \<Longrightarrow>
    \<exists>h hh ds. m = Some (r, relink h hh ds t) \<and> kinv (relink h hh ds t) v"
  by (auto simp: runs_to_def kinv_def)

section \<open>scheduler.c\<close>

lemma enqueueReady_null: "enqueueReady None s = Some (s\<lparr>current_active_process := current_active_process s\<rparr>)"
  by (simp add: enqueueReady_def)

lemma kabs_other_fields [simp]:
  "kabs (s\<lparr>current_active_process := c\<rparr>) v = kabs s v" "kabs (s\<lparr>process_count := n\<rparr>) v = kabs s v"
  "kabs (s\<lparr>soft_block_count := n\<rparr>) v = kabs s v" "kabs (s\<lparr>pid_counter := n\<rparr>) v = kabs s v"
  "kabs (s\<lparr>start_time := n\<rparr>) v = kabs s v" "kabs (s\<lparr>mem := m\<rparr>) v = kabs s v"
  "kabs (s\<lparr>bios_state := b\<rparr>) v = kabs s v" "kabs (s\<lparr>reg_TIMER := n\<rparr>) v = kabs s v"
  "kabs (s\<lparr>interval_timer := n\<rparr>) v = kabs s v" "kabs (s\<lparr>reg_STATUS := n\<rparr>) v = kabs s v"
  "kabs (s\<lparr>supports := u\<rparr>) v = kabs s v" "kabs (s\<lparr>nsds := x\<rparr>) v = kabs s v"
  "kabs (s\<lparr>passupvector := y\<rparr>) v = kabs s v"
  by (rule iffI; erule kabs_cong; simp)+

lemma kabs_set_pcb:
  assumes "p_semAdd (f (pcbs s p)) = p_semAdd (pcbs s p)" and "p_parent (f (pcbs s p)) = p_parent (pcbs s p)"
  shows "kabs (set_pcb p f s) v = kabs s v"
  by (rule iffI; erule kabs_cong; simp add: set_pcb_def assms)

definition clear_current :: "nat \<Rightarrow> kstate \<Rightarrow> kstate" where
  "clear_current p s = (if current_active_process s = Some p then s\<lparr>current_active_process := None\<rparr> else s)"

lemma enqueueReady_view:
  assumes "kabs s v" and "p \<notin> set (v_free v)" and "p_semAdd (pcbs s p) = 0"
  shows "ends_in (enqueueReady (Some p) s) (clear_current p s) (v\<lparr>v_ready := removeAll p (v_ready v) @ [p]\<rparr>)"
  unfolding enqueueReady_def
proof (rule ends_in_bind [OF insertProcQ_view [OF assms]])
  fix h hh ds
  assume "kabs (relink h hh ds s) (v\<lparr>v_ready := removeAll p (v_ready v) @ [p]\<rparr>)"
  then show "ends_in (Some (if Some p = current_active_process (relink h hh ds s)
      then relink h hh ds s\<lparr>current_active_process := None\<rparr> else relink h hh ds s))
    (relink h hh ds (clear_current p s)) (v\<lparr>v_ready := removeAll p (v_ready v) @ [p]\<rparr>)"
    by (auto simp: clear_current_def intro!: ends_in_SomeI)
qed

text \<open>The state a process is run in, and the one the processor waits in.\<close>

definition running :: "nat \<Rightarrow> kstate \<Rightarrow> kstate" where
  "running p s = s\<lparr>current_active_process := Some p, reg_TIMER := TIMESLICE * mem s TIMESCALEADDR,
     start_time := tod s\<rparr>"

unbundle bit_operations_syntax

definition waiting :: "kstate \<Rightarrow> kstate" where
  "waiting s = s\<lparr>current_active_process := None, reg_STATUS := (IECON OR IMON) AND NOT TEBITON\<rparr>"

lemma schedule_dispatch:
  assumes "kabs s v" and "v_ready v = p # ps"
  shows "runs_to (schedule s) (LDST (p_s (pcbs s p))) (running p s) (v\<lparr>v_ready := ps\<rparr>)"
proof -
  let ?s = "s\<lparr>current_active_process := None\<rparr>"
  have k: "kabs ?s v" using assms(1) by simp
  have "runs_to (dispatch ?s) (LDST (p_s (pcbs s p))) (running p s) (v\<lparr>v_ready := ps\<rparr>)"
    unfolding dispatch_def
  proof (rule runs_to_bind [OF removeProcQ_view [OF k assms(2)]])
    fix h hh ds
    assume "kabs (relink h hh ds ?s) (v\<lparr>v_ready := ps\<rparr>)"
    then show "runs_to ((case (Some p, relink h hh ds ?s) of (p, s) \<Rightarrow>
        let s = resetPLT (s\<lparr>current_active_process := p\<rparr>); s = s\<lparr>start_time := tod s\<rparr> in
        load_pcb p s \<bind> (\<lambda>b. Some (LDST (p_s b), s))))
      (LDST (p_s (pcbs s p))) (relink h hh ds (running p s)) (v\<lparr>v_ready := ps\<rparr>)"
      by (auto simp: resetPLT_def TRANSLATE_TIME_def running_def Let_def intro!: runs_to_SomeI elim!: kabs_cong)
  qed
  then show ?thesis
    using emptyProcQ_view [OF k] assms(2) by (simp add: schedule_def Let_def)
qed

lemma schedule_idle:
  assumes "kabs s v" and "v_ready v = []"
  shows "schedule s =
    (if process_count s = 0 then Some (HALT, s\<lparr>current_active_process := None\<rparr>)
     else if soft_block_count s > 0 then Some (WAIT, waiting s)
     else Some (PANIC, s\<lparr>current_active_process := None\<rparr>))"
proof -
  have "process_count s \<noteq> 0 \<Longrightarrow> 0 < process_count s" by (simp add: word_gt_0)
  then show ?thesis
    using emptyProcQ_view [of "s\<lparr>current_active_process := None\<rparr>" v] assms
    by (auto simp: schedule_def waiting_def word_gt_0)
qed

text \<open>After \<open>schedule\<close> the invariant holds again, whoever was running before.\<close>

lemma dispatch_inv:
  assumes "kabs s v" and "inv_core s v" and "v_ready v = p # ps"
  shows "inv_core (running p s) (v\<lparr>v_ready := ps\<rparr>)" and "cur_ok (running p s) (v\<lparr>v_ready := ps\<rparr>)"
proof -
  have p: "p \<in> set (v_ready v)" using assms(3) by simp
  show "inv_core (running p s) (v\<lparr>v_ready := ps\<rparr>)"
    using assms(2,3) by (auto simp: inv_core_def in_table_def kid_rel_def running_def)
  have "p \<notin> set (v_free v)" "p \<notin> set ps"
    using kabs_facts(2,7) [OF assms(1)] assms(3) by auto
  moreover have "p_semAdd (pcbs s p) = 0" using kabs_facts(10) [OF assms(1), of p] p by blast
  moreover have "p < MAXPROC" using assms(2) p in_tableD(2) by (auto simp: inv_core_def)
  ultimately show "cur_ok (running p s) (v\<lparr>v_ready := ps\<rparr>)"
    by (auto simp: cur_ok_def running_def v_queued_def)
qed

lemma idle_inv:
  assumes "inv_core s v"
  shows "inv_core (waiting s) v" and "cur_ok (waiting s) v"
    and "inv_core (s\<lparr>current_active_process := None\<rparr>) v" and "cur_ok (s\<lparr>current_active_process := None\<rparr>) v"
  using assms by (auto simp: inv_core_def cur_ok_def waiting_def)

section \<open>Giving the processor away\<close>

text \<open>
  \<open>resumes m s v\<close>: the run ends by dispatching the first ready process of \<open>v\<close> out of \<open>s\<close>, or
  by what \<open>schedule\<close> does when there is none; the invariant holds again.
\<close>

definition resumes :: "(outcome \<times> kstate) option \<Rightarrow> kstate \<Rightarrow> kview \<Rightarrow> bool" where
  "resumes m t v \<longleftrightarrow> (\<exists>h hh ds. case v_ready v of
      p # ps \<Rightarrow> m = Some (LDST (p_s (pcbs t p)), relink h hh ds (running p t)) \<and>
        kinv (relink h hh ds (running p t)) (v\<lparr>v_ready := ps\<rparr>)
    | [] \<Rightarrow> (if process_count t = 0 then m = Some (HALT, relink h hh ds (t\<lparr>current_active_process := None\<rparr>))
          \<and> kinv (relink h hh ds (t\<lparr>current_active_process := None\<rparr>)) v
        else if soft_block_count t > 0 then m = Some (WAIT, relink h hh ds (waiting t))
          \<and> kinv (relink h hh ds (waiting t)) v
        else m = Some (PANIC, relink h hh ds (t\<lparr>current_active_process := None\<rparr>))
          \<and> kinv (relink h hh ds (t\<lparr>current_active_process := None\<rparr>)) v))"

lemma resumes_relink: "resumes m (relink h hh ds t) v \<longleftrightarrow> resumes m t v"
  by (simp add: resumes_def running_def waiting_def split: list.split)

lemma kabs_waiting [simp]: "kabs (waiting s) v = kabs s v"
  by (simp add: waiting_def)

lemma schedule_resumes:
  assumes k: "kabs s v" and inv: "inv_core s v"
  shows "resumes (schedule s) s v"
proof (cases "v_ready v")
  case Nil
  have "kinv (waiting s) v" "kinv (s\<lparr>current_active_process := None\<rparr>) v"
    using k idle_inv [OF inv] by (simp_all add: kinv_def)
  then show ?thesis
    unfolding resumes_def schedule_idle [OF k Nil]
    by (intro exI [of _ "lists s"] exI [of _ "semd_h s"] exI [of _ "semds s"])
      (simp add: Nil waiting_def)
next
  case (Cons p ps)
  from runs_to_kinv [OF schedule_dispatch [OF k Cons] dispatch_inv [OF k inv Cons]]
  show ?thesis by (simp add: resumes_def Cons)
qed

end
