(* ===== verification/Sem_Ops.thy ===== *)
theory Sem_Ops
  imports Kernel_Inv
begin

text \<open>
  The semaphore operations on the view: \<open>P\<close> and \<open>V\<close> of the interrupt handler, \<open>passeren\<close> and
  \<open>verhogen\<close> of the system calls, and the clock tick that wakes every process waiting for it.
\<close>

section \<open>Blocking and waking\<close>

definition v_block :: "u32 \<Rightarrow> nat \<Rightarrow> kview \<Rightarrow> kview" where
  "v_block k p v = v\<lparr>v_semq := (v_semq v)(k := v_semq v k @ [p])\<rparr>"

definition v_wake :: "u32 \<Rightarrow> kview \<Rightarrow> kview" where
  "v_wake k v = v\<lparr>v_semq := (v_semq v)(k := tl (v_semq v k)), v_ready := v_ready v @ [hd (v_semq v k)]\<rparr>"

lemma v_block_inv:
  assumes "inv_core s v" and "p < MAXPROC"
  shows "inv_core s (v_block k p v)"
  using assms by (auto simp: inv_core_def in_table_def kid_rel_def v_block_def)

lemma v_wake_inv:
  assumes "inv_core s v" and "v_semq v k \<noteq> []"
  shows "inv_core s (v_wake k v)"
proof -
  obtain p ps where q: "v_semq v k = p # ps" using assms(2) by (cases "v_semq v k") auto
  have "set (p # ps) \<subseteq> {..<MAXPROC}" using assms(1) q by (metis inv_core_def in_table_def)
  with assms(1) q show ?thesis
    by (auto simp: inv_core_def in_table_def kid_rel_def v_wake_def)
qed

lemma block_current:
  assumes "kinv s v" and "current_active_process s = Some p" and "k \<noteq> 0"
  shows "runs_to (insertBlocked k (Some p) s) 0 (set_semAdd p k s) (v_block k p v)"
  unfolding v_block_def
  by (rule insertBlocked_view [OF kinvD(1) [OF assms(1)] assms(3)])
    (use kinvD(5) [OF assms(1,2)] in_tableD(3) [OF kinvD(3) [OF assms(1)]] in blast)+

text \<open>Waking the head of a queue: \<open>removeBlocked\<close>, then \<open>enqueueReady\<close>.\<close>

lemma blocked_not_elsewhere:
  assumes "kabs s v" and "p \<in> set (v_semq v k)"
  shows "p_semAdd (pcbs s p) = k" and "k \<noteq> 0" and "p \<notin> set (v_free v)" and "p \<notin> set (v_ready v)"
proof -
  show k: "k \<noteq> 0" using kabs_facts(9) [OF assms(1)] assms(2) by auto
  show e: "p_semAdd (pcbs s p) = k" using kabs_facts(8) [OF assms(1) k] assms(2) by blast
  show "p \<notin> set (v_free v)" "p \<notin> set (v_ready v)"
    using kabs_facts(10) [OF assms(1), of p] e k by blast+
qed

lemma wake_head:
  assumes k: "kabs s v" and q: "v_semq v key = p # ps"
  shows "runs_to (do {
      (proc, s) \<leftarrow> removeBlocked key s;
      s \<leftarrow> enqueueReady proc s;
      Some (proc, s)
    }) (Some p) (clear_current p (set_semAdd p 0 s)) (v_wake key v)"
proof (rule runs_to_bind [OF removeBlocked_view [OF k q]], simp only: prod.case)
  fix h hh ds
  let ?s = "relink h hh ds (set_semAdd p 0 s)" and ?v = "v\<lparr>v_semq := (v_semq v)(key := ps)\<rparr>"
  assume s: "kabs ?s ?v"
  have "p \<in> set (v_semq v key)" using q by simp
  note b = blocked_not_elsewhere [OF k this]
  have "ends_in (enqueueReady (Some p) ?s) (clear_current p ?s) (v_wake key v)"
    using enqueueReady_view [OF s, of p] b q by (simp add: set_semAdd_def v_wake_def)
  then show "runs_to (do { s \<leftarrow> enqueueReady (Some p) ?s; Some (Some p, s) }) (Some p)
      (relink h hh ds (clear_current p (set_semAdd p 0 s))) (v_wake key v)"
  proof (rule ends_in_bind_runs)
    fix h' hh' ds'
    assume "kabs (relink h' hh' ds' (clear_current p ?s)) (v_wake key v)"
    then show "runs_to (Some (Some p, relink h' hh' ds' (clear_current p ?s))) (Some p)
       (relink h' hh' ds' (relink h hh ds (clear_current p (set_semAdd p 0 s)))) (v_wake key v)"
      by (intro runs_to_SomeI) (auto simp: clear_current_def set_semAdd_def)
  qed
qed

section \<open>P and V of the interrupt handler\<close>

lemma P_sem_block:
  assumes "kinv s v" and "current_active_process s = Some p" and "k \<noteq> 0" and "mem s k = 0"
  shows "ends_in (P_sem k s) (incrementSoftBlockCount (set_semAdd p k s)) (v_block k p v)"
proof -
  have "ends_in (do {
       (_, s) \<leftarrow> insertBlocked k (currentProc s) s;
       Some (incrementSoftBlockCount s)
     }) (incrementSoftBlockCount (set_semAdd p k s)) (v_block k p v)"
    unfolding currentProc_def assms(2)
  proof (rule runs_to_bind_ends [OF block_current [OF assms(1,2,3)]], simp only: prod.case)
    fix h hh ds
    assume "kabs (relink h hh ds (set_semAdd p k s)) (v_block k p v)"
    then show "ends_in (Some (incrementSoftBlockCount (relink h hh ds (set_semAdd p k s))))
        (relink h hh ds (incrementSoftBlockCount (set_semAdd p k s))) (v_block k p v)"
      by (intro ends_in_SomeI) (simp_all add: incrementSoftBlockCount_def)
  qed
  then show ?thesis using assms(3,4) by (simp add: P_sem_def)
qed

lemma P_sem_pass: "k \<noteq> 0 \<Longrightarrow> mem s k \<noteq> 0 \<Longrightarrow> P_sem k s = Some (store_word k 0 s)"
  by (simp add: P_sem_def)

lemma V_sem_none: "kabs s v \<Longrightarrow> k \<noteq> 0 \<Longrightarrow> v_semq v k = [] \<Longrightarrow> V_sem k s = Some (None, store_word k 1 s)"
  by (simp add: V_sem_def headBlocked_view)

lemma V_sem_wake:
  assumes "kabs s v" and "v_semq v k = p # ps"
  shows "runs_to (V_sem k s) (Some p) (decrementSoftBlockCount (clear_current p (set_semAdd p 0 s))) (v_wake k v)"
proof -
  have eq: "V_sem k s = do {
      (proc, s) \<leftarrow> do { (proc, s) \<leftarrow> removeBlocked k s; s \<leftarrow> enqueueReady proc s; Some (proc, s) };
      Some (proc, decrementSoftBlockCount s)
    }"
    using headBlocked_view [OF assms(1), of k] assms(2) by (cases "removeBlocked k s") (auto simp: V_sem_def)
  show ?thesis unfolding eq
  proof (rule runs_to_bind [OF wake_head [OF assms]], simp only: prod.case)
    fix h hh ds
    let ?t = "clear_current p (set_semAdd p 0 s)"
    assume "kabs (relink h hh ds ?t) (v_wake k v)"
    then show "runs_to (Some (Some p, decrementSoftBlockCount (relink h hh ds ?t))) (Some p)
        (relink h hh ds (decrementSoftBlockCount ?t)) (v_wake k v)"
      by (intro runs_to_SomeI) (simp_all add: decrementSoftBlockCount_def)
  qed
qed

section \<open>The clock\<close>

definition v_wake_all :: "u32 \<Rightarrow> kview \<Rightarrow> kview" where
  "v_wake_all k v = v\<lparr>v_semq := (v_semq v)(k := []), v_ready := v_ready v @ v_semq v k\<rparr>"

text \<open>The state with the semaphore of each of the processes reset, and not running.\<close>

fun wake_procs :: "nat list \<Rightarrow> kstate \<Rightarrow> kstate" where
  "wake_procs [] s = s"
| "wake_procs (p # ps) s =
     wake_procs ps (decrementSoftBlockCount (clear_current p (set_semAdd p 0 s)))"

lemma wake_procs_relink: "wake_procs ps (relink h hh ds s) = relink h hh ds (wake_procs ps s)"
proof (induction ps arbitrary: s)
  case (Cons p ps)
  have "decrementSoftBlockCount (clear_current p (set_semAdd p 0 (relink h hh ds s)))
      = relink h hh ds (decrementSoftBlockCount (clear_current p (set_semAdd p 0 s)))"
    by (simp add: decrementSoftBlockCount_def clear_current_def set_semAdd_def)
  then show ?case using Cons by simp
qed simp

lemma wake_clock_all:
  "kabs s v \<Longrightarrow> v_semq v k = ps \<Longrightarrow> ends_in (wake_clock k s) (wake_procs ps s) (v_wake_all k v)"
proof (induction ps arbitrary: s v)
  case Nil
  then have "v_wake_all k v = v" by (simp add: v_wake_all_def fun_upd_idem)
  then show ?case using Nil
    by (subst wake_clock.simps) (simp add: headBlocked_view ends_in_Some)
next
  case (Cons p ps)
  have eq: "wake_clock k s = do {
      (proc, s) \<leftarrow> do { (proc, s) \<leftarrow> removeBlocked k s; s \<leftarrow> enqueueReady proc s; Some (proc, s) };
      wake_clock k (decrementSoftBlockCount s)
    }"
    using headBlocked_view [OF Cons.prems(1), of k] Cons.prems(2)
    by (subst wake_clock.simps) (cases "removeBlocked k s"; auto)
  show ?case unfolding eq
  proof (rule runs_to_bind_ends [OF wake_head [OF Cons.prems]], simp only: prod.case)
    fix h hh ds
    let ?t = "clear_current p (set_semAdd p 0 s)"
    assume "kabs (relink h hh ds ?t) (v_wake k v)"
    then have d: "kabs (decrementSoftBlockCount (relink h hh ds ?t)) (v_wake k v)"
      by (simp add: decrementSoftBlockCount_def)
    have q: "v_semq (v_wake k v) k = ps" using Cons.prems(2) by (simp add: v_wake_def)
    have "v_wake_all k (v_wake k v) = v_wake_all k v"
      using Cons.prems(2) by (simp add: v_wake_all_def v_wake_def)
    moreover have c: "decrementSoftBlockCount (relink h hh ds ?t) = relink h hh ds (decrementSoftBlockCount ?t)"
      by (simp add: decrementSoftBlockCount_def)
    ultimately show "ends_in (wake_clock k (decrementSoftBlockCount (relink h hh ds ?t)))
        (relink h hh ds (wake_procs (p # ps) s)) (v_wake_all k v)"
      using Cons.IH [OF d q] unfolding c wake_procs_relink ends_in_relink by simp
  qed
qed

end
