(* ===== verification/Term_Abs.thy ===== *)
theory Term_Abs
  imports Sem_Ops
begin

text \<open>
  Termination of a process: \<open>__terminateProcess\<close> returns whatever the shape of the tree, and
  frees exactly the process and its descendants.
\<close>

section \<open>Descendants in a forest\<close>

definition desc_of :: "('a \<times> 'a) set \<Rightarrow> 'a \<Rightarrow> 'a set" where
  "desc_of R p = {x. (x, p) \<in> R\<^sup>*}"

lemma desc_of_self [simp]: "p \<in> desc_of R p"
  by (simp add: desc_of_def)

lemma root_reaches_self_only:
  assumes "\<And>q. (p, q) \<notin> R" and "(p, c) \<in> R\<^sup>*"
  shows "p = c"
  using assms(2) by (cases rule: converse_rtranclE) (use assms(1) in auto)

text \<open>
  A child \<open>c\<close> of a root \<open>p\<close> is cut off and its subtree removed.  \<open>R'\<close> is the forest without
  the edge, \<open>R''\<close> the one without the subtree.
\<close>

lemma desc_of_child:
  assumes c: "(c, p) \<in> R" and root: "\<And>q. (p, q) \<notin> R" and "acyclic R"
  shows "desc_of (R - {(c, p)}) c = desc_of R c"
proof -
  have "p \<noteq> c" using c assms(3) by (auto simp: acyclic_def)
  have "(x, c) \<in> (R - {(c, p)})\<^sup>*" if "(x, c) \<in> R\<^sup>*" for x
    using that
  proof (induction rule: converse_rtrancl_induct)
    case base
    show ?case by simp
  next
    case (step y z)
    have "(y, z) \<noteq> (c, p)"
      using root_reaches_self_only [of p R c] root step.hyps(2) \<open>p \<noteq> c\<close> by blast
    with step show ?case by (meson Diff_iff converse_rtrancl_into_rtrancl singletonD)
  qed
  moreover have "(R - {(c, p)})\<^sup>* \<subseteq> R\<^sup>*" by (rule rtrancl_mono) blast
  ultimately show ?thesis by (auto simp: desc_of_def)
qed

lemma desc_of_rest:
  assumes c: "(c, p) \<in> R" and root: "\<And>q. (p, q) \<notin> R" and "acyclic R"
    and uniq: "\<And>x q q'. (x, q) \<in> R \<Longrightarrow> (x, q') \<in> R \<Longrightarrow> q = q'"
    and R'': "\<And>x q. (x, q) \<in> R'' \<longleftrightarrow> (x, q) \<in> R \<and> (x, q) \<noteq> (c, p) \<and> q \<notin> desc_of R c"
  shows "desc_of R'' p = desc_of R p - desc_of R c" and "desc_of R c \<subseteq> desc_of R p"
proof -
  have sub: "R''\<^sup>* \<subseteq> R\<^sup>*" by (rule rtrancl_mono) (use R'' in auto)
  have pc: "p \<notin> desc_of R c"
    using root_reaches_self_only [of p R c] root c by (auto simp: desc_of_def)
  show "desc_of R c \<subseteq> desc_of R p" using c by (auto simp: desc_of_def)
  have "(x, p) \<in> R''\<^sup>*" if "(x, p) \<in> R\<^sup>*" "x \<notin> desc_of R c" for x
    using that
  proof (induction rule: converse_rtrancl_induct)
    case base
    show ?case by simp
  next
    case (step y z)
    have "z \<notin> desc_of R c" using step.hyps(1) step.prems
      by (auto simp: desc_of_def intro: converse_rtrancl_into_rtrancl)
    moreover have "y \<noteq> c" using step.prems by auto
    ultimately have "(y, z) \<in> R''" using step.hyps(1) by (simp add: R'')
    with step.IH \<open>z \<notin> desc_of R c\<close> show ?case by (meson converse_rtrancl_into_rtrancl)
  qed
  moreover have "x \<notin> desc_of R c" if "(x, p) \<in> R''\<^sup>*" for x
  proof
    assume x: "x \<in> desc_of R c"
    with pc have "x \<noteq> p" by auto
    with that obtain q where q: "(x, q) \<in> R''" by (meson converse_rtranclE)
    from x have "(x, c) \<in> R\<^sup>*" by (simp add: desc_of_def)
    then show False
    proof (cases rule: converse_rtranclE)
      case base
      with q c uniq [of c q p] show False by (auto simp: R'')
    next
      case (step q')
      with q uniq [of x q q'] show False by (auto simp: R'' desc_of_def)
    qed
  qed
  ultimately show "desc_of R'' p = desc_of R p - desc_of R c"
    using sub by (auto simp: desc_of_def)
qed

section \<open>The state and the view without a subtree\<close>

definition reaped :: "umps \<Rightarrow> nat set \<Rightarrow> kstate \<Rightarrow> kstate" where
  "reaped A D s = s\<lparr>pcbs := (\<lambda>x. if x \<in> D then (pcbs s x)\<lparr>p_parent := None, p_semAdd := 0\<rparr> else pcbs s x),
     process_count := process_count s - of_nat (card D),
     soft_block_count := soft_block_count s - of_nat (card {x \<in> D. isSoftBlocked A (p_semAdd (pcbs s x))})\<rparr>"

definition v_reaped :: "nat set \<Rightarrow> nat list \<Rightarrow> kview \<Rightarrow> kview" where
  "v_reaped D fs v = v\<lparr>v_free := fs, v_ready := filter (\<lambda>x. x \<notin> D) (v_ready v),
     v_semq := (\<lambda>k. filter (\<lambda>x. x \<notin> D) (v_semq v k)),
     v_kids := (\<lambda>q. if q \<in> D then [] else v_kids v q)\<rparr>"

lemma reaped_relink: "reaped A D (relink h hh ds s) = relink h hh ds (reaped A D s)"
  by (simp add: reaped_def cong: if_cong)

lemma reaped_twice:
  assumes "finite D" "finite D'" "D \<inter> D' = {}" "c \<in> D"
  shows "reaped A D' (reaped A D (set_pcb c (\<lambda>b. b\<lparr>p_parent := None\<rparr>) s)) = reaped A (D \<union> D') s"
proof -
  have "card {x \<in> D \<union> D'. isSoftBlocked A (p_semAdd (pcbs s x))} =
      card {x \<in> D. isSoftBlocked A (p_semAdd (pcbs s x))} + card {x \<in> D'. isSoftBlocked A (p_semAdd (pcbs s x))}"
    using assms by (subst card_Un_disjoint [symmetric]) (auto intro: arg_cong [where f = card])
  moreover have "{x \<in> D'. isSoftBlocked A (p_semAdd (pcbs (reaped A D (set_pcb c (\<lambda>b. b\<lparr>p_parent := None\<rparr>) s)) x))}
      = {x \<in> D'. isSoftBlocked A (p_semAdd (pcbs s x))}"
    using assms by (auto simp: reaped_def set_pcb_def)
  moreover have "{x \<in> D. isSoftBlocked A (p_semAdd (pcbs (set_pcb c (\<lambda>b. b\<lparr>p_parent := None\<rparr>) s) x))}
      = {x \<in> D. isSoftBlocked A (p_semAdd (pcbs s x))}"
    by (auto simp: set_pcb_def)
  ultimately show ?thesis
    using assms by (auto simp: reaped_def set_pcb_def card_Un_disjoint fun_eq_iff)
qed

section \<open>The loop\<close>

lemma kid_rel_facts:
  assumes "kabs s v"
  shows "(c, q) \<in> kid_rel v \<longleftrightarrow> p_parent (pcbs s c) = Some q"
    and "(c, q) \<in> kid_rel v \<Longrightarrow> (c, q') \<in> kid_rel v \<Longrightarrow> q = q'"
  using kabs_facts(11) [OF assms] by (simp_all add: kid_rel_def)

lemma filter_notin_single: "filter (\<lambda>x. x \<notin> {p}) xs = removeAll p xs"
  by (induction xs) auto

lemma reap_view:
  assumes k: "kabs s v" and p: "p_parent (pcbs s p) = None" "p \<notin> set (v_free v)" "v_kids v p = []"
  shows "ends_in (reap A (Some p) s) (reaped A {p} s) (v_reaped {p} (p # v_free v) v)"
proof -
  let ?b = "isSoftBlocked A (p_semAdd (pcbs s p))"
  let ?s = "if ?b then decrementSoftBlockCount s else s"
  let ?v = "v\<lparr>v_semq := (\<lambda>k. filter (\<lambda>x. x \<notin> {p}) (v_semq v k))\<rparr>"
  have ks: "kabs ?s v" using k by (simp add: decrementSoftBlockCount_def)
  have sel: "pcbs ?s = pcbs s" by (simp add: decrementSoftBlockCount_def)
  have q: "filter (\<lambda>x. x \<notin> {p}) (v_semq v k) = removeAll p (v_semq v k)" for k
    by (rule filter_notin_single)
  have out: "\<exists>r. runs_to (outBlocked (Some p) ?s) r (set_semAdd p 0 ?s) ?v"
  proof (cases "p_semAdd (pcbs s p) = 0")
    case True
    have "p \<notin> set (v_semq v k)" for k using blocked_not_elsewhere(1,2) [OF k] True by metis
    then have "(\<lambda>k. filter (\<lambda>x. x \<notin> {p}) (v_semq v k)) = v_semq v" unfolding q by simp
    then have "?v = v" by (metis kview.surjective kview.update_convs(6))
    moreover have "set_semAdd p 0 ?s = ?s" using True
      by (simp add: set_semAdd_def decrementSoftBlockCount_def fun_upd_idem)
    moreover have "runs_to (outBlocked (Some p) ?s) None ?s v"
    proof -
      have e: "outBlocked (Some p) ?s = Some (None, ?s)"
        using True sel by (intro outBlocked_view_none) simp
      show ?thesis unfolding e by (rule runs_to_Some [OF ks])
    qed
    ultimately show ?thesis by metis
  next
    case False
    have "?v = v\<lparr>v_semq := (v_semq v)(p_semAdd (pcbs s p) := removeAll p (v_semq v (p_semAdd (pcbs s p))))\<rparr>"
    proof -
      have "p \<notin> set (v_semq v k')" if "k' \<noteq> p_semAdd (pcbs s p)" for k'
        using blocked_not_elsewhere(1) [OF k, of p k'] that by blast
      then show ?thesis unfolding q by (auto simp: fun_eq_iff intro!: arg_cong [where f = "\<lambda>x. v\<lparr>v_semq := x\<rparr>"])
    qed
    then show ?thesis using outBlocked_view [OF ks, of p "p_semAdd (pcbs s p)"] False sel by auto
  qed
  then obtain r where out: "runs_to (outBlocked (Some p) ?s) r (set_semAdd p 0 ?s) ?v" ..
  let ?t = "set_semAdd p 0 ?s"
  have free: "ends_in (freePcb (Some p) (relink h hh ds ?t)) (relink h hh ds ?t) (v_reaped {p} (p # v_free v) v)"
    if "kabs (relink h hh ds ?t) ?v" for h hh ds
  proof -
    have "v_reaped {p} (p # v_free v) v
        = ?v\<lparr>v_free := p # removeAll p (v_free ?v), v_ready := removeAll p (v_ready ?v)\<rparr>"
    proof -
      have "(\<lambda>q. if q \<in> {p} then [] else v_kids v q) = v_kids v" using p(3) by auto
      then show ?thesis using p(2) unfolding v_reaped_def filter_notin_single by simp
    qed
    then show ?thesis
      using freePcb_view [OF that, of p] p sel by (simp add: set_semAdd_def)
  qed
  have t: "decrementProcessCount ?t = reaped A {p} s"
  proof -
    have "(pcbs s)(p := (pcbs s p)\<lparr>p_semAdd := 0\<rparr>)
        = (\<lambda>x. if x \<in> {p} then (pcbs s x)\<lparr>p_parent := None, p_semAdd := 0\<rparr> else pcbs s x)"
      using p(1) by (cases "pcbs s p") (auto simp: fun_eq_iff)
    moreover have "{x \<in> {p}. isSoftBlocked A (p_semAdd (pcbs s x))} = (if ?b then {p} else {})" by auto
    ultimately show ?thesis
      by (simp add: reaped_def set_semAdd_def decrementSoftBlockCount_def decrementProcessCount_def)
  qed
  have "ends_in (do {
      (_, s) \<leftarrow> outBlocked (Some p) ?s;
      s \<leftarrow> freePcb (Some p) s;
      Some (decrementProcessCount s)
    }) (decrementProcessCount ?t) (v_reaped {p} (p # v_free v) v)"
  proof (rule runs_to_bind_ends [OF out], simp only: prod.case, rule ends_in_bind [OF free])
    fix h hh ds h' hh' ds'
    let ?u = "relink h' hh' ds' (relink h hh ds ?t)"
    assume "kabs ?u (v_reaped {p} (p # v_free v) v)"
    then show "ends_in (Some (decrementProcessCount ?u))
        (relink h' hh' ds' (relink h hh ds (decrementProcessCount ?t))) (v_reaped {p} (p # v_free v) v)"
      by (intro ends_in_SomeI) (simp_all add: decrementProcessCount_def)
  qed
  then show ?thesis unfolding t [symmetric] by (simp add: reap_def Let_def)
qed

text \<open>Cutting the first child off, and what is left when its subtree is gone.\<close>

definition v_cut :: "nat \<Rightarrow> nat \<Rightarrow> nat list \<Rightarrow> kview \<Rightarrow> kview" where
  "v_cut c p ks v = v\<lparr>v_kids := (v_kids v)(p := ks), v_ready := removeAll c (v_ready v)\<rparr>"

lemma kid_rel_cut:
  assumes k: "kabs s v" and c: "v_kids v p = c # ks"
  shows "kid_rel (v_cut c p ks v) = kid_rel v - {(c, p)}"
proof -
  have "c \<notin> set ks" using kabs_facts(3) [OF k, of p] c by simp
  then show ?thesis using c by (auto simp: kid_rel_def v_cut_def split: if_splits)
qed

lemma kid_rel_reaped: "(x, q) \<in> kid_rel (v_reaped D fs v) \<longleftrightarrow> (x, q) \<in> kid_rel v \<and> q \<notin> D"
  by (auto simp: kid_rel_def v_reaped_def)

lemma in_table_cut:
  assumes "in_table v" and "v_kids v p = c # ks"
  shows "in_table (v_cut c p ks v)"
proof -
  have "kid_rel (v_cut c p ks v) \<subseteq> kid_rel v" using assms(2) by (auto simp: kid_rel_def v_cut_def split: if_splits)
  then show ?thesis using assms(1) unfolding in_table_def by (auto simp: v_cut_def)
qed

lemma in_table_reaped:
  "in_table v \<Longrightarrow> set fs \<subseteq> {..<MAXPROC} \<Longrightarrow> in_table (v_reaped D fs v)"
  unfolding in_table_def v_reaped_def kid_rel_def by (auto split: if_splits)

lemma desc_in_table:
  assumes "in_table v" and "p < MAXPROC"
  shows "desc_of (kid_rel v) p \<subseteq> {..<MAXPROC}"
proof
  fix x assume "x \<in> desc_of (kid_rel v) p"
  then have "(x, p) \<in> (kid_rel v)\<^sup>*" by (simp add: desc_of_def)
  then show "x \<in> {..<MAXPROC}"
    using assms by (cases rule: converse_rtranclE) (auto simp: in_table_def)
qed

lemma v_reaped_twice:
  assumes "c \<in> D"
  shows "v_reaped D' fs' (v_reaped D fs (v_cut c p ks v)) = (v_reaped (D \<union> D') fs' v)
    \<lparr>v_kids := (\<lambda>q. if q \<in> D \<union> D' then [] else if q = p then ks else v_kids v q)\<rparr>"
proof -
  have "filter (\<lambda>x. x \<notin> D') (filter (\<lambda>x. x \<notin> D) (removeAll c xs)) = filter (\<lambda>x. x \<notin> D \<union> D') xs" for xs
    using assms by (induction xs) auto
  moreover have "filter (\<lambda>x. x \<notin> D') (filter (\<lambda>x. x \<notin> D) xs) = filter (\<lambda>x. x \<notin> D \<union> D') xs" for xs :: "nat list"
    by (induction xs) auto
  moreover have "(\<lambda>q. if q \<in> D' then [] else if q \<in> D then [] else ((v_kids v)(p := ks)) q)
      = (\<lambda>q. if q \<in> D \<union> D' then [] else if q = p then ks else v_kids v q)" by auto
  ultimately show ?thesis unfolding v_reaped_def v_cut_def by (simp cong: if_cong)
qed

lemma terminate_leaf:
  assumes k: "kabs s v" and p: "p < MAXPROC" "p_parent (pcbs s p) = None" "p \<notin> set (v_free v)" "v_kids v p = []"
  shows "ends_in (terminateProcess_internal A (Some p) s) (reaped A (desc_of (kid_rel v) p) s)
    (v_reaped (desc_of (kid_rel v) p) (p # v_free v) v)"
proof -
  have "x = p" if "(x, p) \<in> (kid_rel v)\<^sup>*" for x
    using that by (cases rule: rtranclE) (use p(4) in \<open>auto simp: kid_rel_def\<close>)
  then have d: "desc_of (kid_rel v) p = {p}" by (auto simp: desc_of_def)
  show ?thesis
    using removeChild_view_none [OF k p(1,3,4)] reap_view [OF k p(2,3,4)]
    by (subst terminateProcess_internal.simps) (simp add: d)
qed

lemma terminate_node:
  assumes k: "kabs s v" and tab: "in_table v" and acy: "acyclic (kid_rel v)"
    and p: "p < MAXPROC" "p_parent (pcbs s p) = None" "p \<notin> set (v_free v)"
    and kids: "v_kids v p = c # ks"
    and IH: "\<And>s' v' q. kabs s' v' \<Longrightarrow> in_table v' \<Longrightarrow> acyclic (kid_rel v') \<Longrightarrow> q < MAXPROC \<Longrightarrow>
      p_parent (pcbs s' q) = None \<Longrightarrow> q \<notin> set (v_free v') \<Longrightarrow> kid_rel v' \<subset> kid_rel v \<Longrightarrow>
      \<exists>fs. set fs = set (v_free v') \<union> desc_of (kid_rel v') q \<and>
        ends_in (terminateProcess_internal A (Some q) s') (reaped A (desc_of (kid_rel v') q) s')
          (v_reaped (desc_of (kid_rel v') q) fs v')"
  shows "\<exists>fs. set fs = set (v_free v) \<union> desc_of (kid_rel v) p \<and>
    ends_in (terminateProcess_internal A (Some p) s) (reaped A (desc_of (kid_rel v) p) s)
      (v_reaped (desc_of (kid_rel v) p) fs v)"
proof -
  let ?R = "kid_rel v" and ?v2 = "v_cut c p ks v" and ?t1 = "set_pcb c (\<lambda>b. b\<lparr>p_parent := None\<rparr>) s"
  let ?Dc = "desc_of (kid_rel v) c"
  have edge: "(c, p) \<in> ?R" using kids by (simp add: kid_rel_def)
  have root: "(p, q) \<notin> ?R" for q using kid_rel_facts(1) [OF k] p(2) by simp
  have cp: "c \<noteq> p" using edge acy by (auto simp: acyclic_def)
  have cT: "c < MAXPROC" using in_tableD(4) [OF tab, of c p] kids by simp
  have cF: "c \<notin> set (v_free v)"
    using kabs_facts(12) [OF k, of c] kid_rel_facts(1) [OF k] edge by auto
  note R2 = kid_rel_cut [OF k kids]
  have Dc2: "desc_of (kid_rel ?v2) c = ?Dc" unfolding R2 by (rule desc_of_child [OF edge root acy])
  have v2free: "v_free ?v2 = v_free v" by (simp add: v_cut_def)
  obtain h1 hh1 ds1 where 1: "removeChild (Some p) s = Some (Some c, relink h1 hh1 ds1 ?t1)"
    "kabs (relink h1 hh1 ds1 ?t1) (v\<lparr>v_kids := (v_kids v)(p := ks)\<rparr>)"
    using removeChild_view [OF k kids] by (rule runs_toE)
  obtain r h2 hh2 ds2 where 2: "outProcQ (Some Ready_queue) (Some c) (relink h1 hh1 ds1 ?t1) = Some (r, relink h2 hh2 ds2 ?t1)"
    "kabs (relink h2 hh2 ds2 ?t1) ?v2"
    using outProcQ_view [OF 1(2), of c] by (auto simp: v_cut_def elim!: runs_toE)
  have "\<exists>fs. set fs = set (v_free ?v2) \<union> desc_of (kid_rel ?v2) c \<and>
      ends_in (terminateProcess_internal A (Some c) (relink h2 hh2 ds2 ?t1))
        (reaped A (desc_of (kid_rel ?v2) c) (relink h2 hh2 ds2 ?t1)) (v_reaped (desc_of (kid_rel ?v2) c) fs ?v2)"
  proof (rule IH [OF 2(2) in_table_cut [OF tab kids]])
    show "acyclic (kid_rel ?v2)" using acy by (rule acyclic_subset) (auto simp: R2)
    show "kid_rel ?v2 \<subset> ?R" using edge by (auto simp: R2)
  qed (use cT cF in \<open>simp_all add: set_pcb_def v2free\<close>)
  then obtain fs1 where fs1: "set fs1 = set (v_free v) \<union> ?Dc"
    "ends_in (terminateProcess_internal A (Some c) (relink h2 hh2 ds2 ?t1))
      (relink h2 hh2 ds2 (reaped A ?Dc ?t1)) (v_reaped ?Dc fs1 ?v2)"
    by (auto simp: Dc2 reaped_relink v2free)
  from fs1(2) obtain h3 hh3 ds3 where
    3: "terminateProcess_internal A (Some c) (relink h2 hh2 ds2 ?t1) = Some (relink h3 hh3 ds3 (reaped A ?Dc ?t1))"
    "kabs (relink h3 hh3 ds3 (reaped A ?Dc ?t1)) (v_reaped ?Dc fs1 ?v2)" by (auto elim!: ends_inE)
  let ?v3 = "v_reaped ?Dc fs1 ?v2"
  have R3: "(x, q) \<in> kid_rel ?v3 \<longleftrightarrow> (x, q) \<in> ?R \<and> (x, q) \<noteq> (c, p) \<and> q \<notin> ?Dc" for x q
    unfolding kid_rel_reaped R2 by blast
  let ?D2 = "desc_of (kid_rel ?v3) p"
  have uniq: "q = q'" if "(x, q) \<in> ?R" "(x, q') \<in> ?R" for x q q'
    by (rule kid_rel_facts(2) [OF k that])
  have rest: "?D2 = desc_of ?R p - ?Dc" "?Dc \<subseteq> desc_of ?R p"
    by (rule desc_of_rest [OF edge root acy]; (erule (1) uniq | rule R3))+
  have pDc: "p \<notin> ?Dc" using root_reaches_self_only [of p ?R c] root cp by (auto simp: desc_of_def)
  have "\<exists>fs. set fs = set (v_free ?v3) \<union> ?D2 \<and>
      ends_in (terminateProcess_internal A (Some p) (relink h3 hh3 ds3 (reaped A ?Dc ?t1)))
        (reaped A ?D2 (relink h3 hh3 ds3 (reaped A ?Dc ?t1))) (v_reaped ?D2 fs ?v3)"
  proof (rule IH [OF 3(2)])
    show "in_table ?v3"
      using in_table_reaped [OF in_table_cut [OF tab kids], of fs1 ?Dc] fs1(1) desc_in_table [OF tab cT] tab
      by (auto simp: in_table_def)
    show "acyclic (kid_rel ?v3)" using acy by (rule acyclic_subset) (use R3 in auto)
    show "kid_rel ?v3 \<subset> ?R" using R3 edge by auto
    show "p_parent (pcbs (relink h3 hh3 ds3 (reaped A ?Dc ?t1)) p) = None"
      using p(2) pDc cp by (simp add: reaped_def set_pcb_def)
    show "p \<notin> set (v_free ?v3)" using fs1(1) p(3) pDc by (simp add: v_reaped_def)
  qed (rule p(1))
  then obtain fs2 where fs2: "set fs2 = set fs1 \<union> ?D2"
    "ends_in (terminateProcess_internal A (Some p) (relink h3 hh3 ds3 (reaped A ?Dc ?t1)))
      (reaped A ?D2 (reaped A ?Dc ?t1)) (v_reaped ?D2 fs2 ?v3)"
    by (auto simp: reaped_relink ends_in_relink v_reaped_def)
  have fin: "finite (desc_of ?R q)" if "q < MAXPROC" for q
    using desc_in_table [OF tab that] finite_subset by blast
  have D: "?Dc \<union> ?D2 = desc_of ?R p" "?Dc \<inter> ?D2 = {}" using rest by auto
  have "finite ?D2" using fin [OF p(1)] unfolding D(1) [symmetric] by simp
  then have st: "reaped A ?D2 (reaped A ?Dc ?t1) = reaped A (desc_of ?R p) s"
    using reaped_twice [of ?Dc ?D2 c A s] fin [OF cT] D by simp
  have vw: "v_reaped ?D2 fs2 ?v3 = v_reaped (desc_of ?R p) fs2 v"
  proof -
    have "(\<lambda>q. if q \<in> desc_of ?R p then [] else if q = p then ks else v_kids v q)
        = (\<lambda>q. if q \<in> desc_of ?R p then [] else v_kids v q)" by auto
    then show ?thesis unfolding v_reaped_twice [of c ?Dc, OF desc_of_self] D(1)
      by (simp add: v_reaped_def)
  qed
  have "terminateProcess_internal A (Some p) s
      = terminateProcess_internal A (Some p) (relink h3 hh3 ds3 (reaped A ?Dc ?t1))"
    by (subst terminateProcess_internal.simps) (simp add: 1(1) 2(1) 3(1) getReadyQueue_def)
  moreover have "set fs2 = set (v_free v) \<union> desc_of ?R p" using fs1(1) fs2(1) D by auto
  ultimately show ?thesis using fs2(2) unfolding st vw by auto
qed

lemma terminate_loop:
  assumes "kabs s v" and "in_table v" and "acyclic (kid_rel v)"
    and "p < MAXPROC" and "p_parent (pcbs s p) = None" and "p \<notin> set (v_free v)"
  shows "\<exists>fs. set fs = set (v_free v) \<union> desc_of (kid_rel v) p \<and>
    ends_in (terminateProcess_internal A (Some p) s) (reaped A (desc_of (kid_rel v) p) s)
      (v_reaped (desc_of (kid_rel v) p) fs v)"
  using assms
proof (induction "card (kid_rel v)" arbitrary: s v p rule: less_induct)
  case less
  have fin: "finite (kid_rel v)" by (rule finite_kid_rel [OF less.prems(2)])
  show ?case
  proof (cases "v_kids v p")
    case Nil
    have "x = p" if "(x, p) \<in> (kid_rel v)\<^sup>*" for x
      using that by (cases rule: rtranclE) (use Nil in \<open>auto simp: kid_rel_def\<close>)
    then have "desc_of (kid_rel v) p = {p}" by (auto simp: desc_of_def)
    then show ?thesis
      using terminate_leaf [OF less.prems(1,4,5,6) Nil] by (intro exI [of _ "p # v_free v"]) auto
  next
    case (Cons c ks)
    show ?thesis
    proof (rule terminate_node [OF less.prems Cons])
      fix s' v' q
      assume a: "kabs s' v'" "in_table v'" "acyclic (kid_rel v')" "q < MAXPROC"
        "p_parent (pcbs s' q) = None" "q \<notin> set (v_free v')" "kid_rel v' \<subset> kid_rel v"
      have "card (kid_rel v') < card (kid_rel v)" by (rule psubset_card_mono [OF fin a(7)])
      then show "\<exists>fs. set fs = set (v_free v') \<union> desc_of (kid_rel v') q \<and>
        ends_in (terminateProcess_internal A (Some q) s') (reaped A (desc_of (kid_rel v') q) s')
          (v_reaped (desc_of (kid_rel v') q) fs v')"
        by (rule less.hyps [OF _ a(1-6)])
    qed
  qed
qed

section \<open>terminateProcess\<close>

definition v_orphan :: "nat \<Rightarrow> kview \<Rightarrow> kview" where
  "v_orphan p v = v\<lparr>v_kids := (\<lambda>q. removeAll p (v_kids v q))\<rparr>"

lemma kid_rel_orphan: "kid_rel (v_orphan p v) = kid_rel v - {p} \<times> UNIV"
  by (auto simp: kid_rel_def v_orphan_def)

lemma desc_of_orphan: "desc_of (R - {p} \<times> UNIV) p = desc_of R p"
proof -
  have "(x, p) \<in> (R - {p} \<times> UNIV)\<^sup>*" if "(x, p) \<in> R\<^sup>*" for x
    using that
  proof (induction rule: converse_rtrancl_induct)
    case (step y z)
    then show ?case by (cases "y = p") (auto intro: converse_rtrancl_into_rtrancl)
  qed simp
  moreover have "(R - {p} \<times> UNIV)\<^sup>* \<subseteq> R\<^sup>*" by (rule rtrancl_mono) blast
  ultimately show ?thesis by (auto simp: desc_of_def)
qed

lemma outChild_orphan_view:
  assumes k: "kabs s v"
  shows "\<exists>r. runs_to (outChild (Some p) s) r (set_pcb p (\<lambda>b. b\<lparr>p_parent := None\<rparr>) s) (v_orphan p v)"
proof (cases "p_parent (pcbs s p)")
  case None
  then have "p \<notin> set (v_kids v q)" for q using kabs_facts(11) [OF k] by simp
  then have "v_orphan p v = v" by (simp add: v_orphan_def)
  moreover have "set_pcb p (\<lambda>b. b\<lparr>p_parent := None\<rparr>) s = s"
    using None by (cases "pcbs s p") (simp add: set_pcb_def fun_upd_idem)
  ultimately show ?thesis
    using outChild_view_orphan [OF None] runs_to_Some [OF k, of None] by auto
next
  case (Some q)
  have "p \<notin> set (v_kids v q')" if "q' \<noteq> q" for q' using kabs_facts(11) [OF k] Some that by simp
  then have "(v_kids v)(q := removeAll p (v_kids v q)) = (\<lambda>q. removeAll p (v_kids v q))" by (auto simp: fun_eq_iff)
  then show ?thesis using outChild_view [OF k Some] by (auto simp: v_orphan_def)
qed

text \<open>
  The process and all its descendants are gone before \<open>schedule\<close> picks the next one: their PCBs
  are free, they are in no queue, and the counts are right.
\<close>

lemma terminate_inv:
  assumes core: "inv_core s v" and k: "kabs s v" and p: "p < MAXPROC" "p \<notin> set (v_free v)"
    and fs: "set fs = set (v_free v) \<union> desc_of (kid_rel v) p" "distinct fs"
  shows "inv_core (reaped A (desc_of (kid_rel v) p) s) (v_reaped (desc_of (kid_rel v) p) fs (v_orphan p v))"
proof -
  let ?D = "desc_of (kid_rel v) p"
  have tab: "in_table v" using core by (simp add: inv_core_def)
  have tab': "in_table (v_orphan p v)"
    using tab unfolding in_table_def kid_rel_orphan by (auto simp: v_orphan_def)
  have D: "?D \<subseteq> {..<MAXPROC}" by (rule desc_in_table [OF tab p(1)])
  have disj: "x \<notin> set (v_free v)" if "x \<in> ?D" for x
  proof -
    from that have "(x, p) \<in> (kid_rel v)\<^sup>*" by (simp add: desc_of_def)
    then show ?thesis
    proof (cases rule: converse_rtranclE)
      case base
      with p show ?thesis by simp
    next
      case (step q)
      then show ?thesis using kabs_facts(12) [OF k, of x] kid_rel_facts(1) [OF k] by auto
    qed
  qed
  have in_t: "in_table (v_reaped ?D fs (v_orphan p v))"
    by (rule in_table_reaped [OF tab']) (use fs D tab in \<open>auto simp: in_table_def\<close>)
  have acy: "acyclic (kid_rel (v_reaped ?D fs (v_orphan p v)))"
    using core by (auto simp: inv_core_def kid_rel_reaped kid_rel_orphan intro: acyclic_subset)
  have fin: "finite ?D" using D finite_subset by blast
  have "card (set fs) = length (v_free v) + card ?D"
    unfolding fs(1) using disj fin kabs_facts(1) [OF k] by (subst card_Un_disjoint) (auto simp: distinct_card)
  then have len: "length fs = length (v_free v) + card ?D" using distinct_card [OF fs(2)] by simp
  have "set fs \<subseteq> {..<MAXPROC}" using fs(1) D tab by (auto simp: in_table_def)
  then have "length fs \<le> MAXPROC"
    using card_mono [of "{..<MAXPROC}" "set fs"] distinct_card [OF fs(2)] by simp
  then have "of_nat (MAXPROC - length (v_free v)) - of_nat (card ?D) = (of_nat (MAXPROC - length fs) :: u32)"
    using len by (simp add: of_nat_diff)
  then show ?thesis using core in_t acy by (simp add: inv_core_def reaped_def v_reaped_def)
qed

lemma terminateProcess_view:
  assumes inv: "kabs s v" "inv_core s v" and p: "p < MAXPROC" "p \<notin> set (v_free v)"
  shows "\<exists>h hh ds fs. let D = desc_of (kid_rel v) p; t = relink h hh ds (reaped A D s);
      v' = v_reaped D fs (v_orphan p v) in
    terminateProcess A (Some p) s = schedule t \<and> kabs t v' \<and> inv_core t v' \<and> set fs = set (v_free v) \<union> D"
proof -
  let ?D = "desc_of (kid_rel v) p" and ?s = "set_pcb p (\<lambda>b. b\<lparr>p_parent := None\<rparr>) s" and ?v = "v_orphan p v"
  have tab: "in_table v" and acy: "acyclic (kid_rel v)" using inv(2) by (simp_all add: inv_core_def)
  obtain r h1 hh1 ds1 where 1: "outChild (Some p) s = Some (r, relink h1 hh1 ds1 ?s)" "kabs (relink h1 hh1 ds1 ?s) ?v"
    using outChild_orphan_view [OF inv(1), of p] by (auto elim!: runs_toE)
  have D: "desc_of (kid_rel ?v) p = ?D" unfolding kid_rel_orphan by (rule desc_of_orphan)
  have vf: "v_free ?v = v_free v" by (simp add: v_orphan_def)
  have "in_table ?v" using tab unfolding in_table_def kid_rel_orphan by (auto simp: v_orphan_def)
  moreover have "acyclic (kid_rel ?v)" using acy by (rule acyclic_subset) (auto simp: kid_rel_orphan)
  ultimately have "\<exists>fs. set fs = set (v_free ?v) \<union> desc_of (kid_rel ?v) p \<and>
      ends_in (terminateProcess_internal A (Some p) (relink h1 hh1 ds1 ?s))
        (reaped A (desc_of (kid_rel ?v) p) (relink h1 hh1 ds1 ?s)) (v_reaped (desc_of (kid_rel ?v) p) fs ?v)"
    using p by (intro terminate_loop [OF 1(2)]) (simp_all add: set_pcb_def vf)
  then obtain fs where fs: "set fs = set (v_free v) \<union> ?D"
    "ends_in (terminateProcess_internal A (Some p) (relink h1 hh1 ds1 ?s)) (reaped A ?D ?s) (v_reaped ?D fs ?v)"
    by (auto simp: D vf reaped_relink ends_in_relink)
  have st: "reaped A ?D ?s = reaped A ?D s"
  proof -
    have "{x \<in> ?D. isSoftBlocked A (p_semAdd (pcbs ?s x))} = {x \<in> ?D. isSoftBlocked A (p_semAdd (pcbs s x))}"
      by (auto simp: set_pcb_def)
    moreover have "(\<lambda>x. if x \<in> ?D then (pcbs ?s x)\<lparr>p_parent := None, p_semAdd := 0\<rparr> else pcbs ?s x)
        = (\<lambda>x. if x \<in> ?D then (pcbs s x)\<lparr>p_parent := None, p_semAdd := 0\<rparr> else pcbs s x)"
      by (auto simp: set_pcb_def fun_eq_iff)
    ultimately show ?thesis unfolding reaped_def by (simp add: set_pcb_def)
  qed
  from fs(2) obtain h hh ds where 2: "terminateProcess_internal A (Some p) (relink h1 hh1 ds1 ?s)
      = Some (relink h hh ds (reaped A ?D s))" "kabs (relink h hh ds (reaped A ?D s)) (v_reaped ?D fs ?v)"
    unfolding st by (rule ends_inE)
  have "distinct fs" using kabs_facts(1) [OF 2(2)] by (simp add: v_reaped_def)
  with terminate_inv [OF inv(2,1) p fs(1)] have "inv_core (relink h hh ds (reaped A ?D s)) (v_reaped ?D fs ?v)"
    by simp
  moreover have "terminateProcess A (Some p) s = schedule (relink h hh ds (reaped A ?D s))"
    by (simp add: terminateProcess_def 1(1) 2(1))
  ultimately show ?thesis using 2(2) fs(1) unfolding Let_def by blast
qed

end
