(* ===== verification/Create_Abs.thy ===== *)
theory Create_Abs
  imports Sem_Ops
begin

text \<open>
  Creation of a process: \<open>createProcess\<close> with a namespace of its own and with the namespace it
  inherits, and the association of a namespace.
\<close>

section \<open>Namespaces of a process without children\<close>

lemma setAllChildNamespace_leaf:
  assumes "kabs s v" and "p < MAXPROC" and "p \<notin> set (v_free v)" and "v_kids v p = []"
  shows "setAllChildNamespace A (Some (P_child p)) ns s = Some s"
proof -
  from assms(1) obtain a where a: "links s a" "ash_inv s a" "tree_inv s a" "v = view s a" by (rule kabsE)
  have "a_kids a p = Some []"
    using kids_Some [OF a(3) assms(2)] assms(3,4) a(4) by (simp add: view_def)
  then have "get_next (Some (P_child p)) (lists s) = Some (Some (P_child p))"
    using get_next_abs [OF links_lists [OF a(1)], of "P_child p" "[]"] by simp
  then show ?thesis
    by (simp add: setAllChildNamespace_def setAllChildNamespace_from.simps)
qed

definition v_used :: "nat \<Rightarrow> kview \<Rightarrow> kview" where
  "v_used n v = v\<lparr>v_nsfree := removeAll n (v_nsfree v), v_nslist := removeAll n (v_nslist v) @ [n]\<rparr>"

lemma use_namespace_view:
  assumes "kabs s v"
  shows "ends_in (do {
      s \<leftarrow> on_lists (list_safe_del (Some (N_link n))) s;
      on_lists (list_add_tail (Some (N_link n)) (Some PID_nsList_h)) s
    }) s (v_used n v)"
proof -
  from assms obtain a where a: "links s a" "ash_inv s a" "tree_inv s a" "v = view s a" by (rule kabsE)
  let ?a = "a\<lparr>a_nsfree := removeAll n (a_nsfree a), a_nslist := removeAll n (a_nslist a)\<rparr>"
  from list_safe_del_abs [OF links_lists [OF a(1)], of "N_link n"] obtain h1 where
    h1: "list_safe_del (Some (N_link n)) (lists s) = Some h1" "heap_abs h1 (Lmap ?a)"
    by (auto simp: unlink_N_link)
  have "N_link n \<notin> lnodes (Lmap ?a)" by (simp add: in_lnodes)
  from list_add_tail_abs [OF h1(2), of PID_nsList_h _ "N_link n"] this obtain h2 where
    h2: "list_add_tail (Some (N_link n)) (Some PID_nsList_h) h1 = Some h2"
    "heap_abs h2 (Lmap (?a\<lparr>a_nslist := removeAll n (a_nslist a) @ [n]\<rparr>))"
    using Lmap_upd(4) [of ?a "removeAll n (a_nslist a) @ [n]"] by auto
  show ?thesis
  proof (rule ends_in_lists)
    show "do {
      s \<leftarrow> on_lists (list_safe_del (Some (N_link n))) s;
      on_lists (list_add_tail (Some (N_link n)) (Some PID_nsList_h)) s
    } = Some (s\<lparr>lists := h2\<rparr>)"
      using h1(1) h2(1) by (simp add: on_lists_def)
    show "links (s\<lparr>lists := h2\<rparr>) (?a\<lparr>a_nslist := removeAll n (a_nslist a) @ [n]\<rparr>)"
      using h2(2) a(1) by (simp add: links_def)
  qed (use a in \<open>simp_all add: view_def v_used_def\<close>)
qed

definition set_ns0 :: "nat \<Rightarrow> nat \<Rightarrow> kstate \<Rightarrow> kstate" where
  "set_ns0 p n s = set_pcb p (\<lambda>b. b\<lparr>namespaces := (namespaces b)(0 := Some n)\<rparr>) s"

lemma addNamespace_leaf:
  assumes "kabs s v" and "p < MAXPROC" and "p \<notin> set (v_free v)" and "v_kids v p = []" and ty: "n_type (nsds s n) = NS_PID"
  shows "runs_to (addNamespace A (Some p) (Some n) s) True (set_ns0 p n s) (v_used n v)"
proof -
  let ?s = "set_ns0 p n s"
  have ks: "kabs ?s v" using assms(1) by (simp add: set_ns0_def kabs_set_pcb)
  have "set_namespace A (Some p) (Some n) s = Some ?s"
    using ty by (simp add: set_namespace_def load_n_type_def set_ns0_def set_pcb_def NS_PID_def NS_TYPE_MAX_def)
  moreover have "setAllChildNamespace A (Some (P_child p)) (Some n) ?s = Some ?s"
    by (rule setAllChildNamespace_leaf [OF ks assms(2-4)])
  ultimately have eq: "addNamespace A (Some p) (Some n) s = do {
      s \<leftarrow> do { s \<leftarrow> on_lists (list_safe_del (Some (N_link n))) ?s;
              on_lists (list_add_tail (Some (N_link n)) (Some PID_nsList_h)) s };
      Some (True, s)
    }"
    by (simp add: addNamespace_def)
  show ?thesis unfolding eq
    by (rule ends_in_bind_runs [OF use_namespace_view [OF ks]]) (rule runs_to_Some)
qed

lemma addNamespace_null: "addNamespace A p None s = Some (False, s)"
  by (simp add: addNamespace_def)

text \<open>
  What \<open>getNamespace\<close> answers for the pid namespace.  A process without one makes it load the
  type through \<open>NULL\<close>.
\<close>

lemma getNamespace_some:
  "namespaces (pcbs s p) 0 = Some n \<Longrightarrow> n_type (nsds s n) = NS_PID \<Longrightarrow>
    getNamespace A (Some p) NS_PID s = Some (Some n)"
  by (simp add: getNamespace_def NS_TYPE_MAX_def load_n_type_def numeral_eq_Suc)

lemma getNamespace_none:
  "namespaces (pcbs s p) 0 = None \<Longrightarrow>
    getNamespace A (Some p) NS_PID s = map_option (\<lambda>_. None) (null_n_type A)"
  by (cases "null_n_type A") (simp_all add: getNamespace_def NS_TYPE_MAX_def load_n_type_def numeral_eq_Suc)

section \<open>createProcess\<close>

text \<open>The PCB and the counters of the new process, and the lists it enters.\<close>

definition new_process :: "umps \<Rightarrow> nat \<Rightarrow> nat \<Rightarrow> state_t \<Rightarrow> u32 \<Rightarrow> kstate \<Rightarrow> kstate" where
  "new_process A p c st supp s = set_pcb p (\<lambda>b. (reset_pcb A b)\<lparr>p_pid := pid_counter s, p_parent := Some c,
       p_s := st, p_supportStruct := supp\<rparr>)
     (s\<lparr>pid_counter := pid_counter s + 1, process_count := process_count s + 1\<rparr>)"

definition v_new :: "nat \<Rightarrow> nat list \<Rightarrow> nat \<Rightarrow> kview \<Rightarrow> kview" where
  "v_new p fs c v = v\<lparr>v_free := fs, v_ready := v_ready v @ [p], v_kids := (v_kids v)(c := v_kids v c @ [p])\<rparr>"

lemma createProcess_full:
  "kabs s v \<Longrightarrow> v_free v = [] \<Longrightarrow> createProcess A st supp nsd s = Some (-1, s)"
  by (simp add: createProcess_def allocPcb_view_empty)

text \<open>What follows the creation proper: its own namespace, or the creator's.\<close>

definition give_namespace :: "umps \<Rightarrow> nat ptr \<Rightarrow> nat ptr \<Rightarrow> (kstate, u32) action" where
  "give_namespace A new_p nsd s = do {
     (ok, s) \<leftarrow> addNamespace A new_p nsd s;
     s \<leftarrow> (if \<not> ok then
             foldM (\<lambda>i s. do {
                 ns \<leftarrow> getNamespace A (currentProc s) (of_nat i) s;
                 (_, s) \<leftarrow> addNamespace A new_p ns s;
                 Some s
               }) [0..<NS_TYPE_MAX] s
           else Some s);
     b \<leftarrow> load_pcb new_p s;
     Some (p_pid b, s)
   }"

lemma createProcess_alloc:
  assumes inv: "kinv s v" and cur: "current_active_process s = Some c" and free: "v_free v = p # fs"
  shows "\<exists>h hh ds. let t = relink h hh ds (new_process A p c st supp s) in
    createProcess A st supp nsd s = give_namespace A (Some p) nsd t \<and> kabs t (v_new p fs c v)"
proof -
  note k = kinvD(1) [OF inv]
  have c: "c < MAXPROC" "c \<notin> set (v_free v)" using kinvD(5) [OF inv cur] by (auto simp: v_queued_def)
  have pf: "p \<in> set (v_free v)" using free by simp
  then have pc: "p \<noteq> c" and pr: "p \<notin> set (v_ready v)" and pn: "p \<notin> set fs"
    using c kabs_facts(1,7) [OF k] free by auto
  let ?v1 = "v\<lparr>v_free := fs\<rparr>"
  obtain h1 hh1 ds1 where 1: "allocPcb A s = Some (Some p, relink h1 hh1 ds1 (set_pcb p (reset_pcb A) s))"
    "kabs (relink h1 hh1 ds1 (set_pcb p (reset_pcb A) s)) ?v1"
    using allocPcb_view [OF k free] by (rule runs_toE)
  let ?s2 = "relink h1 hh1 ds1 (set_pcb p (\<lambda>b. (reset_pcb A b)\<lparr>p_pid := pid_counter s\<rparr>)
    (s\<lparr>pid_counter := pid_counter s + 1\<rparr>))"
  have k2: "kabs ?s2 ?v1" by (rule kabs_cong [OF 1(2)]) (auto simp: set_pcb_def)
  have "clear_current p ?s2 = ?s2" using cur pc by (simp add: clear_current_def set_pcb_def)
  moreover have "ends_in (enqueueReady (Some p) ?s2) (clear_current p ?s2) (?v1\<lparr>v_ready := removeAll p (v_ready ?v1) @ [p]\<rparr>)"
    by (rule enqueueReady_view [OF k2]) (use pn in \<open>simp_all add: set_pcb_def reset_pcb_def\<close>)
  ultimately have "ends_in (enqueueReady (Some p) ?s2) ?s2 (v\<lparr>v_free := fs, v_ready := v_ready v @ [p]\<rparr>)"
    using pr by simp
  then obtain h2 hh2 ds2 where 2: "enqueueReady (Some p) ?s2 = Some (relink h2 hh2 ds2 ?s2)"
    "kabs (relink h2 hh2 ds2 ?s2) (v\<lparr>v_free := fs, v_ready := v_ready v @ [p]\<rparr>)" by (rule ends_inE)
  let ?s3 = "incrementProcessCount (relink h2 hh2 ds2 ?s2)"
  have k3: "kabs ?s3 (v\<lparr>v_free := fs, v_ready := v_ready v @ [p]\<rparr>)"
    using 2(2) by (simp add: incrementProcessCount_def)
  have "ends_in (insertChild (Some c) (Some p) ?s3) (set_pcb p (\<lambda>b. b\<lparr>p_parent := Some c\<rparr>) ?s3)
      ((v\<lparr>v_free := fs, v_ready := v_ready v @ [p]\<rparr>)\<lparr>v_kids :=
        (v_kids (v\<lparr>v_free := fs, v_ready := v_ready v @ [p]\<rparr>))
          (c := v_kids (v\<lparr>v_free := fs, v_ready := v_ready v @ [p]\<rparr>) c @ [p])\<rparr>)"
    by (rule insertChild_view [OF k3])
      (use c free pn in \<open>simp_all add: incrementProcessCount_def set_pcb_def reset_pcb_def\<close>)
  then have "ends_in (insertChild (Some c) (Some p) ?s3) (set_pcb p (\<lambda>b. b\<lparr>p_parent := Some c\<rparr>) ?s3) (v_new p fs c v)"
    by (simp add: v_new_def)
  then obtain h3 hh3 ds3 where 3: "insertChild (Some c) (Some p) ?s3
      = Some (relink h3 hh3 ds3 (set_pcb p (\<lambda>b. b\<lparr>p_parent := Some c\<rparr>) ?s3))"
    "kabs (relink h3 hh3 ds3 (set_pcb p (\<lambda>b. b\<lparr>p_parent := Some c\<rparr>) ?s3)) (v_new p fs c v)" by (rule ends_inE)
  let ?t = "relink h3 hh3 ds3 (new_process A p c st supp s)"
  have kt: "kabs ?t (v_new p fs c v)"
    by (rule kabs_cong [OF 3(2)]) (auto simp: new_process_def set_pcb_def incrementProcessCount_def reset_pcb_def)
  have cur3: "currentProc ?s3 = Some c" using cur by (simp add: currentProc_def incrementProcessCount_def set_pcb_def)
  have last: "set_pcb p (\<lambda>b. b\<lparr>p_supportStruct := supp\<rparr>) (set_pcb p (\<lambda>b. b\<lparr>p_s := st\<rparr>)
      (relink h3 hh3 ds3 (set_pcb p (\<lambda>b. b\<lparr>p_parent := Some c\<rparr>) ?s3))) = ?t"
    by (simp add: new_process_def set_pcb_def incrementProcessCount_def)
  have st: "store_pcb (Some p) f u = Some (set_pcb p f u)" for f u by (simp add: set_pcb_def)
  have "createProcess A st supp nsd s = do {
      s \<leftarrow> enqueueReady (Some p) ?s2;
      let s = incrementProcessCount s;
      s \<leftarrow> insertChild (currentProc s) (Some p) s;
      s \<leftarrow> store_pcb (Some p) (\<lambda>b. b\<lparr>p_s := st\<rparr>) s;
      s \<leftarrow> store_pcb (Some p) (\<lambda>b. b\<lparr>p_supportStruct := supp\<rparr>) s;
      give_namespace A (Some p) nsd s
    }"
  proof -
    have s2: "store_pcb (Some p) (\<lambda>b. b\<lparr>p_pid := pid_counter s\<rparr>)
        (relink h1 hh1 ds1 (set_pcb p (reset_pcb A) s)\<lparr>pid_counter := pid_counter s + 1\<rparr>) = Some ?s2"
      by (simp add: set_pcb_def)
    have "getNewPid (relink h1 hh1 ds1 (set_pcb p (reset_pcb A) s))
        = (pid_counter s, relink h1 hh1 ds1 (set_pcb p (reset_pcb A) s)\<lparr>pid_counter := pid_counter s + 1\<rparr>)"
      by (simp add: getNewPid_def set_pcb_def)
    then show ?thesis
      unfolding createProcess_def give_namespace_def 1(1)
      by (simp only: Option.bind.bind_lunit prod.case option.simps if_False Let_def s2)
  qed
  also have "\<dots> = give_namespace A (Some p) nsd ?t"
    unfolding 2(1) Let_def cur3 3(1) st last Option.bind.bind_lunit ..
  finally have "createProcess A st supp nsd s = give_namespace A (Some p) nsd ?t" .
  with kt show ?thesis unfolding Let_def by blast
qed

lemma create_inv:
  assumes inv: "kinv s v" and cur: "current_active_process s = Some c" and free: "v_free v = p # fs"
  shows "inv_core (new_process A p c st supp s) (v_new p fs c v)"
    and "cur_ok (new_process A p c st supp s) (v_new p fs c v)"
proof -
  note k = kinvD(1) [OF inv] and tab = kinvD(3) [OF inv]
  have c: "c < MAXPROC" "\<not> v_queued s c v" using kinvD(5) [OF inv cur] by auto
  have pf: "p \<in> set (v_free v)" using free by simp
  have pc: "p \<noteq> c" using c(2) pf by (auto simp: v_queued_def)
  have pT: "p < MAXPROC" using in_tableD(1) [OF tab pf] .
  have nokids: "v_kids v p = []" using kabs_facts(12) [OF k pf] by blast
  have R: "kid_rel (v_new p fs c v) = insert (p, c) (kid_rel v)"
    by (auto simp: kid_rel_def v_new_def split: if_splits)
  have "(c, p) \<notin> (kid_rel v)\<^sup>*"
  proof
    assume "(c, p) \<in> (kid_rel v)\<^sup>*"
    then show False using pc nokids by (cases rule: rtranclE) (auto simp: kid_rel_def)
  qed
  then have acy: "acyclic (kid_rel (v_new p fs c v))"
    using kinvD(4) [OF inv] by (simp add: R acyclic_insert)
  have "in_table (v_new p fs c v)"
    using tab c(1) pT free unfolding in_table_def R by (auto simp: v_new_def)
  moreover have "process_count s + 1 = of_nat (MAXPROC - length fs)"
  proof -
    have "MAXPROC - length fs = Suc (MAXPROC - length (v_free v))"
      using free_length [OF k tab] free by simp
    then show ?thesis using kinvD(6) [OF inv] by simp
  qed
  ultimately show "inv_core (new_process A p c st supp s) (v_new p fs c v)"
    using acy by (simp add: inv_core_def new_process_def set_pcb_def v_new_def)
  show "cur_ok (new_process A p c st supp s) (v_new p fs c v)"
    using c cur pc free by (auto simp: cur_ok_def new_process_def set_pcb_def v_queued_def v_new_def)
qed

lemma inv_core_v_used [simp]: "inv_core s (v_used n v) = inv_core s v"
  by (simp add: inv_core_def in_table_def kid_rel_def v_used_def)

lemma inv_core_set_ns0 [simp]: "inv_core (set_ns0 p n s) v = inv_core s v"
  by (simp add: inv_core_def set_ns0_def set_pcb_def)

lemma cur_ok_used: "cur_ok s v \<Longrightarrow> cur_ok (set_ns0 p n s) (v_used n v)"
  by (auto simp: cur_ok_def set_ns0_def set_pcb_def v_queued_def v_used_def)

text \<open>The PCB and the lists the namespace step finds.\<close>

lemma v_new_leaf:
  assumes "kinv s v" and "current_active_process s = Some c" and "v_free v = p # fs"
  shows "p < MAXPROC" and "p \<notin> set (v_free (v_new p fs c v))" and "v_kids (v_new p fs c v) p = []" and "p \<noteq> c"
proof -
  have pf: "p \<in> set (v_free v)" using assms(3) by simp
  show "p < MAXPROC" using in_tableD(1) [OF kinvD(3) [OF assms(1)] pf] .
  show "p \<notin> set (v_free (v_new p fs c v))"
    using kabs_facts(1) [OF kinvD(1) [OF assms(1)]] assms(3) by (simp add: v_new_def)
  show pc: "p \<noteq> c" using kinvD(5) [OF assms(1,2)] pf by (auto simp: v_queued_def)
  show "v_kids (v_new p fs c v) p = []"
    using kabs_facts(12) [OF kinvD(1) [OF assms(1)] pf] pc by (simp add: v_new_def)
qed

lemma createProcess_own:
  assumes inv: "kinv s v" and cur: "current_active_process s = Some c" and free: "v_free v = p # fs"
    and ty: "n_type (nsds s n) = NS_PID"
  shows "runs_to (createProcess A st supp (Some n) s) (pid_counter s)
    (set_ns0 p n (new_process A p c st supp s)) (v_used n (v_new p fs c v))"
proof -
  obtain h hh ds where t: "createProcess A st supp (Some n) s
      = give_namespace A (Some p) (Some n) (relink h hh ds (new_process A p c st supp s))"
    "kabs (relink h hh ds (new_process A p c st supp s)) (v_new p fs c v)"
    using createProcess_alloc [OF inv cur free, where nsd = "Some n"] unfolding Let_def by blast
  let ?t = "relink h hh ds (new_process A p c st supp s)"
  have "runs_to (addNamespace A (Some p) (Some n) ?t) True (set_ns0 p n ?t) (v_used n (v_new p fs c v))"
    by (rule addNamespace_leaf [OF t(2) v_new_leaf(1,2,3) [OF inv cur free]])
      (use ty in \<open>simp add: new_process_def set_pcb_def\<close>)
  then have r: "runs_to (addNamespace A (Some p) (Some n) ?t) True (set_ns0 p n (new_process A p c st supp s))
      (v_used n (v_new p fs c v))"
    by (simp add: set_ns0_def set_pcb_def runs_to_def)
  show ?thesis unfolding t(1) give_namespace_def
    by (rule runs_to_bind [OF r])
      (simp add: set_ns0_def set_pcb_def new_process_def runs_to_Some)
qed

lemma createProcess_inherit:
  assumes inv: "kinv s v" and cur: "current_active_process s = Some c" and free: "v_free v = p # fs"
    and ns: "namespaces (pcbs s c) 0 = Some n" and ty: "n_type (nsds s n) = NS_PID"
  shows "runs_to (createProcess A st supp None s) (pid_counter s)
    (set_ns0 p n (new_process A p c st supp s)) (v_used n (v_new p fs c v))"
proof -
  obtain h hh ds where t: "createProcess A st supp None s
      = give_namespace A (Some p) None (relink h hh ds (new_process A p c st supp s))"
    "kabs (relink h hh ds (new_process A p c st supp s)) (v_new p fs c v)"
    using createProcess_alloc [OF inv cur free, where nsd = None] unfolding Let_def by blast
  let ?t = "relink h hh ds (new_process A p c st supp s)"
  have "runs_to (addNamespace A (Some p) (Some n) ?t) True (set_ns0 p n ?t) (v_used n (v_new p fs c v))"
    by (rule addNamespace_leaf [OF t(2) v_new_leaf(1,2,3) [OF inv cur free]])
      (use ty in \<open>simp add: new_process_def set_pcb_def\<close>)
  then have r: "runs_to (addNamespace A (Some p) (Some n) ?t) True (set_ns0 p n (new_process A p c st supp s))
      (v_used n (v_new p fs c v))"
    by (simp add: set_ns0_def set_pcb_def runs_to_def)
  have "getNamespace A (Some c) NS_PID ?t = Some (Some n)"
    by (rule getNamespace_some)
      (use ns ty v_new_leaf(4) [OF inv cur free] in \<open>auto simp: new_process_def set_pcb_def\<close>)
  moreover have "currentProc ?t = Some c" using cur by (simp add: currentProc_def new_process_def set_pcb_def)
  ultimately have eq: "createProcess A st supp None s = do {
      (_, s) \<leftarrow> addNamespace A (Some p) (Some n) ?t;
      b \<leftarrow> load_pcb (Some p) s;
      Some (p_pid b, s)
    }"
    unfolding t(1) give_namespace_def
    by (cases "addNamespace A (Some p) (Some n) ?t") (auto simp: addNamespace_null NS_TYPE_MAX_def NS_PID_def)
  show ?thesis unfolding eq
    by (rule runs_to_bind [OF r])
      (simp add: set_ns0_def set_pcb_def new_process_def runs_to_Some)
qed

text \<open>
  A creator without a namespace gives none; the new process keeps the one the last owner of its
  PCB had, since \<open>resetPcb\<close> does not clear \<open>namespaces\<close>.
\<close>

lemma createProcess_stale:
  assumes inv: "kinv s v" and cur: "current_active_process s = Some c" and free: "v_free v = p # fs"
    and ns: "namespaces (pcbs s c) 0 = None" and A: "null_n_type A = Some w"
  shows "runs_to (createProcess A st supp None s) (pid_counter s)
    (new_process A p c st supp s) (v_new p fs c v)"
    and "namespaces (pcbs (new_process A p c st supp s) p) = namespaces (pcbs s p)"
proof -
  show "namespaces (pcbs (new_process A p c st supp s) p) = namespaces (pcbs s p)"
    by (simp add: new_process_def set_pcb_def reset_pcb_def)
  obtain h hh ds where t: "createProcess A st supp None s
      = give_namespace A (Some p) None (relink h hh ds (new_process A p c st supp s))"
    "kabs (relink h hh ds (new_process A p c st supp s)) (v_new p fs c v)"
    using createProcess_alloc [OF inv cur free, where nsd = None] unfolding Let_def by blast
  let ?t = "relink h hh ds (new_process A p c st supp s)"
  have "getNamespace A (Some c) NS_PID ?t = Some None"
    using getNamespace_none [of ?t c A] ns A v_new_leaf(4) [OF inv cur free]
    by (simp add: new_process_def set_pcb_def)
  moreover have "currentProc ?t = Some c" using cur by (simp add: currentProc_def new_process_def set_pcb_def)
  ultimately have "createProcess A st supp None s = Some (pid_counter s, ?t)"
    unfolding t(1) give_namespace_def
    by (simp add: addNamespace_null NS_TYPE_MAX_def NS_PID_def new_process_def set_pcb_def)
  with t(2) show "runs_to (createProcess A st supp None s) (pid_counter s)
      (new_process A p c st supp s) (v_new p fs c v)"
    unfolding runs_to_def by blast
qed

end
