(* ===== verification/Syscall_Abs.thy ===== *)
theory Syscall_Abs
  imports Term_Abs Create_Abs
begin

text \<open>
  The blocking system calls and the preemption of a process on the view, up to the process that
  runs next.
\<close>

section \<open>Saving the caller\<close>

definition save_state :: "nat \<Rightarrow> kstate \<Rightarrow> kstate" where
  "save_state p s = set_pcb p (\<lambda>b. b\<lparr>p_s := bios_state s\<rparr>) s"

lemma inv_core_save [simp]: "inv_core (save_state p s) v = inv_core s v"
  by (simp add: inv_core_def save_state_def set_pcb_def)

lemma save_and_schedule_view:
  assumes "kabs s v" and "inv_core s v" and "current_active_process s = Some p"
  shows "resumes (save_and_schedule s) (save_state p s) v"
proof -
  have k: "kabs (save_state p s) v" using assms(1) by (simp add: save_state_def kabs_set_pcb)
  have "save_and_schedule s = schedule (save_state p s)"
    using assms(3) by (simp add: save_and_schedule_def currentProc_def save_state_def set_pcb_def)
  then show ?thesis using schedule_resumes [OF k] assms(2) by simp
qed

lemma ends_in_resumes:
  assumes "ends_in m t v" and "inv_core t v" and "current_active_process t = Some p"
  shows "resumes (Option.bind m save_and_schedule) (save_state p t) v"
proof -
  from assms(1) obtain h hh ds where 1: "m = Some (relink h hh ds t)" "kabs (relink h hh ds t) v"
    by (rule ends_inE)
  from save_and_schedule_view [OF 1(2)] assms(2,3)
  have "resumes (save_and_schedule (relink h hh ds t)) (save_state p (relink h hh ds t)) v" by simp
  moreover have "save_state p (relink h hh ds t) = relink h hh ds (save_state p t)"
    by (simp add: save_state_def set_pcb_def)
  ultimately show ?thesis by (simp add: 1(1) resumes_relink)
qed

section \<open>passeren and verhogen\<close>

lemma inv_core_semAdd [simp]: "inv_core (set_semAdd p k s) v = inv_core s v"
  by (simp add: inv_core_def set_semAdd_def)

lemma passeren_block:
  assumes "kinv s v" and "current_active_process s = Some p" and "k \<noteq> 0" and "mem s k = 0"
  shows "runs_to (passeren k s) 1 (set_semAdd p k s) (v_block k p v)"
proof -
  have eq: "passeren k s = do { (_, s) \<leftarrow> insertBlocked k (Some p) s; Some (1, s) }"
    using assms(2-4) by (simp add: passeren_def currentProc_def)
  show ?thesis unfolding eq
    by (rule runs_to_bind [OF block_current [OF assms(1,2,3)]]) (simp add: runs_to_Some)
qed

lemma verhogen_block:
  assumes "kinv s v" and "current_active_process s = Some p" and "k \<noteq> 0" and "mem s k = 1"
  shows "runs_to (verhogen k s) 1 (set_semAdd p k s) (v_block k p v)"
proof -
  have eq: "verhogen k s = do { (_, s) \<leftarrow> insertBlocked k (Some p) s; Some (1, s) }"
    using assms(2-4) by (simp add: verhogen_def currentProc_def)
  show ?thesis unfolding eq
    by (rule runs_to_bind [OF block_current [OF assms(1,2,3)]]) (simp add: runs_to_Some)
qed

lemma wake_then:
  assumes "kabs s v" and "v_semq v k = q # qs"
  shows "runs_to (do {
      (proc, s) \<leftarrow> removeBlocked k s;
      s \<leftarrow> enqueueReady proc s;
      Some (r, s)
    }) r (clear_current q (set_semAdd q 0 s)) (v_wake k v)"
proof -
  have eq: "do {
      (proc, s) \<leftarrow> removeBlocked k s;
      s \<leftarrow> enqueueReady proc s;
      Some (r, s)
    } = do {
      (proc, s) \<leftarrow> do { (proc, s) \<leftarrow> removeBlocked k s; s \<leftarrow> enqueueReady proc s; Some (proc, s) };
      Some (r, s)
    }"
    by (cases "removeBlocked k s") auto
  show ?thesis unfolding eq
    by (rule runs_to_bind [OF wake_head [OF assms]]) (simp add: runs_to_Some)
qed

lemma passeren_wake:
  assumes "kabs s v" and "mem s k \<noteq> 0" and "v_semq v k = q # qs"
  shows "runs_to (passeren k s) 0 (clear_current q (set_semAdd q 0 s)) (v_wake k v)"
  using wake_then [OF assms(1,3), of 0] headBlocked_view [OF assms(1), of k] kabs_facts(9) [OF assms(1)] assms(2,3)
  by (cases "k = 0") (simp_all add: passeren_def)

lemma verhogen_wake:
  assumes "kabs s v" and "mem s k \<noteq> 1" and "v_semq v k = q # qs"
  shows "runs_to (verhogen k s) 0 (clear_current q (set_semAdd q 0 s)) (v_wake k v)"
  using wake_then [OF assms(1,3), of 0] headBlocked_view [OF assms(1), of k] kabs_facts(9) [OF assms(1)] assms(2,3)
  by (cases "k = 0") (simp_all add: verhogen_def)

lemma passeren_pass:
  "kabs s v \<Longrightarrow> k \<noteq> 0 \<Longrightarrow> mem s k \<noteq> 0 \<Longrightarrow> v_semq v k = [] \<Longrightarrow> passeren k s = Some (0, store_word k (mem s k - 1) s)"
  by (simp add: passeren_def headBlocked_view)

lemma verhogen_pass:
  "kabs s v \<Longrightarrow> k \<noteq> 0 \<Longrightarrow> mem s k \<noteq> 1 \<Longrightarrow> v_semq v k = [] \<Longrightarrow> verhogen k s = Some (0, store_word k (mem s k + 1) s)"
  by (simp add: verhogen_def headBlocked_view)

section \<open>The calls that block\<close>

text \<open>The state of the caller after the program counter has been advanced.\<close>

definition advanced :: "kstate \<Rightarrow> kstate" where
  "advanced s = s\<lparr>bios_state := (bios_state s)\<lparr>pc_epc := pc_epc (bios_state s) + WORDLEN\<rparr>\<rparr>"

unbundle bit_operations_syntax

definition kernel_mode :: "umps \<Rightarrow> kstate \<Rightarrow> bool" where
  "kernel_mode A s \<longleftrightarrow> drop_bit (STATUS_KUp_BIT A) (reg_STATUS s AND STATUS_KUp A) = 0"

definition sys_code :: "umps \<Rightarrow> kstate \<Rightarrow> u32" where
  "sys_code A s = gpr (bios_state s) (ix_a0 A)"

lemma syscallHandler_kernel:
  "kernel_mode A s \<Longrightarrow> syscallHandler A s = syscall_switch A (advanced s)"
  by (simp add: syscallHandler_def kernel_mode_def advanced_def Let_def)

lemma kinv_advanced: "kinv s v \<Longrightarrow> kinv (advanced s) v"
  by (simp add: kinv_def advanced_def inv_core_def cur_ok_def v_queued_def)

lemma advanced_simps [simp]: "mem (advanced s) = mem s" "pcbs (advanced s) = pcbs s"
  "current_active_process (advanced s) = current_active_process s" "sys_code A (advanced s) = sys_code A s"
  "FIRST_PARAM A (advanced s) = FIRST_PARAM A s" "SECOND_PARAM A (advanced s) = SECOND_PARAM A s"
  "soft_block_count (advanced s) = soft_block_count s" "process_count (advanced s) = process_count s"
  by (simp_all add: advanced_def sys_code_def FIRST_PARAM_def SECOND_PARAM_def)

lemma blocking_call:
  assumes inv: "kinv s v" and cur: "current_active_process s = Some p" and k: "k \<noteq> 0"
    and run: "runs_to m (1::nat) (set_semAdd p k s) (v_block k p v)"
  shows "resumes (do { (r, s) \<leftarrow> m; if r \<noteq> 0 then save_and_schedule s else return_to_caller s })
    (save_state p (set_semAdd p k s)) (v_block k p v)"
proof -
  from run obtain h hh ds where
    1: "m = Some (1, relink h hh ds (set_semAdd p k s))" "kabs (relink h hh ds (set_semAdd p k s)) (v_block k p v)"
    by (rule runs_toE)
  have "p < MAXPROC" using kinvD(5) [OF inv cur] by blast
  then have c: "inv_core (set_semAdd p k s) (v_block k p v)" using v_block_inv [OF kinvD(2) [OF inv]] by simp
  have "ends_in (Some (relink h hh ds (set_semAdd p k s))) (set_semAdd p k s) (v_block k p v)"
    using 1(2) unfolding ends_in_def by blast
  from ends_in_resumes [OF this c] cur show ?thesis by (simp add: 1(1) set_semAdd_def)
qed

lemma SYS3_blocks:
  assumes inv: "kinv s v" and cur: "current_active_process s = Some p" and mode: "kernel_mode A s"
    and call: "sys_code A s = PASSEREN" and k: "FIRST_PARAM A s = k" "k \<noteq> 0" "mem s k = 0"
  shows "resumes (syscallHandler A s) (save_state p (set_semAdd p k (advanced s))) (v_block k p v)"
proof -
  note inv' = kinv_advanced [OF inv]
  have "runs_to (passeren k (advanced s)) 1 (set_semAdd p k (advanced s)) (v_block k p v)"
    by (rule passeren_block [OF inv']) (use cur k in simp_all)
  from blocking_call [OF inv' _ k(2) this] cur call k
  show ?thesis
    by (simp add: syscallHandler_kernel [OF mode] syscall_switch_def sys_code_def advanced_def FIRST_PARAM_def
        syscall_codes)
qed

lemma SYS4_blocks:
  assumes inv: "kinv s v" and cur: "current_active_process s = Some p" and mode: "kernel_mode A s"
    and call: "sys_code A s = VERHOGEN" and k: "FIRST_PARAM A s = k" "k \<noteq> 0" "mem s k = 1"
  shows "resumes (syscallHandler A s) (save_state p (set_semAdd p k (advanced s))) (v_block k p v)"
proof -
  note inv' = kinv_advanced [OF inv]
  have "runs_to (verhogen k (advanced s)) 1 (set_semAdd p k (advanced s)) (v_block k p v)"
    by (rule verhogen_block [OF inv']) (use cur k in simp_all)
  from blocking_call [OF inv' _ k(2) this] cur call k
  show ?thesis
    by (simp add: syscallHandler_kernel [OF mode] syscall_switch_def sys_code_def advanced_def FIRST_PARAM_def
        syscall_codes)
qed

lemma SYS7_blocks:
  assumes inv: "kinv s v" and cur: "current_active_process s = Some p" and mode: "kernel_mode A s"
    and call: "sys_code A s = CLOCKWAIT" and k: "getPseudoClockSem A = k" "k \<noteq> 0" "mem s k = 0"
  shows "resumes (syscallHandler A s)
    (save_state p (incrementSoftBlockCount (set_semAdd p k (advanced s)))) (v_block k p v)"
proof -
  note inv' = kinv_advanced [OF inv]
  have e: "ends_in (P_sem k (advanced s)) (incrementSoftBlockCount (set_semAdd p k (advanced s))) (v_block k p v)"
    by (rule P_sem_block [OF inv']) (use cur k in simp_all)
  have "p < MAXPROC" using kinvD(5) [OF inv cur] by blast
  then have c: "inv_core (incrementSoftBlockCount (set_semAdd p k (advanced s))) (v_block k p v)"
    using v_block_inv [OF kinvD(2) [OF inv']] by (simp add: inv_core_def incrementSoftBlockCount_def set_semAdd_def)
  have "resumes (Option.bind (P_sem k (advanced s)) save_and_schedule)
    (save_state p (incrementSoftBlockCount (set_semAdd p k (advanced s)))) (v_block k p v)"
    by (rule ends_in_resumes [OF e c]) (use cur in \<open>simp add: incrementSoftBlockCount_def set_semAdd_def\<close>)
  then show ?thesis using call k
    by (simp add: syscallHandler_kernel [OF mode] syscall_switch_def sys_code_def advanced_def syscall_codes)
qed

end
