(* ===== verification/Interrupt_Abs.thy ===== *)
theory Interrupt_Abs
  imports Sem_Ops
begin

text \<open>
  The interrupts on the view: the device the bitmap designates, the completion of an operation
  by a device or a terminal, the preemption of the running process and the tick of the clock.
\<close>

unbundle bit_operations_syntax

section \<open>The invariant when a process is woken\<close>

lemma cur_not_blocked:
  assumes "kinv s v" and "current_active_process s = Some c" and "k \<noteq> 0"
  shows "c \<notin> set (v_semq v k)"
  using kinvD(5) [OF assms(1,2)] kabs_facts(8) [OF kinvD(1) [OF assms(1)] assms(3)] assms(3)
  by (auto simp: v_queued_def)

lemma queue_key: "kabs s v \<Longrightarrow> v_semq v k \<noteq> [] \<Longrightarrow> k \<noteq> 0"
  using kabs_facts(9) by auto

text \<open>Waking a process never stops the running one, which is in no queue.\<close>

lemma not_current_woken:
  assumes "kinv s v" and "p \<in> set (v_semq v k)"
  shows "current_active_process s \<noteq> Some p"
proof -
  have "v_semq v k \<noteq> []" using assms(2) by auto
  then have "k \<noteq> 0" by (rule queue_key [OF kinvD(1) [OF assms(1)]])
  then show ?thesis using cur_not_blocked [OF assms(1)] assms(2) by blast
qed

lemma wake_inv:
  assumes "kinv s v" and "v_semq v k = p # ps"
  shows "inv_core (set_semAdd p 0 s) (v_wake k v)" and "cur_ok (set_semAdd p 0 s) (v_wake k v)"
proof -
  have k: "k \<noteq> 0" by (rule queue_key [OF kinvD(1) [OF assms(1)]]) (simp add: assms(2))
  show "inv_core (set_semAdd p 0 s) (v_wake k v)"
    using v_wake_inv [OF kinvD(2) [OF assms(1)], of k] assms(2) by (simp add: inv_core_def set_semAdd_def)
  show "cur_ok (set_semAdd p 0 s) (v_wake k v)"
    unfolding cur_ok_def
  proof (intro allI impI)
    fix c assume c: "current_active_process (set_semAdd p 0 s) = Some c"
    then have c': "current_active_process s = Some c" by (simp add: set_semAdd_def)
    have "c \<noteq> p" using cur_not_blocked [OF assms(1) c' k] assms(2) by auto
    then show "c < MAXPROC \<and> \<not> v_queued (set_semAdd p 0 s) c (v_wake k v)"
      using kinvD(5) [OF assms(1) c'] assms(2) by (auto simp: v_queued_def v_wake_def set_semAdd_def)
  qed
qed

lemma kinv_other_fields [simp]:
  "kinv (s\<lparr>soft_block_count := n\<rparr>) v = kinv s v" "kinv (s\<lparr>mem := m\<rparr>) v = kinv s v"
  "kinv (s\<lparr>bios_state := b\<rparr>) v = kinv s v" "kinv (s\<lparr>reg_TIMER := n\<rparr>) v = kinv s v"
  "kinv (s\<lparr>reg_STATUS := n\<rparr>) v = kinv s v" "kinv (s\<lparr>interval_timer := n\<rparr>) v = kinv s v"
  "kinv (s\<lparr>supports := u\<rparr>) v = kinv s v" "kinv (s\<lparr>start_time := n\<rparr>) v = kinv s v"
  "kinv (s\<lparr>pid_counter := n\<rparr>) v = kinv s v" "kinv (s\<lparr>nsds := x\<rparr>) v = kinv s v"
  by (simp_all add: kinv_def inv_core_def cur_ok_def v_queued_def)

lemma kinv_tod [simp]: "kinv (s\<lparr>tod := n\<rparr>) v = kinv s v" "kinv (s\<lparr>reg_CAUSE := n\<rparr>) v = kinv s v"
proof -
  have "kabs (s\<lparr>tod := n\<rparr>) v = kabs s v" "kabs (s\<lparr>reg_CAUSE := n\<rparr>) v = kabs s v"
    by (rule iffI; erule kabs_cong; simp)+
  then show "kinv (s\<lparr>tod := n\<rparr>) v = kinv s v" "kinv (s\<lparr>reg_CAUSE := n\<rparr>) v = kinv s v"
    by (simp_all add: kinv_def inv_core_def cur_ok_def v_queued_def)
qed

lemma kinv_store_word [simp]: "kinv (store_word a x s) v = kinv s v"
  by (simp add: store_word_def)

lemma kinv_soft_count [simp]:
  "kinv (incrementSoftBlockCount s) v = kinv s v" "kinv (decrementSoftBlockCount s) v = kinv s v"
  by (simp_all add: incrementSoftBlockCount_def decrementSoftBlockCount_def)

text \<open>Writing a field of a PCB the invariant does not read.\<close>

lemma kinv_set_pcb:
  assumes "p_semAdd (f (pcbs s p)) = p_semAdd (pcbs s p)" and "p_parent (f (pcbs s p)) = p_parent (pcbs s p)"
  shows "kinv (set_pcb p f s) v = kinv s v"
proof -
  have "p_semAdd (pcbs (set_pcb p f s) q) = p_semAdd (pcbs s q)" for q
    using assms(1) by (simp add: set_pcb_def)
  moreover have "kabs (set_pcb p f s) v = kabs s v" by (rule kabs_set_pcb; rule assms)
  ultimately show ?thesis
    by (simp add: kinv_def inv_core_def cur_ok_def v_queued_def)
      (simp add: set_pcb_def)
qed

section \<open>V on a semaphore with a waiting process\<close>

lemma V_sem_wake':
  assumes inv: "kinv s v" and q: "v_semq v k = p # ps"
  shows "\<exists>h hh ds. V_sem k s = Some (Some p, relink h hh ds (decrementSoftBlockCount (set_semAdd p 0 s)))
    \<and> kinv (relink h hh ds (decrementSoftBlockCount (set_semAdd p 0 s))) (v_wake k v)"
proof -
  have "clear_current p (set_semAdd p 0 s) = set_semAdd p 0 s"
    using not_current_woken [OF inv, of p k] q by (simp add: clear_current_def set_semAdd_def)
  then have r: "runs_to (V_sem k s) (Some p) (decrementSoftBlockCount (set_semAdd p 0 s)) (v_wake k v)"
    using V_sem_wake [OF kinvD(1) [OF inv] q] by simp
  show ?thesis
    by (rule runs_to_kinv [OF r])
      (use wake_inv [OF inv q] in \<open>simp_all add: decrementSoftBlockCount_def inv_core_def cur_ok_def v_queued_def\<close>)
qed

text \<open>
  A woken process is at the tail of the ready queue, so that the second \<open>enqueueReady\<close> of the
  device handlers leaves the queue as it is.
\<close>

lemma enqueueReady_again:
  assumes inv: "kinv s v" and q: "v_ready v = ps @ [p]"
  shows "\<exists>h hh ds. enqueueReady (Some p) s = Some (relink h hh ds s) \<and> kinv (relink h hh ds s) v"
proof -
  have p: "p \<in> set (v_ready v)" using q by simp
  then have "\<not> current_active_process s = Some p" using kinvD(5) [OF inv] by (auto simp: v_queued_def)
  then have c: "clear_current p s = s" by (simp add: clear_current_def)
  have "p \<notin> set ps" using kabs_facts(2) [OF kinvD(1) [OF inv]] q by simp
  then have v: "v\<lparr>v_ready := removeAll p (v_ready v) @ [p]\<rparr> = v" using q by simp
  have "ends_in (enqueueReady (Some p) s) (clear_current p s) (v\<lparr>v_ready := removeAll p (v_ready v) @ [p]\<rparr>)"
    by (rule enqueueReady_view [OF kinvD(1) [OF inv]])
      (use p kabs_facts(7,10) [OF kinvD(1) [OF inv]] in auto)
  then obtain h hh ds where "enqueueReady (Some p) s = Some (relink h hh ds s)" "kabs (relink h hh ds s) v"
    unfolding c v by (rule ends_inE)
  moreover have "inv_core s v" "cur_ok s v" using inv by (simp_all add: kinv_def)
  ultimately show ?thesis by (auto simp: kinv_def)
qed

section \<open>Completing an operation\<close>

text \<open>The run ends in the state given, up to the links, and the invariant holds there.\<close>

definition ends_ok :: "kstate option \<Rightarrow> kstate \<Rightarrow> kview \<Rightarrow> bool" where
  "ends_ok m t v \<longleftrightarrow> (\<exists>h hh ds. m = Some (relink h hh ds t) \<and> kinv (relink h hh ds t) v)"

lemma ends_okE:
  assumes "ends_ok m t v"
  obtains h hh ds where "m = Some (relink h hh ds t)" and "kinv (relink h hh ds t) v"
  using assms by (auto simp: ends_ok_def)

lemma ends_ok_relink: "ends_ok m (relink h hh ds t) v = ends_ok m t v"
  by (simp add: ends_ok_def)

lemma ends_ok_Some: "kinv t v \<Longrightarrow> ends_ok (Some t) t v"
  unfolding ends_ok_def
  by (intro exI [of _ "lists t"] exI [of _ "semd_h t"] exI [of _ "semds t"]) simp

lemma ends_ok_SomeI: "s' = t \<Longrightarrow> kinv t v \<Longrightarrow> ends_ok (Some s') t v"
  by (simp add: ends_ok_Some)

lemma ends_ok_ends_in: "ends_in m t v \<Longrightarrow> inv_core t v \<Longrightarrow> cur_ok t v \<Longrightarrow> ends_ok m t v"
  by (auto simp: ends_in_def ends_ok_def kinv_def)

definition io_done :: "umps \<Rightarrow> nat \<Rightarrow> u32 \<Rightarrow> u32 \<Rightarrow> kstate \<Rightarrow> kstate" where
  "io_done A p v0 stat s =
     store_word (p_savedDeviceStatus (pcbs s p) + 4 * ix_STATUS A) stat
       (set_pcb p (\<lambda>b. b\<lparr>p_semAdd := 0, p_s := set_v0 A v0 (p_s b)\<rparr>) (decrementSoftBlockCount s))"

text \<open>What \<open>V\<close> and the completion do: wake the first waiting process, or remember the signal.\<close>

definition signalled :: "umps \<Rightarrow> u32 \<Rightarrow> u32 \<Rightarrow> u32 \<Rightarrow> kview \<Rightarrow> kstate \<Rightarrow> kstate" where
  "signalled A k v0 stat v s =
     (case v_semq v k of [] \<Rightarrow> store_word k 1 s | p # _ \<Rightarrow> io_done A p v0 stat s)"

definition v_signal :: "u32 \<Rightarrow> kview \<Rightarrow> kview" where
  "v_signal k v = (if v_semq v k = [] then v else v_wake k v)"

lemma io_done_relink: "io_done A p v0 stat (relink h hh ds s) = relink h hh ds (io_done A p v0 stat s)"
  by (simp add: io_done_def set_pcb_def decrementSoftBlockCount_def store_word_def)

lemma V_complete:
  assumes inv: "kinv s v" and k: "k \<noteq> 0"
  shows "ends_ok (do { (p, s) \<leftarrow> V_sem k s; complete_io A p v0 stat s })
    (signalled A k v0 stat v s) (v_signal k v)"
proof (cases "v_semq v k")
  case Nil
  have "V_sem k s = Some (None, store_word k 1 s)" by (rule V_sem_none [OF kinvD(1) [OF inv] k Nil])
  then show ?thesis using inv Nil
    by (simp add: complete_io_def signalled_def v_signal_def ends_ok_Some)
next
  case (Cons p ps)
  from V_sem_wake' [OF inv Cons] obtain h hh ds where
    1: "V_sem k s = Some (Some p, relink h hh ds (decrementSoftBlockCount (set_semAdd p 0 s)))"
    "kinv (relink h hh ds (decrementSoftBlockCount (set_semAdd p 0 s))) (v_wake k v)" by blast
  let ?s1 = "relink h hh ds (decrementSoftBlockCount (set_semAdd p 0 s))"
  let ?s2 = "store_word (p_savedDeviceStatus (pcbs s p) + 4 * ix_STATUS A) stat
    (set_pcb p (\<lambda>b. b\<lparr>p_s := set_v0 A v0 (p_s b)\<rparr>) ?s1)"
  have k2: "kinv ?s2 (v_wake k v)" using 1(2) by (simp add: kinv_set_pcb)
  have "v_ready (v_wake k v) = v_ready v @ [p]" using Cons by (simp add: v_wake_def)
  from enqueueReady_again [OF k2 this] obtain h' hh' ds' where
    2: "enqueueReady (Some p) ?s2 = Some (relink h' hh' ds' ?s2)" "kinv (relink h' hh' ds' ?s2) (v_wake k v)" by blast
  have "complete_io A (Some p) v0 stat ?s1 = enqueueReady (Some p) ?s2"
    by (simp add: complete_io_def Let_def set_pcb_def set_semAdd_def decrementSoftBlockCount_def)
  moreover have "relink h' hh' ds' ?s2 = relink h' hh' ds' (io_done A p v0 stat s)"
    by (simp add: io_done_def set_pcb_def set_semAdd_def decrementSoftBlockCount_def store_word_def)
  ultimately show ?thesis using 1(1) 2 Cons
    by (auto simp: ends_ok_def signalled_def v_signal_def)
qed

section \<open>The device that raised the interrupt\<close>

text \<open>
  The loop answers the position of the highest set bit of the bitmap, and never more than the
  number of devices.
\<close>

lemma getInterruptingDevice_loop_bound:
  "dev \<le> n \<Longrightarrow> getInterruptingDevice_loop n bitmap dev \<le> n"
proof (induction n bitmap dev rule: getInterruptingDevice_loop.induct)
  case (1 n bitmap dev)
  show ?case
  proof (cases "bitmap > 1 \<and> dev < n")
    case True
    then have "dev + 1 \<le> n" by (simp add: inc_le)
    with True 1 show ?thesis by (subst getInterruptingDevice_loop.simps) simp
  next
    case False
    with 1(2) show ?thesis by (subst getInterruptingDevice_loop.simps) auto
  qed
qed

lemma getInterruptingDevice_loop_highest:
  "2 ^ h \<le> unat bitmap \<Longrightarrow> unat bitmap < 2 ^ Suc h \<Longrightarrow> unat dev + h \<le> unat n \<Longrightarrow>
    unat (getInterruptingDevice_loop n bitmap dev) = unat dev + h"
proof (induction h arbitrary: bitmap dev)
  case 0
  then have "unat bitmap = 1" by simp
  then have "\<not> bitmap > 1" by (simp add: word_less_nat_alt)
  then show ?case by (subst getInterruptingDevice_loop.simps) auto
next
  case (Suc h)
  have "(0::nat) < 2 ^ h" by simp
  with Suc.prems(1) have "1 < unat bitmap" unfolding power_Suc by linarith
  then have b: "bitmap > 1" by (simp add: word_less_nat_alt)
  have d: "dev < n" using Suc.prems(3) by (simp add: word_less_nat_alt)
  have half: "unat (drop_bit 1 bitmap) = unat bitmap div 2"
    by (simp add: unat_drop_bit_eq drop_bit_eq_div [of _ "unat bitmap"])
  have inc: "unat (dev + 1) = unat dev + 1"
  proof -
    have "dev + 1 \<noteq> 0"
    proof
      assume "dev + 1 = 0"
      then have "dev = - 1" by (simp add: eq_neg_iff_add_eq_0)
      with d show False by (simp add: word_order.not_eq_extremum)
    qed
    then show ?thesis using unatSuc [of dev] by (simp add: add.commute)
  qed
  have "unat (getInterruptingDevice_loop n (drop_bit 1 bitmap) (dev + 1)) = unat (dev + 1) + h"
    by (rule Suc.IH) (use Suc.prems in \<open>auto simp: half [unfolded One_nat_def] inc\<close>)
  then show ?case
    using b d inc by (subst getInterruptingDevice_loop.simps) simp
qed

lemma getInterruptingDevice_highest:
  assumes "2 ^ h \<le> unat (mem s (CDEV_BITMAP_ADDR A line))" and "unat (mem s (CDEV_BITMAP_ADDR A line)) < 2 ^ Suc h"
    and "h \<le> unat (N_DEV_PER_IL A)"
  shows "unat (getInterruptingDevice A line s) = h"
  using getInterruptingDevice_loop_highest [OF assms(1,2), of 0] assms(3)
  by (simp add: getInterruptingDevice_def)

lemma getInterruptingDevice_bound: "getInterruptingDevice A line s \<le> N_DEV_PER_IL A"
  unfolding getInterruptingDevice_def by (rule getInterruptingDevice_loop_bound) simp

lemma getInterruptingDevice_relink [simp]:
  "getInterruptingDevice A line (relink h hh ds s) = getInterruptingDevice A line s"
  by (simp add: getInterruptingDevice_def)

section \<open>Devices and terminals\<close>

definition device_sem :: "umps \<Rightarrow> u32 \<Rightarrow> kstate \<Rightarrow> u32" where
  "device_sem A line s = getDevSem A (EXT_IL_INDEX A line * DEVPERINT A + getInterruptingDevice A line s)"

definition device_served :: "umps \<Rightarrow> u32 \<Rightarrow> kview \<Rightarrow> kstate \<Rightarrow> kstate" where
  "device_served A line v s =
     (let base = DEV_REG_ADDR A line (getInterruptingDevice A line s); stat = mem s (base + off_status A) in
      signalled A (device_sem A line s) (if stat = READY A then IOOPSUCCESS else IOOPFAILED) stat v
        (store_word (base + off_command A) (ACK A) s))"

lemma manageDevices_ok:
  assumes "kinv s v" and "device_sem A line s \<noteq> 0"
  shows "ends_ok (manageDevices A line s) (device_served A line v s) (v_signal (device_sem A line s) v)"
  unfolding manageDevices_def device_served_def Let_def device_sem_def [symmetric]
  by (rule V_complete) (use assms in simp_all)

text \<open>One of the two halves of a terminal: \<open>st\<close> and \<open>cm\<close> are its registers, \<open>k\<close> its semaphore.\<close>

definition half_ready :: "umps \<Rightarrow> u32 \<Rightarrow> kstate \<Rightarrow> bool" where
  "half_ready A st s \<longleftrightarrow> mem s st \<ge> READY A \<and> mem s st \<noteq> BUSY A"

definition half_served :: "umps \<Rightarrow> u32 \<Rightarrow> u32 \<Rightarrow> u32 \<Rightarrow> kview \<Rightarrow> kstate \<Rightarrow> kstate" where
  "half_served A st cm k v s =
     (if half_ready A st s then
        signalled A k (if mem s st AND 0xFF = TERMOPSUCCESS then IOOPSUCCESS else IOOPFAILED) (mem s st AND 0xFF) v
          (store_word cm (ACK A) s)
      else s)"

definition v_half :: "umps \<Rightarrow> u32 \<Rightarrow> u32 \<Rightarrow> kstate \<Rightarrow> kview \<Rightarrow> kview" where
  "v_half A st k s v = (if half_ready A st s then v_signal k v else v)"

definition serve_half :: "umps \<Rightarrow> u32 \<Rightarrow> u32 \<Rightarrow> u32 \<Rightarrow> kstate update" where
  "serve_half A st cm k s =
     (if mem s st \<ge> READY A \<and> mem s st \<noteq> BUSY A then do {
        let stat = mem s st AND 0xFF;
        let s = store_word cm (ACK A) s;
        (p, s) \<leftarrow> V_sem k s;
        complete_io A p (if stat = TERMOPSUCCESS then IOOPSUCCESS else IOOPFAILED) stat s
      } else Some s)"

lemma serve_half_ok:
  assumes "kinv s v" and "k \<noteq> 0"
  shows "ends_ok (serve_half A st cm k s) (half_served A st cm k v s) (v_half A st k s v)"
proof (cases "half_ready A st s")
  case True
  have "kinv (store_word cm (ACK A) s) v" using assms(1) by simp
  note V = V_complete [OF this assms(2)]
  show ?thesis
    unfolding serve_half_def half_served_def v_half_def Let_def if_P [OF True]
      if_P [OF True [unfolded half_ready_def]] by (rule V)
next
  case False
  show ?thesis
    unfolding serve_half_def half_served_def v_half_def if_not_P [OF False]
      if_not_P [OF False [unfolded half_ready_def]] by (rule ends_ok_Some [OF assms(1)])
qed

definition term_base :: "umps \<Rightarrow> kstate \<Rightarrow> u32" where
  "term_base A s = DEV_REG_ADDR A (IL_TERMINAL A) (getInterruptingDevice A (IL_TERMINAL A) s)"

definition term_sem :: "umps \<Rightarrow> u32 \<Rightarrow> kstate \<Rightarrow> u32" where
  "term_sem A i s = getDevSem A
     (EXT_IL_INDEX A (IL_TERMINAL A) * DEVPERINT A + getInterruptingDevice A (IL_TERMINAL A) s * 2 + i)"

definition transm_served :: "umps \<Rightarrow> kview \<Rightarrow> kstate \<Rightarrow> kstate" where
  "transm_served A v s = half_served A (term_base A s + off_transm_status A)
     (term_base A s + off_transm_command A) (term_sem A 1 s) v s"

definition v_transm :: "umps \<Rightarrow> kstate \<Rightarrow> kview \<Rightarrow> kview" where
  "v_transm A s v = v_half A (term_base A s + off_transm_status A) (term_sem A 1 s) s v"

text \<open>The transmitter first, then the receiver with what its status register holds then.\<close>

definition terminal_served :: "umps \<Rightarrow> kview \<Rightarrow> kstate \<Rightarrow> kstate" where
  "terminal_served A v s = half_served A (term_base A s + off_recv_status A)
     (term_base A s + off_recv_command A) (term_sem A 0 s) (v_transm A s v) (transm_served A v s)"

definition v_terminal :: "umps \<Rightarrow> kstate \<Rightarrow> kview \<Rightarrow> kview" where
  "v_terminal A s v = v_half A (term_base A s + off_recv_status A) (term_sem A 0 s) (transm_served A v s)
     (v_transm A s v)"

lemma half_served_relink:
  "half_served A st cm k v (relink h hh ds s) = relink h hh ds (half_served A st cm k v s)"
  "v_half A st k (relink h hh ds s) v = v_half A st k s v"
proof -
  have st: "store_word a x (relink h hh ds s) = relink h hh ds (store_word a x s)" for a x s
    by (simp add: store_word_def)
  show "half_served A st cm k v (relink h hh ds s) = relink h hh ds (half_served A st cm k v s)"
    by (simp add: half_served_def half_ready_def signalled_def st io_done_relink split: list.split)
  show "v_half A st k (relink h hh ds s) v = v_half A st k s v"
    by (simp add: v_half_def half_ready_def)
qed

lemma manageTerminal_halves:
  "manageTerminal A s = do {
     t \<leftarrow> serve_half A (term_base A s + off_transm_status A) (term_base A s + off_transm_command A) (term_sem A 1 s) s;
     serve_half A (term_base A s + off_recv_status A) (term_base A s + off_recv_command A) (term_sem A 0 s) t
   }"
  by (simp only: manageTerminal_def serve_half_def Let_def term_base_def term_sem_def TERMSTATMASK_def add_0_right)

lemma manageTerminal_ok:
  assumes inv: "kinv s v" and sems: "term_sem A 0 s \<noteq> 0" "term_sem A 1 s \<noteq> 0"
  shows "ends_ok (manageTerminal A s) (terminal_served A v s) (v_terminal A s v)"
proof -
  obtain h hh ds where
    1: "serve_half A (term_base A s + off_transm_status A) (term_base A s + off_transm_command A) (term_sem A 1 s) s
      = Some (relink h hh ds (transm_served A v s))"
    "kinv (relink h hh ds (transm_served A v s)) (v_transm A s v)"
    using serve_half_ok [OF inv sems(2)] unfolding transm_served_def v_transm_def by (rule ends_okE)
  from serve_half_ok [OF 1(2) sems(1), of A "term_base A s + off_recv_status A" "term_base A s + off_recv_command A"]
  show ?thesis
    by (simp add: manageTerminal_halves 1(1) terminal_served_def v_terminal_def half_served_relink ends_ok_relink)
qed

section \<open>Timers\<close>

text \<open>The running process goes to the tail of the ready queue with the state it was stopped in.\<close>

definition preempted :: "nat \<Rightarrow> kstate \<Rightarrow> kstate" where
  "preempted p s = (set_pcb p (\<lambda>b. b\<lparr>p_s := bios_state s\<rparr>) s)
     \<lparr>reg_TIMER := NEVER, current_active_process := None\<rparr>"

definition timer_enabled :: "umps \<Rightarrow> kstate \<Rightarrow> bool" where
  "timer_enabled A s \<longleftrightarrow> drop_bit (STATUS_TE_BIT A) (reg_STATUS s AND STATUS_TE A) \<noteq> 0"

lemma plt_interrupt_off: "\<not> timer_enabled A s \<Longrightarrow> plt_interrupt A s = Some s"
  by (simp add: plt_interrupt_def timer_enabled_def)

lemma plt_interrupt_ok:
  assumes inv: "kinv s v" and cur: "current_active_process s = Some p" and on: "timer_enabled A s"
  shows "ends_ok (plt_interrupt A s) (preempted p s) (v\<lparr>v_ready := v_ready v @ [p]\<rparr>)"
proof -
  let ?s = "set_pcb p (\<lambda>b. b\<lparr>p_s := bios_state s\<rparr>) (s\<lparr>reg_TIMER := NEVER\<rparr>)"
  note q = kinvD(5) [OF inv cur]
  have k: "kabs ?s v" using kinvD(1) [OF inv] by (subst kabs_set_pcb) simp_all
  have "removeAll p (v_ready v) = v_ready v" using q by (simp add: v_queued_def)
  then have "ends_in (enqueueReady (Some p) ?s) (clear_current p ?s) (v\<lparr>v_ready := v_ready v @ [p]\<rparr>)"
    using enqueueReady_view [OF k, of p] q by (simp add: v_queued_def set_pcb_def)
  moreover have "clear_current p ?s = preempted p s"
    using cur by (simp add: clear_current_def preempted_def set_pcb_def)
  moreover have "plt_interrupt A s = enqueueReady (Some p) ?s"
    using on cur by (simp add: plt_interrupt_def timer_enabled_def currentProc_def set_pcb_def)
  ultimately have e: "ends_in (plt_interrupt A s) (preempted p s) (v\<lparr>v_ready := v_ready v @ [p]\<rparr>)" by simp
  show ?thesis
    by (rule ends_ok_ends_in [OF e])
      (use kinvD(2) [OF inv] q in \<open>auto simp: inv_core_def in_table_def kid_rel_def cur_ok_def preempted_def set_pcb_def\<close>)
qed

definition ticked :: "umps \<Rightarrow> kview \<Rightarrow> kstate \<Rightarrow> kstate" where
  "ticked A v s = store_word (getPseudoClockSem A) 0
     (wake_procs (v_semq v (getPseudoClockSem A)) (resetIntervalTimer s))"

lemma wake_procs_other [simp]: "process_count (wake_procs ps s) = process_count s"
  by (induction ps arbitrary: s) (simp_all add: decrementSoftBlockCount_def clear_current_def set_semAdd_def)

lemma wake_procs_semAdd:
  "p_semAdd (pcbs (wake_procs ps s) c) = (if c \<in> set ps then 0 else p_semAdd (pcbs s c))"
  by (induction ps arbitrary: s) (auto simp: decrementSoftBlockCount_def clear_current_def set_semAdd_def)

lemma wake_procs_current:
  "current_active_process s \<notin> Some ` set ps \<Longrightarrow> current_active_process (wake_procs ps s) = current_active_process s"
  by (induction ps arbitrary: s) (auto simp: decrementSoftBlockCount_def clear_current_def set_semAdd_def)

lemma wake_procs_soft: "soft_block_count (wake_procs ps s) = soft_block_count s - of_nat (length ps)"
  by (induction ps arbitrary: s) (simp_all add: decrementSoftBlockCount_def clear_current_def set_semAdd_def)

lemma v_wake_all_inv:
  assumes "inv_core s v"
  shows "inv_core s (v_wake_all k v)"
  using assms by (auto simp: inv_core_def in_table_def kid_rel_def v_wake_all_def)

lemma clock_interrupt_ok:
  assumes inv: "kinv s v"
  shows "ends_ok (clock_interrupt A s) (ticked A v s) (v_wake_all (getPseudoClockSem A) v)"
proof -
  let ?k = "getPseudoClockSem A" and ?s = "resetIntervalTimer s"
  let ?ps = "v_semq v ?k" and ?w = "v_wake_all ?k v"
  have k: "kabs ?s v" using kinvD(1) [OF inv] by (simp add: resetIntervalTimer_def)
  have e: "ends_in (wake_clock ?k ?s) (wake_procs ?ps ?s) ?w" by (rule wake_clock_all [OF k refl])
  have cur: "current_active_process s \<notin> Some ` set ?ps" using not_current_woken [OF inv] by blast
  then have cur': "current_active_process (wake_procs ?ps ?s) = current_active_process s"
    by (subst wake_procs_current) (simp_all add: resetIntervalTimer_def)
  have core: "inv_core (wake_procs ?ps ?s) ?w"
    using v_wake_all_inv [OF kinvD(2) [OF inv], of ?k] by (simp add: inv_core_def resetIntervalTimer_def)
  have ok: "cur_ok (wake_procs ?ps ?s) ?w" unfolding cur_ok_def cur'
  proof (intro allI impI)
    fix c assume c: "current_active_process s = Some c"
    with cur have "c \<notin> set ?ps" by blast
    then show "c < MAXPROC \<and> \<not> v_queued (wake_procs ?ps ?s) c ?w"
      using kinvD(5) [OF inv c] by (simp add: v_queued_def wake_procs_semAdd v_wake_all_def resetIntervalTimer_def)
  qed
  obtain h hh ds where 1: "wake_clock ?k ?s = Some (relink h hh ds (wake_procs ?ps ?s))"
    "kinv (relink h hh ds (wake_procs ?ps ?s)) ?w"
    using ends_ok_ends_in [OF e core ok] by (rule ends_okE)
  have eq: "store_word ?k 0 (relink h hh ds (wake_procs ?ps ?s)) = relink h hh ds (ticked A v s)"
    by (simp add: ticked_def store_word_def)
  have "kinv (store_word ?k 0 (relink h hh ds (wake_procs ?ps ?s))) ?w" using 1(2) by simp
  moreover have "clock_interrupt A s = Some (store_word ?k 0 (relink h hh ds (wake_procs ?ps ?s)))"
    by (simp add: clock_interrupt_def 1(1))
  ultimately show ?thesis unfolding eq ends_ok_def by blast
qed

section \<open>The handler\<close>

text \<open>
  An operation is \<open>safe\<close> when, whatever it does, it leaves a state with the invariant, and
  \<open>total\<close> when it also always returns.
\<close>

definition wf_kernel :: "kstate \<Rightarrow> bool" where
  "wf_kernel s \<longleftrightarrow> (\<exists>v. kinv s v)"

definition safe :: "kstate update \<Rightarrow> bool" where
  "safe f \<longleftrightarrow> (\<forall>s s'. wf_kernel s \<longrightarrow> f s = Some s' \<longrightarrow> wf_kernel s')"

definition total :: "kstate update \<Rightarrow> bool" where
  "total f \<longleftrightarrow> (\<forall>s. wf_kernel s \<longrightarrow> (\<exists>s'. f s = Some s' \<and> wf_kernel s'))"

lemma wf_kernelI: "kinv s v \<Longrightarrow> wf_kernel s"
  by (auto simp: wf_kernel_def)

lemma safeD: "safe f \<Longrightarrow> wf_kernel s \<Longrightarrow> f s = Some s' \<Longrightarrow> wf_kernel s'"
  by (auto simp: safe_def)

lemma totalD: "total f \<Longrightarrow> wf_kernel s \<Longrightarrow> \<exists>s'. f s = Some s' \<and> wf_kernel s'"
  by (simp add: total_def)

lemma ends_ok_wf: "ends_ok m t v \<Longrightarrow> \<exists>s'. m = Some s' \<and> wf_kernel s'"
  by (auto simp: ends_ok_def wf_kernel_def)

lemma V_sem_null: "kabs s v \<Longrightarrow> V_sem 0 s = None"
  by (simp add: V_sem_def headBlocked_def)

lemma manageDevices_safe: "safe (manageDevices A line)"
  unfolding safe_def
proof (intro allI impI)
  fix s s' assume "wf_kernel s" and r: "manageDevices A line s = Some s'"
  then obtain v where v: "kinv s v" by (auto simp: wf_kernel_def)
  have "device_sem A line s \<noteq> 0"
  proof
    assume "device_sem A line s = 0"
    then have "manageDevices A line s = None"
      unfolding manageDevices_def Let_def device_sem_def [symmetric]
      using V_sem_null [of _ v] kinvD(1) [OF v] by (simp add: store_word_def)
    with r show False by simp
  qed
  from ends_ok_wf [OF manageDevices_ok [OF v this]] r show "wf_kernel s'" by auto
qed

lemma serve_half_safe: "safe (serve_half A st cm k)"
  unfolding safe_def
proof (intro allI impI)
  fix s s' assume "wf_kernel s" and r: "serve_half A st cm k s = Some s'"
  then obtain v where v: "kinv s v" by (auto simp: wf_kernel_def)
  show "wf_kernel s'"
  proof (cases "k = 0")
    case True
    have "V_sem 0 (store_word cm (ACK A) s) = None"
      using V_sem_null [of _ v] kinvD(1) [OF v] by (simp add: store_word_def)
    then have "serve_half A st cm k s = Some s \<or> serve_half A st cm k s = None"
      by (simp add: serve_half_def Let_def True)
    with r v show ?thesis by (auto simp: wf_kernel_def)
  next
    case False
    from ends_ok_wf [OF serve_half_ok [OF v False, of A st cm]] r show ?thesis by auto
  qed
qed

lemma manageTerminal_safe: "safe (manageTerminal A)"
  unfolding safe_def manageTerminal_halves
  by (auto simp: bind_Some_iff intro: safeD [OF serve_half_safe])

lemma clock_interrupt_total: "total (clock_interrupt A)"
  unfolding total_def using ends_ok_wf [OF clock_interrupt_ok] by (auto simp: wf_kernel_def)

lemma total_safe: "total f \<Longrightarrow> safe f"
  unfolding total_def safe_def by fastforce

lemma plt_interrupt_safe: "safe (plt_interrupt A)"
  unfolding safe_def
proof (intro allI impI)
  fix s s' assume w: "wf_kernel s" and r: "plt_interrupt A s = Some s'"
  then obtain v where v: "kinv s v" by (auto simp: wf_kernel_def)
  show "wf_kernel s'"
  proof (cases "timer_enabled A s")
    case True
    then obtain p where "current_active_process s = Some p"
      using r by (cases "current_active_process s") (auto simp: plt_interrupt_def timer_enabled_def currentProc_def)
    from ends_ok_wf [OF plt_interrupt_ok [OF v this True]] r show ?thesis by auto
  next
    case False
    with r w show ?thesis by (simp add: plt_interrupt_off)
  qed
qed

lemma when_line_safe: "safe f \<Longrightarrow> safe (when_line A line f)"
  by (auto simp: safe_def when_line_def)

lemma when_line_total: "total f \<Longrightarrow> total (when_line A line f)"
  by (auto simp: total_def when_line_def)

text \<open>
  How a handler ends: the processor is given to a process exactly when one is marked as running.
\<close>

definition gives_processor :: "outcome \<Rightarrow> bool" where
  "gives_processor out \<longleftrightarrow> (case out of LDST _ \<Rightarrow> True | LDCXT _ _ _ \<Rightarrow> True | _ \<Rightarrow> False)"

definition settled :: "outcome \<times> kstate \<Rightarrow> bool" where
  "settled c \<longleftrightarrow> wf_kernel (snd c) \<and> (gives_processor (fst c) \<longleftrightarrow> current_active_process (snd c) \<noteq> None)"

lemma resumes_settled: "resumes m t v \<Longrightarrow> \<exists>c. m = Some c \<and> settled c"
  unfolding resumes_def settled_def wf_kernel_def
  by (fastforce simp: gives_processor_def running_def waiting_def split: list.splits if_splits)

lemma schedule_settled: "wf_kernel s \<Longrightarrow> \<exists>c. schedule s = Some c \<and> settled c"
proof -
  assume "wf_kernel s"
  then obtain v where "kinv s v" by (auto simp: wf_kernel_def)
  from resumes_settled [OF schedule_resumes [OF kinvD(1,2) [OF this]]] show ?thesis .
qed

text \<open>The semaphores of the devices the handler can reach are not at address 0.\<close>

definition dev_sems_ok :: "umps \<Rightarrow> bool" where
  "dev_sems_ok A \<longleftrightarrow>
     (\<forall>line \<in> {IL_DISK A, IL_FLASH A, IL_ETHERNET A, IL_PRINTER A}. \<forall>d \<le> N_DEV_PER_IL A.
        getDevSem A (EXT_IL_INDEX A line * DEVPERINT A + d) \<noteq> 0) \<and>
     (\<forall>d \<le> N_DEV_PER_IL A. \<forall>i \<in> {0, 1}.
        getDevSem A (EXT_IL_INDEX A (IL_TERMINAL A) * DEVPERINT A + d * 2 + i) \<noteq> 0)"

lemma manageDevices_total:
  assumes "dev_sems_ok A" and "line \<in> {IL_DISK A, IL_FLASH A, IL_ETHERNET A, IL_PRINTER A}"
  shows "total (manageDevices A line)"
  unfolding total_def
proof (intro allI impI)
  fix s assume "wf_kernel s"
  then obtain v where v: "kinv s v" by (auto simp: wf_kernel_def)
  have "device_sem A line s \<noteq> 0"
    using assms getInterruptingDevice_bound [of A line s] unfolding dev_sems_ok_def device_sem_def by blast
  from ends_ok_wf [OF manageDevices_ok [OF v this]] show "\<exists>s'. manageDevices A line s = Some s' \<and> wf_kernel s'" .
qed

lemma manageTerminal_total:
  assumes "dev_sems_ok A"
  shows "total (manageTerminal A)"
  unfolding total_def
proof (intro allI impI)
  fix s assume "wf_kernel s"
  then obtain v where v: "kinv s v" by (auto simp: wf_kernel_def)
  have "term_sem A i s \<noteq> 0" if "i \<in> {0, 1}" for i
    using assms that getInterruptingDevice_bound [of A "IL_TERMINAL A" s]
    unfolding dev_sems_ok_def term_sem_def by blast
  then have "term_sem A 0 s \<noteq> 0" "term_sem A 1 s \<noteq> 0" by blast+
  from ends_ok_wf [OF manageTerminal_ok [OF v this]] show "\<exists>s'. manageTerminal A s = Some s' \<and> wf_kernel s'" .
qed

text \<open>The lines after the first, in the order the handler takes them.\<close>

definition other_lines :: "umps \<Rightarrow> kstate update" where
  "other_lines A = (\<lambda>s. do {
     s \<leftarrow> when_line A 2 (clock_interrupt A) s;
     s \<leftarrow> when_line A (DISKINT A) (manageDevices A (IL_DISK A)) s;
     s \<leftarrow> when_line A (FLASHINT A) (manageDevices A (IL_FLASH A)) s;
     s \<leftarrow> when_line A (NETWINT A) (manageDevices A (IL_ETHERNET A)) s;
     s \<leftarrow> when_line A (PRNTINT A) (manageDevices A (IL_PRINTER A)) s;
     when_line A (TERMINT A) (manageTerminal A) s
   })"

lemma interruptHandler_lines:
  "interruptHandler A s = do {
     s \<leftarrow> when_line A 1 (plt_interrupt A) s;
     s \<leftarrow> other_lines A s;
     if currentProc s = None then schedule s else Some (LDST (bios_state s), s)
   }"
  by (simp add: interruptHandler_def other_lines_def)

lemma safe_bind: "safe f \<Longrightarrow> safe g \<Longrightarrow> safe (\<lambda>s. Option.bind (f s) g)"
  unfolding safe_def [of "\<lambda>s. Option.bind (f s) g"] bind_Some_iff by (meson safeD)

lemma total_bind: "total f \<Longrightarrow> total g \<Longrightarrow> total (\<lambda>s. Option.bind (f s) g)"
  unfolding total_def by (metis Option.bind.bind_lunit)

lemma other_lines_safe: "safe (other_lines A)"
  unfolding other_lines_def
  by (intro safe_bind when_line_safe manageDevices_safe manageTerminal_safe total_safe [OF clock_interrupt_total])

lemma other_lines_total: "dev_sems_ok A \<Longrightarrow> total (other_lines A)"
  unfolding other_lines_def
  by (intro total_bind when_line_total manageTerminal_total clock_interrupt_total) (auto intro: manageDevices_total)

lemma interruptHandler_end:
  assumes "wf_kernel s"
  shows "\<exists>c. (if currentProc s = None then schedule s else Some (LDST (bios_state s), s)) = Some c \<and> settled c"
  using schedule_settled [OF assms] assms by (auto simp: currentProc_def settled_def gives_processor_def)

lemma interruptHandler_safe:
  assumes "wf_kernel s" and "interruptHandler A s = Some c"
  shows "settled c"
proof -
  from assms(2) obtain s1 s2 where 1: "when_line A 1 (plt_interrupt A) s = Some s1" "other_lines A s1 = Some s2"
    "(if currentProc s2 = None then schedule s2 else Some (LDST (bios_state s2), s2)) = Some c"
    by (auto simp: interruptHandler_lines bind_Some_iff)
  have "wf_kernel s1" by (rule safeD [OF when_line_safe [OF plt_interrupt_safe] assms(1) 1(1)])
  then have "wf_kernel s2" by (rule safeD [OF other_lines_safe _ 1(2)])
  from interruptHandler_end [OF this] 1(3) show ?thesis by simp
qed

lemma interruptHandler_total:
  assumes w: "wf_kernel s" and A: "dev_sems_ok A"
    and plt: "INT_LINE A 1 s \<Longrightarrow> timer_enabled A s \<Longrightarrow> current_active_process s \<noteq> None"
  shows "\<exists>c. interruptHandler A s = Some c \<and> settled c"
proof -
  from w obtain v where v: "kinv s v" by (auto simp: wf_kernel_def)
  have "\<exists>s1. when_line A 1 (plt_interrupt A) s = Some s1 \<and> wf_kernel s1"
  proof (cases "INT_LINE A 1 s \<and> timer_enabled A s")
    case True
    then obtain p where "current_active_process s = Some p" using plt by auto
    from ends_ok_wf [OF plt_interrupt_ok [OF v this]] True show ?thesis by (simp add: when_line_def)
  next
    case False
    then show ?thesis using w by (auto simp: when_line_def plt_interrupt_off)
  qed
  then obtain s1 where 1: "when_line A 1 (plt_interrupt A) s = Some s1" "wf_kernel s1" by blast
  from totalD [OF other_lines_total [OF A] 1(2)] obtain s2 where 2: "other_lines A s1 = Some s2" "wf_kernel s2" by blast
  show ?thesis using interruptHandler_end [OF 2(2)] by (simp add: interruptHandler_lines 1(1) 2(1))
qed

end
