(* ===== verification/Find_Abs.thy ===== *)
theory Find_Abs
  imports Kernel_Inv
begin

text \<open>
  \<open>findPcb\<close> on the view: the first process with the pid in the ready queue, else in the queues
  of the semaphores.  The running process is in neither.
\<close>

lemma find_append: "find P (xs @ ys) = (case find P xs of None \<Rightarrow> find P ys | Some x \<Rightarrow> Some x)"
  by (induction xs) auto

lemma first_return_search:
  assumes "\<And>i. i \<in> set xs \<Longrightarrow> F i = Some (find P (g i))"
  shows "first_return (\<lambda>i. do { q \<leftarrow> F i; Some (case q of None \<Rightarrow> Inr () | Some x \<Rightarrow> Inl x) }) xs
    = Some (case find P (concat (map g xs)) of None \<Rightarrow> Inr () | Some x \<Rightarrow> Inl x)"
  using assms by (induction xs) (auto simp: find_append split: option.split)

lemma find_cases:
  "case find P xs of None \<Rightarrow> \<forall>x \<in> set xs. \<not> P x | Some x \<Rightarrow> x \<in> set xs \<and> P x"
  by (induction xs) (auto split: option.splits)

lemma links_hash: "links s a \<Longrightarrow> hash_abs (semd_h s) (a_bkt a)"
  by (simp add: links_def)

text \<open>The processes blocked on some semaphore.\<close>

definition v_blocked :: "kview \<Rightarrow> nat set" where
  "v_blocked v = (\<Union>k. set (v_semq v k))"

lemma findPcb_view:
  assumes "kabs s v"
  shows "\<exists>r. findPcb pid (Some Ready_queue) s = Some r \<and> (case r of
      None \<Rightarrow> \<forall>p \<in> set (v_ready v) \<union> v_blocked v. p_pid (pcbs s p) \<noteq> pid
    | Some p \<Rightarrow> p \<in> set (v_ready v) \<union> v_blocked v \<and> p_pid (pcbs s p) = pid)"
proof -
  from assms obtain a where a: "links s a" "ash_inv s a" "tree_inv s a" "v = view s a" by (rule kabsE)
  let ?P = "\<lambda>p. p_pid (pcbs s p) = pid"
  let ?is = "concat (map (a_bkt a) [0..<HASHSZ])"
  have mem: "i \<in> set ?is \<longleftrightarrow> i \<in> hashed a" for i
  proof
    assume "i \<in> hashed a"
    from hashed_key [OF a(2) this] show "i \<in> set ?is"
      using bucket_of_less by (auto simp: HASHSZ_def)
  qed (auto simp: hashed_def intro: hnodesI)
  have ready: "searchPcbByPid pid (Some Ready_queue) s = Some (find ?P (v_ready v))"
    using searchPcbByPid_abs [OF a(1), of Ready_queue "a_ready a" pid] a(4) by (simp add: view_def)
  have "searchPcbByPid pid (Some (S_procq i)) s = Some (find ?P (queue_of a i))" if "i \<in> set ?is" for i
  proof -
    have "queue_of a i \<noteq> []" using that mem ash_invD(4) [OF a(2)] by blast
    then have "a_procq a i = Some (queue_of a i)" by (auto simp: queue_of_def split: option.splits)
    then show ?thesis using searchPcbByPid_abs [OF a(1), of "S_procq i" "queue_of a i" pid] by simp
  qed
  then have "first_return (\<lambda>it. do {
      q \<leftarrow> searchPcbByPid pid (Some (S_procq it)) s;
      Some (case q of None \<Rightarrow> Inr () | Some i \<Rightarrow> Inl i)
    }) ?is = Some (case find ?P (concat (map (queue_of a) ?is)) of None \<Rightarrow> Inr () | Some x \<Rightarrow> Inl x)"
    by (rule first_return_search)
  then have hash: "hash_for_each HASHSZ (\<lambda>it. do {
      q \<leftarrow> searchPcbByPid pid (Some (S_procq it)) s;
      Some (case q of None \<Rightarrow> Inr () | Some i \<Rightarrow> Inl i)
    }) (semd_h s) = Some (case find ?P (concat (map (queue_of a) ?is)) of None \<Rightarrow> Inr () | Some x \<Rightarrow> Inl x)"
    unfolding hash_for_each_abs [OF links_hash [OF a(1)]] .
  have res: "findPcb pid (Some Ready_queue) s = Some (find ?P (v_ready v @ concat (map (queue_of a) ?is)))"
    unfolding findPcb_def ready find_append using hash
    by (auto split: option.split)
  have "set (concat (map (queue_of a) ?is)) = v_blocked v"
  proof -
    have "set ?is = hashed a" using mem by blast
    then have "set (concat (map (queue_of a) ?is)) = (\<Union>i \<in> hashed a. set (queue_of a i))"
      unfolding set_concat [of "map (queue_of a) ?is"] set_map [of "queue_of a" ?is] by simp
    also have "\<dots> = v_blocked v"
      using in_semq_desc [OF a(2)] by (auto simp: v_blocked_def a(4) view_def)
    finally show ?thesis .
  qed
  then have "set (v_ready v @ concat (map (queue_of a) ?is)) = set (v_ready v) \<union> v_blocked v" by simp
  then show ?thesis unfolding res
    using find_cases [where P = ?P and xs = "v_ready v @ concat (map (queue_of a) ?is)"]
    by (simp split: option.splits del: set_append set_concat)
qed

text \<open>No list leads to the running process, so it is not found by its own pid.\<close>

lemma findPcb_current:
  assumes inv: "kinv s v" and cur: "current_active_process s = Some c"
    and uniq: "\<And>p. p \<in> set (v_ready v) \<union> v_blocked v \<Longrightarrow> p_pid (pcbs s p) \<noteq> p_pid (pcbs s c)"
  shows "findPcb (p_pid (pcbs s c)) (Some Ready_queue) s = Some None"
proof -
  from findPcb_view [OF kinvD(1) [OF inv], of "p_pid (pcbs s c)"] obtain r where
    r: "findPcb (p_pid (pcbs s c)) (Some Ready_queue) s = Some r"
    "case r of None \<Rightarrow> \<forall>p \<in> set (v_ready v) \<union> v_blocked v. p_pid (pcbs s p) \<noteq> p_pid (pcbs s c)
      | Some p \<Rightarrow> p \<in> set (v_ready v) \<union> v_blocked v \<and> p_pid (pcbs s p) = p_pid (pcbs s c)" by blast
  with uniq show ?thesis by (cases r) auto
qed

end
