(* ===== verification/Kernel_Safe.thy ===== *)
theory Kernel_Safe
  imports Syscall_Abs Interrupt_Abs Find_Abs
begin

text \<open>
  Every exception the kernel handles leaves a state with the invariant, whatever the arguments
  of a system call are.
\<close>

section \<open>A state whose running process may be in a queue\<close>

definition half_wf :: "kstate \<Rightarrow> bool" where
  "half_wf s \<longleftrightarrow> (\<exists>v. kabs s v \<and> inv_core s v)"

lemma wf_half: "wf_kernel s \<Longrightarrow> half_wf s"
  by (auto simp: wf_kernel_def half_wf_def kinv_def)

lemma half_wf_relinkI: "kabs (relink h hh ds t) v \<Longrightarrow> inv_core t v \<Longrightarrow> half_wf (relink h hh ds t)"
  by (auto simp: half_wf_def)

lemma schedule_half: "half_wf s \<Longrightarrow> \<exists>c. schedule s = Some c \<and> settled c"
proof -
  assume "half_wf s"
  then obtain v where "kabs s v" "inv_core s v" by (auto simp: half_wf_def)
  from resumes_settled [OF schedule_resumes [OF this]] show ?thesis .
qed

lemma half_wf_save [simp]: "half_wf (save_state p s) = half_wf s"
  by (simp add: half_wf_def save_state_def kabs_set_pcb inv_core_def) (simp add: set_pcb_def)

lemma save_and_schedule_settled:
  "half_wf s \<Longrightarrow> save_and_schedule s = Some c \<Longrightarrow> settled c"
proof -
  assume h: "half_wf s" and r: "save_and_schedule s = Some c"
  then obtain p where p: "current_active_process s = Some p"
    by (cases "current_active_process s") (auto simp: save_and_schedule_def currentProc_def)
  have "save_and_schedule s = schedule (save_state p s)"
    using p by (simp add: save_and_schedule_def currentProc_def save_state_def set_pcb_def)
  with schedule_half [of "save_state p s"] h r show ?thesis by auto
qed

section \<open>Semaphores\<close>

lemma insertBlocked_null: "insertBlocked k None s = Some (1, s)"
  by (simp add: insertBlocked_def)

lemma insertBlocked_current_half:
  assumes w: "wf_kernel s" and r: "insertBlocked k (currentProc s) s = Some (n, s')" and k: "k \<noteq> 0"
  shows "half_wf s'"
proof (cases "current_active_process s")
  case None
  then show ?thesis using r wf_half [OF w] by (simp add: currentProc_def insertBlocked_null)
next
  case (Some p)
  from w obtain v where v: "kinv s v" by (auto simp: wf_kernel_def)
  have p: "p < MAXPROC" using kinvD(5) [OF v Some] by blast
  from block_current [OF v Some k] obtain h hh ds where
    1: "insertBlocked k (Some p) s = Some (0, relink h hh ds (set_semAdd p k s))"
    "kabs (relink h hh ds (set_semAdd p k s)) (v_block k p v)" by (rule runs_toE)
  from half_wf_relinkI [OF 1(2)] v_block_inv [OF kinvD(2) [OF v] p] 1(1) r Some
  show ?thesis by (auto simp: currentProc_def)
qed

lemma half_wf_soft [simp]: "half_wf (incrementSoftBlockCount s) = half_wf s"
  by (simp add: half_wf_def incrementSoftBlockCount_def inv_core_def)

lemma half_wf_store [simp]: "half_wf (store_word a x s) = half_wf s"
  by (simp add: half_wf_def store_word_def inv_core_def)

lemma wf_store [simp]: "wf_kernel (store_word a x s) = wf_kernel s"
  by (simp add: wf_kernel_def)

lemma P_sem_half: "wf_kernel s \<Longrightarrow> P_sem k s = Some s' \<Longrightarrow> half_wf s'"
proof (cases "k = 0")
  case False
  assume w: "wf_kernel s" and r: "P_sem k s = Some s'"
  show ?thesis
  proof (cases "mem s k = 0")
    case True
    with r False obtain n t where "insertBlocked k (currentProc s) s = Some (n, t)" "s' = incrementSoftBlockCount t"
      by (auto simp: P_sem_def bind_Some_iff)
    with insertBlocked_current_half [OF w this(1) False] show ?thesis by simp
  next
    case c: False
    with P_sem_pass [OF False c] r wf_half [OF w] show ?thesis by auto
  qed
qed (simp add: P_sem_def)

text \<open>The operation is over and the same process goes on.\<close>

definition goes_on :: "kstate \<Rightarrow> kstate \<Rightarrow> bool" where
  "goes_on s s' \<longleftrightarrow> wf_kernel s' \<and> current_active_process s' = current_active_process s"

lemma goes_on_refl [simp]: "goes_on s s = wf_kernel s"
  by (simp add: goes_on_def)

lemma goes_on_store [simp]: "goes_on s (store_word a x t) = goes_on s t"
  by (simp add: goes_on_def) (simp add: store_word_def)

lemma wake_then_wf:
  assumes w: "wf_kernel s" and q: "v_semq v k = q # qs" and v: "kinv s v"
    and r: "(do { (proc, s) \<leftarrow> removeBlocked k s; s \<leftarrow> enqueueReady proc s; Some (n, s) }) = Some (m, s')"
  shows "m = n \<and> goes_on s s'"
proof -
  let ?t = "set_semAdd q 0 s"
  have c: "clear_current q ?t = ?t"
    using not_current_woken [OF v, of q k] q by (simp add: clear_current_def set_semAdd_def)
  from wake_then [OF kinvD(1) [OF v] q, of n] c obtain h hh ds where
    "(do { (proc, s) \<leftarrow> removeBlocked k s; s \<leftarrow> enqueueReady proc s; Some (n, s) }) = Some (n, relink h hh ds ?t)"
    "kabs (relink h hh ds ?t) (v_wake k v)" by (auto elim!: runs_toE)
  moreover have "inv_core ?t (v_wake k v)" "cur_ok ?t (v_wake k v)" by (rule wake_inv [OF v q])+
  ultimately have "m = n" "kinv s' (v_wake k v)" "current_active_process s' = current_active_process s"
    using r by (auto simp: kinv_def set_semAdd_def)
  then show ?thesis by (auto simp: goes_on_def wf_kernel_def)
qed

text \<open>
  \<open>passeren\<close> and \<open>verhogen\<close>: with 1 the caller is blocked and still marked as running, with 0
  it goes on.
\<close>

lemma passeren_wf:
  assumes w: "wf_kernel s" and r: "passeren k s = Some (n, s')"
  shows "if n = 0 then goes_on s s' else half_wf s'"
proof -
  have k: "k \<noteq> 0" using r by (cases "k = 0") (auto simp: passeren_def)
  from w obtain v where v: "kinv s v" by (auto simp: wf_kernel_def)
  show ?thesis
  proof (cases "mem s k = 0")
    case True
    with r k obtain m where "insertBlocked k (currentProc s) s = Some (m, s')" "n = 1"
      by (auto simp: passeren_def bind_Some_iff)
    with insertBlocked_current_half [OF w this(1) k] show ?thesis by simp
  next
    case False
    show ?thesis
    proof (cases "v_semq v k")
      case Nil
      with passeren_pass [OF kinvD(1) [OF v] k False] r w show ?thesis by auto
    next
      case (Cons q qs)
      with r k False headBlocked_view [OF kinvD(1) [OF v], of k]
      have "(do { (p, s) \<leftarrow> removeBlocked k s; s \<leftarrow> enqueueReady p s; Some (0, s) }) = Some (n, s')"
        by (simp add: passeren_def)
      from wake_then_wf [OF w Cons v this] show ?thesis by simp
    qed
  qed
qed

lemma verhogen_wf:
  assumes w: "wf_kernel s" and r: "verhogen k s = Some (n, s')"
  shows "if n = 0 then goes_on s s' else half_wf s'"
proof -
  have k: "k \<noteq> 0" using r by (cases "k = 0") (auto simp: verhogen_def)
  from w obtain v where v: "kinv s v" by (auto simp: wf_kernel_def)
  show ?thesis
  proof (cases "mem s k = 1")
    case True
    with r k obtain m where "insertBlocked k (currentProc s) s = Some (m, s')" "n = 1"
      by (auto simp: verhogen_def bind_Some_iff)
    with insertBlocked_current_half [OF w this(1) k] show ?thesis by simp
  next
    case False
    show ?thesis
    proof (cases "v_semq v k")
      case Nil
      with verhogen_pass [OF kinvD(1) [OF v] k False] r w show ?thesis by auto
    next
      case (Cons q qs)
      with r k False headBlocked_view [OF kinvD(1) [OF v], of k]
      have "(do { (p, s) \<leftarrow> removeBlocked k s; s \<leftarrow> enqueueReady p s; Some (0, s) }) = Some (n, s')"
        by (simp add: verhogen_def)
      from wake_then_wf [OF w Cons v this] show ?thesis by simp
    qed
  qed
qed

lemma wf_set_pcb:
  assumes "\<And>b. p_semAdd (f b) = p_semAdd b" and "\<And>b. p_parent (f b) = p_parent b"
  shows "wf_kernel (set_pcb p f s) = wf_kernel s"
  using assms by (simp add: wf_kernel_def kinv_set_pcb)

lemma doIO_half:
  assumes w: "wf_kernel s" and r: "doIO A cmdAddr cmdValues s = Some s'"
  shows "half_wf s'"
proof -
  obtain p where p: "current_active_process s = Some p"
    using r by (cases "current_active_process s") (auto simp: doIO_def currentProc_def)
  let ?s = "set_pcb p (\<lambda>b. b\<lparr>p_savedDeviceStatus := cmdValues\<rparr>) s"
  have ws: "wf_kernel ?s" using w by (simp add: wf_set_pcb)
  have st: "store_pcb (Some q) f u = Some (set_pcb q f u)" for q f u by (simp add: set_pcb_def)
  have cur: "current_active_process (store_word a x ?s) = Some p" for a x
    using p by (simp add: store_word_def set_pcb_def)
  have "(\<exists>a x. s' = set_pcb p (\<lambda>b. b\<lparr>p_s := set_v0 A (-1) (p_s b)\<rparr>) (store_word a x ?s))
    \<or> (\<exists>t k. wf_kernel t \<and> P_sem k t = Some s')"
    using r ws unfolding doIO_def currentProc_def p st Let_def cur
    by (auto simp: bind_Some_iff st cur simp del: store_pcb_Some split: if_splits)
  then show ?thesis
  proof (elim disjE exE conjE)
    fix a x assume "s' = set_pcb p (\<lambda>b. b\<lparr>p_s := set_v0 A (-1) (p_s b)\<rparr>) (store_word a x ?s)"
    then have "wf_kernel s'" using ws by (simp add: wf_set_pcb)
    then show ?thesis by (rule wf_half)
  qed (rule P_sem_half)
qed

section \<open>Termination\<close>

lemma terminateProcess_resumes:
  assumes "kabs s v" and "inv_core s v" and "p < MAXPROC" and "p \<notin> set (v_free v)"
  shows "\<exists>fs. set fs = set (v_free v) \<union> desc_of (kid_rel v) p \<and>
    resumes (terminateProcess A (Some p) s) (reaped A (desc_of (kid_rel v) p) s)
      (v_reaped (desc_of (kid_rel v) p) fs (v_orphan p v))"
proof -
  from terminateProcess_view [OF assms, of A] obtain h hh ds fs where
    t: "terminateProcess A (Some p) s = schedule (relink h hh ds (reaped A (desc_of (kid_rel v) p) s))"
    "kabs (relink h hh ds (reaped A (desc_of (kid_rel v) p) s)) (v_reaped (desc_of (kid_rel v) p) fs (v_orphan p v))"
    "inv_core (relink h hh ds (reaped A (desc_of (kid_rel v) p) s)) (v_reaped (desc_of (kid_rel v) p) fs (v_orphan p v))"
    "set fs = set (v_free v) \<union> desc_of (kid_rel v) p" unfolding Let_def by blast
  from schedule_resumes [OF t(2,3)] t(1,4) show ?thesis unfolding resumes_relink by auto
qed

lemma terminateProcess_null: "terminateProcess A None s = None"
  by (simp add: terminateProcess_def outChild_def terminateProcess_internal.simps removeChild_def emptyChild_def reap_def)

lemma terminateProcess_settled:
  assumes h: "half_wf s" and r: "terminateProcess A p s = Some (out, s')"
    and p: "\<And>v i. kabs s v \<Longrightarrow> inv_core s v \<Longrightarrow> p = Some i \<Longrightarrow> i < MAXPROC \<and> i \<notin> set (v_free v)"
  shows "settled (out, s')"
proof -
  from r obtain i where i: "p = Some i" by (cases p) (auto simp: terminateProcess_null)
  from h obtain v where v: "kabs s v" "inv_core s v" by (auto simp: half_wf_def)
  have "i < MAXPROC" "i \<notin> set (v_free v)" using p [OF v i] by blast+
  from terminateProcess_resumes [OF v this, of A] obtain t v' where "resumes (terminateProcess A p s) t v'"
    by (auto simp: i)
  from resumes_settled [OF this] r show ?thesis by auto
qed

text \<open>Whether a PCB is in a queue shows in its link, so any two views of a state agree on it.\<close>

lemma current_not_free:
  assumes "wf_kernel s" and "kabs s v" and "current_active_process s = Some c"
  shows "c < MAXPROC \<and> c \<notin> set (v_free v)"
proof -
  from assms(1) obtain v' where v': "kinv s v'" by (auto simp: wf_kernel_def)
  have q: "c < MAXPROC" "\<not> v_queued s c v'" using kinvD(5) [OF v' assms(3)] by auto
  have "idle s c" using q(2) idle_view [OF kinvD(1) [OF v'], of c] by blast
  then have "\<not> v_queued s c v" using idle_view [OF assms(2), of c] by blast
  then show ?thesis using q(1) by (simp add: v_queued_def)
qed

lemma terminate_current_settled:
  assumes "wf_kernel s" and "terminateProcess A (currentProc s) s = Some (out, s')"
  shows "settled (out, s')"
  by (rule terminateProcess_settled [OF wf_half [OF assms(1)] assms(2)])
    (use current_not_free [OF assms(1)] in \<open>auto simp: currentProc_def\<close>)

lemma listed_live:
  assumes v: "kabs s v" "inv_core s v" and i: "i \<in> set (v_ready v) \<union> v_blocked v"
  shows "i < MAXPROC \<and> i \<notin> set (v_free v)"
  using i
proof
  assume "i \<in> set (v_ready v)"
  then show ?thesis using kabs_facts(7) [OF v(1)] v(2) by (auto simp: inv_core_def in_table_def)
next
  assume "i \<in> v_blocked v"
  then obtain k where "i \<in> set (v_semq v k)" by (auto simp: v_blocked_def)
  then show ?thesis using blocked_not_elsewhere(3) [OF v(1), of i k] v(2)
    by (auto simp: inv_core_def in_table_def)
qed

lemma terminate_found_settled:
  assumes w: "wf_kernel s" and f: "findPcb pid getReadyQueue s = Some p"
    and r: "terminateProcess A p s = Some (out, s')"
  shows "settled (out, s')"
proof (rule terminateProcess_settled [OF wf_half [OF w] r])
  fix v i assume v: "kabs s v" "inv_core s v" and i: "p = Some i"
  have "i \<in> set (v_ready v) \<union> v_blocked v"
    using findPcb_view [OF v(1), of pid] f i by (auto simp: getReadyQueue_def)
  then show "i < MAXPROC \<and> i \<notin> set (v_free v)" by (rule listed_live [OF v])
qed

section \<open>Creation\<close>

lemma set_namespace_eq:
  "set_namespace A (Some p) ns s = Some s' \<Longrightarrow>
    \<exists>t. s' = set_pcb p (\<lambda>b. b\<lparr>namespaces := (namespaces b)(t := ns)\<rparr>) s"
  by (auto simp: set_namespace_def set_pcb_def bind_Some_iff split: if_splits)

lemma addNamespace_leaf_wf:
  assumes v: "kinv s v" and p: "p < MAXPROC" "p \<notin> set (v_free v)" "v_kids v p = []"
    and r: "addNamespace A (Some p) ns s = Some (ok, s')"
  shows "goes_on s s'"
proof (cases ns)
  case None
  with r v show ?thesis by (auto simp: addNamespace_null goes_on_def wf_kernel_def)
next
  case (Some n)
  with r obtain s1 s2 where
    1: "set_namespace A (Some p) (Some n) s = Some s1" "setAllChildNamespace A (Some (P_child p)) (Some n) s1 = Some s2"
    and 2: "(do {
      s \<leftarrow> on_lists (list_safe_del (Some (N_link n))) s2;
      on_lists (list_add_tail (Some (N_link n)) (Some PID_nsList_h)) s
    }) = Some s'"
    by (auto simp: addNamespace_def bind_Some_iff)
  from set_namespace_eq [OF 1(1)] have k1: "kinv s1 v" using v by (auto simp: kinv_set_pcb)
  have "s2 = s1" using setAllChildNamespace_leaf [OF kinvD(1) [OF k1] p, of A "Some n"] 1(2) by simp
  with use_namespace_view [OF kinvD(1) [OF k1], of n] 2 obtain h hh ds where
    "s' = relink h hh ds s1" "kabs (relink h hh ds s1) (v_used n v)" by (auto elim!: ends_inE)
  moreover have "inv_core s1 (v_used n v)" "cur_ok s1 (v_used n v)"
    using k1 by (auto simp: kinv_def inv_core_v_used) (auto simp: cur_ok_def v_queued_def v_used_def)
  ultimately have "kinv s' (v_used n v)" "current_active_process s' = current_active_process s1"
    by (simp_all add: kinv_def)
  moreover have "current_active_process s1 = current_active_process s"
    using set_namespace_eq [OF 1(1)] by (auto simp: set_pcb_def)
  ultimately show ?thesis by (auto simp: goes_on_def wf_kernel_def)
qed

lemma addNamespace_ok_iff: "addNamespace A (Some p) ns s = Some (ok, s') \<Longrightarrow> ok \<longleftrightarrow> ns \<noteq> None"
  by (cases ns) (auto simp: addNamespace_def bind_Some_iff)

lemma give_namespace_wf:
  assumes v: "kinv s v" and p: "p < MAXPROC" "p \<notin> set (v_free v)" "v_kids v p = []"
    and r: "give_namespace A (Some p) nsd s = Some (pid, s')"
  shows "goes_on s s'"
proof (cases nsd)
  case None
  with r obtain ns ok where "addNamespace A (Some p) ns s = Some (ok, s')"
    by (auto simp: give_namespace_def addNamespace_null NS_TYPE_MAX_def bind_Some_iff)
  from addNamespace_leaf_wf [OF v p this] show ?thesis .
next
  case (Some n)
  from r obtain ok s1 where 1: "addNamespace A (Some p) nsd s = Some (ok, s1)"
    "(if \<not> ok then foldM (\<lambda>i s. do {
                 ns \<leftarrow> getNamespace A (currentProc s) (of_nat i) s;
                 (_, s) \<leftarrow> addNamespace A (Some p) ns s;
                 Some s
               }) [0..<NS_TYPE_MAX] s1 else Some s1) = Some s'"
    by (auto simp: give_namespace_def bind_Some_iff)
  from addNamespace_ok_iff [OF 1(1)] Some have ok by simp
  with 1 addNamespace_leaf_wf [OF v p 1(1)] show ?thesis by simp
qed

lemma createProcess_wf:
  assumes w: "wf_kernel s" and r: "createProcess A st supp nsd s = Some (pid, s')"
    and cur: "current_active_process s = Some c"
  shows "goes_on s s'"
proof -
  from w obtain v where v: "kinv s v" by (auto simp: wf_kernel_def)
  show ?thesis
  proof (cases "v_free v")
    case Nil
    with createProcess_full [OF kinvD(1) [OF v]] r w show ?thesis by auto
  next
    case (Cons p fs)
    from createProcess_alloc [OF v cur Cons, of A st supp nsd] obtain h hh ds where
      1: "createProcess A st supp nsd s = give_namespace A (Some p) nsd (relink h hh ds (new_process A p c st supp s))"
      "kabs (relink h hh ds (new_process A p c st supp s)) (v_new p fs c v)" unfolding Let_def by blast
    have k: "kinv (relink h hh ds (new_process A p c st supp s)) (v_new p fs c v)"
      using 1(2) create_inv [OF v cur Cons, of A st supp] by (simp add: kinv_def)
    from give_namespace_wf [OF k v_new_leaf(1-3) [OF v cur Cons], of A nsd pid s'] r 1(1)
    show ?thesis by (simp add: goes_on_def new_process_def set_pcb_def)
  qed
qed

section \<open>Queries\<close>

lemma same_mem [intro]: "\<exists>m. s = s\<lparr>mem := m\<rparr>"
  by (rule exI [of _ "mem s"]) simp

lemma getChildren_from_frame:
  assumes "getChildren_from A children sz nsd head pos n s = Some y"
  shows "\<exists>m. snd y = s\<lparr>mem := m\<rparr>"
proof (rule getChildren_from.raw_induct
    [where P = "\<lambda>A children sz nsd head pos n s y. \<exists>m. snd y = s\<lparr>mem := m\<rparr>", OF _ assms])
  fix rec :: "umps \<Rightarrow> u32 \<Rightarrow> u32 \<Rightarrow> nat ptr \<Rightarrow> lnode ptr \<Rightarrow> lnode ptr \<Rightarrow> u32 \<Rightarrow> (kstate, u32) action"
    and A children sz nsd head pos n s y
  assume IH: "\<And>A children sz nsd head pos n s y. rec A children sz nsd head pos n s = Some y \<Longrightarrow>
      \<exists>m. snd y = s\<lparr>mem := m\<rparr>"
    and r: "(if pos = head then Some (n, s)
      else do {
        l \<leftarrow> pos;
        child \<leftarrow> pcb_of_p_sib l;
        ns \<leftarrow> getNamespace A (Some child) NS_PID s;
        let s' = (if nsd = ns \<and> sint n < sint sz
                  then store_word (children + 4 * n) (p_pid (pcbs s child)) s else s);
        pos' \<leftarrow> get_next pos (lists s);
        rec A children sz nsd head pos' (if nsd = ns then n + 1 else n) s'
      }) = Some y"
  show "\<exists>m. snd y = s\<lparr>mem := m\<rparr>"
  proof (cases "pos = head")
    case True
    with r show ?thesis by auto
  next
    case False
    with r obtain child ns pos' n' s' where
      1: "rec A children sz nsd head pos' n' s' = Some y"
      and s': "s' = s \<or> s' = store_word (children + 4 * n) (p_pid (pcbs s child)) s"
      by (auto simp: bind_Some_iff Let_def split: if_splits)
    from IH [OF 1] s' show ?thesis by (auto simp: store_word_def)
  qed
qed

lemma wf_mem [simp]: "wf_kernel (s\<lparr>mem := m\<rparr>) = wf_kernel s"
  by (simp add: wf_kernel_def)

lemma getChildren_wf:
  assumes "wf_kernel s" and "getChildren A children sz s = Some (r, s')"
  shows "goes_on s s'"
proof -
  have "\<exists>m. s' = s\<lparr>mem := m\<rparr>"
  proof -
    from assms(2) obtain nsd first where
      "(r, s') = (0, s) \<or> getChildren_from A children sz nsd (p_child (currentProc s)) first 0 s = Some (r, s')"
      by (auto simp: getChildren_def bind_Some_iff split: if_splits)
    then show ?thesis using getChildren_from_frame [of A children sz nsd _ first 0 s "(r, s')"] by auto
  qed
  with assms(1) show ?thesis by (auto simp: goes_on_def)
qed

section \<open>The handlers\<close>

definition runs_process :: "kstate \<Rightarrow> bool" where
  "runs_process s \<longleftrightarrow> wf_kernel s \<and> current_active_process s \<noteq> None"

lemma return_settled:
  "runs_process s \<Longrightarrow> goes_on s s' \<Longrightarrow> return_to_caller s' = Some c \<Longrightarrow> settled c"
  by (auto simp: return_to_caller_def settled_def gives_processor_def runs_process_def goes_on_def)

lemma goes_on_v0 [simp]: "goes_on s (RETURN_SYS_VALUE A x t) = goes_on s t"
  by (simp add: goes_on_def RETURN_SYS_VALUE_def wf_kernel_def)

lemma passUpOrDie_settled:
  assumes "runs_process s" and "passUpOrDie A n s = Some c" and "n = PGFAULTEXCEPT \<or> n = GENERALEXCEPT"
  shows "settled c"
proof -
  obtain p where p: "current_active_process s = Some p" using assms(1) by (auto simp: runs_process_def)
  show ?thesis
  proof (cases "p_supportStruct (pcbs s p) = 0")
    case True
    then have "terminateProcess A (currentProc s) s = Some (fst c, snd c)"
      using assms(2,3) p by (simp add: passUpOrDie_def currentProc_def)
    from terminate_current_settled [OF _ this] assms(1) show ?thesis by (simp add: runs_process_def)
  next
    case False
    then have "\<exists>u. snd c = s\<lparr>supports := u\<rparr> \<and> gives_processor (fst c)"
      using assms(2,3) p by (auto simp: passUpOrDie_def currentProc_def gives_processor_def Let_def)
    with assms(1) show ?thesis by (auto simp: settled_def runs_process_def wf_kernel_def)
  qed
qed

lemma runs_process_cong [simp]:
  "runs_process (s\<lparr>bios_state := b\<rparr>) = runs_process s"
  by (simp add: runs_process_def wf_kernel_def)

lemma syscall_switch_settled:
  assumes run: "runs_process s" and r: "syscall_switch A s = Some c"
  shows "settled c"
proof -
  have w: "wf_kernel s" and cur: "\<exists>p. current_active_process s = Some p" using run by (auto simp: runs_process_def)
  have g: "goes_on s s" using w by simp
  note ret = return_settled [OF run]
  have val: "settled c" if "goes_on s t" "return_to_caller (RETURN_SYS_VALUE A x t) = Some c" for t x
    using ret [OF _ that(2)] that(1) by simp
  consider "sys_code A s = CREATEPROCESS" | "sys_code A s = TERMPROCESS" | "sys_code A s = PASSEREN"
    | "sys_code A s = VERHOGEN" | "sys_code A s = DOIO" | "sys_code A s = GETTIME" | "sys_code A s = CLOCKWAIT"
    | "sys_code A s = GETSUPPORTPTR" | "sys_code A s = GETPROCESSID" | "sys_code A s = GETCHILDREN"
    | "sys_code A s \<notin> {CREATEPROCESS, TERMPROCESS, PASSEREN, VERHOGEN, DOIO, GETTIME, CLOCKWAIT, GETSUPPORTPTR,
        GETPROCESSID, GETCHILDREN}" by blast
  then show ?thesis
  proof cases
    case 1
    with r obtain nsd pid s1 where c:
      "createProcess A (load_state A (mem s) (FIRST_PARAM A s)) (SECOND_PARAM A s) nsd s = Some (pid, s1)"
      "return_to_caller (RETURN_SYS_VALUE A pid s1) = Some c"
      by (auto simp: syscall_switch_def sys_code_def bind_Some_iff)
    from cur obtain p where "current_active_process s = Some p" by blast
    from createProcess_wf [OF w c(1) this] have "goes_on s (RETURN_SYS_VALUE A pid s1)" by simp
    from ret [OF this c(2)] show ?thesis .
  next
    case 2
    with r obtain p where p: "(if FIRST_PARAM A s = 0 then Some (currentProc s)
        else findPcb (FIRST_PARAM A s) getReadyQueue s) = Some p"
      and t: "terminateProcess A p s = Some (fst c, snd c)"
      by (auto simp: syscall_switch_def sys_code_def syscall_codes bind_Some_iff Let_def)
    show ?thesis
    proof (cases "FIRST_PARAM A s = 0")
      case True
      with p t terminate_current_settled [OF w, of A "fst c" "snd c"] show ?thesis by simp
    next
      case False
      with p t terminate_found_settled [OF w, of "FIRST_PARAM A s" p A "fst c" "snd c"] show ?thesis by simp
    qed
  next
    case 3
    with r obtain n s1 where n: "passeren (FIRST_PARAM A s) s = Some (n, s1)"
      "(if n \<noteq> 0 then save_and_schedule s1 else return_to_caller s1) = Some c"
      by (auto simp: syscall_switch_def sys_code_def syscall_codes bind_Some_iff)
    with passeren_wf [OF w n(1)] show ?thesis
      by (auto split: if_splits intro: save_and_schedule_settled ret)
  next
    case 4
    with r obtain n s1 where n: "verhogen (FIRST_PARAM A s) s = Some (n, s1)"
      "(if n \<noteq> 0 then save_and_schedule s1 else return_to_caller s1) = Some c"
      by (auto simp: syscall_switch_def sys_code_def syscall_codes bind_Some_iff)
    with verhogen_wf [OF w n(1)] show ?thesis
      by (auto split: if_splits intro: save_and_schedule_settled ret)
  next
    case 5
    with r obtain s1 where "doIO A (FIRST_PARAM A s) (SECOND_PARAM A s) s = Some s1" "save_and_schedule s1 = Some c"
      by (auto simp: syscall_switch_def sys_code_def syscall_codes bind_Some_iff)
    then show ?thesis using doIO_half [OF w] save_and_schedule_settled by blast
  next
    case 6
    with r obtain x where "return_to_caller (RETURN_SYS_VALUE A x s) = Some c"
      by (auto simp: syscall_switch_def sys_code_def syscall_codes bind_Some_iff)
    then show ?thesis by (rule val [OF g])
  next
    case 7
    with r obtain s1 where "P_sem (getPseudoClockSem A) s = Some s1" "save_and_schedule s1 = Some c"
      by (auto simp: syscall_switch_def sys_code_def syscall_codes bind_Some_iff)
    then show ?thesis using P_sem_half [OF w] save_and_schedule_settled by blast
  next
    case 8
    with r obtain x where "return_to_caller (RETURN_SYS_VALUE A x s) = Some c"
      by (auto simp: syscall_switch_def sys_code_def syscall_codes bind_Some_iff)
    then show ?thesis by (rule val [OF g])
  next
    case 9
    with r obtain x where "return_to_caller (RETURN_SYS_VALUE A x s) = Some c"
      by (auto simp: syscall_switch_def sys_code_def syscall_codes bind_Some_iff)
    then show ?thesis by (rule val [OF g])
  next
    case 10
    with r obtain x s1 where "getChildren A (FIRST_PARAM A s) (SECOND_PARAM A s) s = Some (x, s1)"
      "return_to_caller (RETURN_SYS_VALUE A x s1) = Some c"
      by (auto simp: syscall_switch_def sys_code_def syscall_codes bind_Some_iff)
    then show ?thesis using val getChildren_wf [OF w] by blast
  next
    case 11
    with r have "passUpOrDie A GENERALEXCEPT s = Some c"
      by (simp add: syscall_switch_def sys_code_def)
    then show ?thesis by (rule passUpOrDie_settled [OF run]) simp
  qed
qed

lemma syscallHandler_settled:
  assumes run: "runs_process s" and r: "syscallHandler A s = Some c"
  shows "settled c"
proof (cases "kernel_mode A s")
  case True
  have "runs_process (advanced s)" using run by (simp add: advanced_def)
  with r show ?thesis by (simp add: syscallHandler_kernel [OF True] syscall_switch_settled)
next
  case False
  then have "passUpOrDie A GENERALEXCEPT ((advanced s)\<lparr>bios_state :=
      (bios_state (advanced s))\<lparr>cause := push_bit (CAUSE_EXCCODE_BIT A) (EXC_RI A)\<rparr>\<rparr>) = Some c"
    using r by (simp add: syscallHandler_def kernel_mode_def advanced_def Let_def)
  from passUpOrDie_settled [OF _ this] run show ?thesis by (simp add: advanced_def)
qed

lemma update_time_goes_on: "wf_kernel s \<Longrightarrow> update_time s = Some s' \<Longrightarrow> goes_on s s'"
proof -
  assume w: "wf_kernel s" and r: "update_time s = Some s'"
  show ?thesis
  proof (cases "current_active_process s")
    case None
    with w r show ?thesis by (simp add: update_time_def currentProc_def)
  next
    case (Some p)
    with r have "s' = set_pcb p (\<lambda>b. b\<lparr>p_time := p_time b + (tod s - getStartTime s)\<rparr>) s"
      by (simp add: update_time_def currentProc_def set_pcb_def)
    with w show ?thesis by (simp add: goes_on_def wf_set_pcb) (simp add: set_pcb_def)
  qed
qed

text \<open>
  The exception handler keeps the invariant.  An exception other than an interrupt comes from
  a running process.
\<close>

definition exc_code :: "umps \<Rightarrow> kstate \<Rightarrow> u32" where
  "exc_code A s = CAUSE_GET_EXCCODE A (cause (bios_state s))"

lemma exceptionHandler_settled:
  assumes w: "wf_kernel s" and int: "exc_code A s = EXC_INT A \<or> current_active_process s \<noteq> None"
    and r: "exceptionHandler A s = Some c"
  shows "settled c"
proof -
  from r obtain s1 where 1: "update_time s = Some s1"
    "(if exc_code A s = EXC_INT A then interruptHandler A s1
      else if exc_code A s = EXC_MOD A \<or> exc_code A s = EXC_TLBL A \<or> exc_code A s = EXC_TLBS A
      then passUpOrDie A PGFAULTEXCEPT s1
      else if exc_code A s = EXC_SYS A then syscallHandler A s1
      else passUpOrDie A GENERALEXCEPT s1) = Some c"
    unfolding exceptionHandler_def exc_code_def Let_def bind_Some_iff by blast
  from update_time_goes_on [OF w 1(1)] have g: "wf_kernel s1" "current_active_process s1 = current_active_process s"
    by (simp_all add: goes_on_def)
  show ?thesis
  proof (cases "exc_code A s = EXC_INT A")
    case True
    with 1(2) interruptHandler_safe [OF g(1)] show ?thesis by simp
  next
    case False
    with int g have "runs_process s1" by (simp add: runs_process_def)
    with 1(2) False show ?thesis
      by (auto split: if_splits intro: passUpOrDie_settled syscallHandler_settled)
  qed
qed

end
