(* ===== verification/Io_Abs.thy ===== *)
theory Io_Abs
  imports Syscall_Abs Interrupt_Abs
begin

text \<open>
  SYS5 on the view: the device the command address designates, the command it gets, and the
  caller waiting for the completion interrupt.  A device that is not installed, or whose
  semaphore holds a signal nobody waited for, does not block the caller; \<open>syscallHandler\<close> gives
  the processor away all the same.
\<close>

unbundle bit_operations_syntax

section \<open>The device of a command address\<close>

definition io_line :: "umps \<Rightarrow> u32 \<Rightarrow> u32" where
  "io_line A a = (a - DEV_REG_START A) div (DEV_REG_SIZE A * DEVPERINT A) + DEV_IL_START A"

definition io_index :: "umps \<Rightarrow> u32 \<Rightarrow> u32" where
  "io_index A a = EXT_IL_INDEX A (io_line A a) * DEVPERINT A
     + sdiv32 (a - DEV_REG_ADDR A (io_line A a) 0)
         (if io_line A a = IL_TERMINAL A then DEVPERINT A else DEVPERINT A * 2)"

definition io_sem :: "umps \<Rightarrow> u32 \<Rightarrow> u32" where
  "io_sem A a = getDevSem A (io_index A a)"

text \<open>The bit of the device in the bitmap of the installed ones; \<open>None\<close> if the shift is undefined.\<close>

definition io_bit :: "umps \<Rightarrow> u32 \<Rightarrow> u32 option" where
  "io_bit A a = shl1 (sdiv32 (a - DEV_REG_ADDR A (io_line A a) 0) 16)"

definition io_installed :: "umps \<Rightarrow> u32 \<Rightarrow> kstate \<Rightarrow> bool" where
  "io_installed A a s \<longleftrightarrow> (case io_bit A a of None \<Rightarrow> False
     | Some b \<Rightarrow> mem s (IDEV_BITMAP_ADDR A (io_line A a)) AND b \<noteq> 0)"

text \<open>The device registers after the command has been written.\<close>

definition io_command :: "umps \<Rightarrow> u32 \<Rightarrow> u32 \<Rightarrow> kstate \<Rightarrow> kstate" where
  "io_command A a vals s =
     (if io_line A a = IL_TERMINAL A then
        (if odd (unat (io_index A a)) then
           store_word (a - DEV_REG_SIZE A div 2 + off_transm_command A) (mem s (vals + 4 * ix_COMMAND A)) s
         else store_word (a + off_recv_command A) (mem s (vals + 4 * ix_COMMAND A)) s)
      else
        (let s = store_word (a + off_command A) (mem s (vals + 4 * ix_COMMAND A)) s;
             s = store_word (a + off_data0 A) (mem s (vals + 4 * ix_DATA0 A)) s
         in store_word (a + off_data1 A) (mem s (vals + 4 * ix_DATA1 A)) s))"

definition io_saved :: "u32 \<Rightarrow> nat \<Rightarrow> kstate \<Rightarrow> kstate" where
  "io_saved vals p s = set_pcb p (\<lambda>b. b\<lparr>p_savedDeviceStatus := vals\<rparr>) s"

lemma set_pcb_store: "store_pcb (Some p) f s = Some (set_pcb p f s)"
  by (simp add: set_pcb_def)

lemma doIO_eq:
  assumes cur: "current_active_process s = Some p" and bit: "io_bit A a \<noteq> None"
  shows "doIO A a vals s =
    (if io_installed A a s then P_sem (io_sem A a) (io_command A a vals (io_saved vals p s))
     else Some (set_pcb p (\<lambda>b. b\<lparr>p_s := set_v0 A (-1) (p_s b)\<rparr>)
       (store_word (vals + 4 * ix_STATUS A) 0 (io_saved vals p s))))"
proof -
  obtain b where b: "io_bit A a = Some b" using bit by blast
  have i: "io_installed A a s \<longleftrightarrow> mem s (IDEV_BITMAP_ADDR A (io_line A a)) AND b \<noteq> 0"
    by (simp add: io_installed_def b)
  have c: "currentProc s = Some p" "currentProc (store_word x y (io_saved vals p s)) = Some p" for x y
    using cur by (simp_all add: currentProc_def store_word_def io_saved_def set_pcb_def)
  have m: "mem (io_saved vals p s) = mem s" by (simp add: io_saved_def set_pcb_def)
  have sv: "store_pcb (Some p) (\<lambda>b. b\<lparr>p_savedDeviceStatus := vals\<rparr>) s = Some (io_saved vals p s)"
    by (simp add: io_saved_def set_pcb_def)
  show ?thesis
    unfolding doIO_def io_line_def [symmetric] io_index_def [symmetric] io_sem_def [symmetric] Let_def
      io_bit_def [symmetric] c sv Option.bind.bind_lunit b
    by (simp add: i m c set_pcb_store io_command_def Let_def del: store_pcb_Some)
qed

section \<open>SYS5\<close>

lemma kinv_io [simp]: "kinv (io_command A a vals s) v = kinv s v" "kinv (io_saved vals p s) v = kinv s v"
  by (simp_all add: io_command_def Let_def io_saved_def kinv_set_pcb)

lemma current_io [simp]:
  "current_active_process (io_command A a vals s) = current_active_process s"
  "current_active_process (io_saved vals p s) = current_active_process s"
  by (simp_all add: io_command_def Let_def io_saved_def set_pcb_def store_word_def)

lemma io_installed_advanced [simp]: "io_installed A a (advanced s) = io_installed A a s"
  by (simp add: io_installed_def split: option.split)

lemma io_installed_bit: "io_installed A a s \<Longrightarrow> io_bit A a \<noteq> None"
  by (auto simp: io_installed_def split: option.splits)

text \<open>The state in which the command has been given.\<close>

definition io_started :: "umps \<Rightarrow> nat \<Rightarrow> kstate \<Rightarrow> kstate" where
  "io_started A p s = io_command A (FIRST_PARAM A s) (SECOND_PARAM A s)
     (io_saved (SECOND_PARAM A s) p (advanced s))"

lemma kinv_io_started: "kinv s v \<Longrightarrow> kinv (io_started A p s) v"
  by (simp add: io_started_def kinv_advanced)

lemma current_io_started [simp]: "current_active_process (io_started A p s) = current_active_process s"
  by (simp add: io_started_def)

lemma SYS5_installed:
  assumes cur: "current_active_process s = Some p" and mode: "kernel_mode A s" and call: "sys_code A s = DOIO"
    and inst: "io_installed A (FIRST_PARAM A s) s"
  shows "syscallHandler A s = Option.bind (P_sem (io_sem A (FIRST_PARAM A s)) (io_started A p s)) save_and_schedule"
proof -
  have "syscall_switch A (advanced s) = Option.bind (doIO A (FIRST_PARAM A s) (SECOND_PARAM A s) (advanced s)) save_and_schedule"
    using call by (simp add: syscall_switch_def sys_code_def syscall_codes advanced_def FIRST_PARAM_def SECOND_PARAM_def)
  then show ?thesis
    using doIO_eq [of "advanced s" p A "FIRST_PARAM A s"] io_installed_bit [OF inst] cur inst
    by (simp add: syscallHandler_kernel [OF mode] io_started_def)
qed

lemma SYS5_blocks:
  assumes inv: "kinv s v" and cur: "current_active_process s = Some p" and mode: "kernel_mode A s"
    and call: "sys_code A s = DOIO" and inst: "io_installed A (FIRST_PARAM A s) s"
    and k: "k = io_sem A (FIRST_PARAM A s)" "k \<noteq> 0" "mem (io_started A p s) k = 0"
  shows "resumes (syscallHandler A s) (save_state p (incrementSoftBlockCount (set_semAdd p k (io_started A p s))))
    (v_block k p v)"
proof -
  let ?t = "io_started A p s"
  note inv' = kinv_io_started [OF inv, of A p]
  have cur': "current_active_process ?t = Some p" using cur by simp
  have "p < MAXPROC" using kinvD(5) [OF inv cur] by blast
  then have c: "inv_core (incrementSoftBlockCount (set_semAdd p k ?t)) (v_block k p v)"
    using v_block_inv [OF kinvD(2) [OF inv']] by (simp add: inv_core_def incrementSoftBlockCount_def set_semAdd_def)
  have "resumes (Option.bind (P_sem k ?t) save_and_schedule)
    (save_state p (incrementSoftBlockCount (set_semAdd p k ?t))) (v_block k p v)"
    by (rule ends_in_resumes [OF P_sem_block [OF inv' cur' k(2,3)] c])
      (use cur' in \<open>simp add: incrementSoftBlockCount_def set_semAdd_def\<close>)
  then show ?thesis by (simp add: SYS5_installed [OF cur mode call inst] k(1))
qed

text \<open>
  With a signal pending on the semaphore \<open>P\<close> does not block, and the caller is dropped: it is
  saved and the processor is given away, but it enters no queue.
\<close>

lemma SYS5_drops:
  assumes inv: "kinv s v" and cur: "current_active_process s = Some p" and mode: "kernel_mode A s"
    and call: "sys_code A s = DOIO" and inst: "io_installed A (FIRST_PARAM A s) s"
    and k: "k = io_sem A (FIRST_PARAM A s)" "k \<noteq> 0" "mem (io_started A p s) k \<noteq> 0"
  shows "resumes (syscallHandler A s) (save_state p (store_word k 0 (io_started A p s))) v"
proof -
  let ?t = "store_word k 0 (io_started A p s)"
  have inv': "kinv ?t v" using kinv_io_started [OF inv, of A p] by simp
  have cur': "current_active_process ?t = Some p" using cur by (simp add: store_word_def)
  have "resumes (save_and_schedule ?t) (save_state p ?t) v"
    by (rule save_and_schedule_view [OF kinvD(1,2) [OF inv'] cur'])
  then show ?thesis using P_sem_pass [OF k(2,3)] by (simp add: SYS5_installed [OF cur mode call inst] k(1))
qed

text \<open>
  An uninstalled device: the result -1 is stored in the PCB and overwritten by the saved state,
  and the caller is dropped as well.
\<close>

lemma SYS5_uninstalled:
  assumes inv: "kinv s v" and cur: "current_active_process s = Some p" and mode: "kernel_mode A s"
    and call: "sys_code A s = DOIO" and bit: "io_bit A (FIRST_PARAM A s) \<noteq> None"
    and inst: "\<not> io_installed A (FIRST_PARAM A s) s"
  shows "resumes (syscallHandler A s)
    (save_state p (store_word (SECOND_PARAM A s + 4 * ix_STATUS A) 0 (io_saved (SECOND_PARAM A s) p (advanced s)))) v"
proof -
  let ?u = "store_word (SECOND_PARAM A s + 4 * ix_STATUS A) 0 (io_saved (SECOND_PARAM A s) p (advanced s))"
  let ?t = "set_pcb p (\<lambda>b. b\<lparr>p_s := set_v0 A (-1) (p_s b)\<rparr>) ?u"
  have "kinv ?u v" using kinv_advanced [OF inv] by simp
  then have inv': "kinv ?t v" by (simp add: kinv_set_pcb)
  have cur': "current_active_process ?t = Some p" using cur by (simp add: store_word_def set_pcb_def)
  have "resumes (save_and_schedule ?t) (save_state p ?t) v"
    by (rule save_and_schedule_view [OF kinvD(1,2) [OF inv'] cur'])
  moreover have "save_state p ?t = save_state p ?u" by (simp add: save_state_def set_pcb_def)
  moreover have "syscall_switch A (advanced s) = Option.bind (doIO A (FIRST_PARAM A s) (SECOND_PARAM A s) (advanced s)) save_and_schedule"
    using call by (simp add: syscall_switch_def sys_code_def syscall_codes advanced_def FIRST_PARAM_def SECOND_PARAM_def)
  ultimately show ?thesis
    using doIO_eq [of "advanced s" p A "FIRST_PARAM A s" "SECOND_PARAM A s"] cur bit inst
    by (simp add: syscallHandler_kernel [OF mode])
qed

end
