(* ===== verification/Query_Abs.thy ===== *)
theory Query_Abs
  imports Syscall_Abs
begin

text \<open>
  The queries of the process tree: \<open>getProcessID\<close> and \<open>getChildren\<close>.  A process sees another
  one when both have the same pid namespace.
\<close>

section \<open>Namespaces\<close>

definition pid_ns :: "kstate \<Rightarrow> nat \<Rightarrow> nat ptr" where
  "pid_ns s p = (case namespaces (pcbs s p) 0 of
     None \<Rightarrow> None | Some n \<Rightarrow> if n_type (nsds s n) = NS_PID then Some n else None)"

lemma getNamespace_pid:
  assumes "null_n_type A \<noteq> None"
  shows "getNamespace A (Some p) NS_PID s = Some (pid_ns s p)"
proof -
  obtain x where "null_n_type A = Some x" using assms by blast
  then show ?thesis
    by (cases "namespaces (pcbs s p) 0")
      (auto simp: getNamespace_def NS_TYPE_MAX_def load_n_type_def numeral_eq_Suc pid_ns_def)
qed

lemma getNamespace_NULL: "getNamespace A None ty s = None"
  by (simp add: getNamespace_def)

lemma pid_ns_cong [simp]:
  "pid_ns (s\<lparr>mem := m\<rparr>) p = pid_ns s p" "pid_ns (store_word a x s) p = pid_ns s p"
  by (simp_all add: pid_ns_def store_word_def cong: option.case_cong)

section \<open>getProcessID\<close>

lemma getProcessID_own:
  "current_active_process s = Some c \<Longrightarrow> getProcessID A 0 s = Some (p_pid (pcbs s c))"
  by (simp add: getProcessID_def currentProc_def)

lemma getProcessID_parent:
  assumes "current_active_process s = Some c" and "p_parent (pcbs s c) = Some q" and "null_n_type A \<noteq> None"
    and "x \<noteq> 0"
  shows "getProcessID A x s = Some (if pid_ns s c = pid_ns s q then p_pid (pcbs s q) else 0)"
  using assms by (auto simp: getProcessID_def currentProc_def getNamespace_pid [OF assms(3)])

lemma getProcessID_orphan:
  "current_active_process s = Some c \<Longrightarrow> p_parent (pcbs s c) = None \<Longrightarrow> x \<noteq> 0 \<Longrightarrow> getProcessID A x s = None"
  by (simp add: getProcessID_def currentProc_def getNamespace_NULL)

section \<open>getChildren\<close>

text \<open>An array of words at an address.\<close>

fun store_ints :: "u32 \<Rightarrow> u32 list \<Rightarrow> (u32 \<Rightarrow> u32) \<Rightarrow> u32 \<Rightarrow> u32" where
  "store_ints a [] m = m"
| "store_ints a (x # xs) m = store_ints (a + 4) xs (m(a := x))"

lemma sint_of_nat: "n < 2 ^ 31 \<Longrightarrow> sint (of_nat n :: u32) = int n"
proof -
  assume "n < 2 ^ 31"
  then have "(int n) < 2 ^ 31" by simp
  then show ?thesis
    using signed_take_bit_int_eq_self [of 31 "int n"] by (simp add: signed_of_nat)
qed

lemma getChildren_from_chain:
  assumes A: "null_n_type A \<noteq> None"
  shows "chain (lists s) a (map P_sib ps) r \<Longrightarrow> r \<notin> set (map P_sib ps) \<Longrightarrow> i + length ps < 2 ^ 31 \<Longrightarrow>
    getChildren_from A children sz nsd (Some r) (nxt (lists s) a) (of_nat i) s =
      Some (of_nat (i + length (filter (\<lambda>q. pid_ns s q = nsd) ps)),
        s\<lparr>mem := store_ints (children + 4 * of_nat i)
          (take (nat (sint sz) - i) (map (\<lambda>q. p_pid (pcbs s q)) (filter (\<lambda>q. pid_ns s q = nsd) ps))) (mem s)\<rparr>)"
proof (induction ps arbitrary: a i s)
  case Nil
  then show ?case by (simp add: getChildren_from.simps)
next
  case (Cons p ps)
  let ?x = "p_pid (pcbs s p)"
  have ch: "nxt (lists s) a = Some (P_sib p)" "chain (lists s) (P_sib p) (map P_sib ps) r" and ne: "P_sib p \<noteq> r"
    and r: "r \<notin> set (map P_sib ps)"
    using Cons.prems(1,2) by auto
  have nx: "get_next (Some (P_sib p)) (lists s) = Some (nxt (lists s) (P_sib p))" by (simp add: get_next_def)
  have i: "sint (of_nat i :: u32) = int i" using Cons.prems(3) by (intro sint_of_nat) simp
  have lt: "int i < sint sz \<longleftrightarrow> i < nat (sint sz)" by auto
  have step: "getChildren_from A children sz nsd (Some r) (Some (P_sib p)) (of_nat i) s =
      getChildren_from A children sz nsd (Some r) (nxt (lists s) (P_sib p))
        (if nsd = pid_ns s p then of_nat i + 1 else of_nat i)
        (if nsd = pid_ns s p \<and> i < nat (sint sz) then store_word (children + 4 * of_nat i) ?x s else s)"
    using ne by (subst getChildren_from.simps) (simp add: getNamespace_pid [OF A] i nx lt)
  show ?case
  proof (cases "nsd = pid_ns s p")
    case False
    with Cons.IH [OF ch(2) r, of i] Cons.prems(3) show ?thesis by (simp add: ch(1) step)
  next
    case True
    let ?s = "if i < nat (sint sz) then store_word (children + 4 * of_nat i) ?x s else s"
    have eq: "lists ?s = lists s" "pcbs ?s = pcbs s" "\<And>q. pid_ns ?s q = pid_ns s q"
      by (auto simp: store_word_def pid_ns_def cong: option.case_cong)
    have ch': "chain (lists ?s) (P_sib p) (map P_sib ps) r" using ch(2) eq(1) by simp
    have nxi: "of_nat i + 1 = (of_nat (Suc i) :: u32)" by simp
    show ?thesis
      using Cons.IH [OF ch' r, of "Suc i"] Cons.prems(3) True
      unfolding ch(1) step eq nxi
      by (cases "i < nat (sint sz)")
        (auto simp: store_word_def algebra_simps take_Cons' not_less fun_upd_def)
  qed
qed

lemma getChildren_view:
  assumes A: "null_n_type A \<noteq> None" and inv: "kinv s v" and cur: "current_active_process s = Some c"
  shows "let kids = filter (\<lambda>q. pid_ns s q = pid_ns s c) (v_kids v c) in
    getChildren A children sz s = Some (of_nat (length kids),
      s\<lparr>mem := store_ints children (take (nat (sint sz)) (map (\<lambda>q. p_pid (pcbs s q)) kids)) (mem s)\<rparr>)"
proof -
  note k = kinvD(1) [OF inv]
  have c: "c < MAXPROC" "c \<notin> set (v_free v)" using kinvD(5) [OF inv cur] by (auto simp: v_queued_def)
  from k obtain a where a: "links s a" "ash_inv s a" "tree_inv s a" "v = view s a" by (rule kabsE)
  have "a_kids a c = Some (v_kids v c)" using kids_Some [OF a(3) c(1)] c(2) a(4) by (simp add: view_def)
  then have d: "dll (lists s) (P_child c) (map P_sib (v_kids v c))"
    by (intro heap_abs_dll [OF links_lists [OF a(1)]]) simp
  have e: "emptyChild (Some c) s = Some (v_kids v c = [])" by (rule emptyChild_view [OF k c])
  have "set (v_kids v c) \<subseteq> {..<MAXPROC}" using in_tableD(4) [OF kinvD(3) [OF inv]] by auto
  then have "card (set (v_kids v c)) \<le> MAXPROC" using card_mono [of "{..<MAXPROC}" "set (v_kids v c)"] by simp
  then have "length (v_kids v c) \<le> 20" using distinct_card [OF kabs_facts(3) [OF k, of c]] by (simp add: MAXPROC_def)
  then have len: "0 + length (v_kids v c) < 2 ^ 31" by simp
  show ?thesis
  proof (cases "v_kids v c = []")
    case True
    then show ?thesis using e cur by (simp add: getChildren_def currentProc_def)
  next
    case False
    have g: "get_next (Some (P_child c)) (lists s) = Some (nxt (lists s) (P_child c))" by (simp add: get_next_def)
    from d have ch: "chain (lists s) (P_child c) (map P_sib (v_kids v c)) (P_child c)"
      and r: "P_child c \<notin> set (map P_sib (v_kids v c))" by (auto simp: dll_def)
    from getChildren_from_chain [OF A ch r len, of children sz "pid_ns s c"] False e cur show ?thesis
      by (simp add: getChildren_def currentProc_def getNamespace_pid [OF A] g)
  qed
qed

end
