(* ===== verification/Kernel_Total.thy ===== *)
theory Kernel_Total
  imports Kernel_Safe Io_Abs Query_Abs
begin

text \<open>
  Which exceptions are served, and which make the kernel fault: a system call with bad
  arguments is the only way to make a handler use a null pointer.
\<close>

section \<open>Operations that always return\<close>

lemma resumes_returns: "resumes m t v \<Longrightarrow> m \<noteq> None"
  using resumes_settled by blast

lemma return_to_caller_returns [simp]: "return_to_caller s \<noteq> None"
  by (simp add: return_to_caller_def)

lemma passeren_served:
  assumes inv: "kinv s v" and cur: "current_active_process s = Some p"
  shows "(do { (r, s) \<leftarrow> passeren k s; if r \<noteq> 0 then save_and_schedule s else return_to_caller s }) \<noteq> None
    \<longleftrightarrow> k \<noteq> 0"
proof (cases "k = 0")
  case True
  then show ?thesis by (simp add: passeren_def)
next
  case k: False
  have "(do { (r, s) \<leftarrow> passeren k s; if r \<noteq> 0 then save_and_schedule s else return_to_caller s }) \<noteq> None"
  proof (cases "mem s k = 0")
    case True
    from resumes_returns [OF blocking_call [OF inv cur k passeren_block [OF inv cur k True]]] show ?thesis .
  next
    case False
    show ?thesis
    proof (cases "v_semq v k")
      case Nil
      from passeren_pass [OF kinvD(1) [OF inv] k False Nil] show ?thesis by simp
    next
      case (Cons q qs)
      from passeren_wake [OF kinvD(1) [OF inv] False Cons] show ?thesis
        by (auto simp: runs_to_def return_to_caller_def)
    qed
  qed
  with k show ?thesis by simp
qed

lemma verhogen_served:
  assumes inv: "kinv s v" and cur: "current_active_process s = Some p"
  shows "(do { (r, s) \<leftarrow> verhogen k s; if r \<noteq> 0 then save_and_schedule s else return_to_caller s }) \<noteq> None
    \<longleftrightarrow> k \<noteq> 0"
proof (cases "k = 0")
  case True
  then show ?thesis by (simp add: verhogen_def)
next
  case k: False
  have "(do { (r, s) \<leftarrow> verhogen k s; if r \<noteq> 0 then save_and_schedule s else return_to_caller s }) \<noteq> None"
  proof (cases "mem s k = 1")
    case True
    from resumes_returns [OF blocking_call [OF inv cur k verhogen_block [OF inv cur k True]]] show ?thesis .
  next
    case False
    show ?thesis
    proof (cases "v_semq v k")
      case Nil
      from verhogen_pass [OF kinvD(1) [OF inv] k False Nil] show ?thesis by simp
    next
      case (Cons q qs)
      from verhogen_wake [OF kinvD(1) [OF inv] False Cons] show ?thesis
        by (auto simp: runs_to_def return_to_caller_def)
    qed
  qed
  with k show ?thesis by simp
qed

lemma save_and_schedule_returns:
  assumes "half_wf s" and "current_active_process s \<noteq> None"
  shows "save_and_schedule s \<noteq> None"
proof -
  obtain p where p: "current_active_process s = Some p" using assms(2) by blast
  have "save_and_schedule s = schedule (save_state p s)"
    using p by (simp add: save_and_schedule_def currentProc_def save_state_def set_pcb_def)
  with schedule_half [of "save_state p s"] assms(1) show ?thesis by auto
qed

lemma P_sem_served:
  assumes inv: "kinv s v" and cur: "current_active_process s = Some p"
  shows "Option.bind (P_sem k s) save_and_schedule \<noteq> None \<longleftrightarrow> k \<noteq> 0"
proof (cases "k = 0")
  case True
  then show ?thesis by (simp add: P_sem_def)
next
  case k: False
  show ?thesis
  proof (cases "mem s k = 0")
    case True
    from P_sem_block [OF inv cur k True] obtain h hh ds where
      1: "P_sem k s = Some (relink h hh ds (incrementSoftBlockCount (set_semAdd p k s)))" by (rule ends_inE)
    have "half_wf (relink h hh ds (incrementSoftBlockCount (set_semAdd p k s)))"
      by (rule P_sem_half [OF wf_kernelI [OF inv] 1])
    from save_and_schedule_returns [OF this] cur 1 k show ?thesis
      by (simp add: incrementSoftBlockCount_def set_semAdd_def)
  next
    case False
    have "half_wf (store_word k 0 s)" using wf_half [OF wf_kernelI [OF inv]] by simp
    from save_and_schedule_returns [OF this] cur k P_sem_pass [OF k False] show ?thesis
      by (simp add: store_word_def)
  qed
qed

lemma doIO_served:
  assumes inv: "kinv s v" and cur: "current_active_process s = Some p"
  shows "Option.bind (doIO A a vals s) save_and_schedule \<noteq> None
    \<longleftrightarrow> io_bit A a \<noteq> None \<and> (io_installed A a s \<longrightarrow> io_sem A a \<noteq> 0)"
proof (cases "io_bit A a = None")
  case True
  have c: "currentProc s = Some p" using cur by (simp add: currentProc_def)
  have "doIO A a vals s = None"
    unfolding doIO_def io_line_def [symmetric] io_index_def [symmetric] io_sem_def [symmetric] Let_def
      io_bit_def [symmetric] c True by simp
  with True show ?thesis by simp
next
  case False
  show ?thesis
  proof (cases "io_installed A a s")
    case True
    have "kinv (io_command A a vals (io_saved vals p s)) v" using inv by simp
    from P_sem_served [OF this, of p "io_sem A a"] cur True False show ?thesis by (simp add: doIO_eq [OF cur False])
  next
    case n: False
    let ?t = "set_pcb p (\<lambda>b. b\<lparr>p_s := set_v0 A (-1) (p_s b)\<rparr>) (store_word (vals + 4 * ix_STATUS A) 0 (io_saved vals p s))"
    have "kinv (store_word (vals + 4 * ix_STATUS A) 0 (io_saved vals p s)) v" using inv by simp
    then have "kinv ?t v" by (simp add: kinv_set_pcb)
    from wf_half [OF wf_kernelI [OF this]] have h: "half_wf ?t" .
    have "current_active_process ?t = Some p" using cur by (simp add: store_word_def set_pcb_def io_saved_def)
    with save_and_schedule_returns [OF h] n False show ?thesis by (simp add: doIO_eq [OF cur False])
  qed
qed

section \<open>Creation and termination\<close>

lemma addNamespace_served:
  assumes k: "kabs s v" and p: "p < MAXPROC" "p \<notin> set (v_free v)" "v_kids v p = []"
  shows "addNamespace A (Some p) ns s \<noteq> None \<longleftrightarrow> (\<forall>n. ns = Some n \<longrightarrow> n_type (nsds s n) = NS_PID)"
proof (cases ns)
  case None
  then show ?thesis by (simp add: addNamespace_null)
next
  case (Some n)
  show ?thesis
  proof (cases "n_type (nsds s n) = NS_PID")
    case True
    from addNamespace_leaf [OF k p True, of A] Some True show ?thesis by (auto simp: runs_to_def)
  next
    case False
    then have "\<not> unat (n_type (nsds s n)) < NS_TYPE_MAX"
      by (simp add: NS_PID_def NS_TYPE_MAX_def unat_eq_0)
    then have "set_namespace A (Some p) (Some n) s = None"
      by (simp add: set_namespace_def load_n_type_def)
    with Some False show ?thesis by (simp add: addNamespace_def)
  qed
qed

lemma give_namespace_served:
  assumes k: "kabs s v" and p: "p < MAXPROC" "p \<notin> set (v_free v)" "v_kids v p = []"
    and cur: "current_active_process s = Some c" and A: "null_n_type A \<noteq> None"
  shows "give_namespace A (Some p) nsd s \<noteq> None \<longleftrightarrow> (\<forall>n. nsd = Some n \<longrightarrow> n_type (nsds s n) = NS_PID)"
proof (cases nsd)
  case None
  have "n_type (nsds s n) = NS_PID" if "pid_ns s c = Some n" for n
    using that by (auto simp: pid_ns_def split: option.splits if_splits)
  then obtain y where "addNamespace A (Some p) (pid_ns s c) s = Some y"
    using addNamespace_served [OF k p, of A "pid_ns s c"] by auto
  with None cur show ?thesis
    by (cases y) (simp add: give_namespace_def addNamespace_null NS_TYPE_MAX_def currentProc_def
        getNamespace_pid [OF A, unfolded NS_PID_def])
next
  case (Some n)
  show ?thesis
  proof (cases "addNamespace A (Some p) nsd s")
    case None
    with addNamespace_served [OF k p, of A nsd] show ?thesis by (simp add: give_namespace_def)
  next
    case (Some y)
    then obtain ok t where y: "addNamespace A (Some p) nsd s = Some (ok, t)" by (cases y) auto
    have "ok" using addNamespace_ok_iff [OF y] \<open>nsd = Some n\<close> by simp
    with y addNamespace_served [OF k p, of A nsd] show ?thesis by (simp add: give_namespace_def)
  qed
qed

lemma createProcess_served:
  assumes inv: "kinv s v" and cur: "current_active_process s = Some c" and A: "null_n_type A \<noteq> None"
  shows "createProcess A st supp nsd s \<noteq> None
    \<longleftrightarrow> v_free v = [] \<or> (\<forall>n. nsd = Some n \<longrightarrow> n_type (nsds s n) = NS_PID)"
proof (cases "v_free v")
  case Nil
  with createProcess_full [OF kinvD(1) [OF inv]] show ?thesis by simp
next
  case (Cons p fs)
  from createProcess_alloc [OF inv cur Cons, of A st supp nsd] obtain h hh ds where
    1: "createProcess A st supp nsd s = give_namespace A (Some p) nsd (relink h hh ds (new_process A p c st supp s))"
    "kabs (relink h hh ds (new_process A p c st supp s)) (v_new p fs c v)" unfolding Let_def by blast
  have "current_active_process (relink h hh ds (new_process A p c st supp s)) = Some c"
    using cur by (simp add: new_process_def set_pcb_def)
  from give_namespace_served [OF 1(2) v_new_leaf(1-3) [OF inv cur Cons] this A, of nsd] Cons
  show ?thesis by (simp add: 1(1) new_process_def set_pcb_def)
qed

lemma terminate_current_returns:
  assumes "wf_kernel s" and "current_active_process s = Some c"
  shows "terminateProcess A (Some c) s \<noteq> None"
proof -
  from assms(1) obtain v where v: "kinv s v" by (auto simp: wf_kernel_def)
  have "c < MAXPROC" "c \<notin> set (v_free v)" using kinvD(5) [OF v assms(2)] by (auto simp: v_queued_def)
  from terminateProcess_resumes [OF kinvD(1,2) [OF v] this, of A] show ?thesis by (auto dest: resumes_returns)
qed

lemma SYS2_served:
  assumes inv: "kinv s v" and cur: "current_active_process s = Some c"
  shows "(do { p \<leftarrow> (if pid = 0 then Some (currentProc s) else findPcb pid getReadyQueue s); terminateProcess A p s }) \<noteq> None
    \<longleftrightarrow> pid = 0 \<or> (\<exists>p \<in> set (v_ready v) \<union> v_blocked v. p_pid (pcbs s p) = pid)"
proof (cases "pid = 0")
  case True
  with terminate_current_returns [OF wf_kernelI [OF inv] cur] cur show ?thesis by (simp add: currentProc_def)
next
  case False
  from findPcb_view [OF kinvD(1) [OF inv], of pid] obtain r where
    r: "findPcb pid (Some Ready_queue) s = Some r" "case r of
      None \<Rightarrow> \<forall>p \<in> set (v_ready v) \<union> v_blocked v. p_pid (pcbs s p) \<noteq> pid
    | Some p \<Rightarrow> p \<in> set (v_ready v) \<union> v_blocked v \<and> p_pid (pcbs s p) = pid" by blast
  show ?thesis
  proof (cases r)
    case None
    with r False show ?thesis by (auto simp: getReadyQueue_def terminateProcess_null)
  next
    case (Some p)
    with r(2) have p: "p \<in> set (v_ready v) \<union> v_blocked v" "p_pid (pcbs s p) = pid" by simp_all
    have "p < MAXPROC \<and> p \<notin> set (v_free v)"
      by (rule listed_live [OF kinvD(1,2) [OF inv] p(1)])
    with terminateProcess_resumes [OF kinvD(1,2) [OF inv], of p A] have "terminateProcess A (Some p) s \<noteq> None"
      by (auto dest: resumes_returns)
    with r(1) Some p False show ?thesis by (auto simp: getReadyQueue_def)
  qed
qed

section \<open>The dispatcher\<close>

text \<open>The arguments with which a system call of the running process \<open>c\<close> is served.\<close>

definition syscall_ok :: "umps \<Rightarrow> kview \<Rightarrow> nat \<Rightarrow> kstate \<Rightarrow> bool" where
  "syscall_ok A v c s \<longleftrightarrow> (let a0 = sys_code A s; x = FIRST_PARAM A s in
     if a0 = CREATEPROCESS then (case nsd_of_addr A (THIRD_PARAM A s) of
         None \<Rightarrow> False
       | Some nsd \<Rightarrow> v_free v = [] \<or> (\<forall>n. nsd = Some n \<longrightarrow> n_type (nsds s n) = NS_PID))
     else if a0 = TERMPROCESS then x = 0 \<or> (\<exists>p \<in> set (v_ready v) \<union> v_blocked v. p_pid (pcbs s p) = x)
     else if a0 = PASSEREN \<or> a0 = VERHOGEN then x \<noteq> 0
     else if a0 = DOIO then io_bit A x \<noteq> None \<and> (io_installed A x s \<longrightarrow> io_sem A x \<noteq> 0)
     else if a0 = GETPROCESSID then x = 0 \<or> p_parent (pcbs s c) \<noteq> None
     else True)"

lemma getProcessID_served:
  assumes cur: "current_active_process s = Some c" and A: "null_n_type A \<noteq> None"
  shows "getProcessID A x s \<noteq> None \<longleftrightarrow> x = 0 \<or> p_parent (pcbs s c) \<noteq> None"
proof (cases "x = 0")
  case True
  with getProcessID_own [OF cur] show ?thesis by simp
next
  case False
  show ?thesis
  proof (cases "p_parent (pcbs s c)")
    case None
    with getProcessID_orphan [OF cur None False] False show ?thesis by simp
  next
    case (Some q)
    with getProcessID_parent [OF cur Some A False] show ?thesis by simp
  qed
qed

lemma passUpOrDie_returns:
  assumes "wf_kernel s" and "current_active_process s = Some c"
  shows "passUpOrDie A n s \<noteq> None"
  using terminate_current_returns [OF assms, of A] assms(2)
  by (simp add: passUpOrDie_def currentProc_def Let_def)

lemma bind_returns: "Option.bind m f \<noteq> None \<longleftrightarrow> (\<exists>x. m = Some x \<and> f x \<noteq> None)"
  by (cases m) auto

lemma syscall_switch_served:
  assumes inv: "kinv s v" and cur: "current_active_process s = Some c"
    and A: "null_n_type A \<noteq> None" "getPseudoClockSem A \<noteq> 0"
  shows "syscall_switch A s \<noteq> None \<longleftrightarrow> syscall_ok A v c s"
proof -
  have ret: "return_to_caller t \<noteq> None" for t by simp
  consider "sys_code A s = CREATEPROCESS" | "sys_code A s = TERMPROCESS" | "sys_code A s = PASSEREN"
    | "sys_code A s = VERHOGEN" | "sys_code A s = DOIO" | "sys_code A s = GETTIME" | "sys_code A s = CLOCKWAIT"
    | "sys_code A s = GETSUPPORTPTR" | "sys_code A s = GETPROCESSID" | "sys_code A s = GETCHILDREN"
    | "sys_code A s \<notin> {CREATEPROCESS, TERMPROCESS, PASSEREN, VERHOGEN, DOIO, GETTIME, CLOCKWAIT, GETSUPPORTPTR,
        GETPROCESSID, GETCHILDREN}" by blast
  then show ?thesis
  proof cases
    case 1
    then have e: "syscall_switch A s = do {
        nsd \<leftarrow> nsd_of_addr A (THIRD_PARAM A s);
        (pid, s) \<leftarrow> createProcess A (load_state A (mem s) (FIRST_PARAM A s)) (SECOND_PARAM A s) nsd s;
        return_to_caller (RETURN_SYS_VALUE A pid s)
      }" by (simp add: syscall_switch_def sys_code_def)
    show ?thesis
    proof (cases "nsd_of_addr A (THIRD_PARAM A s)")
      case None
      with 1 e show ?thesis by (simp add: syscall_ok_def)
    next
      case (Some nsd)
      have "syscall_switch A s \<noteq> None \<longleftrightarrow>
          createProcess A (load_state A (mem s) (FIRST_PARAM A s)) (SECOND_PARAM A s) nsd s \<noteq> None"
        unfolding e Some bind_returns by (auto simp: return_to_caller_def)
      with 1 Some createProcess_served [OF inv cur A(1)] show ?thesis by (simp add: syscall_ok_def)
    qed
  next
    case 2
    then have "syscall_switch A s = do {
        p \<leftarrow> (if FIRST_PARAM A s = 0 then Some (currentProc s) else findPcb (FIRST_PARAM A s) getReadyQueue s);
        terminateProcess A p s }"
      by (simp add: syscall_switch_def sys_code_def syscall_codes Let_def)
    with 2 SYS2_served [OF inv cur, of "FIRST_PARAM A s" A] show ?thesis
      by (simp add: syscall_ok_def syscall_codes Let_def)
  next
    case 3
    with passeren_served [OF inv cur, of "FIRST_PARAM A s"] show ?thesis
      by (simp add: syscall_ok_def syscall_switch_def sys_code_def syscall_codes Let_def)
  next
    case 4
    with verhogen_served [OF inv cur, of "FIRST_PARAM A s"] show ?thesis
      by (simp add: syscall_ok_def syscall_switch_def sys_code_def syscall_codes Let_def)
  next
    case 5
    with doIO_served [OF inv cur, of A "FIRST_PARAM A s" "SECOND_PARAM A s"] show ?thesis
      by (simp add: syscall_ok_def syscall_switch_def sys_code_def syscall_codes Let_def)
  next
    case 6
    with cur show ?thesis
      by (simp add: syscall_ok_def syscall_switch_def sys_code_def syscall_codes currentProc_def return_to_caller_def)
  next
    case 7
    with P_sem_served [OF inv cur, of "getPseudoClockSem A"] A(2) show ?thesis
      by (simp add: syscall_ok_def syscall_switch_def sys_code_def syscall_codes Let_def)
  next
    case 8
    with cur show ?thesis
      by (simp add: syscall_ok_def syscall_switch_def sys_code_def syscall_codes currentProc_def return_to_caller_def)
  next
    case 9
    then have e: "syscall_switch A s = do {
        pid \<leftarrow> getProcessID A (FIRST_PARAM A s) s; return_to_caller (RETURN_SYS_VALUE A pid s) }"
      by (simp add: syscall_switch_def sys_code_def syscall_codes)
    have "syscall_switch A s \<noteq> None \<longleftrightarrow> getProcessID A (FIRST_PARAM A s) s \<noteq> None"
      unfolding e bind_returns by (auto simp: return_to_caller_def)
    with 9 getProcessID_served [OF cur A(1), of "FIRST_PARAM A s"] show ?thesis
      by (simp add: syscall_ok_def syscall_codes)
  next
    case 10
    with getChildren_view [OF A(1) inv cur, of "FIRST_PARAM A s" "SECOND_PARAM A s"] show ?thesis
      by (simp add: syscall_ok_def syscall_switch_def sys_code_def syscall_codes Let_def return_to_caller_def)
  next
    case 11
    with passUpOrDie_returns [OF wf_kernelI [OF inv] cur] show ?thesis
      by (simp add: syscall_ok_def syscall_switch_def sys_code_def)
  qed
qed

section \<open>The exception handler\<close>

lemma advanced_params: "nsds (advanced s) = nsds s" "THIRD_PARAM A (advanced s) = THIRD_PARAM A s"
  by (simp_all add: advanced_def THIRD_PARAM_def)

lemma syscall_ok_advanced [simp]: "syscall_ok A v c (advanced s) = syscall_ok A v c s"
  by (simp add: syscall_ok_def advanced_params cong: option.case_cong)

lemma syscallHandler_served:
  assumes inv: "kinv s v" and cur: "current_active_process s = Some c"
    and A: "null_n_type A \<noteq> None" "getPseudoClockSem A \<noteq> 0"
  shows "syscallHandler A s \<noteq> None \<longleftrightarrow> (kernel_mode A s \<longrightarrow> syscall_ok A v c s)"
proof (cases "kernel_mode A s")
  case True
  have "current_active_process (advanced s) = Some c" using cur by simp
  from syscall_switch_served [OF kinv_advanced [OF inv] this A] True show ?thesis
    by (simp add: syscallHandler_kernel)
next
  case False
  let ?t = "(advanced s)\<lparr>bios_state := (bios_state (advanced s))\<lparr>cause := push_bit (CAUSE_EXCCODE_BIT A) (EXC_RI A)\<rparr>\<rparr>"
  have "wf_kernel ?t" "current_active_process ?t = Some c"
    using wf_kernelI [OF kinv_advanced [OF inv]] cur by (simp_all add: wf_kernel_def)
  from passUpOrDie_returns [OF this, of A GENERALEXCEPT] False show ?thesis
    by (simp add: syscallHandler_def kernel_mode_def advanced_def Let_def)
qed

text \<open>
  An exception of a running process is served, except for a system call in kernel mode whose
  arguments are not \<open>syscall_ok\<close>.
\<close>

definition timed :: "nat \<Rightarrow> kstate \<Rightarrow> kstate" where
  "timed c s = set_pcb c (\<lambda>b. b\<lparr>p_time := p_time b + (tod s - start_time s)\<rparr>) s"

lemma update_time_running: "current_active_process s = Some c \<Longrightarrow> update_time s = Some (timed c s)"
  by (simp add: update_time_def currentProc_def timed_def set_pcb_def getStartTime_def)

lemma timed_simps [simp]: "current_active_process (timed c s) = current_active_process s"
  "bios_state (timed c s) = bios_state s" "reg_STATUS (timed c s) = reg_STATUS s" "reg_CAUSE (timed c s) = reg_CAUSE s"
  "mem (timed c s) = mem s" "p_pid (pcbs (timed c s) p) = p_pid (pcbs s p)"
  "p_parent (pcbs (timed c s) p) = p_parent (pcbs s p)" "nsds (timed c s) = nsds s"
  by (simp_all add: timed_def set_pcb_def)

lemma timed_params: "sys_code A (timed c s) = sys_code A s" "FIRST_PARAM A (timed c s) = FIRST_PARAM A s"
  "THIRD_PARAM A (timed c s) = THIRD_PARAM A s" "io_installed A a (timed c s) = io_installed A a s"
  by (simp_all add: sys_code_def FIRST_PARAM_def THIRD_PARAM_def io_installed_def cong: option.case_cong)

lemma kinv_timed [simp]: "kinv (timed c s) v = kinv s v"
  by (simp add: timed_def kinv_set_pcb)

lemma syscall_ok_timed [simp]: "syscall_ok A v c (timed c s) = syscall_ok A v c s"
  by (simp add: syscall_ok_def timed_params cong: option.case_cong)

definition machine_ok :: "umps \<Rightarrow> bool" where
  "machine_ok A \<longleftrightarrow> dev_sems_ok A \<and> null_n_type A \<noteq> None \<and> getPseudoClockSem A \<noteq> 0 \<and>
     EXC_INT A \<notin> {EXC_MOD A, EXC_TLBL A, EXC_TLBS A, EXC_SYS A} \<and>
     EXC_SYS A \<notin> {EXC_MOD A, EXC_TLBL A, EXC_TLBS A}"

lemma exceptionHandler_served:
  assumes inv: "kinv s v" and cur: "current_active_process s = Some c" and A: "machine_ok A"
  shows "exceptionHandler A s \<noteq> None \<longleftrightarrow>
    (exc_code A s = EXC_SYS A \<and> kernel_mode A s \<longrightarrow> syscall_ok A v c s)"
proof -
  let ?t = "timed c s"
  have invt: "kinv ?t v" and curt: "current_active_process ?t = Some c" using inv cur by simp_all
  have e: "exceptionHandler A s = (if exc_code A s = EXC_INT A then interruptHandler A ?t
      else if exc_code A s = EXC_MOD A \<or> exc_code A s = EXC_TLBL A \<or> exc_code A s = EXC_TLBS A
      then passUpOrDie A PGFAULTEXCEPT ?t
      else if exc_code A s = EXC_SYS A then syscallHandler A ?t
      else passUpOrDie A GENERALEXCEPT ?t)"
    by (simp add: exceptionHandler_def exc_code_def Let_def update_time_running [OF cur])
  have int: "interruptHandler A ?t \<noteq> None"
    using interruptHandler_total [OF wf_kernelI [OF invt], of A] A curt by (auto simp: machine_ok_def)
  have "syscallHandler A ?t \<noteq> None \<longleftrightarrow> (kernel_mode A s \<longrightarrow> syscall_ok A v c s)"
    using syscallHandler_served [OF invt curt, of A] A by (simp add: machine_ok_def kernel_mode_def)
  then show ?thesis
    using int passUpOrDie_returns [OF wf_kernelI [OF invt] curt, of A] A unfolding e machine_ok_def by auto
qed

end
