(* ===== verification/Boot.thy ===== *)
theory Boot
  imports Kernel_Inv
begin

text \<open>
  From zeroed memory to the kernel's first state: \<open>initPcbs\<close>, \<open>initASH\<close>, \<open>initNamespaces\<close>,
  \<open>initDevSems\<close>, \<open>initScheduler\<close> and the first process, as \<open>initKernel\<close> calls them.
\<close>

section \<open>Static memory\<close>

text \<open>The variables of the \<open>.bss\<close> segment the initialisation relies on.\<close>

definition zeroed :: "kstate \<Rightarrow> bool" where
  "zeroed s \<longleftrightarrow> lists s = \<lparr>nxt = (\<lambda>_. None), prv = (\<lambda>_. None)\<rparr>
    \<and> semd_h s = \<lparr>hfirst = (\<lambda>_. None), hnext = (\<lambda>_. None), hpprev = (\<lambda>_. None)\<rparr>
    \<and> (\<forall>p. p_parent (pcbs s p) = None \<and> p_semAdd (pcbs s p) = 0)"

section \<open>Filling a free list\<close>

lemma foldM_list_add:
  assumes "heap_abs h L" and "L r = Some ys" and "\<And>x. x \<in> set xs \<Longrightarrow> f x \<notin> lnodes L" and "inj f" and "distinct xs"
  shows "\<exists>h'. foldM (\<lambda>i. list_add (Some (f i)) (Some r)) xs h = Some h'
    \<and> heap_abs h' (L(r \<mapsto> rev (map f xs) @ ys))"
  using assms
proof (induction xs arbitrary: h L ys)
  case Nil
  then show ?case by (simp add: fun_upd_idem)
next
  case (Cons x xs)
  from list_add_abs [OF Cons.prems(1,2), of "f x"] Cons.prems(3) obtain h1 where
    1: "list_add (Some (f x)) (Some r) h = Some h1" "heap_abs h1 (L(r \<mapsto> f x # ys))" by auto
  have ln: "lnodes (L(r \<mapsto> f x # ys)) = lnodes L - set ys \<union> insert r (set (f x # ys))"
    by (rule lnodes_upd [OF Cons.prems(1)]) (simp add: Cons.prems(2))
  have nm: "f y \<notin> lnodes (L(r \<mapsto> f x # ys))" if "y \<in> set xs" for y
  proof -
    have "f y \<notin> lnodes L" "f y \<noteq> f x"
      using Cons.prems(3,4,5) that by (auto dest: injD)
    moreover have "insert r (set ys) \<subseteq> lnodes L" using Cons.prems(2) by (auto intro: lnodesI)
    ultimately show ?thesis by (auto simp: ln)
  qed
  have "\<exists>h'. foldM (\<lambda>i. list_add (Some (f i)) (Some r)) xs h1 = Some h'
      \<and> heap_abs h' ((L(r \<mapsto> f x # ys))(r \<mapsto> rev (map f xs) @ f x # ys))"
    by (rule Cons.IH [OF 1(2)], rule fun_upd_same, erule nm, rule Cons.prems(4)) (use Cons.prems(5) in simp)
  then obtain h' where
    "foldM (\<lambda>i. list_add (Some (f i)) (Some r)) xs h1 = Some h'"
    "heap_abs h' (L(r \<mapsto> rev (map f xs) @ f x # ys))" by (simp only: fun_upd_upd) blast
  moreover have "rev (map f (x # xs)) @ ys = rev (map f xs) @ f x # ys" by simp
  ultimately show ?case using 1(1) unfolding foldM.simps by (metis Option.bind.bind_lunit)
qed

text \<open>Initialising a node before it is appended changes nothing: \<open>list_add_tail\<close> writes both fields.\<close>

lemma init_add_tail:
  assumes "heap_abs h L" and "L r = Some xs" and "n \<notin> lnodes L"
  shows "Option.bind (INIT_LIST_HEAD (Some n) h) (list_add_tail (Some n) (Some r)) = list_add_tail (Some n) (Some r) h"
proof -
  have nr: "n \<noteq> r" using assms(2,3) lnodesI [of L r xs r] by auto
  have p: "prv h r = Some (last (r # xs))" by (rule dll_prev [OF heap_abs_dll [OF assms(1,2)]])
  have "last (r # xs) \<in> insert r (set xs)" by simp
  then have "n \<noteq> last (r # xs)" using assms(2,3) lnodesI [of L r xs n] by auto
  with nr p show ?thesis
    by (simp add: INIT_LIST_HEAD_def list_add_tail_def list_add_internal_def list_add_valid_def heap_defs
        fun_upd_twist fun_eq_iff del: last.simps)
qed

lemma foldM_init_add_tail:
  assumes "heap_abs h L" and "L r = Some ys" and "\<And>x. x \<in> set xs \<Longrightarrow> f x \<notin> lnodes L" and "inj f" and "distinct xs"
  shows "\<exists>h'. foldM (\<lambda>i h. Option.bind (INIT_LIST_HEAD (Some (f i)) h) (list_add_tail (Some (f i)) (Some r))) xs h
      = Some h' \<and> heap_abs h' (L(r \<mapsto> ys @ map f xs))"
  using assms
proof (induction xs arbitrary: h L ys)
  case Nil
  then show ?case by (simp add: fun_upd_idem)
next
  case (Cons x xs)
  from list_add_tail_abs [OF Cons.prems(1,2), of "f x"] Cons.prems(3) obtain h1 where
    1: "list_add_tail (Some (f x)) (Some r) h = Some h1" "heap_abs h1 (L(r \<mapsto> ys @ [f x]))" by auto
  have ln: "lnodes (L(r \<mapsto> ys @ [f x])) = lnodes L - set ys \<union> insert r (set (ys @ [f x]))"
    by (rule lnodes_upd [OF Cons.prems(1)]) (simp add: Cons.prems(2))
  have nm: "f y \<notin> lnodes (L(r \<mapsto> ys @ [f x]))" if "y \<in> set xs" for y
  proof -
    have "f y \<notin> lnodes L" "f y \<noteq> f x"
      using Cons.prems(3,4,5) that by (auto dest: injD)
    moreover have "insert r (set ys) \<subseteq> lnodes L" using Cons.prems(2) by (auto intro: lnodesI)
    ultimately show ?thesis by (auto simp: ln)
  qed
  have "\<exists>h'. foldM (\<lambda>i h. Option.bind (INIT_LIST_HEAD (Some (f i)) h) (list_add_tail (Some (f i)) (Some r))) xs h1 = Some h'
      \<and> heap_abs h' ((L(r \<mapsto> ys @ [f x]))(r \<mapsto> (ys @ [f x]) @ map f xs))"
    by (rule Cons.IH [OF 1(2)], rule fun_upd_same, erule nm, rule Cons.prems(4)) (use Cons.prems(5) in simp)
  then obtain h' where
    "foldM (\<lambda>i h. Option.bind (INIT_LIST_HEAD (Some (f i)) h) (list_add_tail (Some (f i)) (Some r))) xs h1 = Some h'"
    "heap_abs h' (L(r \<mapsto> (ys @ [f x]) @ map f xs))" by (simp only: fun_upd_upd) blast
  moreover have "Option.bind (INIT_LIST_HEAD (Some (f x)) h) (list_add_tail (Some (f x)) (Some r)) = Some h1"
    using init_add_tail [OF Cons.prems(1,2), of "f x"] Cons.prems(3) 1(1) by simp
  moreover have "ys @ map f (x # xs) = (ys @ [f x]) @ map f xs" by simp
  ultimately show ?case unfolding foldM.simps by (metis Option.bind.bind_lunit)
qed

section \<open>The tables\<close>

text \<open>\<open>foldM\<close> over operations on the list heap is \<open>on_lists\<close> of their \<open>foldM\<close>.\<close>

lemma foldM_on_lists: "foldM (\<lambda>i. on_lists (f i)) xs s = on_lists (foldM f xs) s"
proof (induction xs arbitrary: s)
  case Nil
  show ?case by (simp add: on_lists_def)
next
  case (Cons x xs)
  then show ?case by (cases "f x (lists s)") (simp_all add: on_lists_def)
qed

lemma on_lists_bind: "Option.bind (on_lists f s) (on_lists g) = on_lists (\<lambda>h. Option.bind (f h) g) s"
  by (cases "f (lists s)") (simp_all add: on_lists_def)

lemma rev_upt_nodes: "lnodes (Map.empty(r \<mapsto> xs)) = insert r (set xs)"
  by (auto simp: lnodes_def split: if_splits)

lemma lnodes_map_upd: "r \<notin> dom L \<Longrightarrow> lnodes (L(r \<mapsto> xs)) = lnodes L \<union> insert r (set xs)"
  by (auto simp: lnodes_def dom_def split: if_splits) (metis option.distinct(1))+

lemma initPcbs_boot:
  assumes "heap_abs (lists s) Map.empty"
  shows "\<exists>h. initPcbs s = Some (s\<lparr>lists := h\<rparr>) \<and>
    heap_abs h (Map.empty(PcbFree_h \<mapsto> map P_list (rev [0..<MAXPROC])))"
proof -
  from INIT_LIST_HEAD_abs [OF assms, of PcbFree_h] obtain h1 where
    1: "INIT_LIST_HEAD (Some PcbFree_h) (lists s) = Some h1" "heap_abs h1 (Map.empty(PcbFree_h \<mapsto> []))"
    by (auto simp: lnodes_def)
  have "\<exists>h'. foldM (\<lambda>i. list_add (Some (P_list i)) (Some PcbFree_h)) [0..<MAXPROC] h1 = Some h'
    \<and> heap_abs h' ((Map.empty(PcbFree_h \<mapsto> []))(PcbFree_h \<mapsto> rev (map P_list [0..<MAXPROC]) @ []))"
    by (rule foldM_list_add [OF 1(2)]) (auto simp: rev_upt_nodes inj_links)
  with 1(1) show ?thesis
    by (auto simp: initPcbs_def foldM_on_lists on_lists_def rev_map)
qed

lemma initASH_boot:
  assumes L: "heap_abs (lists s) L" and "SemdFree_h \<notin> lnodes L" and "\<And>i. S_freelink i \<notin> lnodes L"
    and "semd_h s = \<lparr>hfirst = (\<lambda>_. None), hnext = (\<lambda>_. None), hpprev = (\<lambda>_. None)\<rparr>"
  shows "\<exists>h. initASH s = Some (s\<lparr>lists := h\<rparr>) \<and>
    heap_abs h (L(SemdFree_h \<mapsto> map S_freelink (rev [0..<MAXPROC])))"
proof -
  from INIT_LIST_HEAD_abs [OF L, of SemdFree_h] assms(2) obtain h1 where
    1: "INIT_LIST_HEAD (Some SemdFree_h) (lists s) = Some h1" "heap_abs h1 (L(SemdFree_h \<mapsto> []))" by auto
  have "lnodes (L(SemdFree_h \<mapsto> [])) = lnodes L \<union> {SemdFree_h}"
    using lnodes_upd [OF L, of SemdFree_h "[]" "[]"] assms(2) by auto
  then have "\<exists>h'. foldM (\<lambda>i. list_add (Some (S_freelink i)) (Some SemdFree_h)) [0..<MAXPROC] h1 = Some h'
    \<and> heap_abs h' ((L(SemdFree_h \<mapsto> []))(SemdFree_h \<mapsto> rev (map S_freelink [0..<MAXPROC]) @ []))"
    using assms(3) by (intro foldM_list_add [OF 1(2)]) (auto simp: inj_links)
  moreover have "hash_init HASHSZ (semd_h s) = semd_h s"
  proof -
    have "hash_init_from i k (semd_h s) = semd_h s" for i k
      by (induction k arbitrary: i) (simp_all add: INIT_HLIST_HEAD_def assms(4) fun_upd_idem)
    then show ?thesis by (simp add: hash_init_def)
  qed
  ultimately show ?thesis using 1(1)
    by (auto simp: initASH_def foldM_on_lists on_lists_def on_hash_def rev_map)
qed

lemma initNamespaces_boot:
  assumes L: "heap_abs (lists s) L" and "PID_nsFree_h \<notin> lnodes L" and "PID_nsList_h \<notin> lnodes L"
    and "\<And>i. N_link i \<notin> lnodes L"
  shows "\<exists>h. initNamespaces s = Some (s\<lparr>lists := h\<rparr>) \<and>
    heap_abs h (L(PID_nsFree_h \<mapsto> map N_link [0..<MAXPROC], PID_nsList_h \<mapsto> []))"
proof -
  from INIT_LIST_HEAD_abs [OF L, of PID_nsFree_h] assms(2) obtain h1 where
    1: "INIT_LIST_HEAD (Some PID_nsFree_h) (lists s) = Some h1" "heap_abs h1 (L(PID_nsFree_h \<mapsto> []))" by auto
  have n1: "lnodes (L(PID_nsFree_h \<mapsto> [])) = lnodes L \<union> {PID_nsFree_h}"
    using lnodes_upd [OF L, of PID_nsFree_h "[]" "[]"] assms(2) by auto
  from INIT_LIST_HEAD_abs [OF 1(2), of PID_nsList_h] assms(3) obtain h2 where
    2: "INIT_LIST_HEAD (Some PID_nsList_h) h1 = Some h2"
    "heap_abs h2 (L(PID_nsFree_h \<mapsto> [], PID_nsList_h \<mapsto> []))" by (auto simp: n1)
  have n2: "lnodes (L(PID_nsFree_h \<mapsto> [], PID_nsList_h \<mapsto> [])) = lnodes L \<union> {PID_nsFree_h, PID_nsList_h}"
    using lnodes_upd [OF 1(2), of PID_nsList_h "[]" "[]"] assms(3) by (auto simp: n1)
  let ?b = "\<lambda>i h. Option.bind (INIT_LIST_HEAD (Some (N_link i)) h) (list_add_tail (Some (N_link i)) (Some PID_nsFree_h))"
  have "\<exists>h'. foldM ?b [0..<MAXPROC] h2 = Some h'
    \<and> heap_abs h' ((L(PID_nsFree_h \<mapsto> [], PID_nsList_h \<mapsto> []))(PID_nsFree_h \<mapsto> [] @ map N_link [0..<MAXPROC]))"
    using assms(4) by (intro foldM_init_add_tail [OF 2(2)]) (auto simp: n2 inj_links)
  then obtain h' where h': "foldM ?b [0..<MAXPROC] h2 = Some h'"
    "heap_abs h' (L(PID_nsFree_h \<mapsto> map N_link [0..<MAXPROC], PID_nsList_h \<mapsto> []))"
    by (auto simp: fun_upd_twist)
  have body: "(\<lambda>i s. do {
      s \<leftarrow> on_lists (INIT_LIST_HEAD (Some (N_link i))) s;
      on_lists (list_add_tail (Some (N_link i)) (Some PID_nsFree_h)) s
    }) = (\<lambda>i. on_lists (?b i))"
    by (simp add: fun_eq_iff on_lists_bind)
  have "initNamespaces s = Some (s\<lparr>lists := h'\<rparr>)"
    unfolding initNamespaces_def body foldM_on_lists
    using 1(1) 2(1) h'(1) by (simp add: on_lists_def)
  with h'(2) show ?thesis by blast
qed

section \<open>The kernel's first state\<close>

definition a_boot :: akernel where
  "a_boot = \<lparr>a_free = rev [0..<MAXPROC], a_ready = [], a_kids = (\<lambda>_. None), a_nsfree = [0..<MAXPROC],
     a_nslist = [], a_semfree = rev [0..<MAXPROC], a_procq = (\<lambda>_. None), a_bkt = (\<lambda>_. [])\<rparr>"

definition v_boot :: kview where
  "v_boot = \<lparr>v_free = rev [0..<MAXPROC], v_ready = [], v_kids = (\<lambda>_. []), v_nsfree = [0..<MAXPROC],
     v_nslist = [], v_semq = (\<lambda>_. [])\<rparr>"

lemma Lmap_boot: "Map.empty(PcbFree_h \<mapsto> map P_list (rev [0..<MAXPROC]),
    SemdFree_h \<mapsto> map S_freelink (rev [0..<MAXPROC]),
    PID_nsFree_h \<mapsto> map N_link [0..<MAXPROC], PID_nsList_h \<mapsto> [], Ready_queue \<mapsto> []) = Lmap a_boot"
  by (rule ext, case_tac x) (simp_all add: a_boot_def)

lemma kabs_boot:
  assumes "heap_abs (lists s) (Lmap a_boot)"
    and "semd_h s = \<lparr>hfirst = (\<lambda>_. None), hnext = (\<lambda>_. None), hpprev = (\<lambda>_. None)\<rparr>"
    and "\<And>p. p_parent (pcbs s p) = None \<and> p_semAdd (pcbs s p) = 0"
  shows "kabs s v_boot"
proof (rule kabsI [where a = a_boot])
  show "links s a_boot" using assms(1,2) hash_abs_empty by (simp add: links_def a_boot_def)
  have "hashed a_boot = {}" by (simp add: hashed_def hnodes_def a_boot_def)
  moreover have "queue_of a_boot i = []" for i by (simp add: queue_of_def a_boot_def)
  moreover have "a_bkt a_boot b = []" for b by (simp add: a_boot_def)
  moreover have "set (a_semfree a_boot) = {..<MAXPROC}" by (auto simp: a_boot_def)
  ultimately show "ash_inv s a_boot" using assms(3) by (simp add: ash_inv_def)
  have k: "kids_of a_boot p = []" for p by (simp add: kids_of_def a_boot_def)
  have "a_free a_boot = rev [0..<MAXPROC]" by (simp add: a_boot_def)
  then show "tree_inv s a_boot" using assms(3) by (simp add: tree_inv_def k)
  have "semq s a_boot k = []" for k by (simp add: semq_def desc_def a_boot_def)
  then show "v_boot = view s a_boot" using k by (simp add: view_def v_boot_def a_boot_def fun_eq_iff)
qed

text \<open>The memory after \<open>initDevSems\<close>: zero at every semaphore.\<close>

definition cleared_sems :: "umps \<Rightarrow> (u32 \<Rightarrow> u32) \<Rightarrow> u32 \<Rightarrow> u32" where
  "cleared_sems A m =
     (fold (\<lambda>i m. m(getDevSem A (of_nat i) := 0)) [0..<SEM_NUM A] m)(pseudo_clock_sem_addr A := 0)"

lemma fold_store_word: "fold (\<lambda>i. store_word (f i) 0) xs s = s\<lparr>mem := fold (\<lambda>i m. m(f i := 0)) xs (mem s)\<rparr>"
  by (induction xs arbitrary: s) (simp_all add: store_word_def)

lemma initDevSems_mem: "initDevSems A s = s\<lparr>mem := cleared_sems A (mem s)\<rparr>"
  by (simp add: initDevSems_def fold_store_word store_word_def cleared_sems_def)

lemma fold_clear: "fold (\<lambda>i m. m(f i := 0)) xs m a = (if a \<in> f ` set xs then 0 else m a)"
  by (induction xs arbitrary: m) auto

lemma cleared_sems: "cleared_sems A m a =
    (if a = getPseudoClockSem A \<or> (\<exists>i < SEM_NUM A. a = getDevSem A (of_nat i)) then 0 else m a)"
  by (auto simp: cleared_sems_def fold_clear getPseudoClockSem_def)

text \<open>Everything \<open>initKernel\<close> does before it creates the first process.\<close>

definition setup_tables :: "umps \<Rightarrow> kstate update" where
  "setup_tables A s = do {
     s \<leftarrow> initPcbs s;
     s \<leftarrow> initASH s;
     s \<leftarrow> initNamespaces s;
     let s = initDevSems A s;
     let s = s\<lparr>passupvector := \<lparr>tlb_refill_handler = uTLB_RefillHandler_addr A,
       tlb_refill_stackPtr = KERNELSTACK, exception_handler = exceptionHandler_addr A,
       exception_stackPtr = KERNELSTACK\<rparr>\<rparr>;
     initScheduler s
   }"

lemma setup_tables_boot:
  assumes z: "zeroed s"
  shows "\<exists>t. setup_tables A s = Some t \<and> kabs t v_boot \<and> process_count t = 0 \<and> soft_block_count t = 0
    \<and> current_active_process t = None \<and> pid_counter t = 1 \<and> start_time t = tod s \<and> pcbs t = pcbs s
    \<and> nsds t = nsds s \<and> bios_state t = bios_state s \<and> mem t = cleared_sems A (mem s)
    \<and> exception_handler (passupvector t) = exceptionHandler_addr A"
proof -
  have L0: "heap_abs (lists s) Map.empty" using z heap_abs_empty by (simp add: zeroed_def)
  have hh: "semd_h s = \<lparr>hfirst = (\<lambda>_. None), hnext = (\<lambda>_. None), hpprev = (\<lambda>_. None)\<rparr>"
    using z by (simp add: zeroed_def)
  let ?L1 = "Map.empty(PcbFree_h \<mapsto> map P_list (rev [0..<MAXPROC]))"
  from initPcbs_boot [OF L0] obtain h1 where 1: "initPcbs s = Some (s\<lparr>lists := h1\<rparr>)" "heap_abs h1 ?L1" by blast
  have n1: "lnodes ?L1 = insert PcbFree_h (P_list ` {..<MAXPROC})" by (auto simp: rev_upt_nodes)
  let ?L2 = "?L1(SemdFree_h \<mapsto> map S_freelink (rev [0..<MAXPROC]))"
  have "\<exists>h. initASH (s\<lparr>lists := h1\<rparr>) = Some (s\<lparr>lists := h1\<rparr>\<lparr>lists := h\<rparr>) \<and> heap_abs h ?L2"
    by (rule initASH_boot) (use 1 hh n1 in auto)
  then obtain h2 where 2: "initASH (s\<lparr>lists := h1\<rparr>) = Some (s\<lparr>lists := h2\<rparr>)" "heap_abs h2 ?L2" by auto
  have n2: "lnodes ?L2 = lnodes ?L1 \<union> insert SemdFree_h (S_freelink ` {..<MAXPROC})"
    by (subst lnodes_map_upd) auto
  let ?L3 = "?L2(PID_nsFree_h \<mapsto> map N_link [0..<MAXPROC], PID_nsList_h \<mapsto> [])"
  have "\<exists>h. initNamespaces (s\<lparr>lists := h2\<rparr>) = Some (s\<lparr>lists := h2\<rparr>\<lparr>lists := h\<rparr>) \<and> heap_abs h ?L3"
    by (rule initNamespaces_boot) (use 2 n1 n2 in auto)
  then obtain h3 where 3: "initNamespaces (s\<lparr>lists := h2\<rparr>) = Some (s\<lparr>lists := h3\<rparr>)" "heap_abs h3 ?L3" by auto
  have n3: "Ready_queue \<notin> lnodes ?L3" by (auto simp: lnodes_def split: if_splits)
  from heap_abs_null [OF 3(2) n3] have "list_empty (Some Ready_queue) h3 = Some False"
    by (simp add: list_empty_def get_next_def)
  moreover from INIT_LIST_HEAD_abs [OF 3(2), of Ready_queue] n3 obtain h4 where
    4: "INIT_LIST_HEAD (Some Ready_queue) h3 = Some h4" "heap_abs h4 (Lmap a_boot)"
    by (auto simp: Lmap_boot)
  ultimately show ?thesis
    using 1(1) 2(1) 3(1) z hh
    by (auto simp: setup_tables_def initScheduler_def mkEmptyProcQ_def on_lists_def Let_def zeroed_def initDevSems_mem
        intro!: kabs_boot)
qed

text \<open>
  The first process is PCB 19, the last one \<open>initPcbs\<close> puts on the free list.  It is ready, has
  pid 1 and no parent, and starts at \<open>test\<close> with interrupts on, in kernel mode.
\<close>

definition first_pcb :: nat where "first_pcb = 19"

definition v_first :: kview where
  "v_first = v_boot\<lparr>v_free := rev [0..<first_pcb], v_ready := [first_pcb]\<rparr>"

definition boot_proc :: "umps \<Rightarrow> kstate \<Rightarrow> kstate" where
  "boot_proc A t = set_pcb first_pcb (reset_pcb A) (resetIntervalTimer t)"

definition first_kernel_state :: "umps \<Rightarrow> u32 \<Rightarrow> kstate \<Rightarrow> kstate" where
  "first_kernel_state A pc t =
     set_pcb first_pcb (\<lambda>b. b\<lparr>p_pid := pid_counter t, p_s := entry_state A pc (RAMTOP t) (p_s b)\<rparr>)
       (boot_proc A t\<lparr>process_count := process_count t + 1, pid_counter := pid_counter t + 1\<rparr>)"

lemma v_boot_free: "v_free v_boot = first_pcb # rev [0..<first_pcb]"
proof -
  have "[0..<MAXPROC] = [0..<first_pcb] @ [first_pcb]" by (simp add: MAXPROC_def first_pcb_def upt_conv_Cons)
  then show ?thesis by (simp add: v_boot_def)
qed

lemma initKernel_setup: "initKernel A pc s = do {
     s \<leftarrow> setup_tables A s;
     let s = resetIntervalTimer s;
     (proc, s) \<leftarrow> allocPcb A s;
     if proc = None then Some (Some PANIC, s)
     else do {
       s \<leftarrow> enqueueReady proc s;
       let s = incrementProcessCount s;
       let (pid, s) = getNewPid s;
       s \<leftarrow> store_pcb proc (\<lambda>b. b\<lparr>p_pid := pid\<rparr>) s;
       s \<leftarrow> store_pcb proc (\<lambda>b. b\<lparr>p_s := entry_state A pc (RAMTOP s) (p_s b)\<rparr>) s;
       Some (None, s)
     }
   }"
  by (simp add: initKernel_def setup_tables_def Let_def)

lemma first_process:
  assumes t: "kabs t v_boot" and "current_active_process t = None"
  shows "runs_to (do {
     let s = resetIntervalTimer t;
     (proc, s) \<leftarrow> allocPcb A s;
     if proc = None then Some (Some PANIC, s)
     else do {
       s \<leftarrow> enqueueReady proc s;
       let s = incrementProcessCount s;
       let (pid, s) = getNewPid s;
       s \<leftarrow> store_pcb proc (\<lambda>b. b\<lparr>p_pid := pid\<rparr>) s;
       s \<leftarrow> store_pcb proc (\<lambda>b. b\<lparr>p_s := entry_state A pc (RAMTOP s) (p_s b)\<rparr>) s;
       Some (None, s)
     }
   }) None (first_kernel_state A pc t) v_first"
proof -
  have k: "kabs (resetIntervalTimer t) v_boot" using t by (simp add: resetIntervalTimer_def)
  have a: "runs_to (allocPcb A (resetIntervalTimer t)) (Some first_pcb) (boot_proc A t)
      (v_boot\<lparr>v_free := rev [0..<first_pcb]\<rparr>)"
    unfolding boot_proc_def by (rule allocPcb_view [OF k v_boot_free])
  show ?thesis
    unfolding Let_def
  proof (rule runs_to_bind [OF a], simp only: prod.case option.simps if_False)
    fix h hh ds
    let ?s = "relink h hh ds (boot_proc A t)"
    assume s: "kabs ?s (v_boot\<lparr>v_free := rev [0..<first_pcb]\<rparr>)"
    have cur: "clear_current first_pcb ?s = ?s"
      using assms(2) by (simp add: clear_current_def boot_proc_def set_pcb_def resetIntervalTimer_def)
    have "ends_in (enqueueReady (Some first_pcb) ?s) ?s v_first"
      using enqueueReady_view [OF s, of first_pcb] cur
      by (simp add: v_first_def v_boot_def boot_proc_def set_pcb_def reset_pcb_def)
    then show "runs_to (do {
       s \<leftarrow> enqueueReady (Some first_pcb) ?s;
       case getNewPid (incrementProcessCount s) of (pid, s) \<Rightarrow> do {
         s \<leftarrow> store_pcb (Some first_pcb) (\<lambda>b. b\<lparr>p_pid := pid\<rparr>) s;
         s \<leftarrow> store_pcb (Some first_pcb) (\<lambda>b. b\<lparr>p_s := entry_state A pc (RAMTOP s) (p_s b)\<rparr>) s;
         Some (None, s)
       }}) None (relink h hh ds (first_kernel_state A pc t)) v_first"
    proof (rule ends_in_bind_runs)
      fix h' hh' ds'
      assume e: "kabs (relink h' hh' ds' ?s) v_first"
      have e': "kabs (relink h' hh' ds' (first_kernel_state A pc t)) v_first"
        by (rule kabs_cong [OF e]) (simp_all add: first_kernel_state_def set_pcb_def boot_proc_def)
      show "runs_to (case getNewPid (incrementProcessCount (relink h' hh' ds' ?s)) of (pid, s) \<Rightarrow> do {
         s \<leftarrow> store_pcb (Some first_pcb) (\<lambda>b. b\<lparr>p_pid := pid\<rparr>) s;
         s \<leftarrow> store_pcb (Some first_pcb) (\<lambda>b. b\<lparr>p_s := entry_state A pc (RAMTOP s) (p_s b)\<rparr>) s;
         Some (None, s)
       }) None (relink h' hh' ds' (relink h hh ds (first_kernel_state A pc t))) v_first"
        using e' by (auto intro!: runs_to_SomeI elim!: kabs_cong simp: first_kernel_state_def set_pcb_def boot_proc_def
            getNewPid_def incrementProcessCount_def RAMTOP_def resetIntervalTimer_def)
    qed
  qed
qed

lemma first_inv: "inv_core (first_kernel_state A pc t) v_first" if "process_count t = 0"
proof -
  have "length (v_free v_first) = 19" by (simp add: v_first_def v_boot_def first_pcb_def)
  moreover have "kid_rel v_first = {}" by (simp add: kid_rel_def v_first_def v_boot_def)
  moreover have "in_table v_first"
    by (auto simp: in_table_def kid_rel_def v_first_def v_boot_def first_pcb_def MAXPROC_def)
  ultimately show ?thesis
    using that by (simp add: inv_core_def first_kernel_state_def set_pcb_def boot_proc_def MAXPROC_def
        resetIntervalTimer_def acyclic_def)
qed

lemma initKernel_boot:
  assumes "zeroed s"
  shows "\<exists>t. initKernel A pc s = Some (None, t) \<and> kinv t v_first \<and> process_count t = 1
    \<and> soft_block_count t = 0 \<and> current_active_process t = None \<and> pid_counter t = 2
    \<and> mem t = cleared_sems A (mem s) \<and> p_pid (pcbs t first_pcb) = 1
    \<and> p_s (pcbs t first_pcb) = entry_state A pc (RAMTOP t) (reset_state A (p_s (pcbs s first_pcb)))
    \<and> namespaces (pcbs t first_pcb) = namespaces (pcbs s first_pcb)
    \<and> (\<forall>q. p_savedDeviceStatus (pcbs t q) \<in> {0, p_savedDeviceStatus (pcbs s q)})"
proof -
  from setup_tables_boot [OF assms, of A] obtain u where u: "setup_tables A s = Some u" "kabs u v_boot"
    "process_count u = 0" "soft_block_count u = 0" "current_active_process u = None" "pid_counter u = 1"
    "pcbs u = pcbs s" "mem u = cleared_sems A (mem s)" by blast
  from first_process [OF u(2,5), of A pc] obtain h hh ds where
    t: "initKernel A pc s = Some (None, relink h hh ds (first_kernel_state A pc u))"
    "kabs (relink h hh ds (first_kernel_state A pc u)) v_first"
    by (auto simp: initKernel_setup u(1) elim: runs_toE)
  let ?t = "relink h hh ds (first_kernel_state A pc u)"
  have "kinv ?t v_first"
    using t(2) first_inv [OF u(3), of A pc] u(5)
    by (simp add: kinv_def cur_ok_def first_kernel_state_def set_pcb_def boot_proc_def resetIntervalTimer_def)
  with t(1) u show ?thesis
    by (intro exI [of _ ?t]) (simp add: first_kernel_state_def set_pcb_def boot_proc_def reset_pcb_def
        resetIntervalTimer_def RAMTOP_def)
qed

text \<open>\<open>main\<close> ends in the first process: nothing panics and nothing halts.\<close>

lemma main_entry_boot:
  assumes "zeroed s"
  shows "\<exists>t. main_entry A s = Some (LDST (p_s (pcbs t first_pcb)), t)
    \<and> kinv t (v_first\<lparr>v_ready := []\<rparr>) \<and> current_active_process t = Some first_pcb
    \<and> process_count t = 1 \<and> soft_block_count t = 0 \<and> p_pid (pcbs t first_pcb) = 1
    \<and> p_s (pcbs t first_pcb) = entry_state A (test_addr A) (RAMTOP t) (reset_state A (p_s (pcbs s first_pcb)))
    \<and> namespaces (pcbs t first_pcb) = namespaces (pcbs s first_pcb) \<and> mem t = cleared_sems A (mem s)
    \<and> pid_counter t = 2 \<and> (\<forall>q. p_savedDeviceStatus (pcbs t q) \<in> {0, p_savedDeviceStatus (pcbs s q)})"
proof -
  from initKernel_boot [OF assms, of A "test_addr A"] obtain u where
    u: "initKernel A (test_addr A) s = Some (None, u)" "kinv u v_first" "process_count u = 1"
    "soft_block_count u = 0" "p_pid (pcbs u first_pcb) = 1" "mem u = cleared_sems A (mem s)" "pid_counter u = 2"
    "p_s (pcbs u first_pcb) = entry_state A (test_addr A) (RAMTOP u) (reset_state A (p_s (pcbs s first_pcb)))"
    "namespaces (pcbs u first_pcb) = namespaces (pcbs s first_pcb)"
    "\<forall>q. p_savedDeviceStatus (pcbs u q) \<in> {0, p_savedDeviceStatus (pcbs s q)}" by blast
  have r: "v_ready v_first = [first_pcb]" by (simp add: v_first_def)
  note k = kinvD(1,2) [OF u(2)]
  from runs_to_kinv [OF schedule_dispatch [OF k(1) r] dispatch_inv [OF k r]] obtain h hh ds where
    "schedule u = Some (LDST (p_s (pcbs u first_pcb)), relink h hh ds (running first_pcb u))"
    "kinv (relink h hh ds (running first_pcb u)) (v_first\<lparr>v_ready := []\<rparr>)" by blast
  with u show ?thesis
    by (intro exI [of _ "relink h hh ds (running first_pcb u)"]) (simp add: main_entry_def running_def RAMTOP_def)
qed

end
