(* ===== verification/Kernel_Step.thy ===== *)
theory Kernel_Step
  imports Kernel_Total Boot
begin

text \<open>
  The life of the machine as a step relation, and what holds in every reachable state.

  A configuration is how the last handler ended and the state it left.  While a process runs,
  or while the processor waits, memory, devices, timers and the processor registers change in
  any way; the tables of the kernel do not.  Then an exception is raised: the BIOS saves the
  processor state, whatever it is, and calls \<open>exceptionHandler\<close>.  Only an interrupt ends a
  \<open>WAIT\<close>; nothing follows \<open>HALT\<close> and \<open>PANIC\<close>.
\<close>

section \<open>Steps\<close>

definition outside :: "kstate \<Rightarrow> kstate \<Rightarrow> bool" where
  "outside s s' \<longleftrightarrow> (\<exists>m u b st ca t i c. s' = s\<lparr>mem := m, supports := u, bios_state := b,
     reg_STATUS := st, reg_CAUSE := ca, reg_TIMER := t, interval_timer := i, tod := c\<rparr>)"

lemma outside_update: "outside s (s\<lparr>mem := m, bios_state := b, reg_STATUS := st\<rparr>)"
  unfolding outside_def
  by (intro exI [of _ m] exI [of _ "supports s"] exI [of _ b] exI [of _ st] exI [of _ "reg_CAUSE s"]
      exI [of _ "reg_TIMER s"] exI [of _ "interval_timer s"] exI [of _ "tod s"]) (cases s, simp)

inductive kstep :: "umps \<Rightarrow> outcome \<times> kstate \<Rightarrow> outcome \<times> kstate \<Rightarrow> bool" for A where
  outside: "gives_processor out \<or> out = WAIT \<Longrightarrow> outside s s' \<Longrightarrow> kstep A (out, s) (out, s')"
| exception: "gives_processor out \<Longrightarrow> exceptionHandler A s = Some c \<Longrightarrow> kstep A (out, s) c"
| interrupt: "exc_code A s = EXC_INT A \<Longrightarrow> exceptionHandler A s = Some c \<Longrightarrow> kstep A (WAIT, s) c"

inductive_cases kstepE [elim]: "kstep A (out, s) c"

inductive_simps kstep_halt: "kstep A (HALT, s) c"
inductive_simps kstep_panic: "kstep A (PANIC, s) c"

inductive reachable :: "umps \<Rightarrow> outcome \<times> kstate \<Rightarrow> bool" for A where
  boot: "zeroed s \<Longrightarrow> main_entry A s = Some c \<Longrightarrow> reachable A c"
| step: "reachable A c \<Longrightarrow> kstep A c c' \<Longrightarrow> reachable A c'"

lemma stopped: "\<not> kstep A (HALT, s) c" "\<not> kstep A (PANIC, s) c"
  by (simp_all add: kstep_halt kstep_panic gives_processor_def)

section \<open>The invariant of the reachable states\<close>

lemma outside_wf: "outside s s' \<Longrightarrow> wf_kernel s \<Longrightarrow> goes_on s s'"
  by (auto simp: outside_def goes_on_def wf_kernel_def)

lemma kstep_settled: "kstep A c c' \<Longrightarrow> settled c \<Longrightarrow> settled c'"
proof (induction rule: kstep.induct)
  case (outside out s s')
  then show ?case using outside_wf [of s s'] by (auto simp: settled_def goes_on_def)
next
  case (exception out s c)
  then have "wf_kernel s" "current_active_process s \<noteq> None" by (auto simp: settled_def)
  with exception(2) show ?case by (blast intro: exceptionHandler_settled)
next
  case (interrupt s c)
  then have "wf_kernel s" by (simp add: settled_def)
  with interrupt(1,2) show ?case by (blast intro: exceptionHandler_settled)
qed

lemma boot_settled:
  assumes "zeroed s" and "main_entry A s = Some c"
  shows "settled c"
proof -
  from main_entry_boot [OF assms(1), of A] obtain t where
    "main_entry A s = Some (LDST (p_s (pcbs t first_pcb)), t)" "kinv t (v_first\<lparr>v_ready := []\<rparr>)"
    "current_active_process t = Some first_pcb" by blast
  with assms(2) show ?thesis by (auto simp: settled_def wf_kernel_def gives_processor_def)
qed

lemma reachable_settled: "reachable A c \<Longrightarrow> settled c"
  by (induction rule: reachable.induct) (auto intro: boot_settled kstep_settled)

text \<open>What the invariant says of the places a PCB can be in.\<close>

definition placed :: "kstate \<Rightarrow> kview \<Rightarrow> bool" where
  "placed s v \<longleftrightarrow> distinct (v_free v @ v_ready v) \<and> set (v_free v @ v_ready v) \<subseteq> {..<MAXPROC} \<and>
     (\<forall>k. distinct (v_semq v k) \<and> set (v_semq v k) \<subseteq> {..<MAXPROC} - set (v_free v @ v_ready v)) \<and>
     (\<forall>k k'. k \<noteq> k' \<longrightarrow> set (v_semq v k) \<inter> set (v_semq v k') = {}) \<and>
     (\<forall>p. current_active_process s = Some p \<longrightarrow>
        p < MAXPROC \<and> p \<notin> set (v_free v @ v_ready v) \<and> (\<forall>k. p \<notin> set (v_semq v k)))"

lemma kinv_placed: "kinv s v \<Longrightarrow> placed s v"
  unfolding placed_def
proof (intro conjI allI impI)
  assume inv: "kinv s v"
  note k = kinvD(1) [OF inv] and tab = kinvD(3) [OF inv]
  show "distinct (v_free v @ v_ready v)" using kabs_facts(1,2,7) [OF k] by simp
  show "set (v_free v @ v_ready v) \<subseteq> {..<MAXPROC}" using tab by (auto simp: in_table_def)
  show "distinct (v_semq v key)" for key using kabs_facts(4) [OF k] .
  show "set (v_semq v key) \<subseteq> {..<MAXPROC} - set (v_free v @ v_ready v)" for key
    using blocked_not_elsewhere(3,4) [OF k, of _ key] in_tableD(3) [OF tab, of _ key] by auto
  show "set (v_semq v key) \<inter> set (v_semq v key') = {}" if "key \<noteq> key'" for key key'
    using that blocked_not_elsewhere(1) [OF k] by blast
  fix p assume c: "current_active_process s = Some p"
  note q = kinvD(5) [OF inv c]
  show "p < MAXPROC" "p \<notin> set (v_free v @ v_ready v)" using q by (auto simp: v_queued_def)
  show "p \<notin> set (v_semq v key)" for key
    using q blocked_not_elsewhere(1,2) [OF k, of p key] by (auto simp: v_queued_def)
qed

section \<open>Progress\<close>

lemma running_served:
  assumes "reachable A (out, s)" and "gives_processor out" and "machine_ok A"
  shows "\<exists>v c. kinv s v \<and> current_active_process s = Some c \<and>
    ((\<exists>c'. exceptionHandler A s = Some c') \<longleftrightarrow>
      (exc_code A s = EXC_SYS A \<and> kernel_mode A s \<longrightarrow> syscall_ok A v c s))"
proof -
  from reachable_settled [OF assms(1)] assms(2) obtain v c where
    v: "kinv s v" "current_active_process s = Some c" by (auto simp: settled_def wf_kernel_def)
  from exceptionHandler_served [OF v assms(3)] v show ?thesis by (metis option.exhaust option.simps(3))
qed

lemma waiting_served:
  assumes "reachable A (WAIT, s)" and "machine_ok A" and "exc_code A s = EXC_INT A"
    and "\<not> (INT_LINE A 1 s \<and> timer_enabled A s)"
  shows "\<exists>c. exceptionHandler A s = Some c"
proof -
  from reachable_settled [OF assms(1)] have w: "wf_kernel s" "current_active_process s = None"
    by (auto simp: settled_def gives_processor_def)
  then have "exceptionHandler A s = interruptHandler A s"
    using assms(3) by (simp add: exceptionHandler_def exc_code_def update_time_def currentProc_def)
  with interruptHandler_total [OF w(1), of A] assms(2,4) show ?thesis by (auto simp: machine_ok_def)
qed

end
