(* ===== verification/Handler_Abs.thy ===== *)
theory Handler_Abs
  imports Kernel_Total
begin

text \<open>
  Whole handlers on the view: the semaphore calls that do not block, pass up or die, and the
  interrupts of the two timers from the exception to the process that runs next.
\<close>

section \<open>Semaphore calls that do not block\<close>

lemma runs_to_return:
  assumes "runs_to m (0::nat) t v" and "bios_state t = b"
  shows "runs_to (do { (r, s) \<leftarrow> m; if r \<noteq> 0 then save_and_schedule s else return_to_caller s }) (LDST b) t v"
proof -
  from assms(1) obtain h hh ds where "m = Some (0, relink h hh ds t)" "kabs (relink h hh ds t) v" by (rule runs_toE)
  then show ?thesis unfolding runs_to_def using assms(2)
    by (intro exI [of _ h] exI [of _ hh] exI [of _ ds]) (simp add: return_to_caller_def)
qed

text \<open>The caller goes on; the first process waiting on the semaphore becomes ready.\<close>

lemma SYS3_goes_on:
  assumes inv: "kinv s v" and mode: "kernel_mode A s" and call: "sys_code A s = PASSEREN"
    and k: "FIRST_PARAM A s = k" "k \<noteq> 0" "mem s k \<noteq> 0"
  shows "case v_semq v k of
      [] \<Rightarrow> syscallHandler A s = Some (LDST (bios_state (advanced s)), store_word k (mem s k - 1) (advanced s))
    | q # _ \<Rightarrow> runs_to (syscallHandler A s) (LDST (bios_state (advanced s))) (set_semAdd q 0 (advanced s)) (v_wake k v)"
proof -
  note inv' = kinv_advanced [OF inv]
  have sw: "syscallHandler A s = (do { (r, s) \<leftarrow> passeren k (advanced s);
      if r \<noteq> 0 then save_and_schedule s else return_to_caller s })"
    using call k(1) by (simp add: syscallHandler_kernel [OF mode] syscall_switch_def sys_code_def advanced_def
        FIRST_PARAM_def syscall_codes)
  show ?thesis
  proof (cases "v_semq v k")
    case Nil
    with passeren_pass [OF kinvD(1) [OF inv'] k(2) _ Nil] k(3) show ?thesis
      by (simp add: sw return_to_caller_def) (simp add: store_word_def)
  next
    case (Cons q qs)
    have c: "clear_current q (set_semAdd q 0 (advanced s)) = set_semAdd q 0 (advanced s)"
      using not_current_woken [OF inv', of q k] Cons by (simp add: clear_current_def set_semAdd_def)
    have m: "mem (advanced s) k \<noteq> 0" using k(3) by simp
    from passeren_wake [OF kinvD(1) [OF inv'] m Cons] c
    have "runs_to (passeren k (advanced s)) 0 (set_semAdd q 0 (advanced s)) (v_wake k v)" by simp
    from runs_to_return [OF this, of "bios_state (advanced s)"] Cons show ?thesis
      by (simp add: sw set_semAdd_def)
  qed
qed

lemma SYS4_goes_on:
  assumes inv: "kinv s v" and mode: "kernel_mode A s" and call: "sys_code A s = VERHOGEN"
    and k: "FIRST_PARAM A s = k" "k \<noteq> 0" "mem s k \<noteq> 1"
  shows "case v_semq v k of
      [] \<Rightarrow> syscallHandler A s = Some (LDST (bios_state (advanced s)), store_word k (mem s k + 1) (advanced s))
    | q # _ \<Rightarrow> runs_to (syscallHandler A s) (LDST (bios_state (advanced s))) (set_semAdd q 0 (advanced s)) (v_wake k v)"
proof -
  note inv' = kinv_advanced [OF inv]
  have sw: "syscallHandler A s = (do { (r, s) \<leftarrow> verhogen k (advanced s);
      if r \<noteq> 0 then save_and_schedule s else return_to_caller s })"
    using call k(1) by (simp add: syscallHandler_kernel [OF mode] syscall_switch_def sys_code_def advanced_def
        FIRST_PARAM_def syscall_codes)
  show ?thesis
  proof (cases "v_semq v k")
    case Nil
    with verhogen_pass [OF kinvD(1) [OF inv'] k(2) _ Nil] k(3) show ?thesis
      by (simp add: sw return_to_caller_def) (simp add: store_word_def)
  next
    case (Cons q qs)
    have c: "clear_current q (set_semAdd q 0 (advanced s)) = set_semAdd q 0 (advanced s)"
      using not_current_woken [OF inv', of q k] Cons by (simp add: clear_current_def set_semAdd_def)
    have m: "mem (advanced s) k \<noteq> 1" using k(3) by simp
    from verhogen_wake [OF kinvD(1) [OF inv'] m Cons] c
    have "runs_to (verhogen k (advanced s)) 0 (set_semAdd q 0 (advanced s)) (v_wake k v)" by simp
    from runs_to_return [OF this, of "bios_state (advanced s)"] Cons show ?thesis
      by (simp add: sw set_semAdd_def)
  qed
qed

section \<open>Creation with an empty pool, termination by pid\<close>

lemma SYS1_full:
  assumes inv: "kinv s v" and mode: "kernel_mode A s" and call: "sys_code A s = CREATEPROCESS"
    and nsd: "nsd_of_addr A (THIRD_PARAM A s) = Some nsd" and full: "v_free v = []"
  shows "syscallHandler A s = Some (LDST (set_v0 A (-1) (bios_state (advanced s))),
    (advanced s)\<lparr>bios_state := set_v0 A (-1) (bios_state (advanced s))\<rparr>)"
proof -
  have "createProcess A st supp nsd (advanced s) = Some (-1, advanced s)" for st supp
    by (rule createProcess_full [OF kinvD(1) [OF kinv_advanced [OF inv]] full])
  moreover have "sys_code A (advanced s) = CREATEPROCESS" "nsd_of_addr A (THIRD_PARAM A (advanced s)) = Some nsd"
    using call nsd by (simp_all add: advanced_params)
  ultimately show ?thesis
    by (simp add: syscallHandler_kernel [OF mode] syscall_switch_def sys_code_def RETURN_SYS_VALUE_def return_to_caller_def)
qed

lemma SYS2_unlisted:
  assumes inv: "kinv s v" and cur: "current_active_process s = Some c" and mode: "kernel_mode A s"
    and call: "sys_code A s = TERMPROCESS" and pid: "FIRST_PARAM A s \<noteq> 0"
    and none: "\<forall>p \<in> set (v_ready v) \<union> v_blocked v. p_pid (pcbs s p) \<noteq> FIRST_PARAM A s"
  shows "syscallHandler A s = None"
proof -
  have cur': "current_active_process (advanced s) = Some c" using cur by simp
  have "\<not> (\<exists>p \<in> set (v_ready v) \<union> v_blocked v. p_pid (pcbs (advanced s) p) = FIRST_PARAM A s)" using none by simp
  with SYS2_served [OF kinv_advanced [OF inv] cur', of "FIRST_PARAM A s" A] pid
  have "(do { p \<leftarrow> (if FIRST_PARAM A s = 0 then Some (currentProc (advanced s))
      else findPcb (FIRST_PARAM A s) getReadyQueue (advanced s)); terminateProcess A p (advanced s) }) = None"
    by blast
  moreover have "sys_code A (advanced s) = TERMPROCESS" using call by simp
  ultimately show ?thesis
    by (simp add: syscallHandler_kernel [OF mode] syscall_switch_def sys_code_def syscall_codes Let_def)
qed

section \<open>Pass up or die\<close>

definition passed_up :: "nat \<Rightarrow> u32 \<Rightarrow> kstate \<Rightarrow> kstate" where
  "passed_up n a s = s\<lparr>supports := (supports s)(a := (supports s a)
     \<lparr>sup_exceptState := (sup_exceptState (supports s a))(n := bios_state s)\<rparr>)\<rparr>"

lemma passUpOrDie_up:
  assumes "current_active_process s = Some p" and "p_supportStruct (pcbs s p) = a" and "a \<noteq> 0"
    and "n = PGFAULTEXCEPT \<or> n = GENERALEXCEPT"
  shows "passUpOrDie A n s = Some (LDCXT (ctx_stackPtr (sup_exceptContext (supports s a) n))
      (ctx_status (sup_exceptContext (supports s a) n)) (ctx_pc (sup_exceptContext (supports s a) n)), passed_up n a s)"
  using assms by (simp add: passUpOrDie_def currentProc_def Let_def passed_up_def)

lemma passUpOrDie_die:
  assumes "kinv s v" and "current_active_process s = Some p" and "p_supportStruct (pcbs s p) = 0"
    and "n = PGFAULTEXCEPT \<or> n = GENERALEXCEPT"
  shows "\<exists>fs. set fs = set (v_free v) \<union> desc_of (kid_rel v) p \<and>
    resumes (passUpOrDie A n s) (reaped A (desc_of (kid_rel v) p) s)
      (v_reaped (desc_of (kid_rel v) p) fs (v_orphan p v))"
proof -
  have "p < MAXPROC" "p \<notin> set (v_free v)" using kinvD(5) [OF assms(1,2)] by (auto simp: v_queued_def)
  from terminateProcess_resumes [OF kinvD(1,2) [OF assms(1)] this, of A] assms(2-4) show ?thesis
    by (auto simp: passUpOrDie_def currentProc_def)
qed

section \<open>The timers\<close>

definition pending_only :: "umps \<Rightarrow> u32 \<Rightarrow> kstate \<Rightarrow> bool" where
  "pending_only A line s \<longleftrightarrow> INT_LINE A line s \<and>
     (\<forall>l \<in> {1, 2, DISKINT A, FLASHINT A, NETWINT A, PRNTINT A, TERMINT A} - {line}. \<not> INT_LINE A l s)"

lemma when_line_off: "\<not> INT_LINE A l s \<Longrightarrow> when_line A l f s = Some s"
  by (simp add: when_line_def)

lemma when_line_on: "INT_LINE A l s \<Longrightarrow> when_line A l f s = f s"
  by (simp add: when_line_def)

lemma other_lines_clock:
  assumes "when_line A 2 (clock_interrupt A) s0 = Some s"
    and "\<forall>l \<in> {DISKINT A, FLASHINT A, NETWINT A, PRNTINT A, TERMINT A}. \<not> INT_LINE A l s"
  shows "other_lines A s0 = Some s"
  using assms by (simp add: other_lines_def when_line_off)

lemma INT_LINE_cong: "reg_CAUSE s' = reg_CAUSE s \<Longrightarrow> INT_LINE A l s' = INT_LINE A l s"
  by (simp add: INT_LINE_def)

text \<open>The end of a time slice: the running process goes to the end of the ready queue.\<close>

lemma timer_interrupt:
  assumes inv: "kinv s v" and cur: "current_active_process s = Some p" and on: "timer_enabled A s"
    and line: "pending_only A 1 s" and A: "1 \<notin> {DISKINT A, FLASHINT A, NETWINT A, PRNTINT A, TERMINT A}"
  shows "resumes (interruptHandler A s) (preempted p s) (v\<lparr>v_ready := v_ready v @ [p]\<rparr>)"
proof -
  let ?v = "v\<lparr>v_ready := v_ready v @ [p]\<rparr>"
  obtain h hh ds where
    1: "plt_interrupt A s = Some (relink h hh ds (preempted p s))" "kinv (relink h hh ds (preempted p s)) ?v"
    using plt_interrupt_ok [OF inv cur on] by (rule ends_okE)
  let ?t = "relink h hh ds (preempted p s)"
  have c: "reg_CAUSE ?t = reg_CAUSE s" by (simp add: preempted_def set_pcb_def)
  have off: "\<not> INT_LINE A l ?t" if "l \<in> {2, DISKINT A, FLASHINT A, NETWINT A, PRNTINT A, TERMINT A}" for l
    using that line A unfolding INT_LINE_cong [OF c] pending_only_def by auto
  have "when_line A 2 (clock_interrupt A) ?t = Some ?t" by (rule when_line_off [OF off]) simp
  then have o: "other_lines A ?t = Some ?t" by (rule other_lines_clock) (use off in simp)
  have "currentProc ?t = None" by (simp add: currentProc_def preempted_def)
  moreover have "when_line A 1 (plt_interrupt A) s = Some ?t"
    using line 1(1) by (simp add: when_line_on pending_only_def)
  ultimately have "interruptHandler A s = schedule ?t" using o by (simp add: interruptHandler_lines)
  with schedule_resumes [OF kinvD(1,2) [OF 1(2)]] show ?thesis by (simp add: resumes_relink)
qed

text \<open>The clock tick: whoever waits for the clock becomes ready, and the running process goes on.\<close>

lemma reg_CAUSE_ticked: "reg_CAUSE (ticked A v s) = reg_CAUSE s"
proof -
  have "reg_CAUSE (wake_procs ps t) = reg_CAUSE t" for ps t
    by (induction ps arbitrary: t) (simp_all add: decrementSoftBlockCount_def clear_current_def set_semAdd_def)
  then show ?thesis by (simp add: ticked_def store_word_def resetIntervalTimer_def)
qed

lemma bios_state_ticked: "bios_state (ticked A v s) = bios_state s"
proof -
  have "bios_state (wake_procs ps t) = bios_state t" for ps t
    by (induction ps arbitrary: t) (simp_all add: decrementSoftBlockCount_def clear_current_def set_semAdd_def)
  then show ?thesis by (simp add: ticked_def store_word_def resetIntervalTimer_def)
qed

lemma current_ticked:
  assumes "kinv s v"
  shows "current_active_process (ticked A v s) = current_active_process s"
proof -
  have "current_active_process (resetIntervalTimer s) \<notin> Some ` set (v_semq v (getPseudoClockSem A))"
    using not_current_woken [OF assms, of _ "getPseudoClockSem A"] by (auto simp: resetIntervalTimer_def)
  from wake_procs_current [OF this] show ?thesis by (simp add: ticked_def store_word_def resetIntervalTimer_def)
qed

lemma clock_tick:
  assumes inv: "kinv s v" and line: "pending_only A 2 s"
    and A: "2 \<notin> {DISKINT A, FLASHINT A, NETWINT A, PRNTINT A, TERMINT A}"
  shows "if current_active_process s = None
    then resumes (interruptHandler A s) (ticked A v s) (v_wake_all (getPseudoClockSem A) v)
    else runs_to (interruptHandler A s) (LDST (bios_state s)) (ticked A v s) (v_wake_all (getPseudoClockSem A) v)"
proof -
  let ?v = "v_wake_all (getPseudoClockSem A) v"
  obtain h hh ds where
    1: "clock_interrupt A s = Some (relink h hh ds (ticked A v s))" "kinv (relink h hh ds (ticked A v s)) ?v"
    using clock_interrupt_ok [OF inv] by (rule ends_okE)
  let ?t = "relink h hh ds (ticked A v s)"
  have c: "reg_CAUSE ?t = reg_CAUSE s" by (simp add: reg_CAUSE_ticked)
  have off: "\<not> INT_LINE A l ?t" if "l \<in> {DISKINT A, FLASHINT A, NETWINT A, PRNTINT A, TERMINT A}" for l
    using that line A unfolding INT_LINE_cong [OF c] pending_only_def by auto
  have "when_line A 2 (clock_interrupt A) s = Some ?t" using line 1(1) by (simp add: when_line_on pending_only_def)
  then have o: "other_lines A s = Some ?t" by (rule other_lines_clock) (use off in simp)
  have "\<not> INT_LINE A 1 s" using line by (simp add: pending_only_def)
  then have i: "interruptHandler A s = (if current_active_process s = None then schedule ?t else Some (LDST (bios_state s), ?t))"
    using o by (simp add: interruptHandler_lines when_line_off currentProc_def current_ticked [OF inv] bios_state_ticked)
  have "runs_to (Some (LDST (bios_state s), ?t)) (LDST (bios_state s)) (ticked A v s) ?v"
    using kinvD(1) [OF 1(2)] unfolding runs_to_def by blast
  with schedule_resumes [OF kinvD(1,2) [OF 1(2)]] show ?thesis by (simp add: i resumes_relink)
qed

end
