(* ===== verification/Soft_Count.thy ===== *)
theory Soft_Count
  imports Kernel_Total
begin

text \<open>
  \<open>soft_block_count\<close> counts the processes blocked on a device or on the pseudo clock: the
  operations that block and wake such processes, and the termination of processes, keep it so.
  \<open>schedule\<close> reads it to tell a processor that waits for a device from a deadlock.
\<close>

definition soft_set :: "umps \<Rightarrow> kstate \<Rightarrow> nat set" where
  "soft_set A s = {p. p < MAXPROC \<and> isSoftBlocked A (p_semAdd (pcbs s p))}"

definition soft_ok :: "umps \<Rightarrow> kstate \<Rightarrow> bool" where
  "soft_ok A s \<longleftrightarrow> soft_block_count s = of_nat (card (soft_set A s))"

lemma finite_soft [simp]: "finite (soft_set A s)"
  by (rule finite_subset [of _ "{..<MAXPROC}"]) (auto simp: soft_set_def)

lemma soft_ok_cong:
  "soft_block_count s' = soft_block_count s \<Longrightarrow> (\<And>p. p_semAdd (pcbs s' p) = p_semAdd (pcbs s p)) \<Longrightarrow>
    soft_ok A s' = soft_ok A s"
  by (simp add: soft_ok_def soft_set_def)

lemma soft_ok_simps [simp]:
  "soft_ok A (s\<lparr>lists := h\<rparr>) = soft_ok A s" "soft_ok A (s\<lparr>semd_h := hh\<rparr>) = soft_ok A s"
  "soft_ok A (s\<lparr>semds := ds\<rparr>) = soft_ok A s" "soft_ok A (store_word a x s) = soft_ok A s"
  "soft_ok A (running p s) = soft_ok A s" "soft_ok A (waiting s) = soft_ok A s"
  "soft_ok A (s\<lparr>current_active_process := c\<rparr>) = soft_ok A s"
  "soft_ok A (resetIntervalTimer s) = soft_ok A s"
  by (rule soft_ok_cong; simp add: store_word_def running_def waiting_def resetIntervalTimer_def)+

lemma soft_block:
  assumes "soft_ok A s" and "isSoftBlocked A k" and "\<not> isSoftBlocked A (p_semAdd (pcbs s p))" and "p < MAXPROC"
  shows "soft_ok A (incrementSoftBlockCount (set_semAdd p k s))"
proof -
  have "soft_set A (incrementSoftBlockCount (set_semAdd p k s)) = insert p (soft_set A s)"
    using assms(2,4) by (auto simp: soft_set_def incrementSoftBlockCount_def set_semAdd_def)
  moreover have "p \<notin> soft_set A s" using assms(3) by (simp add: soft_set_def)
  ultimately show ?thesis
    using assms(1) by (simp add: soft_ok_def) (simp add: incrementSoftBlockCount_def set_semAdd_def add.commute)
qed

lemma soft_wake:
  assumes "soft_ok A s" and "p \<in> soft_set A s" and "\<not> isSoftBlocked A 0"
  shows "soft_ok A (decrementSoftBlockCount (set_semAdd p 0 s))"
proof -
  have "soft_set A (decrementSoftBlockCount (set_semAdd p 0 s)) = soft_set A s - {p}"
    using assms(3) by (auto simp: soft_set_def decrementSoftBlockCount_def set_semAdd_def)
  moreover have "card (soft_set A s) = Suc (card (soft_set A s - {p}))"
    using assms(2) by (intro card.remove) simp_all
  ultimately show ?thesis
    using assms(1) by (simp add: soft_ok_def) (simp add: decrementSoftBlockCount_def set_semAdd_def)
qed

lemma blocked_soft:
  "kinv s v \<Longrightarrow> isSoftBlocked A k \<Longrightarrow> p \<in> set (v_semq v k) \<Longrightarrow> p \<in> soft_set A s"
  using blocked_not_elsewhere(1) [of s v p k] in_tableD(3) [of v p k] by (auto simp: soft_set_def dest: kinvD)

lemma P_sem_soft:
  assumes inv: "kinv s v" and cur: "current_active_process s = Some p" and k: "isSoftBlocked A k"
    and z: "\<not> isSoftBlocked A 0" and ok: "soft_ok A s" and r: "P_sem k s = Some s'"
  shows "soft_ok A s'"
proof -
  have k0: "k \<noteq> 0" using k z by auto
  show ?thesis
  proof (cases "mem s k = 0")
    case True
    have p: "p < MAXPROC" "p_semAdd (pcbs s p) = 0" using kinvD(5) [OF inv cur] by (auto simp: v_queued_def)
    from P_sem_block [OF inv cur k0 True] r obtain h hh ds where
      "s' = relink h hh ds (incrementSoftBlockCount (set_semAdd p k s))" by (auto elim: ends_inE)
    with soft_block [OF ok k _ p(1)] p(2) z show ?thesis by simp
  next
    case False
    with P_sem_pass [OF k0 False] r ok show ?thesis by auto
  qed
qed

lemma V_sem_soft:
  assumes inv: "kinv s v" and k: "isSoftBlocked A k" and z: "\<not> isSoftBlocked A 0"
    and ok: "soft_ok A s" and r: "V_sem k s = Some (w, s')"
  shows "soft_ok A s'"
proof -
  have k0: "k \<noteq> 0" using k z by auto
  show ?thesis
  proof (cases "v_semq v k")
    case Nil
    with V_sem_none [OF kinvD(1) [OF inv] k0 Nil] r ok show ?thesis by auto
  next
    case (Cons p ps)
    from V_sem_wake' [OF inv Cons] r obtain h hh ds where
      "s' = relink h hh ds (decrementSoftBlockCount (set_semAdd p 0 s))" by auto
    with soft_wake [OF ok blocked_soft [OF inv k] z, of p] Cons show ?thesis by simp
  qed
qed

lemma soft_wake_procs:
  "soft_ok A s \<Longrightarrow> set ps \<subseteq> soft_set A s \<Longrightarrow> distinct ps \<Longrightarrow> \<not> isSoftBlocked A 0 \<Longrightarrow> soft_ok A (wake_procs ps s)"
proof (induction ps arbitrary: s)
  case (Cons p ps)
  let ?t = "decrementSoftBlockCount (set_semAdd p 0 s)"
  let ?u = "decrementSoftBlockCount (clear_current p (set_semAdd p 0 s))"
  have u: "soft_block_count ?u = soft_block_count ?t" "pcbs ?u = pcbs ?t"
    by (simp_all add: clear_current_def decrementSoftBlockCount_def)
  have "soft_ok A ?t" using soft_wake Cons.prems by simp
  then have "soft_ok A ?u" using soft_ok_cong [of ?u ?t A] u by simp
  moreover have "set ps \<subseteq> soft_set A ?u"
    using Cons.prems(2,3) unfolding soft_set_def u by (auto simp: decrementSoftBlockCount_def set_semAdd_def)
  ultimately show ?case using Cons.IH [of ?u] Cons.prems by simp
qed simp

lemma clock_soft:
  assumes inv: "kinv s v" and k: "isSoftBlocked A (getPseudoClockSem A)" and z: "\<not> isSoftBlocked A 0"
    and ok: "soft_ok A s" and r: "clock_interrupt A s = Some s'"
  shows "soft_ok A s'"
proof -
  let ?ps = "v_semq v (getPseudoClockSem A)"
  from clock_interrupt_ok [OF inv, of A] r obtain h hh ds where
    s': "s' = relink h hh ds (ticked A v s)" by (auto elim: ends_okE)
  have "set ?ps \<subseteq> soft_set A (resetIntervalTimer s)"
    using blocked_soft [OF inv k] by (auto simp: resetIntervalTimer_def soft_set_def)
  moreover have "distinct ?ps" using kabs_facts(4) [OF kinvD(1) [OF inv]] .
  ultimately have "soft_ok A (wake_procs ?ps (resetIntervalTimer s))"
    using ok z by (intro soft_wake_procs) simp_all
  then show ?thesis by (simp add: s' ticked_def)
qed

lemma soft_resumes:
  assumes "resumes m t v" and "soft_ok A t" and "m = Some (out, s')"
  shows "soft_ok A s'"
  using assms unfolding resumes_def by (cases "v_ready v") (auto split: if_splits)

lemma soft_reaped:
  assumes ok: "soft_ok A s" and D: "D \<subseteq> {..<MAXPROC}" and z: "\<not> isSoftBlocked A 0"
  shows "soft_ok A (reaped A D s)"
proof -
  let ?S = "{x \<in> D. isSoftBlocked A (p_semAdd (pcbs s x))}"
  have "soft_set A (reaped A D s) = soft_set A s - ?S"
    using z by (auto simp: soft_set_def reaped_def)
  moreover have S: "?S \<subseteq> soft_set A s" using D by (auto simp: soft_set_def)
  then have "card (soft_set A s) = card (soft_set A s - ?S) + card ?S"
    using card_Diff_subset [OF finite_subset [OF S finite_soft] S] card_mono [OF finite_soft S] by simp
  ultimately show ?thesis using ok by (simp add: soft_ok_def) (simp add: reaped_def)
qed

lemma terminate_soft:
  assumes inv: "kinv s v" and p: "p < MAXPROC" "p \<notin> set (v_free v)" and z: "\<not> isSoftBlocked A 0"
    and ok: "soft_ok A s" and r: "terminateProcess A (Some p) s = Some (out, s')"
  shows "soft_ok A s'"
proof -
  from terminateProcess_resumes [OF kinvD(1,2) [OF inv] p, of A] obtain fs where
    "resumes (terminateProcess A (Some p) s) (reaped A (desc_of (kid_rel v) p) s)
      (v_reaped (desc_of (kid_rel v) p) fs (v_orphan p v))" by blast
  from soft_resumes [OF this soft_reaped [OF ok _ z] r] desc_in_table [OF kinvD(3) [OF inv] p(1)]
  show ?thesis by blast
qed

section \<open>The operations return, with the count exact\<close>

lemma P_sem_keeps_soft:
  assumes inv: "kinv s v" and cur: "current_active_process s = Some p" and k: "isSoftBlocked A k"
    and z: "\<not> isSoftBlocked A 0" and ok: "soft_ok A s"
  shows "\<exists>t. P_sem k s = Some t \<and> soft_ok A t"
proof -
  have k0: "k \<noteq> 0" using k z by auto
  have "\<exists>t. P_sem k s = Some t"
    using ends_in_ex [OF P_sem_block [OF inv cur k0]] P_sem_pass [OF k0] by (cases "mem s k = 0") blast+
  then show ?thesis using P_sem_soft [OF inv cur k z ok] by blast
qed

lemma V_sem_keeps_soft:
  assumes inv: "kinv s v" and k: "isSoftBlocked A k" and z: "\<not> isSoftBlocked A 0" and ok: "soft_ok A s"
  shows "\<exists>r t. V_sem k s = Some (r, t) \<and> soft_ok A t"
proof -
  have k0: "k \<noteq> 0" using k z by auto
  have "\<exists>r t. V_sem k s = Some (r, t)"
    using V_sem_none [OF kinvD(1) [OF inv] k0] V_sem_wake' [OF inv] by (cases "v_semq v k") blast+
  then show ?thesis using V_sem_soft [OF inv k z ok] by blast
qed

lemma clock_keeps_soft:
  assumes inv: "kinv s v" and k: "isSoftBlocked A (getPseudoClockSem A)" and z: "\<not> isSoftBlocked A 0"
    and ok: "soft_ok A s"
  shows "\<exists>t. clock_interrupt A s = Some t \<and> soft_ok A t"
proof -
  obtain t where "clock_interrupt A s = Some t" using clock_interrupt_ok [OF inv] by (blast elim: ends_okE)
  then show ?thesis using clock_soft [OF inv k z ok] by blast
qed

lemma terminate_keeps_soft:
  assumes inv: "kinv s v" and p: "p < MAXPROC" "p \<notin> set (v_free v)" and z: "\<not> isSoftBlocked A 0"
    and ok: "soft_ok A s"
  shows "\<exists>out t. terminateProcess A (Some p) s = Some (out, t) \<and> soft_ok A t"
proof -
  obtain out t where "terminateProcess A (Some p) s = Some (out, t)"
    using terminateProcess_resumes [OF kinvD(1,2) [OF inv] p, of A] resumes_settled by fast
  then show ?thesis using terminate_soft [OF inv p z ok] by blast
qed

end
