(* ===== verification/Strings.thy ===== *)
theory Strings
  imports Prelude
begin

text \<open>
  \<open>pandos/stdlib/string.c\<close> and \<open>memory.c\<close>.  A buffer is the list of its bytes; reading or
  writing outside of it is a fault, so an overflow of the code's fixed buffers shows up as
  \<open>None\<close>.  A string is a buffer that holds a zero byte; it ends at the first one.
\<close>

section \<open>Buffers\<close>

definition load_byte :: "u8 list \<Rightarrow> int \<Rightarrow> u8 option" where
  "load_byte buf i = (if 0 \<le> i \<and> i < int (length buf) then Some (buf ! nat i) else None)"

definition store_byte :: "u8 list \<Rightarrow> int \<Rightarrow> u8 \<Rightarrow> u8 list option" where
  "store_byte buf i v =
     (if 0 \<le> i \<and> i < int (length buf) then Some (buf[nat i := v]) else None)"

section \<open>string.c\<close>

definition abs_int :: "int \<Rightarrow> int" where
  "abs_int n = (if n < 0 then wrap32 (- n) else n)"

definition swap :: "u8 list \<Rightarrow> int \<Rightarrow> int \<Rightarrow> u8 list option" where
  "swap buf x y = do {
     t \<leftarrow> load_byte buf x;
     v \<leftarrow> load_byte buf y;
     buf \<leftarrow> store_byte buf x v;
     store_byte buf y t
   }"

function reverse :: "u8 list \<Rightarrow> int \<Rightarrow> int \<Rightarrow> u8 list option" where
  "reverse buffer i j =
     (if i < j then do {
        buffer \<leftarrow> swap buffer i j;
        reverse buffer (i + 1) (j - 1)
      } else Some buffer)"
  by pat_completeness auto
termination
  by (relation "measure (\<lambda>(buffer, i, j). nat (j - i))") auto

declare reverse.simps [simp del]

text \<open>The digit for a remainder: \<open>'A'\<close> is 65 and \<open>'0'\<close> is 48.\<close>

definition digit_char :: "int \<Rightarrow> u8" where
  "digit_char r = (if r \<ge> 10 then word_of_int (65 + (r - 10)) else word_of_int (48 + r))"

text \<open>
  The loop of \<open>itoa\<close> writes the digits from the lowest on; it answers the buffer and the
  next index.  The base is at least 2 here, so \<open>n\<close> gets smaller in absolute value.
\<close>

function itoa_digits :: "int \<Rightarrow> int \<Rightarrow> u8 list \<Rightarrow> int \<Rightarrow> (u8 list \<times> int) option" where
  "itoa_digits base n buffer i =
     (if n \<noteq> 0 \<and> base \<ge> 2 then do {
        buffer \<leftarrow> store_byte buffer i (digit_char (n smod base));
        itoa_digits base (n sdiv base) buffer (i + 1)
      } else Some (buffer, i))"
  by pat_completeness auto
termination
proof (relation "measure (\<lambda>(base, n, buffer, i). nat \<bar>n\<bar>)")
  fix base n i :: int and buffer buffer' :: "u8 list"
  assume "n \<noteq> 0 \<and> base \<ge> 2"
  moreover from this have "\<bar>n\<bar> div base < \<bar>n\<bar>" by (intro int_div_less_self) auto
  moreover have "0 \<le> \<bar>n\<bar> div base" using calculation by (simp add: pos_imp_zdiv_nonneg_iff)
  ultimately show "((base, n sdiv base, buffer', i + 1), base, n, buffer, i)
      \<in> measure (\<lambda>(base, n, buffer, i). nat \<bar>n\<bar>)"
    by (auto simp: signed_divide_int_def abs_mult abs_sgn_eq)
qed simp

declare itoa_digits.simps [simp del]

definition itoa :: "int \<Rightarrow> u8 list \<Rightarrow> int \<Rightarrow> u8 list option" where
  "itoa value buffer base =
     (if base < 2 \<or> base > 32 then Some buffer
      else do {
        let n = abs_int value;
        (buffer, i) \<leftarrow> itoa_digits base n buffer 0;
        (buffer, i) \<leftarrow>
          (if i = 0 then map_option (\<lambda>b. (b, i + 1)) (store_byte buffer i 48)
           else Some (buffer, i));
        (buffer, i) \<leftarrow>
          (if value < 0 \<and> base = 10 then map_option (\<lambda>b. (b, i + 1)) (store_byte buffer i 45)
           else Some (buffer, i));
        buffer \<leftarrow> store_byte buffer i 0;
        reverse buffer 0 (i - 1)
      })"

text \<open>\<open>strlen\<close> and \<open>strcpy\<close>; the destination is a buffer and an offset in it.\<close>

fun strlen :: "u8 list \<Rightarrow> u32 \<Rightarrow> u32 option" where
  "strlen [] len = None"
| "strlen (c # str) len = (if c \<noteq> 0 then strlen str (len + 1) else Some len)"

fun strcpy :: "u8 list \<Rightarrow> int \<Rightarrow> u8 list \<Rightarrow> u8 list option" where
  "strcpy dest i [] = None"
| "strcpy dest i (c # src) =
     (if c \<noteq> 0 then do {
        dest \<leftarrow> store_byte dest i c;
        strcpy dest (i + 1) src
      } else store_byte dest i 0)"

section \<open>memory.c\<close>

text \<open>Both work on the memory, byte by byte from the lowest address on.\<close>

fun memcpy_from :: "u32 \<Rightarrow> u32 \<Rightarrow> u32 \<Rightarrow> nat \<Rightarrow> (u32 \<Rightarrow> u8) \<Rightarrow> u32 \<Rightarrow> u8" where
  "memcpy_from d s i 0 m = m"
| "memcpy_from d s i (Suc k) m = memcpy_from d s (i + 1) k (m(d + i := m (s + i)))"

definition memcpy :: "u32 \<Rightarrow> u32 \<Rightarrow> u32 \<Rightarrow> (u32 \<Rightarrow> u8) \<Rightarrow> u32 \<Rightarrow> u8" where
  "memcpy dest src sz m = memcpy_from dest src 0 (unat sz) m"

fun memset_from :: "u32 \<Rightarrow> u8 \<Rightarrow> nat \<Rightarrow> (u32 \<Rightarrow> u8) \<Rightarrow> u32 \<Rightarrow> u8" where
  "memset_from p c 0 m = m"
| "memset_from p c (Suc len) m = memset_from (p + 1) c len (m(p := c))"

definition memset :: "u32 \<Rightarrow> u32 \<Rightarrow> u32 \<Rightarrow> (u32 \<Rightarrow> u8) \<Rightarrow> u32 \<times> (u32 \<Rightarrow> u8)" where
  "memset s c len m = (s, memset_from s (ucast c) (unat len) m)"

end
