(* ===== verification/Print.thy ===== *)
theory Print
  imports Strings
begin

text \<open>
  \<open>pandos/stdlib/print.c\<close>: formatting into a stack buffer, the record of everything printed
  in \<open>okbuf\<close>, and the transmission to a terminal.  The terminal is a device outside of the
  repository: reading the register at an address and writing one are the two functions of the
  record \<open>terminal\<close>, over a state of the device's own; the constants of the record are those of
  the uMPS3 headers.
\<close>

unbundle bit_operations_syntax

record 'd terminal =
  t_status :: "u32 \<Rightarrow> 'd \<Rightarrow> u32 \<times> 'd"
  t_command :: "u32 \<Rightarrow> u32 \<Rightarrow> 'd \<Rightarrow> 'd"
  T_READY :: u32
  T_BUSY :: u32
  T_DEVPERINT :: u32
  T_DEVREGSIZE :: u32
  T_DEVREGLEN :: u32
  T_TRANSTATUS :: u32
  T_TRANCOMMAND :: u32

definition TRANSMITTED :: u32 where "TRANSMITTED = 5"
definition T_ACK :: u32 where "T_ACK = 1"
definition PRINTCHR :: u32 where "PRINTCHR = 2"
definition STATUSMASK :: u32 where "STATUSMASK = 0xFF"
definition TERM0ADDR :: u32 where "TERM0ADDR = 0x10000254"

text \<open>The addresses of the transmitter registers of a terminal.\<close>

definition statusp :: "'d terminal \<Rightarrow> u32 \<Rightarrow> u32" where
  "statusp T trm = TERM0ADDR + trm * T_DEVREGSIZE T + T_TRANSTATUS T * T_DEVREGLEN T"

definition commandp :: "'d terminal \<Rightarrow> u32 \<Rightarrow> u32" where
  "commandp T trm = TERM0ADDR + trm * T_DEVREGSIZE T + T_TRANCOMMAND T * T_DEVREGLEN T"

definition termstat :: "'d terminal \<Rightarrow> u32 \<Rightarrow> 'd \<Rightarrow> u32 \<times> 'd" where
  "termstat T a d = (let (v, d) = t_status T a d in (v AND STATUSMASK, d))"

text \<open>\<open>char\<close> is signed on the target: the shift is of the sign-extended byte.\<close>

definition print_command :: "u8 \<Rightarrow> u32" where
  "print_command c = push_bit 8 (word_of_int (sint c)) OR PRINTCHR"

partial_function (option) wait_not_busy :: "'d terminal \<Rightarrow> u32 \<Rightarrow> u32 \<Rightarrow> 'd \<Rightarrow> (u32 \<times> 'd) option" where
  "wait_not_busy T a stat d =
     (if stat = T_BUSY T then (case termstat T a d of (stat, d) \<Rightarrow> wait_not_busy T a stat d)
      else Some (stat, d))"

text \<open>
  The print cycle, on the registers at \<open>a\<close> (status) and \<open>c\<close> (command); the answer is the error
  flag.  The \<open>else\<close> of the code governs the acknowledgement only: \<open>str++\<close> runs in both cases.
\<close>

fun print_cycle :: "'d terminal \<Rightarrow> u32 \<Rightarrow> u32 \<Rightarrow> u8 list \<Rightarrow> bool \<Rightarrow> 'd \<Rightarrow> (bool \<times> 'd) option" where
  "print_cycle T a c str error d =
     (if error then Some (error, d)
      else (case str of
        [] \<Rightarrow> None
      | ch # str \<Rightarrow>
          (if ch = 0 then Some (error, d)
           else do {
             let d = t_command T c (print_command ch) d;
             let (stat, d) = termstat T a d;
             (stat, d) \<leftarrow> wait_not_busy T a stat d;
             if stat \<noteq> TRANSMITTED then print_cycle T a c str True d
             else print_cycle T a c str error (t_command T c T_ACK d)
           })))"

declare print_cycle.simps [simp del]

definition termprint :: "'d terminal \<Rightarrow> u8 list \<Rightarrow> u32 \<Rightarrow> 'd \<Rightarrow> (bool \<times> 'd) option" where
  "termprint T str trm d =
     (if trm < T_DEVPERINT T then do {
        let a = statusp T trm;
        let c = commandp T trm;
        let (stat, d) = termstat T a d;
        (error, d) \<leftarrow>
          (if stat = T_READY T \<or> stat = TRANSMITTED then print_cycle T a c str False d
           else Some (True, d));
        let d = t_command T c T_ACK d;
        Some (\<not> error, d)
      } else Some (False, d))"

text \<open>The state of the module: \<open>okbuf\<close>, of 2048 bytes, and the index \<open>mp\<close> points at.\<close>

record okbuf_state =
  okbuf :: "u8 list"
  mp :: int

fun okbuf_copy :: "u8 list \<Rightarrow> okbuf_state \<Rightarrow> okbuf_state option" where
  "okbuf_copy [] s = None"
| "okbuf_copy (c # strp) s = do {
     b \<leftarrow> store_byte (okbuf s) (mp s) c;
     let s = \<lparr>okbuf = b, mp = mp s + 1\<rparr>;
     if c \<noteq> 0 then okbuf_copy strp s else Some s
   }"

definition addokbuf :: "'d terminal \<Rightarrow> u8 list \<Rightarrow> okbuf_state \<times> 'd \<Rightarrow> (okbuf_state \<times> 'd) option" where
  "addokbuf T strp sd = do {
     s \<leftarrow> okbuf_copy strp (fst sd);
     let s = s\<lparr>mp := mp s - 1\<rparr>;
     (_, d) \<leftarrow> termprint T strp 1 (snd sd);
     Some (s, d)
   }"

text \<open>An argument of \<open>printf\<close>: a word, or the address of a string.\<close>

datatype va = VInt u32 | VStr "u8 list"

record fmt_state =
  buff :: "u8 list"
  tmp :: "u8 list"
  pos :: int
  va_list :: "va list"

definition va_int :: "fmt_state \<Rightarrow> (u32 \<times> fmt_state) option" where
  "va_int f = (case va_list f of VInt w # vs \<Rightarrow> Some (w, f\<lparr>va_list := vs\<rparr>) | _ \<Rightarrow> None)"

definition va_str :: "fmt_state \<Rightarrow> (u8 list \<times> fmt_state) option" where
  "va_str f = (case va_list f of VStr st # vs \<Rightarrow> Some (st, f\<lparr>va_list := vs\<rparr>) | _ \<Rightarrow> None)"

definition put_char :: "u8 \<Rightarrow> fmt_state \<Rightarrow> fmt_state option" where
  "put_char c f = do {
     b \<leftarrow> store_byte (buff f) (pos f) c;
     Some (f\<lparr>buff := b, pos := pos f + 1\<rparr>)
   }"

text \<open>\<open>strcpy(&buff[j], str); j += strlen(str)\<close>\<close>

definition put_str :: "u8 list \<Rightarrow> fmt_state \<Rightarrow> fmt_state option" where
  "put_str st f = do {
     b \<leftarrow> strcpy (buff f) (pos f) st;
     n \<leftarrow> strlen st 0;
     Some (f\<lparr>buff := b, pos := pos f + sint n\<rparr>)
   }"

definition fmt_itoa :: "int \<Rightarrow> fmt_state \<Rightarrow> fmt_state option" where
  "fmt_itoa base f = do {
     (w, f) \<leftarrow> va_int f;
     t \<leftarrow> itoa (sint w) (tmp f) base;
     Some (f\<lparr>tmp := t\<rparr>)
   }"

text \<open>
  The padding of \<open>%b\<close>: \<open>i < 16 - strlen(tmp)\<close> compares unsigned words, so a longer string
  makes the bound wrap around; the loop then runs until it leaves the buffer.
\<close>

fun pad_zeros :: "nat \<Rightarrow> fmt_state \<Rightarrow> fmt_state option" where
  "pad_zeros 0 f = Some f"
| "pad_zeros (Suc k) f = do {
     b \<leftarrow> strcpy (buff f) (pos f) [48, 0];
     pad_zeros k (f\<lparr>buff := b, pos := pos f + 1\<rparr>)
   }"

definition fmt_spec :: "u8 \<Rightarrow> fmt_state \<Rightarrow> fmt_state option" where
  "fmt_spec c f =
     (if c = 99 then do {
        (w, f) \<leftarrow> va_int f;
        put_char (ucast w) f
      }
      else if c = 100 then do {
        f \<leftarrow> fmt_itoa 10 f;
        put_str (tmp f) f
      }
      else if c = 120 then do {
        f \<leftarrow> fmt_itoa 16 f;
        put_str (tmp f) f
      }
      else if c = 98 then do {
        f \<leftarrow> fmt_itoa 2 f;
        n \<leftarrow> strlen (tmp f) 0;
        f \<leftarrow> pad_zeros (unat (16 - n)) f;
        put_str (tmp f) f
      }
      else if c = 115 then do {
        (st, f) \<leftarrow> va_str f;
        put_str st f
      }
      else if c = 112 then do {
        f \<leftarrow> fmt_itoa 16 f;
        b \<leftarrow> strcpy (buff f) (pos f) [48, 120, 0];
        put_str (tmp f) (f\<lparr>buff := b, pos := pos f + 2\<rparr>)
      }
      else Some f)"

text \<open>The loop over the format; a format without a final zero is read out of bounds.\<close>

fun printf_loop :: "u8 list \<Rightarrow> fmt_state \<Rightarrow> fmt_state option" where
  "printf_loop [] f = None"
| "printf_loop [c] f = (if c = 0 then Some f else None)"
| "printf_loop (c # c' # str) f =
     (if c = 0 then Some f
      else if c = 37 then do {
        f \<leftarrow> fmt_spec c' f;
        printf_loop str f
      }
      else do {
        f \<leftarrow> put_char c f;
        printf_loop (c' # str) f
      })"

text \<open>\<open>buff\<close> and \<open>tmp\<close> are on the stack, of 200 and 20 bytes of any content.\<close>

definition printf :: "'d terminal \<Rightarrow> u8 list \<Rightarrow> va list \<Rightarrow> u8 list \<Rightarrow> u8 list
    \<Rightarrow> okbuf_state \<times> 'd \<Rightarrow> (int \<times> okbuf_state \<times> 'd) option" where
  "printf T str args buff0 tmp0 sd = do {
     f \<leftarrow> printf_loop str \<lparr>buff = buff0, tmp = tmp0, pos = 0, va_list = args\<rparr>;
     b \<leftarrow> store_byte (buff f) (pos f) 0;
     sd \<leftarrow> addokbuf T b sd;
     Some (pos f, sd)
   }"

end
