(* ===== verification/Report.thy ===== *)
theory Report
  imports Find_Abs Print
begin

text \<open>
  \<open>getBlockedProcesses\<close> of \<open>pandos/phase1/ash.c\<close>, which the scheduler calls on a deadlock: the
  sequence of the calls of \<open>printf\<close> it makes.  It reads the queues and writes nothing but
  what \<open>printf\<close> writes.  On the view it reports the queue of every semaphore once.
\<close>

section \<open>The calls of printf\<close>

type_synonym printf_call = "u8 list \<times> va list"

definition c_str :: "string \<Rightarrow> u8 list" where
  "c_str st = map of_char st @ [0]"

definition c_line :: "string \<Rightarrow> u8 list" where
  "c_line st = map of_char st @ [10, 0]"

text \<open>The loops collect the calls of their bodies, in order.\<close>

partial_function (option) list_collect ::
  "(nat \<Rightarrow> printf_call) \<Rightarrow> lnode ptr \<Rightarrow> lnode ptr \<Rightarrow> kstate \<Rightarrow> printf_call list option" where
  "list_collect body head cur s =
     (if cur = head then Some []
      else do {
        n \<leftarrow> cur;
        p \<leftarrow> pcb_of_p_list n;
        cur' \<leftarrow> get_next cur (lists s);
        cs \<leftarrow> list_collect body head cur' s;
        Some (body p # cs)
      })"

partial_function (option) hlist_collect ::
  "(nat \<Rightarrow> 'c list option) \<Rightarrow> nat ptr \<Rightarrow> (nat, nat) hheap \<Rightarrow> 'c list option" where
  "hlist_collect body cur h = (case cur of
     None \<Rightarrow> Some []
   | Some n \<Rightarrow> do {
       c \<leftarrow> body n;
       cs \<leftarrow> hlist_collect body (hnext h n) h;
       Some (c @ cs)
     })"

fun hash_collect ::
  "nat \<Rightarrow> nat \<Rightarrow> (nat \<Rightarrow> printf_call list option) \<Rightarrow> (nat, nat) hheap \<Rightarrow> printf_call list option" where
  "hash_collect bkt 0 body h = Some []"
| "hash_collect bkt (Suc k) body h = do {
     c \<leftarrow> hlist_collect body (hfirst h bkt) h;
     cs \<leftarrow> hash_collect (Suc bkt) k body h;
     Some (c @ cs)
   }"

text \<open>
  The difference of the two addresses is divided by \<open>sizeof(unsigned int)\<close>, as a word; it is at
  most 47 there, so that dividing it as an \<open>int\<close> is dividing the word.
\<close>

definition getBlockedProcesses :: "umps \<Rightarrow> kstate \<Rightarrow> printf_call list option" where
  "getBlockedProcesses A s = hash_collect 0 HASHSZ (\<lambda>it. do {
     first \<leftarrow> get_next (Some (S_procq it)) (lists s);
     let key = s_key (semds s it);
     if key \<ge> getDevSem A 0 \<and> key \<le> getDevSem A 47 then do {
       let index = (key - getDevSem A 0) div 4;
       cs \<leftarrow> list_collect (\<lambda>p. (c_line ''%d'', [VInt (p_pid (pcbs s p))])) (Some (S_procq it)) first s;
       Some ((c_str ''Processes blocked on line %d, device %d: '', [VInt (index div 8 + 3), VInt (index mod 8)]) # cs)
     }
     else list_collect (\<lambda>p. (c_line ''Process %d is blocked on %p'', [VInt (p_pid (pcbs s p)), VInt key]))
            (Some (S_procq it)) first s
   }) (semd_h s)"

section \<open>What it reports\<close>

text \<open>The calls for one semaphore and the pids of the processes that wait on it.\<close>

definition semaphore_report :: "umps \<Rightarrow> u32 \<Rightarrow> u32 list \<Rightarrow> printf_call list" where
  "semaphore_report A k pids =
     (if k \<ge> getDevSem A 0 \<and> k \<le> getDevSem A 47 then
        (let index = (k - getDevSem A 0) div 4 in
         (c_str ''Processes blocked on line %d, device %d: '', [VInt (index div 8 + 3), VInt (index mod 8)])
           # map (\<lambda>pid. (c_line ''%d'', [VInt pid])) pids)
      else map (\<lambda>pid. (c_line ''Process %d is blocked on %p'', [VInt pid, VInt k])) pids)"

lemma list_collect_chain:
  "chain (lists s) a (map P_list ps) r \<Longrightarrow> r \<notin> set (map P_list ps) \<Longrightarrow>
    list_collect body (Some r) (nxt (lists s) a) s = Some (map body ps)"
proof (induction ps arbitrary: a)
  case Nil
  then show ?case by (simp add: list_collect.simps)
next
  case (Cons p ps)
  then show ?case by (subst list_collect.simps) (auto simp: get_next_def)
qed

lemma hlist_collect_hchain:
  "hchain h loc xs \<Longrightarrow> (\<And>x. x \<in> set xs \<Longrightarrow> body x = Some (g x)) \<Longrightarrow>
    hlist_collect body (load_ploc loc h) h = Some (concat (map g xs))"
proof (induction xs arbitrary: loc)
  case Nil
  then show ?case by (simp add: hlist_collect.simps)
next
  case (Cons x xs)
  from Cons.IH [of "AtNext x"] Cons.prems have "hlist_collect body (hnext h x) h = Some (concat (map g xs))" by simp
  with Cons.prems show ?case by (subst hlist_collect.simps) simp
qed

lemma hash_collect_abs:
  assumes "hash_abs h B"
  shows "(\<And>x. x \<in> set (concat (map B [bkt..<bkt + k])) \<Longrightarrow> body x = Some (g x)) \<Longrightarrow>
    hash_collect bkt k body h = Some (concat (map g (concat (map B [bkt..<bkt + k]))))"
proof (induction k arbitrary: bkt)
  case (Suc k)
  have u: "[bkt..<bkt + Suc k] = bkt # [Suc bkt..<Suc bkt + k]" by (simp add: upt_conv_Cons)
  have "hlist_collect body (hfirst h bkt) h = Some (concat (map g (B bkt)))"
    using hlist_collect_hchain [OF hash_abs_hchain [OF assms, of bkt], of body g] Suc.prems unfolding u by simp
  moreover have "hash_collect (Suc bkt) k body h = Some (concat (map g (concat (map B [Suc bkt..<Suc bkt + k]))))"
    by (rule Suc.IH, rule Suc.prems) (auto simp del: upt_Suc)
  ultimately show ?case unfolding u by simp
qed simp

text \<open>Every semaphore somebody waits on is reported once, with its queue in order.\<close>

lemma getBlockedProcesses_view:
  assumes "kabs s v"
  shows "\<exists>ks. distinct ks \<and> set ks = {k. v_semq v k \<noteq> []} \<and> getBlockedProcesses A s =
    Some (concat (map (\<lambda>k. semaphore_report A k (map (\<lambda>p. p_pid (pcbs s p)) (v_semq v k))) ks))"
proof -
  from assms obtain a where a: "links s a" "ash_inv s a" "tree_inv s a" "v = view s a" by (rule kabsE)
  let ?is = "concat (map (a_bkt a) [0..<HASHSZ])" and ?key = "\<lambda>i. s_key (semds s i)"
  let ?g = "\<lambda>i. semaphore_report A (?key i) (map (\<lambda>p. p_pid (pcbs s p)) (queue_of a i))"
  note h = links_hash [OF a(1)]
  have mem: "set ?is = hashed a"
    using hashed_key [OF a(2)] bucket_of_less by (fastforce simp: HASHSZ_def hashed_def intro: hnodesI)
  have dist: "distinct ?is"
  proof -
    have "distinct (concat (map (a_bkt a) [0..<n]))" for n
    proof (induction n)
      case (Suc n)
      have "x \<notin> set (a_bkt a n)" if "i < n" "x \<in> set (a_bkt a i)" for i x
        using hash_abs_disjoint [OF h, of x i n] that by auto
      with Suc show ?case using hash_abs_distinct [OF h, of n] by auto
    qed simp
    then show ?thesis .
  qed
  have body: "(do {
     first \<leftarrow> get_next (Some (S_procq i)) (lists s);
     let key = s_key (semds s i);
     if key \<ge> getDevSem A 0 \<and> key \<le> getDevSem A 47 then do {
       let index = (key - getDevSem A 0) div 4;
       cs \<leftarrow> list_collect (\<lambda>p. (c_line ''%d'', [VInt (p_pid (pcbs s p))])) (Some (S_procq i)) first s;
       Some ((c_str ''Processes blocked on line %d, device %d: '', [VInt (index div 8 + 3), VInt (index mod 8)]) # cs)
     }
     else list_collect (\<lambda>p. (c_line ''Process %d is blocked on %p'', [VInt (p_pid (pcbs s p)), VInt key]))
            (Some (S_procq i)) first s
   }) = Some (?g i)" if "i \<in> set ?is" for i
  proof -
    have "queue_of a i \<noteq> []" using that mem ash_invD(4) [OF a(2)] by blast
    then have "Lmap a (S_procq i) = Some (map P_list (queue_of a i))" by (auto simp: queue_of_def split: option.splits)
    then have d: "dll (lists s) (S_procq i) (map P_list (queue_of a i))"
      by (rule heap_abs_dll [OF links_lists [OF a(1)]])
    have "list_collect f (Some (S_procq i)) (nxt (lists s) (S_procq i)) s = Some (map f (queue_of a i))" for f
      using d by (intro list_collect_chain) (auto simp: dll_def)
    then show ?thesis by (simp add: get_next_def semaphore_report_def Let_def comp_def)
  qed
  have run: "getBlockedProcesses A s = Some (concat (map ?g ?is))"
    unfolding getBlockedProcesses_def using hash_collect_abs [OF h, of 0 HASHSZ, OF body] by simp
  have q: "v_semq v (?key i) = queue_of a i" if "i \<in> set ?is" for i
    using semq_hashed [OF a(2)] that [unfolded mem] a(4) by (simp add: view_def)
  have "set (map ?key ?is) = {k. v_semq v k \<noteq> []}"
  proof -
    have "v_semq v k \<noteq> [] \<longleftrightarrow> (\<exists>i \<in> hashed a. ?key i = k)" for k
      using semq_empty [OF a(2), of k] desc_None [OF a(2), of k] a(4) by (simp add: view_def)
    then show ?thesis unfolding set_map mem by auto
  qed
  moreover have "distinct (map ?key ?is)"
    using dist ash_invD(3) [OF a(2)] mem by (simp only: distinct_map)
  moreover have "map ?g ?is = map (\<lambda>k. semaphore_report A k (map (\<lambda>p. p_pid (pcbs s p)) (v_semq v k))) (map ?key ?is)"
  proof -
    have "map ?g ?is = map (\<lambda>i. semaphore_report A (?key i) (map (\<lambda>p. p_pid (pcbs s p)) (v_semq v (?key i)))) ?is"
      by (rule map_cong [OF refl]) (simp only: q)
    then show ?thesis by (simp only: map_map comp_def)
  qed
  ultimately show ?thesis
    unfolding run by (intro exI [of _ "map ?key ?is"] conjI) (simp_all only:)
qed

end
