(* ===== verification/List_Loops.thy ===== *)
theory List_Loops
  imports List_Abs Hlist
begin

text \<open>
  The loops of \<open>list.h\<close> and \<open>hashtable.h\<close> over the entries of a list: forwards, backwards, from
  the middle, and safe against the removal of the entry.  The cursor of these macros is an
  entry; here it is the address of its member, of which the entry is the container, so that
  \<open>list_entry_is_head\<close> compares two members, as the macro does.
\<close>

section \<open>Entries\<close>

definition list_entry :: "('a \<Rightarrow> 'e option) \<Rightarrow> 'a ptr \<Rightarrow> 'e option" where
  "list_entry container pos = do { n \<leftarrow> pos; container n }"

definition list_first_entry_or_null :: "('a \<Rightarrow> 'e option) \<Rightarrow> 'a ptr \<Rightarrow> 'a lheap \<Rightarrow> 'e ptr option" where
  "list_first_entry_or_null container head h = do {
     pos \<leftarrow> get_next head h;
     if pos \<noteq> head then map_option Some (list_entry container pos) else Some None
   }"

definition list_next_entry :: "('a \<Rightarrow> 'e option) \<Rightarrow> 'a ptr \<Rightarrow> 'a lheap \<Rightarrow> 'e option" where
  "list_next_entry container pos h = do { n \<leftarrow> get_next pos h; list_entry container n }"

definition list_prev_entry :: "('a \<Rightarrow> 'e option) \<Rightarrow> 'a ptr \<Rightarrow> 'a lheap \<Rightarrow> 'e option" where
  "list_prev_entry container pos h = do { p \<leftarrow> get_prev pos h; list_entry container p }"

definition list_next_entry_circular :: "('a \<Rightarrow> 'e option) \<Rightarrow> 'a ptr \<Rightarrow> 'a ptr \<Rightarrow> 'a lheap \<Rightarrow> 'e option" where
  "list_next_entry_circular container pos head h = do {
     l \<leftarrow> list_is_last pos head h;
     if l then list_first_entry container head h else list_next_entry container pos h
   }"

definition list_prev_entry_circular :: "('a \<Rightarrow> 'e option) \<Rightarrow> 'a ptr \<Rightarrow> 'a ptr \<Rightarrow> 'a lheap \<Rightarrow> 'e option" where
  "list_prev_entry_circular container pos head h = do {
     f \<leftarrow> list_is_first pos head h;
     if f then list_last_entry container head h else list_prev_entry container pos h
   }"

text \<open>The cursor of a loop that continues: after the given member, or from the start.\<close>

definition list_prepare_entry :: "'a ptr \<Rightarrow> 'a ptr \<Rightarrow> 'a ptr" where
  "list_prepare_entry pos head = (if pos \<noteq> None then pos else head)"

definition list_entry_is_head :: "'a ptr \<Rightarrow> 'a ptr \<Rightarrow> bool" where
  "list_entry_is_head pos head \<longleftrightarrow> pos = head"

definition list_safe_reset_next :: "'a ptr \<Rightarrow> 'a lheap \<Rightarrow> 'a ptr option" where
  "list_safe_reset_next pos h = get_next pos h"

definition hlist_entry_safe :: "('n \<Rightarrow> 'e option) \<Rightarrow> 'n ptr \<Rightarrow> 'e ptr option" where
  "hlist_entry_safe container p = (case p of None \<Rightarrow> Some None | Some n \<Rightarrow> map_option Some (container n))"

section \<open>The loops\<close>

type_synonym ('p, 'a, 's) loop_body = "'p \<Rightarrow> 'a lheap \<times> 's \<Rightarrow> ('a lheap \<times> 's) option"

text \<open>The body of a loop over entries, at the member the cursor points to.\<close>

definition entry_body :: "('a \<Rightarrow> 'e option) \<Rightarrow> ('e, 'a, 's) loop_body \<Rightarrow> ('a ptr, 'a, 's) loop_body" where
  "entry_body container body pos s = do { e \<leftarrow> list_entry container pos; body e s }"

partial_function (option) list_for_each_prev_safe_from ::
  "('a ptr \<Rightarrow> 'a lheap \<times> 's \<Rightarrow> ('a lheap \<times> 's) option) \<Rightarrow> 'a ptr \<Rightarrow> 'a ptr \<Rightarrow> 'a ptr
    \<Rightarrow> 'a lheap \<times> 's \<Rightarrow> ('a lheap \<times> 's) option" where
  "list_for_each_prev_safe_from body head pos n s =
     (if list_is_head pos head then Some s
      else do {
        s \<leftarrow> body pos s;
        n' \<leftarrow> get_prev n (fst s);
        list_for_each_prev_safe_from body head n n' s
      })"

definition list_for_each_prev_safe :: "('a ptr, 'a, 's) loop_body \<Rightarrow> 'a ptr
    \<Rightarrow> 'a lheap \<times> 's \<Rightarrow> ('a lheap \<times> 's) option" where
  "list_for_each_prev_safe body head s = do {
     pos \<leftarrow> get_prev head (fst s);
     n \<leftarrow> get_prev pos (fst s);
     list_for_each_prev_safe_from body head pos n s
   }"

definition list_for_each_entry :: "('a \<Rightarrow> 'e option) \<Rightarrow> ('e, 'a, 's) loop_body \<Rightarrow> 'a ptr
    \<Rightarrow> 'a lheap \<times> 's \<Rightarrow> ('a lheap \<times> 's) option" where
  "list_for_each_entry container body head s = list_for_each (entry_body container body) head s"

definition list_for_each_entry_continue :: "('a \<Rightarrow> 'e option) \<Rightarrow> ('e, 'a, 's) loop_body \<Rightarrow> 'a ptr \<Rightarrow> 'a ptr
    \<Rightarrow> 'a lheap \<times> 's \<Rightarrow> ('a lheap \<times> 's) option" where
  "list_for_each_entry_continue container body head pos s =
     list_for_each_continue (entry_body container body) head pos s"

definition list_for_each_entry_from :: "('a \<Rightarrow> 'e option) \<Rightarrow> ('e, 'a, 's) loop_body \<Rightarrow> 'a ptr \<Rightarrow> 'a ptr
    \<Rightarrow> 'a lheap \<times> 's \<Rightarrow> ('a lheap \<times> 's) option" where
  "list_for_each_entry_from container body head pos s =
     (if list_is_head pos head then Some s
      else do {
        s \<leftarrow> entry_body container body pos s;
        list_for_each_entry_continue container body head pos s
      })"

definition list_for_each_entry_reverse :: "('a \<Rightarrow> 'e option) \<Rightarrow> ('e, 'a, 's) loop_body \<Rightarrow> 'a ptr
    \<Rightarrow> 'a lheap \<times> 's \<Rightarrow> ('a lheap \<times> 's) option" where
  "list_for_each_entry_reverse container body head s = list_for_each_prev (entry_body container body) head s"

definition list_for_each_entry_continue_reverse :: "('a \<Rightarrow> 'e option) \<Rightarrow> ('e, 'a, 's) loop_body \<Rightarrow> 'a ptr \<Rightarrow> 'a ptr
    \<Rightarrow> 'a lheap \<times> 's \<Rightarrow> ('a lheap \<times> 's) option" where
  "list_for_each_entry_continue_reverse container body head pos s =
     list_for_each_prev_from (entry_body container body) head pos s"

definition list_for_each_entry_from_reverse :: "('a \<Rightarrow> 'e option) \<Rightarrow> ('e, 'a, 's) loop_body \<Rightarrow> 'a ptr \<Rightarrow> 'a ptr
    \<Rightarrow> 'a lheap \<times> 's \<Rightarrow> ('a lheap \<times> 's) option" where
  "list_for_each_entry_from_reverse container body head pos s =
     (if list_is_head pos head then Some s
      else do {
        s \<leftarrow> entry_body container body pos s;
        list_for_each_entry_continue_reverse container body head pos s
      })"

definition list_for_each_entry_safe :: "('a \<Rightarrow> 'e option) \<Rightarrow> ('e, 'a, 's) loop_body \<Rightarrow> 'a ptr
    \<Rightarrow> 'a lheap \<times> 's \<Rightarrow> ('a lheap \<times> 's) option" where
  "list_for_each_entry_safe container body head s = list_for_each_safe (entry_body container body) head s"

definition list_for_each_entry_safe_from :: "('a \<Rightarrow> 'e option) \<Rightarrow> ('e, 'a, 's) loop_body \<Rightarrow> 'a ptr \<Rightarrow> 'a ptr
    \<Rightarrow> 'a lheap \<times> 's \<Rightarrow> ('a lheap \<times> 's) option" where
  "list_for_each_entry_safe_from container body head pos s = do {
     n \<leftarrow> get_next pos (fst s);
     list_for_each_safe_from (entry_body container body) head pos n s
   }"

definition list_for_each_entry_safe_continue :: "('a \<Rightarrow> 'e option) \<Rightarrow> ('e, 'a, 's) loop_body \<Rightarrow> 'a ptr \<Rightarrow> 'a ptr
    \<Rightarrow> 'a lheap \<times> 's \<Rightarrow> ('a lheap \<times> 's) option" where
  "list_for_each_entry_safe_continue container body head pos s = do {
     pos \<leftarrow> get_next pos (fst s);
     list_for_each_entry_safe_from container body head pos s
   }"

definition list_for_each_entry_safe_reverse :: "('a \<Rightarrow> 'e option) \<Rightarrow> ('e, 'a, 's) loop_body \<Rightarrow> 'a ptr
    \<Rightarrow> 'a lheap \<times> 's \<Rightarrow> ('a lheap \<times> 's) option" where
  "list_for_each_entry_safe_reverse container body head s =
     list_for_each_prev_safe (entry_body container body) head s"

text \<open>The loops over a hash list: over its nodes, and over entries from the middle.\<close>

definition hlist_for_each :: "('n \<Rightarrow> ('r + unit) option) \<Rightarrow> 'h \<Rightarrow> ('h, 'n) hheap \<Rightarrow> ('r + unit) option" where
  "hlist_for_each body b h = hlist_for_each_from body (hfirst h b) h"

definition hlist_for_each_entry_from :: "('n \<Rightarrow> 'e option) \<Rightarrow> ('e \<Rightarrow> ('r + unit) option) \<Rightarrow> 'n ptr
    \<Rightarrow> ('h, 'n) hheap \<Rightarrow> ('r + unit) option" where
  "hlist_for_each_entry_from container body pos h = hlist_for_each_from (\<lambda>n. Option.bind (container n) body) pos h"

definition hlist_for_each_entry_continue :: "('n \<Rightarrow> 'e option) \<Rightarrow> ('e \<Rightarrow> ('r + unit) option) \<Rightarrow> 'n ptr
    \<Rightarrow> ('h, 'n) hheap \<Rightarrow> ('r + unit) option" where
  "hlist_for_each_entry_continue container body pos h = do {
     n \<leftarrow> pos;
     hlist_for_each_entry_from container body (hnext h n) h
   }"

text \<open>The safe loop over a hash list: the successor is read before the body runs.\<close>

partial_function (option) hlist_for_each_safe_from ::
  "('n \<Rightarrow> ('h, 'n) hheap \<times> 's \<Rightarrow> (('h, 'n) hheap \<times> 's) option) \<Rightarrow> 'n ptr
    \<Rightarrow> ('h, 'n) hheap \<times> 's \<Rightarrow> (('h, 'n) hheap \<times> 's) option" where
  "hlist_for_each_safe_from body pos s = (case pos of
     None \<Rightarrow> Some s
   | Some x \<Rightarrow> do {
       let n = hnext (fst s) x;
       s \<leftarrow> body x s;
       hlist_for_each_safe_from body n s
     })"

definition hlist_for_each_entry_safe ::
  "('n \<Rightarrow> ('h, 'n) hheap \<times> 's \<Rightarrow> (('h, 'n) hheap \<times> 's) option) \<Rightarrow> 'h
    \<Rightarrow> ('h, 'n) hheap \<times> 's \<Rightarrow> (('h, 'n) hheap \<times> 's) option" where
  "hlist_for_each_entry_safe body b s = hlist_for_each_safe_from body (hfirst (fst s) b) s"

definition hash_for_each_safe ::
  "nat \<Rightarrow> ('n \<Rightarrow> (nat, 'n) hheap \<times> 's \<Rightarrow> ((nat, 'n) hheap \<times> 's) option)
    \<Rightarrow> (nat, 'n) hheap \<times> 's \<Rightarrow> ((nat, 'n) hheap \<times> 's) option" where
  "hash_for_each_safe sz body s = foldM (hlist_for_each_entry_safe body) [0..<sz] s"

definition hash_for_each_possible_safe ::
  "nat \<Rightarrow> ('n \<Rightarrow> (nat, 'n) hheap \<times> 's \<Rightarrow> ((nat, 'n) hheap \<times> 's) option) \<Rightarrow> u32
    \<Rightarrow> (nat, 'n) hheap \<times> 's \<Rightarrow> ((nat, 'n) hheap \<times> 's) option" where
  "hash_for_each_possible_safe sz body key s = hlist_for_each_entry_safe body (bucket_of sz key) s"

section \<open>A list read backwards\<close>

definition mirror :: "'a lheap \<Rightarrow> 'a lheap" where
  "mirror h = \<lparr>nxt = prv h, prv = nxt h\<rparr>"

lemma mirror_simps [simp]: "nxt (mirror h) = prv h" "prv (mirror h) = nxt h" "mirror (mirror h) = h"
  by (simp_all add: mirror_def)

lemma get_prev_mirror: "get_prev p h = get_next p (mirror h)"
  by (simp add: get_prev_def get_next_def)

lemma chain_mirror: "chain (mirror h) b (rev xs) a = chain h a xs b"
  by (induction xs arbitrary: a) auto

lemma dll_mirror: "dll h r xs \<Longrightarrow> dll (mirror h) r (rev xs)"
  by (auto simp: dll_def chain_mirror)

section \<open>What the loops visit\<close>

text \<open>The entries before and after an entry.\<close>

lemma dll_around:
  assumes "dll h r (xs @ x # ys)"
  shows "chain h x ys r" and "r \<notin> set ys" and "chain (mirror h) x (rev xs) r" and "r \<notin> set (rev xs)" and "x \<noteq> r"
  using assms by (auto simp: dll_def chain_mirror)

lemma list_for_each_prev_from_chain:
  assumes "chain (mirror h) a xs r" and "r \<notin> set xs"
    and "\<And>x s. x \<in> set xs \<Longrightarrow> body (Some x) (h, s) = map_option (Pair h) (f x s)"
  shows "list_for_each_prev_from body (Some r) (Some a) (h, s) = map_option (Pair h) (foldM f xs s)"
  using assms
proof (induction xs arbitrary: a s)
  case Nil
  then show ?case by (subst list_for_each_prev_from.simps) (simp add: get_prev_def list_is_head_def)
next
  case (Cons x xs)
  then show ?case
    by (subst list_for_each_prev_from.simps) (cases "f x s"; auto simp: get_prev_def list_is_head_def)
qed

text \<open>The body, at the entries \<open>e x\<close> of the nodes \<open>xs\<close>, leaves the links alone and does \<open>f\<close> to the rest.\<close>

definition visits :: "('a \<Rightarrow> 'e option) \<Rightarrow> ('a \<Rightarrow> 'e) \<Rightarrow> ('e, 'a, 's) loop_body \<Rightarrow> ('e \<Rightarrow> 's update) \<Rightarrow> 'a lheap
    \<Rightarrow> 'a list \<Rightarrow> bool" where
  "visits container e body f h xs \<longleftrightarrow> (\<forall>x \<in> set xs. \<forall>s.
     container x = Some (e x) \<and> body (e x) (h, s) = map_option (Pair h) (f (e x) s))"

lemma visits_append [simp]:
  "visits container e body f h (xs @ ys) \<longleftrightarrow> visits container e body f h xs \<and> visits container e body f h ys"
  "visits container e body f h (x # xs) \<longleftrightarrow> visits container e body f h [x] \<and> visits container e body f h xs"
  by (auto simp: visits_def)

lemma visits_body:
  "visits container e body f h xs \<Longrightarrow> x \<in> set xs \<Longrightarrow>
    entry_body container body (Some x) (h, s) = map_option (Pair h) ((f \<circ> e) x s)"
  by (simp add: visits_def entry_body_def list_entry_def)

text \<open>
  A loop whose body does not touch the links visits the entries in their order, or in the
  opposite order, from the first, or from the entry after or before the cursor.
\<close>

lemma list_for_each_entry_abs:
  assumes "dll h r xs"
    and "visits container e body f h xs"
  shows "list_for_each_entry container body (Some r) (h, s) = map_option (Pair h) (foldM (f \<circ> e) xs s)"
    and "list_for_each_entry_reverse container body (Some r) (h, s) = map_option (Pair h) (foldM (f \<circ> e) (rev xs) s)"
proof -
  have c: "chain h r xs r" "chain (mirror h) r (rev xs) r" "r \<notin> set xs"
    using assms(1) by (auto simp: dll_def chain_mirror)
  note b = visits_body [OF assms(2)]
  show "list_for_each_entry container body (Some r) (h, s) = map_option (Pair h) (foldM (f \<circ> e) xs s)"
    unfolding list_for_each_entry_def list_for_each_def
    by (rule list_for_each_continue_chain [OF c(1,3)], rule b)
  show "list_for_each_entry_reverse container body (Some r) (h, s) = map_option (Pair h) (foldM (f \<circ> e) (rev xs) s)"
    unfolding list_for_each_entry_reverse_def list_for_each_prev_def
    by (rule list_for_each_prev_from_chain [OF c(2)]) (simp add: c(3), rule b, simp)
qed

lemma list_for_each_entry_continue_abs:
  assumes "dll h r (xs @ x # ys)"
    and "visits container e body f h (xs @ ys)"
  shows "list_for_each_entry_continue container body (Some r) (Some x) (h, s) =
      map_option (Pair h) (foldM (f \<circ> e) ys s)"
    and "list_for_each_entry_continue_reverse container body (Some r) (Some x) (h, s) =
      map_option (Pair h) (foldM (f \<circ> e) (rev xs) s)"
proof -
  note b = visits_body [OF assms(2)] and a = dll_around [OF assms(1)]
  show "list_for_each_entry_continue container body (Some r) (Some x) (h, s) =
      map_option (Pair h) (foldM (f \<circ> e) ys s)"
    unfolding list_for_each_entry_continue_def
    by (rule list_for_each_continue_chain [OF a(1,2)], rule b) simp
  show "list_for_each_entry_continue_reverse container body (Some r) (Some x) (h, s) =
      map_option (Pair h) (foldM (f \<circ> e) (rev xs) s)"
    unfolding list_for_each_entry_continue_reverse_def
    by (rule list_for_each_prev_from_chain [OF a(3,4)], rule b) simp
qed

lemma list_for_each_entry_from_abs:
  assumes "dll h r (xs @ x # ys)"
    and "visits container e body f h (xs @ x # ys)"
  shows "list_for_each_entry_from container body (Some r) (Some x) (h, s) =
      map_option (Pair h) (foldM (f \<circ> e) (x # ys) s)"
    and "list_for_each_entry_from_reverse container body (Some r) (Some x) (h, s) =
      map_option (Pair h) (foldM (f \<circ> e) (x # rev xs) s)"
proof -
  have b: "entry_body container body (Some x) (h, s) = map_option (Pair h) (f (e x) s)"
    using visits_body [OF assms(2), of x s] by simp
  have "visits container e body f h (xs @ ys)" using assms(2) by (simp add: visits_def)
  note c = list_for_each_entry_continue_abs [OF assms(1) this] and a = dll_around [OF assms(1)]
  show "list_for_each_entry_from container body (Some r) (Some x) (h, s) =
      map_option (Pair h) (foldM (f \<circ> e) (x # ys) s)"
    using c(1) a(5) b by (cases "f (e x) s") (simp_all add: list_for_each_entry_from_def list_is_head_def)
  show "list_for_each_entry_from_reverse container body (Some r) (Some x) (h, s) =
      map_option (Pair h) (foldM (f \<circ> e) (x # rev xs) s)"
    using c(2) a(5) b by (cases "f (e x) s") (simp_all add: list_for_each_entry_from_reverse_def list_is_head_def)
qed

text \<open>Without an entry the loop that continues is prepared to visit the whole list.\<close>

lemma list_prepare_entry_start:
  assumes "dll h r xs" and "visits container e body f h xs"
  shows "list_for_each_entry_continue container body (Some r) (list_prepare_entry None (Some r)) (h, s) =
    map_option (Pair h) (foldM (f \<circ> e) xs s)"
proof -
  have c: "chain h r xs r" "r \<notin> set xs" using assms(1) by (auto simp: dll_def)
  show ?thesis
    unfolding list_for_each_entry_continue_def list_prepare_entry_def
    by simp (rule list_for_each_continue_chain [OF c], rule visits_body [OF assms(2)])
qed

text \<open>The entries of a bucket from an entry on, and behind it.\<close>

lemma hlist_for_each_entry_middle:
  assumes "hash_abs h B" and "B b = us @ x # vs" and "\<And>n. n \<in> set (x # vs) \<Longrightarrow> container n = Some (e n)"
  shows "hlist_for_each_entry_from container body (Some x) h = first_return (body \<circ> e) (x # vs)"
    and "hlist_for_each_entry_continue container body (Some x) h = first_return (body \<circ> e) vs"
proof -
  have "hchain h (hend (AtFirst b) us) (x # vs)"
    using hash_abs_hchain [OF assms(1), of b] assms(2) by (simp add: hchain_append)
  then have c: "load_ploc (hend (AtFirst b) us) h = Some x" "hchain h (AtNext x) vs" "hchain h (hend (AtFirst b) us) (x # vs)" by simp_all
  have "first_return (\<lambda>n. Option.bind (container n) body) ns = first_return (body \<circ> e) ns" if "set ns \<subseteq> set (x # vs)" for ns
    using that assms(3) by (induction ns) auto
  note f = this [of "x # vs"] this [of vs]
  show "hlist_for_each_entry_from container body (Some x) h = first_return (body \<circ> e) (x # vs)"
    using hlist_for_each_from_hchain [OF c(3), of "\<lambda>n. Option.bind (container n) body"] f(1) unfolding hlist_for_each_entry_from_def c(1) by simp
  show "hlist_for_each_entry_continue container body (Some x) h = first_return (body \<circ> e) vs"
    using hlist_for_each_from_hchain [OF c(2), of "\<lambda>n. Option.bind (container n) body"] f(2) by (auto simp: hlist_for_each_entry_continue_def hlist_for_each_entry_from_def)
qed

text \<open>The neighbours of an entry; the circular macros skip the head.\<close>

lemma list_neighbours:
  assumes "dll h r (xs @ x # ys)"
  shows "list_next_entry_circular container (Some x) (Some r) h = container (hd (ys @ xs @ [x]))"
    and "list_prev_entry_circular container (Some x) (Some r) h = container (last (x # ys @ xs))"
    and "list_first_entry_or_null container (Some r) h = map_option Some (container (hd (xs @ [x])))"
proof -
  have d: "distinct (r # xs @ x # ys)" and c: "chain h r xs x" "chain h x ys r"
    using assms by (auto simp: dll_def)
  note n = chain_last_first [OF c(1)] chain_last_first [OF c(2)]
  show "list_next_entry_circular container (Some x) (Some r) h = container (hd (ys @ xs @ [x]))"
    using n d by (auto simp: list_next_entry_circular_def list_next_entry_def list_is_last_def list_first_entry_def
        list_entry_def get_next_def split: list.splits)
  show "list_first_entry_or_null container (Some r) h = map_option Some (container (hd (xs @ [x])))"
    using n d by (auto simp: list_first_entry_or_null_def list_entry_def get_next_def split: list.splits)
  show "list_prev_entry_circular container (Some x) (Some r) h = container (last (x # ys @ xs))"
    using n d by (auto simp: list_prev_entry_circular_def list_prev_entry_def list_is_first_def list_last_entry_def
        list_entry_def get_prev_def last_append)
qed

section \<open>Deleting in a safe loop\<close>

text \<open>Forwards over a list: every entry may be deleted.\<close>

lemma list_for_each_entry_safe_del:
  assumes "heap_abs h L" and "L r = Some xs" and "\<And>x. x \<in> set xs \<Longrightarrow> container x = Some (e x) \<and> member (e x) = x"
  shows "\<exists>h'. list_for_each_entry_safe container
      (\<lambda>e (h, u). map_option (\<lambda>h. (h, u)) (list_del (Some (member e)) h)) (Some r) (h, u) = Some (h', u)
    \<and> heap_abs h' (L(r \<mapsto> []))"
  unfolding list_for_each_entry_safe_def
  by (rule list_for_each_safe_del_abs [OF assms(1,2)]) (simp add: entry_body_def list_entry_def assms(3))

text \<open>The same for a bucket, and so for the whole table.\<close>

definition unhash :: "'n \<Rightarrow> ('h, 'n) hheap \<times> 's \<Rightarrow> (('h, 'n) hheap \<times> 's) option" where
  "unhash x = (\<lambda>(h, u). map_option (\<lambda>h. (h, u)) (hlist_del_init (Some x) h))"

lemma hlist_for_each_safe_unhash:
  "hash_abs h B \<Longrightarrow> B b = xs \<Longrightarrow>
    \<exists>h'. hlist_for_each_safe_from unhash (hfirst h b) (h, u) = Some (h', u) \<and> hash_abs h' (B(b := []))"
proof (induction xs arbitrary: h B)
  case Nil
  then have "hfirst h b = None" "B(b := []) = B" using hash_abs_hchain [of h B b] by auto
  with Nil(1) show ?case by (simp add: hlist_for_each_safe_from.simps)
next
  case (Cons x xs)
  have ch: "hfirst h b = Some x" "hchain h (AtNext x) xs"
    using hash_abs_hchain [OF Cons.prems(1), of b] Cons.prems(2) by simp_all
  have "x \<notin> set xs" using hash_abs_distinct [OF Cons.prems(1), of b] Cons.prems(2) by simp
  with hlist_del_init_abs [OF Cons.prems(1), of x b] Cons.prems(2) obtain h1 where
    h1: "hlist_del_init (Some x) h = Some h1" "hash_abs h1 (B(b := xs))" by auto
  have "hnext h x = hfirst h1 b"
    using ch(2) hash_abs_hchain [OF h1(2), of b] by (cases xs) simp_all
  moreover from Cons.IH [OF h1(2)] obtain h' where
    "hlist_for_each_safe_from unhash (hfirst h1 b) (h1, u) = Some (h', u)" "hash_abs h' (B(b := []))" by (auto simp del: fun_upd_apply simp add: fun_upd_same)
  ultimately show ?case
    using ch(1) h1(1) by (subst hlist_for_each_safe_from.simps) (simp add: unhash_def)
qed

lemma hash_for_each_possible_safe_unhash:
  "hash_abs h B \<Longrightarrow> \<exists>h'. hash_for_each_possible_safe sz unhash key (h, u) = Some (h', u)
    \<and> hash_abs h' (B(bucket_of sz key := []))"
  using hlist_for_each_safe_unhash [of h B "bucket_of sz key", OF _ refl]
  by (simp add: hash_for_each_possible_safe_def hlist_for_each_entry_safe_def)

lemma hash_for_each_safe_unhash:
  "hash_abs h B \<Longrightarrow> \<exists>h'. hash_for_each_safe sz unhash (h, u) = Some (h', u)
    \<and> hash_abs h' (\<lambda>b. if b < sz then [] else B b)"
proof (induction sz)
  case 0
  then show ?case by (simp add: hash_for_each_safe_def)
next
  case (Suc sz)
  then obtain h1 where h1: "foldM (hlist_for_each_entry_safe unhash) [0..<sz] (h, u) = Some (h1, u)"
    "hash_abs h1 (\<lambda>b. if b < sz then [] else B b)" by (auto simp: hash_for_each_safe_def)
  have "(\<lambda>b. if b < sz then [] else B b)(sz := []) = (\<lambda>b. if b < Suc sz then [] else B b)" by auto
  with hlist_for_each_safe_unhash [OF h1(2) refl, of sz u] obtain h2 where
    "hlist_for_each_safe_from unhash (hfirst h1 sz) (h1, u) = Some (h2, u)"
    "hash_abs h2 (\<lambda>b. if b < Suc sz then [] else B b)" by auto
  with h1(1) show ?case by (simp add: hash_for_each_safe_def foldM_append hlist_for_each_entry_safe_def)
qed

end
