(* ===== verification/Strings_Abs.thy ===== *)
theory Strings_Abs
  imports Print
begin

text \<open>
  What the string and memory functions compute: \<open>reverse\<close> is \<open>rev\<close> on the part of the buffer,
  \<open>itoa\<close> writes a numeral that reads back as the number, \<open>memcpy\<close> and \<open>memset\<close> change exactly
  the bytes they are given.
\<close>

section \<open>Buffers\<close>

text \<open>The buffer \<open>buf\<close> with \<open>xs\<close> written at index \<open>i\<close>.\<close>

definition overwrite :: "u8 list \<Rightarrow> nat \<Rightarrow> u8 list \<Rightarrow> u8 list" where
  "overwrite buf i xs = take i buf @ xs @ drop (i + length xs) buf"

lemma overwrite_Nil [simp]: "overwrite buf i [] = buf"
  by (simp add: overwrite_def)

lemma length_overwrite [simp]: "i + length xs \<le> length buf \<Longrightarrow> length (overwrite buf i xs) = length buf"
  by (simp add: overwrite_def)

lemma store_byte_nat: "store_byte buf (int i) v = (if i < length buf then Some (overwrite buf i [v]) else None)"
  by (auto simp: store_byte_def overwrite_def upd_conv_take_nth_drop)

lemma overwrite_snoc:
  "i + length xs < length buf \<Longrightarrow> overwrite (overwrite buf i xs) (i + length xs) [v] = overwrite buf i (xs @ [v])"
  by (simp add: overwrite_def add.commute)

lemma overwrite_Cons:
  "i + length (x # xs) \<le> length buf \<Longrightarrow> overwrite (overwrite buf i [x]) (Suc i) xs = overwrite buf i (x # xs)"
  by (simp add: overwrite_def add.commute)

text \<open>The string a buffer holds.\<close>

definition c_string :: "u8 list \<Rightarrow> u8 list" where
  "c_string buf = takeWhile (\<lambda>c. c \<noteq> 0) buf"

lemma c_string_terminated: "0 \<notin> set xs \<Longrightarrow> c_string (xs @ 0 # ys) = xs"
  by (induction xs) (auto simp: c_string_def)

section \<open>reverse\<close>

lemma swap_ends:
  "swap (pre @ a # ys @ b # post) (int (length pre)) (int (length pre + length ys + 1))
    = Some (pre @ b # ys @ a # post)"
  by (simp add: swap_def load_byte_def store_byte_def nth_append list_update_append nat_add_distrib)

lemma reverse_middle:
  "reverse (pre @ xs @ post) (int (length pre)) (int (length pre + length xs) - 1) = Some (pre @ rev xs @ post)"
proof (induction "length xs" arbitrary: pre xs post rule: less_induct)
  case less
  consider "length xs \<le> 1" | a ys b where "xs = a # ys @ [b]"
    by (metis append_butlast_last_id le_Suc_eq length_0_conv length_Cons list.exhaust One_nat_def le_zero_eq
        nat_le_linear)
  then show ?case
  proof cases
    case 1
    then have "xs = [] \<or> (\<exists>x. xs = [x])" by (cases xs) auto
    then show ?thesis by (subst reverse.simps) auto
  next
    case 2
    have "reverse (pre @ xs @ post) (int (length pre)) (int (length pre + length xs) - 1)
        = reverse (pre @ b # ys @ a # post) (int (length pre) + 1) (int (length pre + length ys))"
      using swap_ends [of pre a ys b post] 2 by (subst reverse.simps) (simp add: algebra_simps)
    also have "\<dots> = Some ((pre @ [b]) @ rev ys @ (a # post))"
      using less.hyps [of ys "pre @ [b]" "a # post"] 2 by (simp add: algebra_simps)
    finally show ?thesis using 2 by simp
  qed
qed

lemma reverse_prefix: "n \<le> length buf \<Longrightarrow> reverse buf 0 (int n - 1) = Some (rev (take n buf) @ drop n buf)"
  using reverse_middle [of "[]" "take n buf" "drop n buf"] by (simp add: min_absorb2)

section \<open>itoa\<close>

text \<open>The digits of a number, the lowest first, and the number of a list of digits.\<close>

function low_digits :: "int \<Rightarrow> int \<Rightarrow> int list" where
  "low_digits b n = (if n > 0 \<and> b \<ge> 2 then n mod b # low_digits b (n div b) else [])"
  by pat_completeness auto
termination
proof (relation "measure (\<lambda>(b, n). nat n)")
  fix b n :: int assume "n > 0 \<and> b \<ge> 2"
  moreover from this have "n div b < n" by (intro int_div_less_self) auto
  ultimately show "((b, n div b), b, n) \<in> measure (\<lambda>(b, n). nat n)" by simp
qed simp

declare low_digits.simps [simp del]

definition digits_value :: "int \<Rightarrow> int list \<Rightarrow> int" where
  "digits_value b ds = foldr (\<lambda>d n. d + b * n) ds 0"

lemma low_digits_value: "b \<ge> 2 \<Longrightarrow> n \<ge> 0 \<Longrightarrow> digits_value b (low_digits b n) = n"
proof (induction b n rule: low_digits.induct)
  case (1 b n)
  show ?case
  proof (cases "n > 0")
    case True
    with 1 show ?thesis
      by (subst low_digits.simps) (simp add: digits_value_def pos_imp_zdiv_nonneg_iff)
  next
    case False
    with 1(3) show ?thesis by (subst low_digits.simps) (simp add: digits_value_def)
  qed
qed

lemma low_digits_range: "d \<in> set (low_digits b n) \<Longrightarrow> 0 \<le> d \<and> d < b"
proof (induction b n rule: low_digits.induct)
  case (1 b n)
  then show ?case by (subst (asm) (2) low_digits.simps) (auto split: if_splits)
qed

lemma length_low_digits: "0 \<le> n \<Longrightarrow> n < b ^ k \<Longrightarrow> b \<ge> 2 \<Longrightarrow> length (low_digits b n) \<le> k"
proof (induction k arbitrary: n)
  case 0
  then show ?case by (subst low_digits.simps) simp
next
  case (Suc k)
  have "b * (n div b) \<le> n" using Suc.prems by (metis minus_mod_eq_mult_div diff_le_eq le_add_same_cancel1 pos_mod_sign
      zero_less_numeral order_less_le_trans)
  then have "b * (n div b) < b * b ^ k" using Suc.prems(2) unfolding power_Suc by linarith
  then have "n div b < b ^ k" using mult_less_cancel_left_pos [of b "n div b" "b ^ k"] Suc.prems(3) by auto
  moreover have "0 \<le> n div b" using Suc.prems by (simp add: pos_imp_zdiv_nonneg_iff)
  ultimately have "length (low_digits b (n div b)) \<le> k" using Suc by blast
  then show ?case by (subst low_digits.simps) simp
qed

lemma signed_div_pos: "0 \<le> (n::int) \<Longrightarrow> b > 0 \<Longrightarrow> n smod b = n mod b \<and> n sdiv b = n div b"
  by (simp add: signed_modulo_int_def signed_divide_int_def abs_mult sgn_if)

lemma itoa_digits_spec:
  assumes "b \<ge> 2"
  shows "0 \<le> n \<Longrightarrow> i + length (low_digits b n) \<le> length buf \<Longrightarrow>
    itoa_digits b n buf (int i) = Some (overwrite buf i (map digit_char (low_digits b n)), int (i + length (low_digits b n)))"
proof (induction b n arbitrary: i buf rule: low_digits.induct)
  case (1 b n)
  show ?case
  proof (cases "n > 0 \<and> b \<ge> 2")
    case False
    with 1(2) assms have n: "n = 0 \<or> b < 2" by auto
    then have "low_digits b n = []" using False by (subst low_digits.simps) simp
    with n 1(2) show ?thesis using False by (subst itoa_digits.simps) auto
  next
    case True
    let ?d = "digit_char (n mod b)" and ?ds = "low_digits b (n div b)"
    have ds: "low_digits b n = n mod b # ?ds" using True by (subst low_digits.simps) simp
    have n: "n smod b = n mod b" "n sdiv b = n div b" using signed_div_pos [of n b] True by auto
    have len: "i + length (map digit_char (low_digits b n)) \<le> length buf" "Suc i + length ?ds \<le> length (overwrite buf i [?d])"
      using 1(3) ds by auto
    have "itoa_digits b n buf (int i) = itoa_digits b (n div b) (overwrite buf i [?d]) (int (Suc i))"
      using True len(1) ds by (subst itoa_digits.simps) (simp add: n store_byte_nat add.commute)
    also have "\<dots> = Some (overwrite (overwrite buf i [?d]) (Suc i) (map digit_char ?ds), int (Suc i + length ?ds))"
      using True len(2) by (intro 1(1)) (auto simp: pos_imp_zdiv_nonneg_iff)
    finally show ?thesis
      using overwrite_Cons [of i ?d "map digit_char ?ds" buf] len(1) ds by simp
  qed
qed

text \<open>The numeral of a number, and its length for the machine's integers.\<close>

definition digits_of :: "int \<Rightarrow> int \<Rightarrow> int list" where
  "digits_of b n = (if n = 0 then [0] else low_digits b n)"

definition numeral_of :: "int \<Rightarrow> int \<Rightarrow> u8 list" where
  "numeral_of b n = map digit_char (rev (digits_of b n))"

lemma digits_of_range: "b \<ge> 2 \<Longrightarrow> d \<in> set (digits_of b n) \<Longrightarrow> 0 \<le> d \<and> d < b"
  using low_digits_range by (auto simp: digits_of_def split: if_splits)

lemma digits_of_nonempty: "b \<ge> 2 \<Longrightarrow> n \<ge> 0 \<Longrightarrow> digits_of b n \<noteq> []"
  by (auto simp: digits_of_def low_digits.simps [of b n])

lemma digits_of_value: "b \<ge> 2 \<Longrightarrow> n \<ge> 0 \<Longrightarrow> digits_value b (digits_of b n) = n"
  using low_digits_value by (auto simp: digits_of_def digits_value_def)

text \<open>The buffer after the digits and what the code writes for the number 0.\<close>

lemma itoa_written:
  assumes b: "b \<ge> 2" and n: "n \<ge> 0" and len: "length (digits_of b n) < length buf"
  shows "(do {
      (buffer, i) \<leftarrow> itoa_digits b n buf 0;
      (if i = 0 then map_option (\<lambda>b. (b, i + 1)) (store_byte buffer i 48) else Some (buffer, i))
    }) = Some (overwrite buf 0 (map digit_char (digits_of b n)), int (length (digits_of b n)))"
proof (cases "n = 0")
  case True
  then show ?thesis
    using len store_byte_nat [of buf 0 48]
    by (auto simp: itoa_digits.simps digits_of_def digit_char_def)
next
  case False
  then have "low_digits b n \<noteq> []" using b n by (simp add: low_digits.simps [of b n])
  then show ?thesis
    using itoa_digits_spec [OF b n, of 0 buf] len False by (simp add: digits_of_def)
qed

lemma itoa_finish:
  assumes "length cs < length buf"
  shows "(do {
      buffer \<leftarrow> store_byte (overwrite buf 0 cs) (int (length cs)) 0;
      reverse buffer 0 (int (length cs) - 1)
    }) = Some (rev cs @ 0 # drop (Suc (length cs)) buf)"
proof -
  have "store_byte (overwrite buf 0 cs) (int (length cs)) 0 = Some (overwrite buf 0 (cs @ [0]))"
    using assms overwrite_snoc [of 0 cs buf 0] by (simp add: store_byte_nat)
  moreover have "overwrite buf 0 (cs @ [0]) = cs @ 0 # drop (Suc (length cs)) buf" by (simp add: overwrite_def)
  ultimately show ?thesis
    using assms reverse_prefix [of "length cs" "cs @ 0 # drop (Suc (length cs)) buf"] by simp
qed

lemma itoa_eq:
  assumes "2 \<le> b" and "b \<le> 32"
  shows "itoa value buf b = do {
      (buffer, i) \<leftarrow> do {
        (buffer, i) \<leftarrow> itoa_digits b (abs_int value) buf 0;
        (if i = 0 then map_option (\<lambda>b. (b, i + 1)) (store_byte buffer i 48) else Some (buffer, i))
      };
      (buffer, i) \<leftarrow>
        (if value < 0 \<and> b = 10 then map_option (\<lambda>b. (b, i + 1)) (store_byte buffer i 45) else Some (buffer, i));
      buffer \<leftarrow> store_byte buffer i 0;
      reverse buffer 0 (i - 1)
    }"
  using assms by (simp add: itoa_def Let_def case_prod_unfold)

lemma abs_int_eq: "- (2 ^ 31) < value \<Longrightarrow> abs_int value = \<bar>value\<bar>" if "value < 2 ^ 31"
  using that by (auto simp: abs_int_def wrap32_id)

lemma itoa_unsigned:
  assumes b: "2 \<le> b" "b \<le> 32" and v: "- (2 ^ 31) < value" "value < 2 ^ 31" and s: "value \<ge> 0 \<or> b \<noteq> 10"
    and len: "length (numeral_of b \<bar>value\<bar>) < length buf"
  shows "itoa value buf b = Some (numeral_of b \<bar>value\<bar> @ 0 # drop (Suc (length (numeral_of b \<bar>value\<bar>))) buf)"
proof -
  have l: "length (digits_of b \<bar>value\<bar>) < length buf" using len by (simp add: numeral_of_def)
  have s': "(value < 0 \<and> b = 10) = False" using s by auto
  show ?thesis
    using itoa_finish [of "map digit_char (digits_of b \<bar>value\<bar>)" buf] l
    unfolding itoa_eq [OF b] abs_int_eq [OF v(2,1)] itoa_written [OF b(1) abs_ge_zero l] s'
    by (simp add: numeral_of_def rev_map)
qed

lemma itoa_negative:
  assumes v: "- (2 ^ 31) < value" "value < 0" and len: "Suc (length (numeral_of 10 (- value))) < length buf"
  shows "itoa value buf 10 = Some (45 # numeral_of 10 (- value) @ 0 # drop (Suc (Suc (length (numeral_of 10 (- value))))) buf)"
proof -
  let ?cs = "map digit_char (digits_of 10 \<bar>value\<bar>)"
  have l: "length (digits_of 10 \<bar>value\<bar>) < length buf" using len v(2) by (simp add: numeral_of_def)
  have a: "abs_int value = \<bar>value\<bar>" using abs_int_eq v by simp
  have b10: "(2::int) \<le> 10" "(10::int) \<le> 32" by simp_all
  have "store_byte (overwrite buf 0 ?cs) (int (length ?cs)) 45 = Some (overwrite buf 0 (?cs @ [45]))"
    using l overwrite_snoc [of 0 ?cs buf 45] by (simp add: store_byte_nat)
  then show ?thesis
    using itoa_finish [of "?cs @ [45]" buf] len v(2)
    unfolding itoa_eq [OF b10] a itoa_written [OF b10(1) abs_ge_zero l]
    by (simp add: numeral_of_def rev_map algebra_simps)
qed

section \<open>Reading a numeral back\<close>

definition digit_value :: "u8 \<Rightarrow> int" where
  "digit_value c = (if c \<ge> 65 then uint c - 55 else uint c - 48)"

definition read_num :: "int \<Rightarrow> u8 list \<Rightarrow> int" where
  "read_num b cs = foldl (\<lambda>n c. b * n + digit_value c) 0 cs"

definition read_int :: "u8 list \<Rightarrow> int" where
  "read_int cs = (case cs of [] \<Rightarrow> 0 | c # cs' \<Rightarrow> if c = 45 then - read_num 10 cs' else read_num 10 cs)"

lemma uint_byte: "0 \<le> x \<Longrightarrow> x < 256 \<Longrightarrow> uint (word_of_int x :: u8) = x"
  by (simp add: uint_word_of_int)

lemma digit_char_uint:
  assumes "0 \<le> d" and "d < 32"
  shows "uint (digit_char d) = (if d \<ge> 10 then 55 + d else 48 + d)"
proof (cases "d \<ge> 10")
  case True
  with assms show ?thesis unfolding digit_char_def if_P [OF True] by (subst uint_byte) auto
next
  case False
  with assms show ?thesis unfolding digit_char_def if_not_P [OF False] by (subst uint_byte) auto
qed

lemma digit_char_value: "0 \<le> d \<Longrightarrow> d < 32 \<Longrightarrow> digit_value (digit_char d) = d"
  by (auto simp: digit_value_def digit_char_uint word_le_def)

lemma digit_char_not: "0 \<le> d \<Longrightarrow> d < 32 \<Longrightarrow> digit_char d \<noteq> 0 \<and> digit_char d \<noteq> 45"
  using digit_char_uint [of d] by (auto simp: word_uint_eq_iff split: if_splits)

lemma read_digits:
  assumes "\<forall>d \<in> set ds. 0 \<le> d \<and> d < 32"
  shows "read_num b (map digit_char (rev ds)) = digits_value b ds"
  using assms
  by (induction ds) (auto simp: read_num_def digits_value_def digit_char_value)

lemma read_numeral:
  assumes "2 \<le> b" and "b \<le> 32" and "n \<ge> 0"
  shows "read_num b (numeral_of b n) = n"
  unfolding numeral_of_def
  by (subst read_digits) (use assms digits_of_range [of b _ n] digits_of_value [of b n] in fastforce)+

lemma numeral_chars: "2 \<le> b \<Longrightarrow> b \<le> 32 \<Longrightarrow> c \<in> set (numeral_of b n) \<Longrightarrow> c \<noteq> 0 \<and> c \<noteq> 45"
  using digits_of_range [of b _ n] digit_char_not by (fastforce simp: numeral_of_def)

lemma numeral_nonempty: "2 \<le> b \<Longrightarrow> n \<ge> 0 \<Longrightarrow> numeral_of b n \<noteq> []"
  using digits_of_nonempty by (simp add: numeral_of_def)

lemma read_int_numeral: "n \<ge> 0 \<Longrightarrow> read_int (numeral_of 10 n) = n"
proof -
  assume n: "n \<ge> 0"
  obtain c cs where c: "numeral_of 10 n = c # cs" using numeral_nonempty [of 10 n] n by (cases "numeral_of 10 n") auto
  then have "c \<noteq> 45" using numeral_chars [of 10 c n] by simp
  with c read_numeral [of 10 n] n show ?thesis by (simp add: read_int_def)
qed

text \<open>A decimal numeral of the machine has at most ten digits.\<close>

lemma length_numeral_10: "0 \<le> n \<Longrightarrow> n < 2 ^ 31 \<Longrightarrow> length (numeral_of 10 n) \<le> 10"
  using length_low_digits [of n 10 10] by (simp add: numeral_of_def digits_of_def)

lemma length_numeral_31: "2 \<le> b \<Longrightarrow> 0 \<le> n \<Longrightarrow> n < 2 ^ 31 \<Longrightarrow> length (numeral_of b n) \<le> 31"
proof -
  assume b: "2 \<le> b" and n: "0 \<le> n" "n < 2 ^ 31"
  then have "n < b ^ 31" using power_mono [of 2 b 31] by simp
  then show ?thesis
    using length_low_digits [OF n(1) _ b] by (simp add: numeral_of_def digits_of_def)
qed

lemma itoa_decimal:
  assumes v: "- (2 ^ 31) < value" "value < 2 ^ 31" and len: "length buf \<ge> 12"
  shows "\<exists>b. itoa value buf 10 = Some b \<and> length b = length buf \<and> 0 \<in> set b \<and> read_int (c_string b) = value"
proof (cases "value \<ge> 0")
  case True
  have l: "length (numeral_of 10 \<bar>value\<bar>) < length buf" using length_numeral_10 [of "\<bar>value\<bar>"] v len True by simp
  have "0 \<notin> set (numeral_of 10 \<bar>value\<bar>)" using numeral_chars [of 10 0] by auto
  then have "c_string (numeral_of 10 \<bar>value\<bar> @ 0 # drop (Suc (length (numeral_of 10 \<bar>value\<bar>))) buf) = numeral_of 10 \<bar>value\<bar>"
    by (rule c_string_terminated)
  with itoa_unsigned [OF _ _ v _ l] read_int_numeral [of "\<bar>value\<bar>"] True l show ?thesis by simp
next
  case False
  have l: "Suc (length (numeral_of 10 (- value))) < length buf" using length_numeral_10 [of "- value"] v len False by simp
  have "0 \<notin> set (45 # numeral_of 10 (- value))" using numeral_chars [of 10 0] by auto
  from c_string_terminated [OF this]
  have "c_string (45 # numeral_of 10 (- value) @ 0 # drop (Suc (Suc (length (numeral_of 10 (- value))))) buf)
      = 45 # numeral_of 10 (- value)" by simp
  with itoa_negative [OF v(1) _ l] read_numeral [of 10 "- value"] False l show ?thesis by (simp add: read_int_def)
qed

end
