(* ===== verification/Print_Abs.thy ===== *)
theory Print_Abs
  imports Strings_Abs
begin

text \<open>
  Strings, memory and the terminal: what is copied, what is transmitted, and where the fixed
  buffers of \<open>print.c\<close> end.
\<close>

unbundle bit_operations_syntax

section \<open>strlen and strcpy\<close>

lemma strlen_terminated: "0 \<notin> set cs \<Longrightarrow> strlen (cs @ 0 # r) n = Some (n + of_nat (length cs))"
  by (induction cs arbitrary: n) (auto simp: algebra_simps)

lemma strlen_c_string: "0 \<in> set buf \<Longrightarrow> strlen buf 0 = Some (of_nat (length (c_string buf)))"
proof -
  assume "0 \<in> set buf"
  then obtain cs r where "buf = cs @ 0 # r" "0 \<notin> set cs" by (meson split_list_first)
  then show ?thesis using strlen_terminated [of cs r 0] by (simp add: c_string_terminated)
qed

lemma strcpy_terminated:
  "0 \<notin> set cs \<Longrightarrow> strcpy dest (int i) (cs @ 0 # r) =
    (if i + length cs < length dest then Some (overwrite dest i (cs @ [0])) else None)"
proof (induction cs arbitrary: dest i)
  case Nil
  then show ?case using store_byte_nat [of dest i 0] by simp
next
  case (Cons c cs)
  show ?case
  proof (cases "i < length dest")
    case True
    have l: "length (overwrite dest i [c]) = length dest" using True by simp
    have "strcpy dest (int i) ((c # cs) @ 0 # r) = strcpy (overwrite dest i [c]) (int (Suc i)) (cs @ 0 # r)"
      using Cons.prems True store_byte_nat [of dest i c] by (simp add: add.commute)
    also have "\<dots> = (if Suc i + length cs < length dest
        then Some (overwrite (overwrite dest i [c]) (Suc i) (cs @ [0])) else None)"
      using Cons.IH [of "overwrite dest i [c]" "Suc i"] Cons.prems l by simp
    also have "\<dots> = (if i + length (c # cs) < length dest then Some (overwrite dest i ((c # cs) @ [0])) else None)"
      using overwrite_Cons [of i c "cs @ [0]" dest] by simp
    finally show ?thesis .
  next
    case False
    with Cons.prems store_byte_nat [of dest i c] show ?thesis by simp
  qed
qed

section \<open>memcpy and memset\<close>

lemma memset_from_spec:
  "memset_from p c k m a = (if \<exists>j < k. a = p + of_nat j then c else m a)"
proof (induction k arbitrary: p m)
  case (Suc k)
  have "(\<exists>j < Suc k. a = p + of_nat j) \<longleftrightarrow> a = p \<or> (\<exists>j < k. a = p + 1 + of_nat j)"
  proof
    assume "\<exists>j < Suc k. a = p + of_nat j"
    then obtain j where "j < Suc k" "a = p + of_nat j" by blast
    then show "a = p \<or> (\<exists>j < k. a = p + 1 + of_nat j)" by (cases j) (auto simp: algebra_simps)
  next
    assume "a = p \<or> (\<exists>j < k. a = p + 1 + of_nat j)"
    then show "\<exists>j < Suc k. a = p + of_nat j"
    proof
      assume "\<exists>j < k. a = p + 1 + of_nat j"
      then obtain j where "j < k" "a = p + 1 + of_nat j" by blast
      then show ?thesis by (intro exI [of _ "Suc j"]) (simp add: algebra_simps)
    qed (intro exI [of _ 0], simp)
  qed
  with Suc show ?case by (auto simp: add.commute)
qed simp

lemma memcpy_from_spec:
  assumes "\<And>j j'. i \<le> j \<Longrightarrow> j < i + k \<Longrightarrow> i \<le> j' \<Longrightarrow> j' < i + k \<Longrightarrow> d + of_nat j \<noteq> s + of_nat j'"
  shows "memcpy_from d s (of_nat i) k m a
    = (if \<exists>j. i \<le> j \<and> j < i + k \<and> a = d + of_nat j then m (s + (a - d)) else m a)"
  using assms
proof (induction k arbitrary: i m)
  case (Suc k)
  let ?m = "m(d + of_nat i := m (s + of_nat i))"
  have "memcpy_from d s (of_nat i) (Suc k) m a = memcpy_from d s (of_nat (Suc i)) k ?m a" by (simp add: add.commute)
  also have "\<dots> = (if \<exists>j. Suc i \<le> j \<and> j < Suc i + k \<and> a = d + of_nat j then ?m (s + (a - d)) else ?m a)"
    by (rule Suc.IH) (use Suc.prems in auto)
  also have "\<dots> = (if \<exists>j. i \<le> j \<and> j < i + Suc k \<and> a = d + of_nat j then m (s + (a - d)) else m a)"
  proof (cases "\<exists>j. Suc i \<le> j \<and> j < Suc i + k \<and> a = d + of_nat j")
    case True
    then obtain j where j: "Suc i \<le> j" "j < Suc i + k" "a = d + of_nat j" by blast
    then have "s + (a - d) \<noteq> d + of_nat i" using Suc.prems [of i j] by auto
    moreover have "\<exists>j. i \<le> j \<and> j < i + Suc k \<and> a = d + of_nat j" using j by (intro exI [of _ j]) auto
    ultimately show ?thesis using True by simp
  next
    case False
    show ?thesis
    proof (cases "a = d + of_nat i")
      case True
      then have "\<exists>j. i \<le> j \<and> j < i + Suc k \<and> a = d + of_nat j" by (intro exI [of _ i]) auto
      with False True show ?thesis by simp
    next
      case ne: False
      then have n: "\<not> (\<exists>j. i \<le> j \<and> j < i + Suc k \<and> a = d + of_nat j)"
        using False by (metis Suc_leI add_Suc_right add_Suc le_neq_implies_less)
      show ?thesis unfolding if_not_P [OF False] if_not_P [OF n] using ne by simp
    qed
  qed
  finally show ?case .
qed auto

lemma memcpy_spec:
  assumes "\<And>j j'. j < unat n \<Longrightarrow> j' < unat n \<Longrightarrow> d + of_nat j \<noteq> s + of_nat j'"
  shows "memcpy d s n m a = (if \<exists>j < unat n. a = d + of_nat j then m (s + (a - d)) else m a)"
  using memcpy_from_spec [of 0 "unat n" d s m a] assms by (simp add: memcpy_def)

section \<open>The terminal\<close>

text \<open>
  A transmitter of the terminal \<open>trm\<close> that works: after a finite number of busy answers it has transmitted, and the
  commands other than the acknowledgement are what it puts out.
\<close>

definition transmits :: "'d terminal \<Rightarrow> u32 \<Rightarrow> ('d \<Rightarrow> bool) \<Rightarrow> ('d \<Rightarrow> nat) \<Rightarrow> ('d \<Rightarrow> u32 list) \<Rightarrow> bool" where
  "transmits T trm good busy out \<longleftrightarrow>
     (\<forall>d st d'. good d \<longrightarrow> t_status T (statusp T trm) d = (st, d') \<longrightarrow> good d' \<and> out d' = out d \<and>
        (if busy d = 0 then st AND STATUSMASK = TRANSMITTED else st AND STATUSMASK = T_BUSY T \<and> busy d' < busy d)) \<and>
     (\<forall>d w. good d \<longrightarrow> good (t_command T (commandp T trm) w d) \<and>
        (if w = T_ACK then out (t_command T (commandp T trm) w d) = out d \<and> busy (t_command T (commandp T trm) w d) = 0
         else out (t_command T (commandp T trm) w d) = out d @ [w])) \<and>
     T_BUSY T \<noteq> TRANSMITTED"

lemma print_command_not_ack: "print_command c \<noteq> T_ACK"
proof
  assume "print_command c = T_ACK"
  then have "bit (print_command c) 1 = bit T_ACK 1" by simp
  then show False by (simp add: print_command_def PRINTCHR_def T_ACK_def bit_or_iff bit_1_iff)
qed

lemma termstat_good:
  assumes "transmits T trm good busy out" and "good d"
  shows "\<exists>st d'. termstat T (statusp T trm) d = (st, d') \<and> good d' \<and> out d' = out d \<and>
    (if busy d = 0 then st = TRANSMITTED else st = T_BUSY T \<and> busy d' < busy d)"
proof -
  obtain st d' where s: "t_status T (statusp T trm) d = (st, d')" by (cases "t_status T (statusp T trm) d")
  from assms(1) have "\<forall>d st d'. good d \<longrightarrow> t_status T (statusp T trm) d = (st, d') \<longrightarrow> good d' \<and> out d' = out d \<and>
        (if busy d = 0 then st AND STATUSMASK = TRANSMITTED else st AND STATUSMASK = T_BUSY T \<and> busy d' < busy d)"
    unfolding transmits_def by (elim conjE)
  from this [rule_format, OF assms(2) s] show ?thesis by (simp add: termstat_def s)
qed

lemma wait_good:
  assumes T: "transmits T trm good busy out"
  shows "good d \<Longrightarrow> \<exists>d'. (case termstat T (statusp T trm) d of (st, d) \<Rightarrow> wait_not_busy T (statusp T trm) st d) = Some (TRANSMITTED, d')
    \<and> good d' \<and> out d' = out d"
proof (induction "busy d" arbitrary: d rule: less_induct)
  case less
  have ne: "T_BUSY T \<noteq> TRANSMITTED" using T by (simp add: transmits_def)
  from termstat_good [OF T less.prems] obtain st d' where
    1: "termstat T (statusp T trm) d = (st, d')" "good d'" "out d' = out d"
    "if busy d = 0 then st = TRANSMITTED else st = T_BUSY T \<and> busy d' < busy d" by blast
  show ?case
  proof (cases "busy d = 0")
    case True
    then show ?thesis using 1 ne by (simp add: wait_not_busy.simps)
  next
    case False
    with 1(4) have b: "st = T_BUSY T" "busy d' < busy d" by simp_all
    from less.hyps [OF b(2) 1(2)] 1 b(1) show ?thesis
      by (simp add: wait_not_busy.simps [of T "statusp T trm" "T_BUSY T" d'])
  qed
qed

lemma command_good:
  assumes "transmits T trm good busy out" and "good d"
  shows "good (t_command T (commandp T trm) w d)" and "w \<noteq> T_ACK \<Longrightarrow> out (t_command T (commandp T trm) w d) = out d @ [w]"
    and "out (t_command T (commandp T trm) T_ACK d) = out d"
  using assms unfolding transmits_def by metis+

lemma print_cycle_good:
  assumes T: "transmits T trm good busy out" and "good d" and "0 \<notin> set cs"
  shows "\<exists>d'. print_cycle T (statusp T trm) (commandp T trm) (cs @ 0 # r) False d = Some (False, d') \<and> good d' \<and> out d' = out d @ map print_command cs"
  using assms(2,3)
proof (induction cs arbitrary: d)
  case Nil
  then show ?case by (simp add: print_cycle.simps)
next
  case (Cons c cs)
  let ?d = "t_command T (commandp T trm) (print_command c) d"
  note cmd = command_good [OF T Cons.prems(1)]
  from wait_good [OF T cmd(1)] obtain d' where
    1: "(case termstat T (statusp T trm) ?d of (st, d) \<Rightarrow> wait_not_busy T (statusp T trm) st d) = Some (TRANSMITTED, d')" "good d'" "out d' = out ?d"
    by blast
  note ack = command_good [OF T 1(2)]
  have "0 \<notin> set cs" using Cons.prems(2) by simp
  from Cons.IH [OF ack(1) [of T_ACK] this] obtain d'' where
    2: "print_cycle T (statusp T trm) (commandp T trm) (cs @ 0 # r) False (t_command T (commandp T trm) T_ACK d') = Some (False, d'')" "good d''"
    "out d'' = out (t_command T (commandp T trm) T_ACK d') @ map print_command cs" by blast
  have "print_cycle T (statusp T trm) (commandp T trm) ((c # cs) @ 0 # r) False d = print_cycle T (statusp T trm) (commandp T trm) (cs @ 0 # r) False (t_command T (commandp T trm) T_ACK d')"
    using 1(1) Cons.prems(2)
    by (subst print_cycle.simps) (auto simp: Let_def split: prod.split)
  with 2 ack(3) 1(3) cmd(2) [OF print_command_not_ack, of c] show ?case by simp
qed

lemma termprint_good:
  assumes T: "transmits T trm good busy out" and d: "good d" "busy d = 0" and cs: "0 \<notin> set cs" and trm: "trm < T_DEVPERINT T"
  shows "\<exists>d'. termprint T (cs @ 0 # r) trm d = Some (True, d') \<and> good d' \<and> busy d' = 0 \<and> out d' = out d @ map print_command cs"
proof -
  from termstat_good [OF T d(1)] d(2) obtain d1 where
    1: "termstat T (statusp T trm) d = (TRANSMITTED, d1)" "good d1" "out d1 = out d" by auto
  from print_cycle_good [OF T 1(2) cs, of r] obtain d2 where
    2: "print_cycle T (statusp T trm) (commandp T trm) (cs @ 0 # r) False d1 = Some (False, d2)" "good d2" "out d2 = out d1 @ map print_command cs" by blast
  have "busy (t_command T (commandp T trm) T_ACK d2) = 0" using T 2(2) unfolding transmits_def by metis
  with 1 2 command_good [OF T 2(2)] trm show ?thesis by (simp add: termprint_def)
qed

section \<open>okbuf\<close>

lemma okbuf_copy_spec:
  assumes "0 \<notin> set cs" and "mp s = int i"
  shows "okbuf_copy (cs @ 0 # r) s =
    (if i + length cs < length (okbuf s)
     then Some \<lparr>okbuf = overwrite (okbuf s) i (cs @ [0]), mp = int (i + length cs) + 1\<rparr> else None)"
  using assms
proof (induction cs arbitrary: s i)
  case Nil
  then show ?case using store_byte_nat [of "okbuf s" i 0] by simp
next
  case (Cons c cs)
  show ?case
  proof (cases "i < length (okbuf s)")
    case True
    let ?s = "\<lparr>okbuf = overwrite (okbuf s) i [c], mp = int (Suc i)\<rparr>"
    have l: "length (overwrite (okbuf s) i [c]) = length (okbuf s)" using True by simp
    have "okbuf_copy ((c # cs) @ 0 # r) s = okbuf_copy (cs @ 0 # r) ?s"
      using Cons.prems True store_byte_nat [of "okbuf s" i c] by (simp add: add.commute)
    also have "\<dots> = (if Suc i + length cs < length (okbuf ?s)
        then Some \<lparr>okbuf = overwrite (okbuf ?s) (Suc i) (cs @ [0]), mp = int (Suc i + length cs) + 1\<rparr> else None)"
      by (rule Cons.IH) (use Cons.prems in simp_all)
    also have "\<dots> = (if i + length (c # cs) < length (okbuf s)
        then Some \<lparr>okbuf = overwrite (okbuf s) i ((c # cs) @ [0]), mp = int (i + length (c # cs)) + 1\<rparr> else None)"
      using overwrite_Cons [of i c "cs @ [0]" "okbuf s"] l by simp
    finally show ?thesis .
  next
    case False
    with Cons.prems store_byte_nat [of "okbuf s" i c] show ?thesis by simp
  qed
qed

lemma addokbuf_good:
  assumes T: "transmits T 1 good busy out" and d: "good d" "busy d = 0" "1 < T_DEVPERINT T"
    and cs: "0 \<notin> set cs" and m: "mp s = int i"
  shows "if i + length cs < length (okbuf s)
    then \<exists>d'. addokbuf T (cs @ 0 # r) (s, d) =
        Some (\<lparr>okbuf = overwrite (okbuf s) i (cs @ [0]), mp = int (i + length cs)\<rparr>, d')
      \<and> good d' \<and> busy d' = 0 \<and> out d' = out d @ map print_command cs
    else addokbuf T (cs @ 0 # r) (s, d) = None"
  using termprint_good [OF T d(1,2) cs d(3), of r] okbuf_copy_spec [OF cs m, of r]
  by (auto simp: addokbuf_def)

section \<open>printf\<close>

lemma put_str_spec:
  assumes "0 \<in> set st" and "length (c_string st) < 2 ^ 31" and "pos f = int i" and "i + length (c_string st) < length (buff f)"
  shows "put_str st f = Some (f\<lparr>buff := overwrite (buff f) i (c_string st @ [0]), pos := int (i + length (c_string st))\<rparr>)"
proof -
  obtain cs r where st: "st = cs @ 0 # r" "0 \<notin> set cs" using assms(1) by (meson split_list_first)
  then have c: "c_string st = cs" by (simp add: c_string_terminated)
  have "sint (of_nat (length cs) :: u32) = int (length cs)"
    using assms(2) c signed_take_bit_int_eq_self [of 31 "int (length cs)"] by (simp add: signed_of_nat)
  with strlen_terminated [OF st(2), of r 0] strcpy_terminated [OF st(2), of "buff f" i r] assms(3,4) c st(1)
  show ?thesis by (simp add: put_str_def)
qed

text \<open>A format without \<open>%\<close> is copied.\<close>

lemma printf_loop_plain:
  assumes "0 \<notin> set cs" and "37 \<notin> set cs" and "pos f = int i" and "i + length cs \<le> length (buff f)"
  shows "printf_loop (cs @ [0]) f = Some (f\<lparr>buff := overwrite (buff f) i cs, pos := int (i + length cs)\<rparr>)"
  using assms
proof (induction cs arbitrary: f i)
  case (Cons c cs)
  let ?f = "f\<lparr>buff := overwrite (buff f) i [c], pos := int (Suc i)\<rparr>"
  have "put_char c f = Some ?f"
    using Cons.prems store_byte_nat [of "buff f" i c] by (simp add: put_char_def add.commute)
  then have "printf_loop ((c # cs) @ [0]) f = printf_loop (cs @ [0]) ?f"
    using Cons.prems by (cases "cs @ [0]") auto
  also have "\<dots> = Some (?f\<lparr>buff := overwrite (buff ?f) (Suc i) cs, pos := int (Suc i + length cs)\<rparr>)"
    by (rule Cons.IH) (use Cons.prems in simp_all)
  finally show ?case using overwrite_Cons [of i c cs "buff f"] Cons.prems by simp
qed simp

text \<open>The end of \<open>printf\<close>: the buffer is terminated, recorded and transmitted.\<close>

lemma printf_finish:
  assumes T: "transmits T 1 good busy out" and d: "good d" "busy d = 0" "1 < T_DEVPERINT T"
    and run: "printf_loop fmt \<lparr>buff = b0, tmp = t0, pos = 0, va_list = args\<rparr> = Some f"
    and f: "take (length cs) (buff f) = cs" "pos f = int (length cs)" "length cs < length (buff f)" "0 \<notin> set cs"
    and m: "mp s = int i" "i + length cs < length (okbuf s)"
  shows "\<exists>d'. printf T fmt args b0 t0 (s, d) = Some (int (length cs),
      \<lparr>okbuf = overwrite (okbuf s) i (cs @ [0]), mp = int (i + length cs)\<rparr>, d')
    \<and> good d' \<and> out d' = out d @ map print_command cs"
proof -
  have "store_byte (buff f) (pos f) 0 = Some (cs @ 0 # drop (Suc (length cs)) (buff f))"
    using f store_byte_nat [of "buff f" "length cs" 0] by (simp add: overwrite_def)
  with addokbuf_good [OF T d f(4) m(1), of "drop (Suc (length cs)) (buff f)"] m(2) run f(2)
  show ?thesis by (auto simp: printf_def)
qed

lemma printf_plain:
  assumes T: "transmits T 1 good busy out" and d: "good d" "busy d = 0" "1 < T_DEVPERINT T"
    and cs: "0 \<notin> set cs" "37 \<notin> set cs" "length cs < length b0" and m: "mp s = int i" "i + length cs < length (okbuf s)"
  shows "\<exists>d'. printf T (cs @ [0]) [] b0 t0 (s, d) = Some (int (length cs),
      \<lparr>okbuf = overwrite (okbuf s) i (cs @ [0]), mp = int (i + length cs)\<rparr>, d')
    \<and> good d' \<and> out d' = out d @ map print_command cs"
proof (rule printf_finish [OF T d _ _ _ _ cs(1) m])
  show "printf_loop (cs @ [0]) \<lparr>buff = b0, tmp = t0, pos = 0, va_list = []\<rparr>
      = Some \<lparr>buff = overwrite b0 0 cs, tmp = t0, pos = int (length cs), va_list = []\<rparr>"
    using printf_loop_plain [OF cs(1,2), of "\<lparr>buff = b0, tmp = t0, pos = 0, va_list = []\<rparr>" 0] cs(3) by simp
qed (use cs(3) in \<open>simp_all add: overwrite_def\<close>)

text \<open>\<open>printf("%d", w)\<close> transmits a numeral of \<open>w\<close>.\<close>

lemma printf_decimal:
  assumes T: "transmits T 1 good busy out" and d: "good d" "busy d = 0" "1 < T_DEVPERINT T"
    and w: "- (2 ^ 31) < sint (w :: u32)" and buf: "length b0 = 200" "length t0 = 20"
    and m: "mp s = int i" "i + 20 < length (okbuf s)"
  shows "\<exists>cs s' d'. printf T [37, 100, 0] [VInt w] b0 t0 (s, d) = Some (int (length cs), s', d')
    \<and> out d' = out d @ map print_command cs \<and> read_int cs = sint w"
proof -
  have "sint w < 2 ^ 31" using sint_lt [of w] by simp
  from itoa_decimal [OF w this, of t0] buf(2) obtain b where
    b: "itoa (sint w) t0 10 = Some b" "length b = 20" "read_int (c_string b) = sint w" and z: "0 \<in> set b" by auto
  let ?cs = "c_string b"
  have "length ?cs \<le> length b" unfolding c_string_def by (rule length_takeWhile_le)
  then have l: "length ?cs \<le> 20" using b(2) by simp
  let ?f = "\<lparr>buff = b0, tmp = b, pos = 0, va_list = []\<rparr>"
  have "printf_loop [37, 100, 0] \<lparr>buff = b0, tmp = t0, pos = 0, va_list = [VInt w]\<rparr> = put_str b ?f"
    using b(1) by (cases "put_str b ?f") (simp_all add: fmt_spec_def fmt_itoa_def va_int_def)
  also have "\<dots> = Some \<lparr>buff = overwrite b0 0 (?cs @ [0]), tmp = b, pos = int (length ?cs), va_list = []\<rparr>"
    using put_str_spec [OF z, of ?f 0] l buf(1) by simp
  finally have "printf_loop [37, 100, 0] \<lparr>buff = b0, tmp = t0, pos = 0, va_list = [VInt w]\<rparr>
      = Some \<lparr>buff = overwrite b0 0 (?cs @ [0]), tmp = b, pos = int (length ?cs), va_list = []\<rparr>" .
  from printf_finish [OF T d this, of ?cs s i] l buf(1) m b(3) show ?thesis
    by (fastforce simp: overwrite_def c_string_def dest: set_takeWhileD)
qed

end
