(* ===== verification/Umps3.thy ===== *)
theory Umps3
  imports Boot
begin

text \<open>
  A concrete machine and a concrete state, for the witnesses of the properties: the layout the
  uMPS3 documentation gives for the interface record, with linker addresses in kernel memory,
  and the states the kernel reaches from zeroed memory on it.
\<close>

definition umps3 :: umps where
  "umps3 = \<lparr>STATE_GPR_LEN = 29, ix_v0 = 1, ix_a0 = 3, ix_a1 = 4, ix_a2 = 5, ix_a3 = 6, ix_sp = 26, ix_t9 = 24,
     load_state = (\<lambda>m a. \<lparr>entry_hi = m a, cause = m (a + 4), status = m (a + 8), pc_epc = m (a + 12),
       gpr = (\<lambda>i. m (a + 16 + 4 * of_nat i)), r_hi = m (a + 132), r_lo = m (a + 136)\<rparr>),
     DEVPERINT = 8, DEVINTNUM = 5, DEV_IL_START = 3, DEV_REG_START = 0x10000054, DEV_REG_SIZE = 16,
     DEV_REG_ADDR = (\<lambda>line dev. 0x10000054 + (line - 3) * 0x80 + dev * 0x10),
     CDEV_BITMAP_ADDR = (\<lambda>line. 0x10000040 + (line - 3) * 4),
     IDEV_BITMAP_ADDR = (\<lambda>line. 0x1000002C + (line - 3) * 4),
     EXT_IL_INDEX = (\<lambda>line. line - 3), N_DEV_PER_IL = 8,
     IL_DISK = 3, IL_FLASH = 4, IL_ETHERNET = 5, IL_PRINTER = 6, IL_TERMINAL = 7,
     DISKINT = 3, FLASHINT = 4, NETWINT = 5, PRNTINT = 6, TERMINT = 7,
     off_status = 0, off_command = 4, off_data0 = 8, off_data1 = 12,
     off_recv_status = 0, off_recv_command = 4, off_transm_status = 8, off_transm_command = 12,
     ix_STATUS = 0, ix_COMMAND = 1, ix_DATA0 = 2, ix_DATA1 = 3, READY = 1, BUSY = 3, ACK = 1,
     CAUSE_GET_EXCCODE = (\<lambda>c. drop_bit 2 (and c 0x7C)), CAUSE_IP = (\<lambda>line. push_bit (unat line + 8) 1),
     CAUSE_EXCCODE_BIT = 2, STATUS_KUp = 8, STATUS_KUp_BIT = 3, STATUS_TE = 0x08000000, STATUS_TE_BIT = 27,
     EXC_INT = 0, EXC_MOD = 1, EXC_TLBL = 2, EXC_TLBS = 3, EXC_SYS = 8, EXC_RI = 10,
     dev_sems_addr = 0x20003000, pseudo_clock_sem_addr = 0x20003100, PID_nsd_addr = 0x20003200,
     test_addr = 0x20008000, uTLB_RefillHandler_addr = 0x20008100, exceptionHandler_addr = 0x20008200,
     null_n_type = Some 0x1000\<rparr>"

definition zero_word_state :: state_t where
  "zero_word_state = \<lparr>entry_hi = 0, cause = 0, status = 0, pc_epc = 0, gpr = (\<lambda>_. 0), r_hi = 0, r_lo = 0\<rparr>"

definition zero_pcb :: pcb_t where
  "zero_pcb = \<lparr>p_parent = None, p_s = zero_word_state, p_time = 0, p_semAdd = 0, p_supportStruct = 0,
     namespaces = (\<lambda>_. None), p_pid = 0, p_savedDeviceStatus = 0\<rparr>"

definition zero_support :: support_t where
  "zero_support = \<lparr>sup_asid = 0, sup_exceptState = (\<lambda>_. zero_word_state),
     sup_exceptContext = (\<lambda>_. \<lparr>ctx_stackPtr = 0, ctx_status = 0, ctx_pc = 0\<rparr>),
     sup_privatePgTbl = (\<lambda>_. \<lparr>pte_entryHI = 0, pte_entryLO = 0\<rparr>)\<rparr>"

definition zero_state :: kstate where
  "zero_state = \<lparr>lists = \<lparr>nxt = (\<lambda>_. None), prv = (\<lambda>_. None)\<rparr>,
     semd_h = \<lparr>hfirst = (\<lambda>_. None), hnext = (\<lambda>_. None), hpprev = (\<lambda>_. None)\<rparr>,
     pcbs = (\<lambda>_. zero_pcb), nsds = (\<lambda>_. \<lparr>n_type = 0\<rparr>), semds = (\<lambda>_. \<lparr>s_key = 0\<rparr>),
     process_count = 0, soft_block_count = 0, current_active_process = None, pid_counter = 0,
     start_time = 0, mem = (\<lambda>_. 0), supports = (\<lambda>_. zero_support), bios_state = zero_word_state,
     passupvector = \<lparr>tlb_refill_handler = 0, tlb_refill_stackPtr = 0, exception_handler = 0,
       exception_stackPtr = 0\<rparr>,
     reg_STATUS = 0, reg_CAUSE = 0, reg_TIMER = 0, interval_timer = 0, tod = 0\<rparr>"

lemma zero_state_zeroed: "zeroed zero_state"
  by (simp add: zeroed_def zero_state_def zero_pcb_def)

text \<open>The state after \<open>initKernel\<close>, and after \<open>main\<close> has dispatched the first process.\<close>

definition booted :: kstate where
  "booted = snd (the (initKernel umps3 (test_addr umps3) zero_state))"

definition started :: kstate where
  "started = snd (the (main_entry umps3 zero_state))"

definition v_started :: kview where
  "v_started = v_first\<lparr>v_ready := []\<rparr>"

lemma booted_facts: "kinv booted v_first" "process_count booted = 1" "soft_block_count booted = 0"
  "current_active_process booted = None" "mem booted = (\<lambda>_. 0)" "p_pid (pcbs booted first_pcb) = 1"
proof -
  from initKernel_boot [OF zero_state_zeroed, of umps3 "test_addr umps3"] obtain t where
    t: "initKernel umps3 (test_addr umps3) zero_state = Some (None, t)" "kinv t v_first" "process_count t = 1"
    "soft_block_count t = 0" "current_active_process t = None" "mem t = cleared_sems umps3 (mem zero_state)"
    "p_pid (pcbs t first_pcb) = 1" by blast
  have b: "booted = t" by (simp add: booted_def t(1))
  show "kinv booted v_first" "process_count booted = 1" "soft_block_count booted = 0"
    "current_active_process booted = None" "p_pid (pcbs booted first_pcb) = 1" using t by (simp_all add: b)
  show "mem booted = (\<lambda>_. 0)" by (simp add: b t(6) fun_eq_iff cleared_sems zero_state_def)
qed

lemma started_facts: "kinv started v_started" "current_active_process started = Some first_pcb"
  "process_count started = 1" "soft_block_count started = 0" "mem started = (\<lambda>_. 0)"
  "namespaces (pcbs started first_pcb) = (\<lambda>_. None)" "pid_counter started = 2"
proof -
  from main_entry_boot [OF zero_state_zeroed, of umps3] obtain t where
    t: "main_entry umps3 zero_state = Some (LDST (p_s (pcbs t first_pcb)), t)" "kinv t (v_first\<lparr>v_ready := []\<rparr>)"
    "current_active_process t = Some first_pcb" "process_count t = 1" "soft_block_count t = 0"
    "mem t = cleared_sems umps3 (mem zero_state)" "namespaces (pcbs t first_pcb) = namespaces (pcbs zero_state first_pcb)"
    "pid_counter t = 2" by blast
  have b: "started = t" by (simp add: started_def t(1))
  show "kinv started v_started" "current_active_process started = Some first_pcb"
    "process_count started = 1" "soft_block_count started = 0" "pid_counter started = 2"
    using t by (simp_all add: b v_started_def)
  show "mem started = (\<lambda>_. 0)" by (simp add: b t(6) fun_eq_iff cleared_sems zero_state_def)
  show "namespaces (pcbs started first_pcb) = (\<lambda>_. None)" by (simp add: b t(7) zero_state_def zero_pcb_def)
qed

lemma v_started_simps [simp]: "v_free v_started = rev [0..<first_pcb]" "v_ready v_started = []"
  "v_kids v_started = (\<lambda>_. [])" "v_semq v_started = (\<lambda>_. [])" "v_nsfree v_started = [0..<MAXPROC]"
  "v_nslist v_started = []"
  by (simp_all add: v_started_def v_first_def v_boot_def)

lemma v_first_simps [simp]: "v_free v_first = rev [0..<first_pcb]" "v_ready v_first = [first_pcb]"
  "v_kids v_first = (\<lambda>_. [])" "v_semq v_first = (\<lambda>_. [])" "v_nsfree v_first = [0..<MAXPROC]"
  "v_nslist v_first = []"
  by (simp_all add: v_first_def v_boot_def)

end
