(* ===== verification/Runs.thy ===== *)
theory Runs
  imports Kernel_Step Handler_Abs Umps3 Print_Abs
begin

text \<open>
  Concrete configurations of the concrete machine, reachable from boot: the first process runs
  and calls the kernel.  The witnesses of the properties use them.
\<close>

section \<open>The machine meets what the properties ask of it\<close>

lemma word_le_8:
  assumes "(d :: u32) \<le> 8"
  shows "d \<in> {0, 1, 2, 3, 4, 5, 6, 7, 8}"
proof -
  have "unat d \<le> 8" using assms by (simp add: word_le_nat_alt)
  then have "unat d \<in> {0, 1, 2, 3, 4, 5, 6, 7, 8}" by auto
  then have "of_nat (unat d) \<in> (of_nat ` {0, 1, 2, 3, 4, 5, 6, 7, 8} :: u32 set)" by (rule imageI)
  then show ?thesis by simp
qed

lemma umps3_dev_sems: "dev_sems_ok umps3"
  unfolding dev_sems_ok_def
proof (intro conjI ballI allI impI)
  fix line d assume l: "line \<in> {IL_DISK umps3, IL_FLASH umps3, IL_ETHERNET umps3, IL_PRINTER umps3}"
    and d: "d \<le> N_DEV_PER_IL umps3"
  have "d \<in> {0, 1, 2, 3, 4, 5, 6, 7, 8}" using d by (intro word_le_8) (simp add: umps3_def)
  with l show "getDevSem umps3 (EXT_IL_INDEX umps3 line * DEVPERINT umps3 + d) \<noteq> 0"
    by (auto simp: umps3_def getDevSem_def)
next
  fix d i :: u32 assume d: "d \<le> N_DEV_PER_IL umps3" and i: "i \<in> {0, 1}"
  have "d \<in> {0, 1, 2, 3, 4, 5, 6, 7, 8}" using d by (intro word_le_8) (simp add: umps3_def)
  with i show "getDevSem umps3 (EXT_IL_INDEX umps3 (IL_TERMINAL umps3) * DEVPERINT umps3 + d * 2 + i) \<noteq> 0"
    by (auto simp: umps3_def getDevSem_def)
qed

lemma umps3_ok: "machine_ok umps3"
  using umps3_dev_sems by (simp add: machine_ok_def) (simp add: umps3_def getPseudoClockSem_def)

section \<open>The first process calls the kernel\<close>

definition call_state :: "u32 \<Rightarrow> u32 \<Rightarrow> u32 \<Rightarrow> u32 \<Rightarrow> state_t" where
  "call_state code a1 a2 a3 = zero_word_state\<lparr>cause := 0x20,
     gpr := (\<lambda>i. if i = 3 then code else if i = 4 then a1 else if i = 5 then a2 else if i = 6 then a3 else 0)\<rparr>"

text \<open>The call with the memory \<open>m\<close> the process has made.\<close>

definition calling_with :: "(u32 \<Rightarrow> u32) \<Rightarrow> u32 \<Rightarrow> u32 \<Rightarrow> u32 \<Rightarrow> u32 \<Rightarrow> kstate" where
  "calling_with m code a1 a2 a3 = started\<lparr>mem := m, bios_state := call_state code a1 a2 a3, reg_STATUS := 0\<rparr>"

abbreviation calling :: "u32 \<Rightarrow> u32 \<Rightarrow> kstate" where
  "calling code a1 \<equiv> calling_with (\<lambda>_. 0) code a1 0 0"

lemma calling_facts:
  "kinv (calling_with m code a1 a2 a3) v_started" "current_active_process (calling_with m code a1 a2 a3) = Some first_pcb"
  "kernel_mode umps3 (calling_with m code a1 a2 a3)" "sys_code umps3 (calling_with m code a1 a2 a3) = code"
  "FIRST_PARAM umps3 (calling_with m code a1 a2 a3) = a1" "SECOND_PARAM umps3 (calling_with m code a1 a2 a3) = a2"
  "THIRD_PARAM umps3 (calling_with m code a1 a2 a3) = a3"
  "mem (calling_with m code a1 a2 a3) = m" "exc_code umps3 (calling_with m code a1 a2 a3) = 8"
  using started_facts
  by (simp_all add: calling_with_def call_state_def kernel_mode_def sys_code_def FIRST_PARAM_def SECOND_PARAM_def
      THIRD_PARAM_def umps3_def exc_code_def zero_word_state_def)

lemma started_reachable: "reachable umps3 (LDST (p_s (pcbs started first_pcb)), started)"
proof (rule reachable.boot [OF zero_state_zeroed])
  from main_entry_boot [OF zero_state_zeroed, of umps3] obtain t where
    t: "main_entry umps3 zero_state = Some (LDST (p_s (pcbs t first_pcb)), t)" by blast
  then show "main_entry umps3 zero_state = Some (LDST (p_s (pcbs started first_pcb)), started)"
    by (simp add: started_def)
qed

lemma calling_reachable:
  "reachable umps3 (LDST (p_s (pcbs started first_pcb)), calling_with m code a1 a2 a3)"
proof (rule reachable.step [OF started_reachable], rule kstep.outside)
  show "outside started (calling_with m code a1 a2 a3)"
    unfolding calling_with_def by (rule outside_update)
qed (simp add: gives_processor_def)

section \<open>A second process\<close>

text \<open>The first process creates PCB 18; then it blocks on \<open>k\<close> and the second one runs.\<close>

definition created :: kstate where
  "created = snd (the (createProcess umps3 zero_word_state 0 None started))"

definition v_created :: kview where
  "v_created = v_new 18 (rev [0..<18]) first_pcb v_started"

lemma first_free: "v_free v_started = 18 # rev [0..<18]"
proof -
  have "[0..<first_pcb] = [0..<18] @ [18]" by (simp add: first_pcb_def upt_rec numeral_eq_Suc)
  then show ?thesis by simp
qed

lemma zero_pcb_facts: "namespaces (pcbs started first_pcb) 0 = None" "null_n_type umps3 = Some 0x1000"
  using started_facts(6) by (simp_all add: umps3_def)

lemma created_facts: "kinv created v_created" "current_active_process created = Some first_pcb"
  "mem created = (\<lambda>_. 0)" "createProcess umps3 zero_word_state 0 None started = Some (2, created)"
  "p_parent (pcbs created 18) = Some first_pcb" "soft_block_count created = 0" "process_count created = 2"
proof -
  let ?n = "new_process umps3 18 first_pcb zero_word_state 0 started"
  from createProcess_stale(1) [OF started_facts(1,2) first_free zero_pcb_facts, of zero_word_state 0]
  obtain h hh ds where
    1: "createProcess umps3 zero_word_state 0 None started = Some (2, relink h hh ds ?n)" "kabs (relink h hh ds ?n) v_created"
    by (auto simp: started_facts(7) v_created_def elim!: runs_toE)
  have c: "created = relink h hh ds ?n" by (simp add: created_def 1(1))
  show "createProcess umps3 zero_word_state 0 None started = Some (2, created)" by (simp add: c 1(1))
  show "kinv created v_created"
    using 1(2) create_inv [OF started_facts(1,2) first_free] by (simp add: kinv_def c v_created_def)
  have "first_pcb \<noteq> 18" by (simp add: first_pcb_def)
  then show "current_active_process created = Some first_pcb" "mem created = (\<lambda>_. 0)"
    "p_parent (pcbs created 18) = Some first_pcb" "soft_block_count created = 0" "process_count created = 2"
    using started_facts by (simp_all add: c new_process_def set_pcb_def)
qed

lemma v_created_simps [simp]: "v_free v_created = rev [0..<18]" "v_ready v_created = [18]"
  "v_kids v_created = (\<lambda>q. if q = first_pcb then [18] else [])" "v_semq v_created = (\<lambda>_. [])"
  by (auto simp: v_created_def v_new_def)

text \<open>A process of a state calls the kernel.\<close>

definition call_in :: "kstate \<Rightarrow> (u32 \<Rightarrow> u32) \<Rightarrow> u32 \<Rightarrow> u32 \<Rightarrow> u32 \<Rightarrow> kstate" where
  "call_in s m code a1 a2 = s\<lparr>mem := m, bios_state := call_state code a1 a2 0, reg_STATUS := 0\<rparr>"

lemma call_in_facts:
  "kinv (call_in s m code a1 a2) v = kinv s v" "current_active_process (call_in s m code a1 a2) = current_active_process s"
  "kernel_mode umps3 (call_in s m code a1 a2)" "sys_code umps3 (call_in s m code a1 a2) = code"
  "FIRST_PARAM umps3 (call_in s m code a1 a2) = a1" "SECOND_PARAM umps3 (call_in s m code a1 a2) = a2"
  "mem (call_in s m code a1 a2) = m" "THIRD_PARAM umps3 (call_in s m code a1 a2) = 0"
  by (simp_all add: call_in_def call_state_def kernel_mode_def sys_code_def FIRST_PARAM_def SECOND_PARAM_def
      THIRD_PARAM_def umps3_def)

text \<open>PCB 19 blocked on semaphore \<open>0x20005000\<close>, PCB 18 running.\<close>

definition user_sem :: u32 where "user_sem = 0x20005000"

definition paired :: kstate where
  "paired = snd (the (syscallHandler umps3 (call_in created (\<lambda>_. 0) PASSEREN user_sem 0)))"

definition v_paired :: kview where
  "v_paired = (v_block user_sem first_pcb v_created)\<lparr>v_ready := []\<rparr>"

lemma paired_facts: "kinv paired v_paired" "current_active_process paired = Some 18" "mem paired = (\<lambda>_. 0)"
proof -
  let ?s = "call_in created (\<lambda>_. 0) PASSEREN user_sem 0"
  let ?t = "save_state first_pcb (set_semAdd first_pcb user_sem (advanced ?s))"
  have "resumes (syscallHandler umps3 ?s) ?t (v_block user_sem first_pcb v_created)"
    by (rule SYS3_blocks) (use created_facts in \<open>simp_all add: call_in_facts user_sem_def\<close>)
  then obtain h hh ds where
    1: "syscallHandler umps3 ?s = Some (LDST (p_s (pcbs ?t 18)), relink h hh ds (running 18 ?t))"
    "kinv (relink h hh ds (running 18 ?t)) v_paired"
    by (auto simp: resumes_def v_block_def v_paired_def)
  have p: "paired = relink h hh ds (running 18 ?t)" by (simp add: paired_def 1(1))
  show "kinv paired v_paired" using 1(2) by (simp add: p)
  show "current_active_process paired = Some 18" "mem paired = (\<lambda>_. 0)"
    by (simp_all add: p running_def save_state_def set_pcb_def set_semAdd_def call_in_facts)
qed

lemma v_paired_simps [simp]: "v_semq v_paired = (\<lambda>_. [])(user_sem := [first_pcb])" "v_ready v_paired = []"
  "v_free v_paired = rev [0..<18]" "v_kids v_paired = (\<lambda>q. if q = first_pcb then [18] else [])"
  by (simp_all add: v_paired_def v_block_def)

section \<open>Waiting, and no PCB left\<close>

text \<open>The first process waits for the clock, and the processor with it.\<close>

definition clock_sem :: u32 where "clock_sem = 0x20003100"

lemma clock_sem_eq: "getPseudoClockSem umps3 = clock_sem" "clock_sem \<noteq> 0"
  by (simp_all add: getPseudoClockSem_def umps3_def clock_sem_def)

definition asleep :: kstate where
  "asleep = snd (the (syscallHandler umps3 (calling CLOCKWAIT 0)))"

definition v_asleep :: kview where
  "v_asleep = v_block clock_sem first_pcb v_started"

lemma started_other: "process_count (calling_with m code a1 a2 a3) = 1" "soft_block_count (calling_with m code a1 a2 a3) = 0"
  using started_facts by (simp_all add: calling_with_def)

lemma asleep_facts: "kinv asleep v_asleep" "current_active_process asleep = None"
proof -
  let ?s = "calling CLOCKWAIT 0"
  let ?t = "save_state first_pcb (incrementSoftBlockCount (set_semAdd first_pcb clock_sem (advanced ?s)))"
  have "resumes (syscallHandler umps3 ?s) ?t v_asleep"
    unfolding v_asleep_def
    by (rule SYS7_blocks) (simp_all add: calling_facts clock_sem_eq)
  moreover have "v_ready v_asleep = []" by (simp add: v_asleep_def v_block_def)
  moreover have "process_count ?t = 1" "soft_block_count ?t = 1"
    by (simp_all add: save_state_def set_pcb_def incrementSoftBlockCount_def set_semAdd_def started_other)
  ultimately obtain h hh ds where
    1: "syscallHandler umps3 ?s = Some (WAIT, relink h hh ds (waiting ?t))" "kinv (relink h hh ds (waiting ?t)) v_asleep"
    by (auto simp: resumes_def)
  then have a: "asleep = relink h hh ds (waiting ?t)" by (simp add: asleep_def)
  show "kinv asleep v_asleep" "current_active_process asleep = None"
    using 1(2) by (simp_all add: a waiting_def)
qed

lemma drain_view:
  "kabs s v \<Longrightarrow> \<exists>rs s'. alloc_many (allocPcb A) (length (v_free v)) s = Some (rs, s') \<and> kabs s' (v\<lparr>v_free := []\<rparr>)"
proof (induction "v_free v" arbitrary: s v)
  case Nil
  then show ?case by (cases v) auto
next
  case (Cons p fs)
  from runs_to_ex [OF allocPcb_view [OF Cons.prems Cons.hyps(2) [symmetric]]] obtain s1 where
    1: "allocPcb A s = Some (Some p, s1)" "kabs s1 (v\<lparr>v_free := fs\<rparr>)" by blast
  have "fs = v_free (v\<lparr>v_free := fs\<rparr>)" by simp
  from Cons.hyps(1) [OF this 1(2)] obtain rs s2 where
    "alloc_many (allocPcb A) (length fs) s1 = Some (rs, s2)" "kabs s2 (v\<lparr>v_free := []\<rparr>)" by auto
  with 1(1) show ?case unfolding Cons.hyps(2) [symmetric] by simp
qed

text \<open>All PCBs are in use.\<close>

definition exhausted :: kstate where
  "exhausted = (snd (the (alloc_many (allocPcb umps3) (length (v_free v_started)) started)))
     \<lparr>process_count := 20, current_active_process := None\<rparr>"

definition v_exhausted :: kview where
  "v_exhausted = v_started\<lparr>v_free := []\<rparr>"

lemma exhausted_facts: "kinv exhausted v_exhausted"
proof -
  from drain_view [OF kinvD(1) [OF started_facts(1)], of umps3] obtain rs s' where
    1: "alloc_many (allocPcb umps3) (length (v_free v_started)) started = Some (rs, s')" "kabs s' v_exhausted"
    unfolding v_exhausted_def by blast
  have e: "exhausted = s'\<lparr>process_count := 20, current_active_process := None\<rparr>" unfolding exhausted_def 1(1) by simp
  have "in_table v_exhausted" "acyclic (kid_rel v_exhausted)"
    using kinvD(3,4) [OF started_facts(1)] by (simp_all add: v_exhausted_def in_table_def kid_rel_def)
  moreover have "of_nat (MAXPROC - length (v_free v_exhausted)) = (20 :: u32)"
    by (simp add: v_exhausted_def MAXPROC_def)
  ultimately show ?thesis
    using 1(2) unfolding e by (simp add: kinv_def inv_core_def cur_ok_def)
qed

lemma started_pid: "p_pid (pcbs started first_pcb) = 1"
proof -
  from main_entry_boot [OF zero_state_zeroed, of umps3] obtain t where
    "main_entry umps3 zero_state = Some (LDST (p_s (pcbs t first_pcb)), t)" "p_pid (pcbs t first_pcb) = 1" by blast
  then show ?thesis by (simp add: started_def)
qed

section \<open>A terminal\<close>

text \<open>Transmitters that are never busy; the state is what was written to the command registers.\<close>

definition simple_terminal :: "(u32 \<times> u32) list terminal" where
  "simple_terminal = \<lparr>t_status = (\<lambda>a d. (5, d)), t_command = (\<lambda>a w d. if w = 1 then d else d @ [(a, w)]),
     T_READY = 1, T_BUSY = 3, T_DEVPERINT = 8, T_DEVREGSIZE = 16, T_DEVREGLEN = 4, T_TRANSTATUS = 2, T_TRANCOMMAND = 3\<rparr>"

definition put_out :: "u32 \<Rightarrow> (u32 \<times> u32) list \<Rightarrow> u32 list" where
  "put_out trm d = map snd (filter (\<lambda>x. fst x = commandp simple_terminal trm) d)"

lemma simple_terminal_transmits: "transmits simple_terminal trm (\<lambda>_. True) (\<lambda>_. 0) (put_out trm)"
  by (simp add: transmits_def put_out_def)
    (simp add: simple_terminal_def STATUSMASK_def TRANSMITTED_def T_ACK_def commandp_def)

lemma put_out_Nil [simp]: "put_out trm [] = []"
  by (simp add: put_out_def)

end
