(* ===== verification/Typing.thy ===== *)
theory Typing
  imports Kernel_Step
begin

text \<open>
  The links are typed: what hangs in a list of the kernel is the link its users expect, so that
  \<open>container_of\<close> leads to an entry of the right table.  (In C every link is a \<open>list_head\<close>; nothing
  but the operations keeps them apart.)
\<close>

fun may_hang :: "lnode \<Rightarrow> lnode \<Rightarrow> bool" where
  "may_hang PcbFree_h (P_list i) \<longleftrightarrow> i < MAXPROC"
| "may_hang Ready_queue (P_list i) \<longleftrightarrow> i < MAXPROC"
| "may_hang (S_procq d) (P_list i) \<longleftrightarrow> d < MAXPROC \<and> i < MAXPROC"
| "may_hang (P_child p) (P_sib i) \<longleftrightarrow> p < MAXPROC \<and> i < MAXPROC"
| "may_hang PID_nsFree_h (N_link i) \<longleftrightarrow> True"
| "may_hang PID_nsList_h (N_link i) \<longleftrightarrow> True"
| "may_hang SemdFree_h (S_freelink d) \<longleftrightarrow> d < MAXPROC"
| "may_hang _ _ \<longleftrightarrow> False"

definition list_heads :: "lnode set" where
  "list_heads = {PcbFree_h, Ready_queue, PID_nsFree_h, PID_nsList_h, SemdFree_h}"

lemma kinv_lists_typed:
  assumes "kinv s v"
  shows "\<exists>L. heap_abs (lists s) L \<and> list_heads \<subseteq> dom L \<and> (\<forall>h xs. L h = Some xs \<longrightarrow> (\<forall>n \<in> set xs. may_hang h n))"
proof -
  from kinvD(1) [OF assms] obtain a where a: "links s a" "ash_inv s a" "tree_inv s a" "v = view s a" by (rule kabsE)
  note t = kinvD(3) [OF assms]
  have free: "i < MAXPROC" if "i \<in> set (a_free a)" for i using in_tableD(1) [OF t] that by (simp add: a(4) view_def)
  have ready: "i < MAXPROC" if "i \<in> set (a_ready a)" for i using in_tableD(2) [OF t] that by (simp add: a(4) view_def)
  have kid: "p < MAXPROC \<and> i < MAXPROC" if "a_kids a p = Some q" "i \<in> set q" for p q i
    using in_tableD(4) [OF t, of i p] that by (simp add: a(4) view_def kids_of_def)
  have blocked: "d < MAXPROC \<and> i < MAXPROC" if "a_procq a d = Some q" "i \<in> set q" for d q i
  proof -
    have i: "i \<in> set (queue_of a d)" using that by (simp add: queue_of_def)
    then have "queue_of a d \<noteq> []" by auto
    then have d: "d \<in> hashed a" using ash_invD(4) [OF a(2)] by blast
    then have k: "s_key (semds s d) \<noteq> 0" using hashed_key [OF a(2)] by blast
    then have "p_semAdd (pcbs s i) = s_key (semds s d)" using ash_invD(7) [OF a(2) k, of i] d i by blast
    then have "i \<in> set (v_semq v (s_key (semds s d)))" using kabs_facts(8) [OF kinvD(1) [OF assms] k] by blast
    then show ?thesis using in_tableD(3) [OF t] ash_invD(6) [OF a(2)] d by blast
  qed
  have semfree: "d < MAXPROC" if "d \<in> set (a_semfree a)" for d using ash_invD(5) [OF a(2)] that by auto
  have "may_hang h n" if "Lmap a h = Some xs" "n \<in> set xs" for h xs n
    using that free ready semfree kid blocked by (cases h) (simp_all, fastforce+)
  moreover have "list_heads \<subseteq> dom (Lmap a)" by (auto simp: list_heads_def)
  ultimately show ?thesis using links_lists [OF a(1)] by blast
qed

end
