(* ===== verification/Sem_Frame.thy ===== *)
theory Sem_Frame
  imports Kernel_Step Io_Abs Query_Abs Handler_Abs
begin

text \<open>
  Nothing but P and V on a semaphore touches it: every other exception, whatever it does, leaves
  the word of the semaphore as it is and blocks nobody on it, if the semaphore is none of the
  words the kernel writes for its own sake (the device semaphores and registers, the buffers of
  the processes waiting for a device).
\<close>

section \<open>What an operation may do\<close>

named_theorems frame_rules \<open>operations that keep the frame of a semaphore\<close>

text \<open>From \<open>s0\<close> to \<open>s\<close>: the word, the processes waiting on it, and the status buffers.\<close>

definition frame :: "u32 \<Rightarrow> kstate \<Rightarrow> kstate \<Rightarrow> bool" where
  "frame k s0 s \<longleftrightarrow> mem s k = mem s0 k
     \<and> (\<forall>p. p_semAdd (pcbs s p) = k \<longrightarrow> p_semAdd (pcbs s0 p) = k)
     \<and> (\<forall>p. p_savedDeviceStatus (pcbs s p) \<in> {p_savedDeviceStatus (pcbs s0 p), 0})"

lemma frame_refl [simp]: "frame k s s"
  by (simp add: frame_def)

lemma frame_simps [simp]:
  "frame k s0 (s\<lparr>lists := h\<rparr>) = frame k s0 s" "frame k s0 (s\<lparr>semd_h := hh\<rparr>) = frame k s0 s"
  "frame k s0 (s\<lparr>semds := ds\<rparr>) = frame k s0 s" "frame k s0 (s\<lparr>nsds := ns\<rparr>) = frame k s0 s"
  "frame k s0 (s\<lparr>current_active_process := c\<rparr>) = frame k s0 s" "frame k s0 (s\<lparr>process_count := n\<rparr>) = frame k s0 s"
  "frame k s0 (s\<lparr>soft_block_count := n\<rparr>) = frame k s0 s" "frame k s0 (s\<lparr>pid_counter := n\<rparr>) = frame k s0 s"
  "frame k s0 (s\<lparr>start_time := n\<rparr>) = frame k s0 s" "frame k s0 (s\<lparr>bios_state := b\<rparr>) = frame k s0 s"
  "frame k s0 (s\<lparr>reg_TIMER := n\<rparr>) = frame k s0 s" "frame k s0 (s\<lparr>reg_STATUS := n\<rparr>) = frame k s0 s"
  "frame k s0 (s\<lparr>interval_timer := n\<rparr>) = frame k s0 s" "frame k s0 (s\<lparr>supports := u\<rparr>) = frame k s0 s"
  by (simp_all add: frame_def)

lemma frame_store: "a \<noteq> k \<Longrightarrow> frame k s0 s \<Longrightarrow> frame k s0 (store_word a x s)"
  by (simp add: frame_def store_word_def)

lemma frame_on_lists [frame_rules]: "on_lists f s = Some s' \<Longrightarrow> frame k s0 s \<Longrightarrow> frame k s0 s'"
  by (auto simp: on_lists_def)

lemma frame_on_hash [frame_rules]: "on_hash f s = Some s' \<Longrightarrow> frame k s0 s \<Longrightarrow> frame k s0 s'"
  by (auto simp: on_hash_def)

lemma frame_pcb:
  "g = pcbs s \<Longrightarrow> p_semAdd b = k \<longrightarrow> p_semAdd (pcbs s i) = k \<Longrightarrow> p_savedDeviceStatus b \<in> {p_savedDeviceStatus (pcbs s i), 0} \<Longrightarrow>
    frame k s0 s \<Longrightarrow> frame k s0 (s\<lparr>pcbs := g(i := b)\<rparr>)"
  by (auto simp: frame_def)

lemma frame_store_pcb [frame_rules]:
  assumes "store_pcb p f s = Some s'" and "\<And>b. p_semAdd (f b) = k \<Longrightarrow> p_semAdd b = k"
    and "\<And>b. p_savedDeviceStatus (f b) \<in> {p_savedDeviceStatus b, 0}" and "frame k s0 s"
  shows "frame k s0 s'"
proof (cases p)
  case (Some i)
  have "frame k s0 (s\<lparr>pcbs := (pcbs s)(i := f (pcbs s i))\<rparr>)"
    using assms(2,3) [of "pcbs s i"] assms(4) by (intro frame_pcb) auto
  then show ?thesis using assms(1) by (auto simp: Some)
qed (use assms(1) in simp)

lemma frame_trans: "frame k s t \<Longrightarrow> frame k t u \<Longrightarrow> frame k s u"
  unfolding frame_def by (metis (no_types, lifting) insertE insertI1 insertI2 singletonD)

section \<open>The structures of phase 1\<close>

lemma resetPcb_frame [frame_rules]:
  "resetPcb A p s = Some (r, s') \<Longrightarrow> k \<noteq> 0 \<Longrightarrow> frame k s0 s \<Longrightarrow> frame k s0 s'"
  unfolding resetPcb_def
  by (auto simp: bind_Some_iff Let_def split: if_splits option.splits elim!: frame_rules intro!: frame_pcb)

lemma allocPcb_frame [frame_rules]:
  "allocPcb A s = Some (r, s') \<Longrightarrow> k \<noteq> 0 \<Longrightarrow> frame k s0 s \<Longrightarrow> frame k s0 s'"
  unfolding allocPcb_def
  by (auto simp: bind_Some_iff Let_def split: if_splits option.splits elim!: frame_rules intro!: frame_pcb)

lemma freePcb_frame [frame_rules]:
  "freePcb p s = Some s' \<Longrightarrow> k \<noteq> 0 \<Longrightarrow> frame k s0 s \<Longrightarrow> frame k s0 s'"
  unfolding freePcb_def
  by (auto simp: bind_Some_iff Let_def split: if_splits option.splits elim!: frame_rules intro!: frame_pcb)

lemma insertProcQ_frame [frame_rules]: "insertProcQ h p s = Some s' \<Longrightarrow> frame k s0 s \<Longrightarrow> frame k s0 s'"
  unfolding insertProcQ_def
  by (auto simp: bind_Some_iff Let_def split: if_splits option.splits elim!: frame_rules intro!: frame_pcb)

lemma outProcQ_frame [frame_rules]: "outProcQ h p s = Some (r, s') \<Longrightarrow> frame k s0 s \<Longrightarrow> frame k s0 s'"
  unfolding outProcQ_def
  by (auto simp: bind_Some_iff Let_def split: if_splits option.splits elim!: frame_rules intro!: frame_pcb)

lemma removeProcQ_frame [frame_rules]: "removeProcQ h s = Some (r, s') \<Longrightarrow> frame k s0 s \<Longrightarrow> frame k s0 s'"
  unfolding removeProcQ_def
  by (auto simp: bind_Some_iff Let_def split: if_splits option.splits elim!: frame_rules intro!: frame_pcb)

lemma insertChild_frame [frame_rules]: "insertChild q p s = Some s' \<Longrightarrow> frame k s0 s \<Longrightarrow> frame k s0 s'"
  unfolding insertChild_def
  by (auto simp: bind_Some_iff Let_def split: if_splits option.splits elim!: frame_rules intro!: frame_pcb)

lemma outChild_frame [frame_rules]: "outChild p s = Some (r, s') \<Longrightarrow> frame k s0 s \<Longrightarrow> frame k s0 s'"
  unfolding outChild_def
  by (auto simp: bind_Some_iff Let_def split: if_splits option.splits elim!: frame_rules intro!: frame_pcb)

lemma removeChild_frame [frame_rules]: "removeChild p s = Some (r, s') \<Longrightarrow> frame k s0 s \<Longrightarrow> frame k s0 s'"
  unfolding removeChild_def
  by (auto simp: bind_Some_iff Let_def split: if_splits option.splits elim!: frame_rules intro!: frame_pcb)

lemma insertBlocked_frame [frame_rules]:
  "insertBlocked a p s = Some (r, s') \<Longrightarrow> a \<noteq> k \<Longrightarrow> frame k s0 s \<Longrightarrow> frame k s0 s'"
  unfolding insertBlocked_def
  by (auto simp: bind_Some_iff Let_def split: if_splits option.splits elim!: frame_rules intro!: frame_pcb)

lemma release_semd_frame [frame_rules]: "release_semd d s = Some s' \<Longrightarrow> frame k s0 s \<Longrightarrow> frame k s0 s'"
  unfolding release_semd_def
  by (auto simp: bind_Some_iff Let_def split: if_splits option.splits elim!: frame_rules intro!: frame_pcb)

lemma removeBlocked_frame [frame_rules]:
  "removeBlocked a s = Some (r, s') \<Longrightarrow> k \<noteq> 0 \<Longrightarrow> frame k s0 s \<Longrightarrow> frame k s0 s'"
  unfolding removeBlocked_def
  by (auto simp: bind_Some_iff Let_def split: if_splits option.splits elim!: frame_rules intro!: frame_pcb)

lemma outBlocked_frame [frame_rules]:
  "outBlocked p s = Some (r, s') \<Longrightarrow> k \<noteq> 0 \<Longrightarrow> frame k s0 s \<Longrightarrow> frame k s0 s'"
  unfolding outBlocked_def
  by (auto simp: bind_Some_iff Let_def split: if_splits option.splits elim!: frame_rules intro!: frame_pcb)

section \<open>Namespaces\<close>

lemma set_namespace_frame [frame_rules]: "set_namespace A p ns s = Some s' \<Longrightarrow> frame k s0 s \<Longrightarrow> frame k s0 s'"
  unfolding set_namespace_def
  by (auto simp: bind_Some_iff Let_def split: if_splits option.splits elim!: frame_rules intro!: frame_pcb)

lemma setAllChildNamespace_from_frame [frame_rules]:
  assumes "setAllChildNamespace_from A ns h pos s = Some s'" and "frame k s0 s"
  shows "frame k s0 s'"
proof -
  have "frame k s s'"
  proof (rule setAllChildNamespace_from.raw_induct
      [where P = "\<lambda>A ns h pos s s'. frame k s s'", OF _ assms(1)])
    fix rec :: "umps \<Rightarrow> nat ptr \<Rightarrow> lnode ptr \<Rightarrow> lnode ptr \<Rightarrow> kstate update" and A ns h pos s s'
    assume IH: "\<And>A ns h pos s s'. rec A ns h pos s = Some s' \<Longrightarrow> frame k s s'"
      and r: "(if pos = h then Some s
        else do {
          n \<leftarrow> pos;
          child \<leftarrow> pcb_of_p_sib n;
          s \<leftarrow> set_namespace A (Some child) ns s;
          first \<leftarrow> get_next (p_child (Some child)) (lists s);
          s \<leftarrow> rec A ns (p_child (Some child)) first s;
          pos' \<leftarrow> get_next pos (lists s);
          rec A ns h pos' s
        }) = Some s'"
    show "frame k s s'"
    proof (cases "pos = h")
      case False
      with r obtain n child s1 first s2 pos' where "set_namespace A (Some child) ns s = Some s1"
        "rec A ns (p_child (Some child)) first s1 = Some s2" "rec A ns h pos' s2 = Some s'"
        by (auto simp: bind_Some_iff)
      then have "frame k s s1" "frame k s1 s2" "frame k s2 s'"
        by (auto intro: IH set_namespace_frame [OF _ frame_refl])
      then show ?thesis by (blast intro: frame_trans)
    qed (use r in simp)
  qed
  with assms(2) show ?thesis by (rule frame_trans)
qed

lemma addNamespace_frame [frame_rules]: "addNamespace A p ns s = Some (r, s') \<Longrightarrow> frame k s0 s \<Longrightarrow> frame k s0 s'"
  unfolding addNamespace_def setAllChildNamespace_def
  by (auto simp: bind_Some_iff Let_def split: if_splits option.splits elim!: frame_rules intro!: frame_pcb)

section \<open>The scheduler\<close>

lemma enqueueReady_frame [frame_rules]: "enqueueReady p s = Some s' \<Longrightarrow> frame k s0 s \<Longrightarrow> frame k s0 s'"
  unfolding enqueueReady_def
  by (auto simp: bind_Some_iff Let_def split: if_splits option.splits elim!: frame_rules intro!: frame_pcb)

lemma counts_frame [simp]:
  "frame k s0 (incrementSoftBlockCount s) = frame k s0 s" "frame k s0 (decrementSoftBlockCount s) = frame k s0 s"
  "frame k s0 (incrementProcessCount s) = frame k s0 s" "frame k s0 (decrementProcessCount s) = frame k s0 s"
  by (simp_all add: incrementSoftBlockCount_def decrementSoftBlockCount_def incrementProcessCount_def decrementProcessCount_def)

lemma dispatch_frame [frame_rules]: "dispatch s = Some (out, s') \<Longrightarrow> frame k s0 s \<Longrightarrow> frame k s0 s'"
  unfolding dispatch_def resetPLT_def
  by (auto simp: bind_Some_iff Let_def split: if_splits option.splits elim!: frame_rules intro!: frame_pcb)

lemma schedule_frame [frame_rules]: "schedule s = Some (out, s') \<Longrightarrow> frame k s0 s \<Longrightarrow> frame k s0 s'"
  unfolding schedule_def
  by (auto simp: bind_Some_iff Let_def split: if_splits option.splits elim!: frame_rules intro!: frame_pcb)

section \<open>Interrupts\<close>

text \<open>The words the kernel writes without being told to.\<close>

definition kernel_word :: "umps \<Rightarrow> u32 \<Rightarrow> bool" where
  "kernel_word A a \<longleftrightarrow> a = 0 \<or> a = getPseudoClockSem A \<or>
     (\<exists>line \<in> {IL_DISK A, IL_FLASH A, IL_ETHERNET A, IL_PRINTER A}. \<exists>d \<le> N_DEV_PER_IL A.
        a \<in> {getDevSem A (EXT_IL_INDEX A line * DEVPERINT A + d), DEV_REG_ADDR A line d + off_command A}) \<or>
     (\<exists>d \<le> N_DEV_PER_IL A. a \<in> {getDevSem A (EXT_IL_INDEX A (IL_TERMINAL A) * DEVPERINT A + d * 2),
        getDevSem A (EXT_IL_INDEX A (IL_TERMINAL A) * DEVPERINT A + d * 2 + 1),
        DEV_REG_ADDR A (IL_TERMINAL A) d + off_transm_command A,
        DEV_REG_ADDR A (IL_TERMINAL A) d + off_recv_command A})"

text \<open>No process waits for a device with its status buffer on the semaphore.\<close>

definition buffers_clear :: "umps \<Rightarrow> u32 \<Rightarrow> kstate \<Rightarrow> bool" where
  "buffers_clear A k s \<longleftrightarrow> 4 * ix_STATUS A \<noteq> k \<and> (\<forall>p. p_savedDeviceStatus (pcbs s p) + 4 * ix_STATUS A \<noteq> k)"

lemma frame_buffers: "frame k s0 s \<Longrightarrow> buffers_clear A k s0 \<Longrightarrow> p_savedDeviceStatus (pcbs s p) + 4 * ix_STATUS A \<noteq> k"
  unfolding frame_def buffers_clear_def by (metis add_0 insertE singletonD)

lemma P_sem_frame [frame_rules]: "P_sem a s = Some s' \<Longrightarrow> a \<noteq> k \<Longrightarrow> frame k s0 s \<Longrightarrow> frame k s0 s'"
  unfolding P_sem_def store_sem_def
  by (auto simp: bind_Some_iff split: if_splits elim!: frame_rules intro: frame_store)

lemma V_sem_frame [frame_rules]:
  "V_sem a s = Some (r, s') \<Longrightarrow> a \<noteq> k \<Longrightarrow> k \<noteq> 0 \<Longrightarrow> frame k s0 s \<Longrightarrow> frame k s0 s'"
  unfolding V_sem_def store_sem_def
  by (auto simp: bind_Some_iff split: if_splits elim!: frame_rules intro: frame_store)

lemma complete_io_frame [frame_rules]:
  assumes r: "complete_io A p v0 st s = Some s'" and b: "buffers_clear A k s0" and f: "frame k s0 s"
  shows "frame k s0 s'"
proof (cases p)
  case (Some i)
  let ?t = "s\<lparr>pcbs := (pcbs s)(i := (pcbs s i)\<lparr>p_s := set_v0 A v0 (p_s (pcbs s i))\<rparr>)\<rparr>"
  have t: "frame k s0 ?t" using f by (intro frame_pcb) auto
  have "p_savedDeviceStatus (pcbs ?t i) + 4 * ix_STATUS A \<noteq> k" by (rule frame_buffers [OF t b])
  then have "frame k s0 (store_word (p_savedDeviceStatus (pcbs s i) + 4 * ix_STATUS A) st ?t)"
    by (intro frame_store t) simp
  then show ?thesis using r by (auto simp: complete_io_def Some Let_def elim!: enqueueReady_frame)
qed (use r f in \<open>simp add: complete_io_def\<close>)

lemma manageDevices_frame [frame_rules]:
  assumes "manageDevices A line s = Some s'" and "line \<in> {IL_DISK A, IL_FLASH A, IL_ETHERNET A, IL_PRINTER A}"
    and k: "\<not> kernel_word A k" and "buffers_clear A k s0" and "frame k s0 s"
  shows "frame k s0 s'"
proof -
  let ?d = "getInterruptingDevice A line s"
  have "?d \<le> N_DEV_PER_IL A" by (rule getInterruptingDevice_bound)
  with k assms(2) have n: "getDevSem A (EXT_IL_INDEX A line * DEVPERINT A + ?d) \<noteq> k"
    "DEV_REG_ADDR A line ?d + off_command A \<noteq> k" "k \<noteq> 0"
    unfolding kernel_word_def by blast+
  from assms(1) obtain p s1 where
    1: "V_sem (getDevSem A (EXT_IL_INDEX A line * DEVPERINT A + ?d))
        (store_word (DEV_REG_ADDR A line ?d + off_command A) (ACK A) s) = Some (p, s1)"
    and 2: "\<exists>v0 st. complete_io A p v0 st s1 = Some s'"
    unfolding manageDevices_def Let_def bind_Some_iff by auto
  have "frame k s0 s1" by (rule V_sem_frame [OF 1 n(1,3) frame_store [OF n(2) assms(5)]])
  with 2 assms(4) show ?thesis by (auto elim!: complete_io_frame)
qed

lemma serve_half_frame [frame_rules]:
  "serve_half A st cm a s = Some s' \<Longrightarrow> cm \<noteq> k \<Longrightarrow> a \<noteq> k \<Longrightarrow> k \<noteq> 0 \<Longrightarrow> buffers_clear A k s0 \<Longrightarrow> frame k s0 s \<Longrightarrow>
    frame k s0 s'"
  unfolding serve_half_def Let_def
  by (auto simp: bind_Some_iff split: if_splits elim!: complete_io_frame V_sem_frame intro: frame_store)

lemma manageTerminal_frame [frame_rules]:
  assumes r: "manageTerminal A s = Some s'" and k: "\<not> kernel_word A k" and "buffers_clear A k s0" and "frame k s0 s"
  shows "frame k s0 s'"
proof -
  let ?d = "getInterruptingDevice A (IL_TERMINAL A) s"
  have "?d \<le> N_DEV_PER_IL A" by (rule getInterruptingDevice_bound)
  with k have n: "term_sem A 1 s \<noteq> k" "term_sem A 0 s \<noteq> k" "term_base A s + off_transm_command A \<noteq> k"
    "term_base A s + off_recv_command A \<noteq> k" "k \<noteq> 0"
    unfolding kernel_word_def term_sem_def term_base_def add_0_right by blast+
  from r obtain t where
    "serve_half A (term_base A s + off_transm_status A) (term_base A s + off_transm_command A) (term_sem A 1 s) s = Some t"
    "serve_half A (term_base A s + off_recv_status A) (term_base A s + off_recv_command A) (term_sem A 0 s) t = Some s'"
    unfolding manageTerminal_halves bind_Some_iff by blast
  with n assms(3,4) show ?thesis by (auto elim!: serve_half_frame)
qed

lemma wake_clock_frame [frame_rules]:
  assumes "wake_clock a s = Some s'" and "k \<noteq> 0" and "frame k s0 s"
  shows "frame k s0 s'"
proof -
  have "frame k s s'"
  proof (rule wake_clock.raw_induct [where P = "\<lambda>a s s'. frame k s s'", OF _ assms(1)])
    fix rec :: "u32 \<Rightarrow> kstate update" and a s s'
    assume IH: "\<And>a s s'. rec a s = Some s' \<Longrightarrow> frame k s s'"
      and r: "(do {
        hp \<leftarrow> headBlocked a s;
        if hp = None then Some s
        else do {
          (proc, s) \<leftarrow> removeBlocked a s;
          s \<leftarrow> enqueueReady proc s;
          rec a (decrementSoftBlockCount s)
        }
      }) = Some s'"
    from r consider "s' = s" | p s1 s2 where "removeBlocked a s = Some (p, s1)" "enqueueReady p s1 = Some s2"
      "rec a (decrementSoftBlockCount s2) = Some s'"
      by (auto simp: bind_Some_iff split: if_splits)
    then show "frame k s s'"
    proof cases
      case 2
      have "frame k s s2"
        by (rule enqueueReady_frame [OF 2(2) removeBlocked_frame [OF 2(1) assms(2) frame_refl]])
      then have "frame k s (decrementSoftBlockCount s2)" by simp
      from frame_trans [OF this IH [OF 2(3)]] show ?thesis .
    qed simp
  qed
  with assms(3) show ?thesis by (rule frame_trans)
qed

lemma clock_interrupt_frame [frame_rules]:
  assumes "clock_interrupt A s = Some s'" and k: "\<not> kernel_word A k" and "frame k s0 s"
  shows "frame k s0 s'"
proof -
  have n: "getPseudoClockSem A \<noteq> k" "k \<noteq> 0" using k by (auto simp: kernel_word_def)
  from assms(1) obtain t where t: "wake_clock (getPseudoClockSem A) (resetIntervalTimer s) = Some t"
    "s' = store_word (getPseudoClockSem A) 0 t"
    by (auto simp: clock_interrupt_def bind_Some_iff Let_def)
  have "frame k s0 t" by (rule wake_clock_frame [OF t(1) n(2)]) (simp add: resetIntervalTimer_def assms(3))
  then show ?thesis unfolding t(2) by (rule frame_store [OF n(1)])
qed

lemma plt_interrupt_frame [frame_rules]: "plt_interrupt A s = Some s' \<Longrightarrow> frame k s0 s \<Longrightarrow> frame k s0 s'"
  unfolding plt_interrupt_def Let_def
  by (auto simp: bind_Some_iff store_pcb_def split: if_splits elim!: frame_rules intro!: frame_pcb)

lemma interruptHandler_frame [frame_rules]:
  assumes r: "interruptHandler A s = Some (out, s')" and k: "\<not> kernel_word A k" and b: "buffers_clear A k s0"
    and f: "frame k s0 s"
  shows "frame k s0 s'"
proof -
  have when_line: "frame k s0 t'"
    if "when_line A l h t = Some t'" "frame k s0 t" "\<And>t'. h t = Some t' \<Longrightarrow> frame k s0 t'" for l h t t'
    using that by (auto simp: when_line_def split: if_splits)
  from r obtain s1 s2 s3 s4 s5 s6 s7 where
    "when_line A 1 (plt_interrupt A) s = Some s1" "when_line A 2 (clock_interrupt A) s1 = Some s2"
    "when_line A (DISKINT A) (manageDevices A (IL_DISK A)) s2 = Some s3"
    "when_line A (FLASHINT A) (manageDevices A (IL_FLASH A)) s3 = Some s4"
    "when_line A (NETWINT A) (manageDevices A (IL_ETHERNET A)) s4 = Some s5"
    "when_line A (PRNTINT A) (manageDevices A (IL_PRINTER A)) s5 = Some s6"
    "when_line A (TERMINT A) (manageTerminal A) s6 = Some s7"
    and e: "(if currentProc s7 = None then schedule s7 else Some (LDST (bios_state s7), s7)) = Some (out, s')"
    unfolding interruptHandler_def bind_Some_iff by blast
  note l = this
  have "frame k s0 s1" by (rule when_line [OF l(1) f]) (rule plt_interrupt_frame [OF _ f])
  note 1 = this
  have 2: "frame k s0 s2" by (rule when_line [OF l(2) 1]) (rule clock_interrupt_frame [OF _ k 1])
  have 3: "frame k s0 s3" by (rule when_line [OF l(3) 2]) (rule manageDevices_frame [OF _ _ k b 2], assumption, blast)
  have 4: "frame k s0 s4" by (rule when_line [OF l(4) 3]) (rule manageDevices_frame [OF _ _ k b 3], assumption, blast)
  have 5: "frame k s0 s5" by (rule when_line [OF l(5) 4]) (rule manageDevices_frame [OF _ _ k b 4], assumption, blast)
  have 6: "frame k s0 s6" by (rule when_line [OF l(6) 5]) (rule manageDevices_frame [OF _ _ k b 5], assumption, blast)
  have "frame k s0 s7" by (rule when_line [OF l(7) 6]) (rule manageTerminal_frame [OF _ k b 6])
  then show ?thesis using e by (auto split: if_splits elim!: schedule_frame)
qed

section \<open>System calls\<close>

lemma getNewPid_frame [simp]: "frame k s0 (snd (getNewPid s)) = frame k s0 s"
  by (simp add: getNewPid_def)

lemma createProcess_frame [frame_rules]:
  "createProcess A st supp nsd s = Some (r, s') \<Longrightarrow> k \<noteq> 0 \<Longrightarrow> frame k s0 s \<Longrightarrow> frame k s0 s'"
  unfolding createProcess_def getNewPid_def NS_TYPE_MAX_def
  by (auto simp: bind_Some_iff Let_def store_pcb_def split: if_splits option.splits elim!: frame_rules intro!: frame_pcb)

lemma reap_frame [frame_rules]: "reap A p s = Some s' \<Longrightarrow> k \<noteq> 0 \<Longrightarrow> frame k s0 s \<Longrightarrow> frame k s0 s'"
  unfolding reap_def
  by (auto simp: bind_Some_iff Let_def split: if_splits option.splits elim!: frame_rules intro!: frame_pcb)

lemma terminateProcess_internal_frame [frame_rules]:
  assumes "terminateProcess_internal A p s = Some s'" and k: "k \<noteq> 0" and "frame k s0 s"
  shows "frame k s0 s'"
proof -
  have "frame k s s'"
  proof (rule terminateProcess_internal.raw_induct [where P = "\<lambda>A p s s'. frame k s s'", OF _ assms(1)])
    fix rec :: "umps \<Rightarrow> nat ptr \<Rightarrow> kstate update" and A p s s'
    assume IH: "\<And>A p s s'. rec A p s = Some s' \<Longrightarrow> frame k s s'"
      and r: "(do {
        (child, s) \<leftarrow> removeChild p s;
        if child \<noteq> None then do {
          (_, s) \<leftarrow> outProcQ getReadyQueue child s;
          s \<leftarrow> rec A child s;
          rec A p s
        } else reap A p s
      }) = Some s'"
    from r obtain child s1 where 1: "removeChild p s = Some (child, s1)"
      and r1: "(if child \<noteq> None then do {
          (_, s) \<leftarrow> outProcQ getReadyQueue child s1;
          s \<leftarrow> rec A child s;
          rec A p s
        } else reap A p s1) = Some s'"
      by (auto simp: bind_Some_iff)
    have f1: "frame k s s1" by (rule removeChild_frame [OF 1 frame_refl])
    show "frame k s s'"
    proof (cases "child = None")
      case True
      with r1 have "reap A p s1 = Some s'" by simp
      then show ?thesis by (rule reap_frame [OF _ k f1])
    next
      case False
      with r1 obtain x s2 s3 where 2: "outProcQ getReadyQueue child s1 = Some (x, s2)"
        and "rec A child s2 = Some s3" "rec A p s3 = Some s'"
        by (auto simp: bind_Some_iff)
      then have "frame k s2 s3" "frame k s3 s'" by (auto intro: IH)
      moreover have "frame k s s2" by (rule outProcQ_frame [OF 2 f1])
      ultimately show ?thesis by (blast intro: frame_trans)
    qed
  qed
  with assms(3) show ?thesis by (rule frame_trans)
qed

lemma terminateProcess_frame [frame_rules]:
  "terminateProcess A p s = Some (out, s') \<Longrightarrow> k \<noteq> 0 \<Longrightarrow> frame k s0 s \<Longrightarrow> frame k s0 s'"
  unfolding terminateProcess_def
  by (auto simp: bind_Some_iff Let_def split: if_splits option.splits elim!: frame_rules intro!: frame_pcb)

lemma passeren_frame [frame_rules]:
  "passeren a s = Some (r, s') \<Longrightarrow> a \<noteq> k \<Longrightarrow> k \<noteq> 0 \<Longrightarrow> frame k s0 s \<Longrightarrow> frame k s0 s'"
  unfolding passeren_def store_sem_def
  by (auto simp: bind_Some_iff split: if_splits elim!: frame_rules intro: frame_store)

lemma verhogen_frame [frame_rules]:
  "verhogen a s = Some (r, s') \<Longrightarrow> a \<noteq> k \<Longrightarrow> k \<noteq> 0 \<Longrightarrow> frame k s0 s \<Longrightarrow> frame k s0 s'"
  unfolding verhogen_def store_sem_def
  by (auto simp: bind_Some_iff split: if_splits elim!: frame_rules intro: frame_store)

lemma save_and_schedule_frame [frame_rules]:
  "save_and_schedule s = Some (out, s') \<Longrightarrow> frame k s0 s \<Longrightarrow> frame k s0 s'"
  unfolding save_and_schedule_def
  by (auto simp: bind_Some_iff store_pcb_def elim!: frame_rules intro!: frame_pcb)

lemma passUpOrDie_frame [frame_rules]:
  "passUpOrDie A n s = Some (out, s') \<Longrightarrow> k \<noteq> 0 \<Longrightarrow> frame k s0 s \<Longrightarrow> frame k s0 s'"
  unfolding passUpOrDie_def
  by (auto simp: bind_Some_iff Let_def split: if_splits option.splits elim!: frame_rules intro!: frame_pcb)

lemma update_time_frame [frame_rules]: "update_time s = Some s' \<Longrightarrow> frame k s0 s \<Longrightarrow> frame k s0 s'"
  unfolding update_time_def
  by (auto simp: store_pcb_def split: if_splits intro!: frame_pcb)

lemma store_ints_other: "(\<And>i. i < length xs \<Longrightarrow> a + 4 * of_nat i \<noteq> k) \<Longrightarrow> store_ints a xs m k = m k"
proof (induction xs arbitrary: a m)
  case (Cons x xs)
  have "a + 4 + 4 * of_nat i \<noteq> k" if "i < length xs" for i
    using Cons.prems [of "Suc i"] that by (simp add: algebra_simps)
  moreover have "a \<noteq> k" using Cons.prems [of 0] by simp
  ultimately show ?case using Cons.IH by simp
qed simp

lemma getChildren_frame:
  assumes r: "getChildren A children sz s = Some (x, s')" and A: "null_n_type A \<noteq> None"
    and w: "wf_kernel s" and cur: "current_active_process s = Some c"
    and b: "\<forall>i < MAXPROC. children + 4 * of_nat i \<noteq> k"
  shows "frame k s s'"
proof -
  from w obtain v where v: "kinv s v" by (auto simp: wf_kernel_def)
  let ?kids = "filter (\<lambda>q. pid_ns s q = pid_ns s c) (v_kids v c)"
  let ?xs = "take (nat (sint sz)) (map (\<lambda>q. p_pid (pcbs s q)) ?kids)"
  have s': "s' = s\<lparr>mem := store_ints children ?xs (mem s)\<rparr>"
    using getChildren_view [OF A v cur, of children sz] r by (simp add: Let_def)
  have "set (v_kids v c) \<subseteq> {..<MAXPROC}" using in_tableD(4) [OF kinvD(3) [OF v]] by auto
  then have "length (v_kids v c) \<le> MAXPROC"
    using distinct_card [OF kabs_facts(3) [OF kinvD(1) [OF v], of c]] card_mono [of "{..<MAXPROC}" "set (v_kids v c)"] by simp
  moreover have "length ?xs \<le> length (v_kids v c)" by (simp add: le_trans [OF min.cobounded1 length_filter_le] min.coboundedI1)
  ultimately have l: "length ?xs \<le> MAXPROC" by linarith
  have "store_ints children ?xs (mem s) k = mem s k"
    by (rule store_ints_other) (use l b order.strict_trans2 in blast)
  then show ?thesis by (simp add: s' frame_def)
qed

text \<open>SYS5 sets the status buffer of the caller; from there on it is an operation like the others.\<close>

definition untouched :: "u32 \<Rightarrow> kstate \<Rightarrow> kstate \<Rightarrow> bool" where
  "untouched k s0 s \<longleftrightarrow> mem s k = mem s0 k \<and> (\<forall>p. p_semAdd (pcbs s p) = k \<longrightarrow> p_semAdd (pcbs s0 p) = k)"

lemma frame_untouched: "frame k s0 s \<Longrightarrow> untouched k s0 s"
  by (simp add: frame_def untouched_def)

lemma untouched_frame: "untouched k s0 s1 \<Longrightarrow> frame k s1 s \<Longrightarrow> untouched k s0 s"
  by (auto simp: frame_def untouched_def)

definition io_words :: "umps \<Rightarrow> u32 \<Rightarrow> u32 \<Rightarrow> u32 set" where
  "io_words A a vals = {io_sem A a, vals + 4 * ix_STATUS A, a - DEV_REG_SIZE A div 2 + off_transm_command A,
     a + off_recv_command A, a + off_command A, a + off_data0 A, a + off_data1 A}"

lemma doIO_untouched:
  assumes r: "doIO A a vals s = Some s'" and cur: "current_active_process s = Some p" and k: "k \<notin> io_words A a vals"
  shows "untouched k s s'"
proof -
  have bit: "io_bit A a \<noteq> None"
    using r by (cases "io_bit A a") (auto simp: doIO_def io_bit_def io_line_def Let_def bind_Some_iff)
  have 1: "untouched k s (io_saved vals p s)" by (simp add: untouched_def io_saved_def set_pcb_def)
  have 2: "frame k (io_saved vals p s) (io_command A a vals (io_saved vals p s))"
    using k by (auto simp: io_command_def io_words_def Let_def intro!: frame_store)
  have "frame k (io_saved vals p s) s'"
  proof (cases "io_installed A a s")
    case True
    then have "P_sem (io_sem A a) (io_command A a vals (io_saved vals p s)) = Some s'"
      using r by (simp add: doIO_eq [OF cur bit])
    then show ?thesis by (rule P_sem_frame) (use k 2 in \<open>auto simp: io_words_def\<close>)
  next
    case False
    then have "s' = set_pcb p (\<lambda>b. b\<lparr>p_s := set_v0 A (-1) (p_s b)\<rparr>)
        (store_word (vals + 4 * ix_STATUS A) 0 (io_saved vals p s))"
      using r by (simp add: doIO_eq [OF cur bit])
    then show ?thesis using k by (auto simp: set_pcb_def io_words_def intro!: frame_pcb frame_store)
  qed
  with 1 show ?thesis by (rule untouched_frame)
qed

section \<open>Exceptions\<close>

definition kernel_call :: "umps \<Rightarrow> kstate \<Rightarrow> bool" where
  "kernel_call A s \<longleftrightarrow> exc_code A s = EXC_SYS A \<and> kernel_mode A s"

text \<open>The exception has nothing to do with the semaphore.\<close>

definition spares :: "umps \<Rightarrow> u32 \<Rightarrow> kstate \<Rightarrow> bool" where
  "spares A k s \<longleftrightarrow> (kernel_call A s \<longrightarrow>
       (sys_code A s \<in> {PASSEREN, VERHOGEN} \<longrightarrow> FIRST_PARAM A s \<noteq> k)
     \<and> (sys_code A s = DOIO \<longrightarrow> k \<notin> io_words A (FIRST_PARAM A s) (SECOND_PARAM A s))
     \<and> (sys_code A s = GETCHILDREN \<longrightarrow> (\<forall>i < MAXPROC. FIRST_PARAM A s + 4 * of_nat i \<noteq> k)))"

lemma syscall_switch_untouched:
  assumes r: "syscall_switch A s = Some (out, s')" and A: "null_n_type A \<noteq> None" and w: "wf_kernel s"
    and cur: "current_active_process s = Some c" and k: "\<not> kernel_word A k"
    and p: "sys_code A s \<in> {PASSEREN, VERHOGEN} \<longrightarrow> FIRST_PARAM A s \<noteq> k"
      "sys_code A s = DOIO \<longrightarrow> k \<notin> io_words A (FIRST_PARAM A s) (SECOND_PARAM A s)"
      "sys_code A s = GETCHILDREN \<longrightarrow> (\<forall>i < MAXPROC. FIRST_PARAM A s + 4 * of_nat i \<noteq> k)"
  shows "untouched k s s'"
proof -
  have k0: "k \<noteq> 0" "getPseudoClockSem A \<noteq> k" using k by (auto simp: kernel_word_def)
  have ret: "frame k s s'" if "return_to_caller (RETURN_SYS_VALUE A x t) = Some (out, s')" "frame k s t" for x t
    using that by (auto simp: return_to_caller_def RETURN_SYS_VALUE_def)
  note e = r [unfolded syscall_switch_def sys_code_def [symmetric] Let_def]
  show ?thesis
  proof (cases "sys_code A s = DOIO")
    case True
    then obtain t where t: "doIO A (FIRST_PARAM A s) (SECOND_PARAM A s) s = Some t" "save_and_schedule t = Some (out, s')"
      using e by (auto simp: syscall_codes bind_Some_iff)
    have "frame k t s'" by (rule save_and_schedule_frame [OF t(2) frame_refl])
    with doIO_untouched [OF t(1) cur] p(2) True show ?thesis by (blast intro: untouched_frame)
  next
    case False
    have "frame k s s'"
    proof (cases "sys_code A s = GETCHILDREN")
      case True
      then obtain x t where t: "getChildren A (FIRST_PARAM A s) (SECOND_PARAM A s) s = Some (x, t)"
        "return_to_caller (RETURN_SYS_VALUE A x t) = Some (out, s')"
        using e by (auto simp: syscall_codes bind_Some_iff)
      from ret [OF t(2) getChildren_frame [OF t(1) A w cur]] p(3) True show ?thesis by blast
    next
      case ch: False
      show ?thesis
        using e False ch p(1) k0
        by (auto simp: bind_Some_iff return_to_caller_def RETURN_SYS_VALUE_def split: if_splits elim!: frame_rules)
    qed
    then show ?thesis by (rule frame_untouched)
  qed
qed

lemma syscallHandler_untouched:
  assumes r: "syscallHandler A s = Some (out, s')" and A: "null_n_type A \<noteq> None" and w: "wf_kernel s"
    and cur: "current_active_process s = Some c" and k: "\<not> kernel_word A k"
    and p: "kernel_mode A s \<Longrightarrow> sys_code A s \<in> {PASSEREN, VERHOGEN} \<longrightarrow> FIRST_PARAM A s \<noteq> k"
      "kernel_mode A s \<Longrightarrow> sys_code A s = DOIO \<longrightarrow> k \<notin> io_words A (FIRST_PARAM A s) (SECOND_PARAM A s)"
      "kernel_mode A s \<Longrightarrow> sys_code A s = GETCHILDREN \<longrightarrow> (\<forall>i < MAXPROC. FIRST_PARAM A s + 4 * of_nat i \<noteq> k)"
  shows "untouched k s s'"
proof (cases "kernel_mode A s")
  case True
  have "wf_kernel (advanced s)" "current_active_process (advanced s) = Some c"
    using w cur kinv_advanced by (auto simp: wf_kernel_def)
  then have "untouched k (advanced s) s'"
    using syscall_switch_untouched [OF _ A _ _ k] p [OF True] r
    by (simp add: syscallHandler_kernel [OF True] advanced_params)
  then show ?thesis by (simp add: untouched_def)
next
  case False
  have k0: "k \<noteq> 0" using k by (simp add: kernel_word_def)
  have "passUpOrDie A GENERALEXCEPT ((advanced s)\<lparr>bios_state :=
      (bios_state (advanced s))\<lparr>cause := push_bit (CAUSE_EXCCODE_BIT A) (EXC_RI A)\<rparr>\<rparr>) = Some (out, s')"
    using r False by (simp add: syscallHandler_def kernel_mode_def advanced_def Let_def)
  from passUpOrDie_frame [OF this k0, of s] show ?thesis by (intro frame_untouched) (simp add: advanced_def)
qed

text \<open>Every exception that has nothing to do with a semaphore leaves it alone.\<close>

lemma exceptionHandler_untouched:
  assumes r: "exceptionHandler A s = Some (out, s')" and A: "null_n_type A \<noteq> None" and w: "wf_kernel s"
    and run: "exc_code A s = EXC_INT A \<or> current_active_process s \<noteq> None"
    and k: "\<not> kernel_word A k" and b: "buffers_clear A k s" and sp: "spares A k s"
  shows "untouched k s s'"
proof -
  have k0: "k \<noteq> 0" using k by (simp add: kernel_word_def)
  from r obtain s1 where 1: "update_time s = Some s1"
    "(if exc_code A s = EXC_INT A then interruptHandler A s1
      else if exc_code A s = EXC_MOD A \<or> exc_code A s = EXC_TLBL A \<or> exc_code A s = EXC_TLBS A
      then passUpOrDie A PGFAULTEXCEPT s1
      else if exc_code A s = EXC_SYS A then syscallHandler A s1
      else passUpOrDie A GENERALEXCEPT s1) = Some (out, s')"
    unfolding exceptionHandler_def exc_code_def Let_def bind_Some_iff by blast
  have f: "frame k s s1" by (rule update_time_frame [OF 1(1) frame_refl])
  show ?thesis
  proof (cases "exc_code A s = EXC_SYS A \<and> exc_code A s \<notin> {EXC_INT A, EXC_MOD A, EXC_TLBL A, EXC_TLBS A}")
    case True
    then obtain c where c: "current_active_process s = Some c" using run by auto
    have t: "s1 = timed c s" using 1(1) update_time_running [OF c] by simp
    have call: "kernel_call A s \<longleftrightarrow> kernel_mode A s1" using True by (simp add: kernel_call_def t timed_def set_pcb_def kernel_mode_def)
    have args: "sys_code A s1 = sys_code A s" "FIRST_PARAM A s1 = FIRST_PARAM A s" "SECOND_PARAM A s1 = SECOND_PARAM A s"
      by (simp_all add: t timed_def set_pcb_def sys_code_def FIRST_PARAM_def SECOND_PARAM_def)
    have "wf_kernel s1" using update_time_goes_on [OF w 1(1)] by (simp add: goes_on_def)
    moreover have "current_active_process s1 = Some c" using c by (simp add: t timed_def set_pcb_def)
    moreover have "syscallHandler A s1 = Some (out, s')" using 1(2) True by auto
    ultimately have "untouched k s1 s'"
      using syscallHandler_untouched [OF _ A _ _ k, of s1 out s' c] sp call args unfolding spares_def by simp
    moreover have "untouched k s s1" by (rule frame_untouched [OF f])
    ultimately show ?thesis by (simp add: untouched_def)
  next
    case False
    have "frame k s s'"
      using 1(2) False by (auto split: if_splits elim!: interruptHandler_frame [OF _ k b f] passUpOrDie_frame [OF _ k0 f])
    then show ?thesis by (rule frame_untouched)
  qed
qed

end
