(* ===== verification/Mutex.thy ===== *)
theory Mutex
  imports Sem_Frame
begin

text \<open>
  A semaphore that starts at 1 is a lock.  The runs of the machine are followed with the set of
  the processes that are inside: a process gets in when its P does not block, or when a V hands
  the semaphore over to it, and out with its V.  User code keeps to the discipline that only who
  is inside calls V, and does not write the semaphore itself; everything else (what the other
  processes do, the devices, the timers, preemption at any point) is arbitrary.
\<close>

section \<open>Runs with a lock\<close>

definition sem_call :: "umps \<Rightarrow> u32 \<Rightarrow> u32 \<Rightarrow> kstate \<Rightarrow> bool" where
  "sem_call A code k s \<longleftrightarrow> kernel_call A s \<and> sys_code A s = code \<and> FIRST_PARAM A s = k"

inductive lock_step :: "umps \<Rightarrow> u32 \<Rightarrow> nat set \<times> outcome \<times> kstate \<Rightarrow> nat set \<times> outcome \<times> kstate \<Rightarrow> bool"
  for A k where
  world: "gives_processor out \<or> out = WAIT \<Longrightarrow> outside s s' \<Longrightarrow> mem s' k = mem s k \<Longrightarrow>
    lock_step A k (I, out, s) (I, out, s')"
| enters: "gives_processor out \<Longrightarrow> current_active_process s = Some c \<Longrightarrow> sem_call A PASSEREN k s \<Longrightarrow> mem s k \<noteq> 0 \<Longrightarrow>
    exceptionHandler A s = Some (out', s') \<Longrightarrow> lock_step A k (I, out, s) (insert c I, out', s')"
| waits: "gives_processor out \<Longrightarrow> sem_call A PASSEREN k s \<Longrightarrow> mem s k = 0 \<Longrightarrow>
    exceptionHandler A s = Some (out', s') \<Longrightarrow> lock_step A k (I, out, s) (I, out', s')"
| leaves: "gives_processor out \<Longrightarrow> current_active_process s = Some c \<Longrightarrow> c \<in> I \<Longrightarrow> sem_call A VERHOGEN k s \<Longrightarrow>
    headBlocked k s = Some None \<Longrightarrow> exceptionHandler A s = Some (out', s') \<Longrightarrow>
    lock_step A k (I, out, s) (I - {c}, out', s')"
| hands_over: "gives_processor out \<Longrightarrow> current_active_process s = Some c \<Longrightarrow> c \<in> I \<Longrightarrow> sem_call A VERHOGEN k s \<Longrightarrow>
    headBlocked k s = Some (Some q) \<Longrightarrow> exceptionHandler A s = Some (out', s') \<Longrightarrow>
    lock_step A k (I, out, s) (insert q (I - {c}), out', s')"
| other: "gives_processor out \<Longrightarrow> spares A k s \<Longrightarrow> buffers_clear A k s \<Longrightarrow>
    exceptionHandler A s = Some (out', s') \<Longrightarrow> lock_step A k (I, out, s) (I, out', s')"
| interrupted: "exc_code A s = EXC_INT A \<Longrightarrow> buffers_clear A k s \<Longrightarrow>
    exceptionHandler A s = Some (out', s') \<Longrightarrow> lock_step A k (I, WAIT, s) (I, out', s')"

inductive_cases lock_stepE: "lock_step A k (I, out, s) c"

lemma lock_step_kstep: "lock_step A k (I, out, s) (I', out', s') \<Longrightarrow> kstep A (out, s) (out', s')"
  by (erule lock_stepE) (auto intro: kstep.intros)

section \<open>The lock\<close>

text \<open>Free: the semaphore is 1, nobody is inside and nobody waits.  Taken: it is 0.\<close>

definition lock_ok :: "u32 \<Rightarrow> nat set \<Rightarrow> kstate \<Rightarrow> bool" where
  "lock_ok k I s \<longleftrightarrow>
     mem s k = 0 \<and> (\<forall>p \<in> I. \<forall>q \<in> I. p = q) \<or>
     mem s k = 1 \<and> I = {} \<and> (\<forall>p. p_semAdd (pcbs s p) \<noteq> k)"

lemma lock_ok_untouched: "lock_ok k I s \<Longrightarrow> untouched k s s' \<Longrightarrow> lock_ok k I s'"
  by (auto simp: lock_ok_def untouched_def)

lemma outside_untouched: "outside s s' \<Longrightarrow> mem s' k = mem s k \<Longrightarrow> untouched k s s'"
  by (auto simp: outside_def untouched_def)

lemma nobody_waits: "kabs s v \<Longrightarrow> k \<noteq> 0 \<Longrightarrow> \<forall>p. p_semAdd (pcbs s p) \<noteq> k \<Longrightarrow> v_semq v k = []"
  using kabs_facts(8) [of s v k "hd (v_semq v k)"] by (cases "v_semq v k") auto

text \<open>The codes of the exceptions are different.\<close>

definition sys_distinct :: "umps \<Rightarrow> bool" where
  "sys_distinct A \<longleftrightarrow> EXC_SYS A \<notin> {EXC_INT A, EXC_MOD A, EXC_TLBL A, EXC_TLBS A}"

lemma sem_call_handler:
  assumes "sem_call A code k s" and "sys_distinct A" and "current_active_process s = Some c"
  shows "exceptionHandler A s = syscallHandler A (timed c s)" and "kernel_mode A (timed c s)"
    and "sys_code A (timed c s) = code" and "FIRST_PARAM A (timed c s) = k"
  using assms
  by (simp_all add: sem_call_def kernel_call_def exceptionHandler_def exc_code_def update_time_running sys_distinct_def
      timed_def set_pcb_def kernel_mode_def sys_code_def FIRST_PARAM_def)

lemma timed_fields: "mem (timed c s) = mem s" "current_active_process (timed c s) = current_active_process s"
  "p_semAdd (pcbs (timed c s) p) = p_semAdd (pcbs s p)" "kinv (timed c s) v = kinv s v"
  unfolding timed_def by (simp_all add: kinv_set_pcb) (simp_all add: set_pcb_def)

lemma resumes_mem: "resumes m t v \<Longrightarrow> m = Some (out, s') \<Longrightarrow> mem s' = mem t"
  unfolding resumes_def by (cases "v_ready v") (auto simp: running_def waiting_def split: if_splits)

lemma resumes_sems: "resumes m t v \<Longrightarrow> m = Some (out, s') \<Longrightarrow> pcbs s' = pcbs t"
  unfolding resumes_def by (cases "v_ready v") (auto simp: running_def waiting_def split: if_splits)

text \<open>Who gets in, who waits, who leaves: the word, and the semaphore each process waits on.\<close>

lemma enters_state:
  assumes inv: "kinv s v" and k0: "k \<noteq> 0" and codes: "sys_distinct A"
    and ok: "lock_ok k I s" and cur: "current_active_process s = Some c" and call: "sem_call A PASSEREN k s"
    and m: "mem s k \<noteq> 0" and r: "exceptionHandler A s = Some (out', s')"
  shows "I = {}" and "mem s' k = 0" and "p_semAdd (pcbs s p) \<noteq> k" and "p_semAdd (pcbs s' p) = p_semAdd (pcbs s p)"
proof -
  have 1: "mem s k = 1" "I = {}" "\<forall>p. p_semAdd (pcbs s p) \<noteq> k" using ok m by (auto simp: lock_ok_def)
  note h = sem_call_handler [OF call codes cur]
  have q: "v_semq v k = []" by (rule nobody_waits [OF kinvD(1) [OF inv] k0 1(3)])
  from SYS3_goes_on [OF _ h(2-4) k0, of v] inv m q r have "s' = store_word k (mem s k - 1) (advanced (timed c s))"
    by (simp add: timed_fields h(1))
  then show "I = {}" "mem s' k = 0" "p_semAdd (pcbs s p) \<noteq> k" "p_semAdd (pcbs s' p) = p_semAdd (pcbs s p)"
    using 1 by (simp_all add: store_word_def timed_fields)
qed

lemma waits_state:
  assumes inv: "kinv s v" and k0: "k \<noteq> 0" and codes: "sys_distinct A"
    and cur: "current_active_process s = Some c" and call: "sem_call A PASSEREN k s"
    and m: "mem s k = 0" and r: "exceptionHandler A s = Some (out', s')"
  shows "mem s' k = 0" and "p_semAdd (pcbs s' p) = (if p = c then k else p_semAdd (pcbs s p))"
proof -
  note h = sem_call_handler [OF call codes cur]
  from SYS3_blocks [OF _ _ h(2-4) k0, of v c] inv m cur
  have t: "resumes (exceptionHandler A s) (save_state c (set_semAdd c k (advanced (timed c s)))) (v_block k c v)"
    by (simp add: timed_fields h(1))
  show "mem s' k = 0" using m by (simp add: resumes_mem [OF t r] save_state_def set_pcb_def set_semAdd_def timed_fields)
  show "p_semAdd (pcbs s' p) = (if p = c then k else p_semAdd (pcbs s p))"
    using timed_fields(3) [of c s p]
    by (simp add: resumes_sems [OF t r] save_state_def set_pcb_def set_semAdd_def)
qed

lemma leaves_state:
  assumes inv: "kinv s v" and k0: "k \<noteq> 0" and codes: "sys_distinct A"
    and ok: "lock_ok k I s" and cur: "current_active_process s = Some c" and c: "c \<in> I"
    and call: "sem_call A VERHOGEN k s" and r: "exceptionHandler A s = Some (out', s')"
  shows "I = {c}"
    and "headBlocked k s = Some None \<Longrightarrow> mem s' k = 1 \<and> (\<forall>p. p_semAdd (pcbs s p) \<noteq> k \<and> p_semAdd (pcbs s' p) = p_semAdd (pcbs s p))"
    and "headBlocked k s = Some (Some q) \<Longrightarrow> mem s' k = 0 \<and> p_semAdd (pcbs s q) = k
      \<and> (\<forall>p. p_semAdd (pcbs s' p) = (if p = q then 0 else p_semAdd (pcbs s p)))"
    and "\<exists>h. headBlocked k s = Some h"
proof -
  have 1: "mem s k = 0" "I = {c}" using ok c by (auto simp: lock_ok_def)
  then show "I = {c}" by simp
  note h = sem_call_handler [OF call codes cur]
  have g: "case v_semq v k of
      [] \<Rightarrow> exceptionHandler A s = Some (LDST (bios_state (advanced (timed c s))), store_word k (mem s k + 1) (advanced (timed c s)))
    | q # _ \<Rightarrow> runs_to (exceptionHandler A s) (LDST (bios_state (advanced (timed c s))))
        (set_semAdd q 0 (advanced (timed c s))) (v_wake k v)"
    using SYS4_goes_on [OF _ h(2-4) k0, of v] inv 1(1) by (simp add: timed_fields h(1) split: list.splits)
  note hd = headBlocked_view [OF kinvD(1) [OF inv], of k]
  show "\<exists>h. headBlocked k s = Some h" using hd by blast
  show "mem s' k = 1 \<and> (\<forall>p. p_semAdd (pcbs s p) \<noteq> k \<and> p_semAdd (pcbs s' p) = p_semAdd (pcbs s p))"
    if "headBlocked k s = Some None"
  proof -
    have q: "v_semq v k = []" using hd that by (simp split: list.splits)
    then have "p_semAdd (pcbs s p) \<noteq> k" for p using kabs_facts(8) [OF kinvD(1) [OF inv] k0, of p] by simp
    moreover have "s' = store_word k 1 (advanced (timed c s))" using g q r 1(1) by simp
    ultimately show ?thesis by (simp add: store_word_def timed_fields)
  qed
  show "mem s' k = 0 \<and> p_semAdd (pcbs s q) = k \<and> (\<forall>p. p_semAdd (pcbs s' p) = (if p = q then 0 else p_semAdd (pcbs s p)))"
    if e: "headBlocked k s = Some (Some q)"
  proof -
    obtain qs where q: "v_semq v k = q # qs" using hd e by (auto split: list.splits)
    then obtain hp hh ds where "s' = relink hp hh ds (set_semAdd q 0 (advanced (timed c s)))"
      using g r by (auto elim!: runs_toE)
    then show ?thesis
      using 1(1) kabs_facts(8) [OF kinvD(1) [OF inv] k0, of q] q timed_fields(3) [of c s] by (simp add: set_semAdd_def timed_fields)
  qed
qed

lemma enters_ok:
  assumes "kinv s v" and "k \<noteq> 0" and "sys_distinct A" and "lock_ok k I s" and "current_active_process s = Some c"
    and "sem_call A PASSEREN k s" and "mem s k \<noteq> 0" and "exceptionHandler A s = Some (out', s')"
  shows "lock_ok k (insert c I) s'"
  using enters_state [OF assms] by (simp add: lock_ok_def)

lemma waits_ok:
  assumes "kinv s v" and "k \<noteq> 0" and "sys_distinct A" and "lock_ok k I s" and "current_active_process s = Some c"
    and "sem_call A PASSEREN k s" and "mem s k = 0" and "exceptionHandler A s = Some (out', s')"
  shows "lock_ok k I s'"
  using waits_state(1) [OF assms(1-3,5-8)] assms(4,7) by (simp add: lock_ok_def)

lemma leaves_ok:
  assumes "kinv s v" and "k \<noteq> 0" and "sys_distinct A" and "lock_ok k I s" and "current_active_process s = Some c"
    and "c \<in> I" and "sem_call A VERHOGEN k s" and "exceptionHandler A s = Some (out', s')"
  shows "headBlocked k s = Some None \<Longrightarrow> lock_ok k (I - {c}) s'"
    and "headBlocked k s = Some (Some q) \<Longrightarrow> lock_ok k (insert q (I - {c})) s'"
  using leaves_state(1-3) [OF assms] by (simp_all add: lock_ok_def)

lemma lock_step_ok:
  assumes st: "lock_step A k (I, out, s) (I', out', s')" and ok: "lock_ok k I s" and v: "kinv s v"
    and cur: "gives_processor out \<Longrightarrow> current_active_process s \<noteq> None"
    and A: "null_n_type A \<noteq> None" "sys_distinct A" and k: "\<not> kernel_word A k"
  shows "lock_ok k I' s'"
proof -
  have k0: "k \<noteq> 0" using k by (simp add: kernel_word_def)
  note w = wf_kernelI [OF v]
  from st show ?thesis
  proof (cases rule: lock_step.cases)
    case world
    then show ?thesis using lock_ok_untouched [OF ok outside_untouched] by blast
  next
    case (enters c)
    then show ?thesis using enters_ok [OF v k0 A(2) ok] by blast
  next
    case waits
    with cur obtain c where "current_active_process s = Some c" by blast
    with waits waits_ok [OF v k0 A(2) ok] show ?thesis by blast
  next
    case (leaves c)
    then show ?thesis using leaves_ok(1) [OF v k0 A(2) ok] by blast
  next
    case (hands_over c q)
    then show ?thesis using leaves_ok(2) [OF v k0 A(2) ok] by blast
  next
    case other
    then have "exc_code A s = EXC_INT A \<or> current_active_process s \<noteq> None" using cur by blast
    from exceptionHandler_untouched [OF _ A(1) w this k] other ok show ?thesis by (blast intro: lock_ok_untouched)
  next
    case interrupted
    moreover have "spares A k s"
      using A(2) interrupted by (auto simp: spares_def kernel_call_def sys_distinct_def)
    ultimately show ?thesis
      using exceptionHandler_untouched [OF _ A(1) w _ k] ok by (blast intro: lock_ok_untouched)
  qed
qed

text \<open>The runs of the machine in which \<open>k\<close> is used as a lock.\<close>

inductive lock_run :: "umps \<Rightarrow> u32 \<Rightarrow> nat set \<times> outcome \<times> kstate \<Rightarrow> bool" for A k where
  free: "reachable A (out, s) \<Longrightarrow> mem s k = 1 \<Longrightarrow> (\<forall>p. p_semAdd (pcbs s p) \<noteq> k) \<Longrightarrow> lock_run A k ({}, out, s)"
| step: "lock_run A k c \<Longrightarrow> lock_step A k c c' \<Longrightarrow> lock_run A k c'"

lemma lock_run_ok:
  assumes "lock_run A k c" and A: "null_n_type A \<noteq> None" "sys_distinct A" and k: "\<not> kernel_word A k"
  shows "case c of (I, out, s) \<Rightarrow> reachable A (out, s) \<and> lock_ok k I s"
  using assms(1)
proof induction
  case (free out s)
  then show ?case by (simp add: lock_ok_def)
next
  case (step c c')
  obtain I out s I' out' s' where c: "c = (I, out, s)" "c' = (I', out', s')" by (metis prod.exhaust)
  with step have r: "reachable A (out, s)" and ok: "lock_ok k I s" and st: "lock_step A k (I, out, s) (I', out', s')" by auto
  from reachable_settled [OF r] obtain v where "kinv s v" "gives_processor out \<longleftrightarrow> current_active_process s \<noteq> None"
    by (auto simp: settled_def wf_kernel_def)
  with lock_step_ok [OF st ok _ _ A k] reachable.step [OF r lock_step_kstep [OF st]] show ?case by (simp add: c)
qed

end
