(* ===== verification/Sem_Stay.thy ===== *)
theory Sem_Stay
  imports Sem_Frame
begin

text \<open>
  The other half of the frame: a process that waits on a semaphore goes on waiting through every
  exception that is no call on it, unless it is terminated.
\<close>

section \<open>Operations that leave the waiting processes alone\<close>

definition stays :: "u32 \<Rightarrow> kstate \<Rightarrow> kstate \<Rightarrow> bool" where
  "stays k s s' \<longleftrightarrow> (\<forall>q. p_semAdd (pcbs s q) = k \<longrightarrow> p_semAdd (pcbs s' q) = k)"

lemma stays_refl [simp]: "stays k s s"
  by (simp add: stays_def)

lemma stays_trans: "stays k s t \<Longrightarrow> stays k t u \<Longrightarrow> stays k s u"
  by (simp add: stays_def)

lemma stays_same: "(\<And>q. p_semAdd (pcbs s' q) = p_semAdd (pcbs s q)) \<Longrightarrow> stays k s s'"
  by (simp add: stays_def)

lemma stays_store [simp]: "stays k s (store_word a x t) = stays k s t"
  by (simp add: stays_def store_word_def)

lemma stays_relink [simp]: "stays k s (relink h hh ds t) = stays k s t"
  by (simp add: stays_def)

lemma resumes_pcbs: "resumes m t v \<Longrightarrow> m = Some (out, s') \<Longrightarrow> pcbs s' = pcbs t"
  unfolding resumes_def by (cases "v_ready v") (auto simp: running_def waiting_def split: if_splits)

lemma schedule_stays: "half_wf s \<Longrightarrow> schedule s = Some (out, s') \<Longrightarrow> stays k s s'"
proof -
  assume "half_wf s" and r: "schedule s = Some (out, s')"
  then obtain v where "kabs s v" "inv_core s v" by (auto simp: half_wf_def)
  from resumes_pcbs [OF schedule_resumes [OF this] r] show ?thesis by (simp add: stays_def)
qed

lemma save_and_schedule_stays:
  assumes h: "half_wf s" and r: "save_and_schedule s = Some (out, s')"
  shows "stays k s s'"
proof -
  obtain p where p: "current_active_process s = Some p"
    using r by (cases "current_active_process s") (auto simp: save_and_schedule_def currentProc_def)
  have "save_and_schedule s = schedule (save_state p s)"
    using p by (simp add: save_and_schedule_def currentProc_def save_state_def set_pcb_def)
  with schedule_stays [of "save_state p s" out s' k] h r have "stays k (save_state p s) s'" by simp
  moreover have "p_semAdd (pcbs (save_state p s) q) = p_semAdd (pcbs s q)" for q
    by (simp add: save_state_def set_pcb_def)
  ultimately show ?thesis by (simp add: stays_def)
qed

text \<open>The process that is woken, or that runs, does not wait on another semaphore.\<close>

lemma other_waits:
  assumes "kinv s v" and "q \<in> set (v_semq v k')" and "k' \<noteq> k"
  shows "stays k s (set_semAdd q x s)"
  using blocked_not_elsewhere(1) [OF kinvD(1) [OF assms(1)] assms(2)] assms(3)
  by (auto simp: stays_def set_semAdd_def)

lemma current_waits:
  assumes "kinv s v" and "current_active_process s = Some c" and "k \<noteq> 0"
  shows "stays k s (set_semAdd c x s)"
proof -
  have "p_semAdd (pcbs s c) = 0" using kinvD(5) [OF assms(1,2)] by (simp add: v_queued_def)
  with assms(3) show ?thesis by (auto simp: stays_def set_semAdd_def)
qed

section \<open>Interrupts\<close>

lemma signalled_stays:
  assumes "kinv s v" and "k' \<noteq> k"
  shows "stays k s (signalled A k' v0 stat v s)"
proof (cases "v_semq v k'")
  case (Cons p ps)
  then have "p_semAdd (pcbs s p) \<noteq> k"
    using blocked_not_elsewhere(1) [OF kinvD(1) [OF assms(1)], of p k'] assms(2) by simp
  then show ?thesis
    by (auto simp: signalled_def Cons stays_def io_done_def set_pcb_def set_semAdd_def decrementSoftBlockCount_def store_word_def)
qed (simp add: signalled_def)

definition staying :: "u32 \<Rightarrow> kstate update \<Rightarrow> bool" where
  "staying k f \<longleftrightarrow> (\<forall>s s'. wf_kernel s \<longrightarrow> f s = Some s' \<longrightarrow> stays k s s')"

lemma stayingD: "staying k f \<Longrightarrow> wf_kernel s \<Longrightarrow> f s = Some s' \<Longrightarrow> stays k s s'"
  by (auto simp: staying_def)

lemma staying_ends_ok: "ends_ok m t v \<Longrightarrow> m = Some s' \<Longrightarrow> stays k s t \<Longrightarrow> stays k s s'"
  by (auto simp: ends_ok_def)

lemma staying_bind:
  assumes "safe f" and "staying k f" and "staying k g"
  shows "staying k (\<lambda>s. Option.bind (f s) g)"
  unfolding staying_def
proof (intro allI impI)
  fix s s' assume w: "wf_kernel s" and "Option.bind (f s) g = Some s'"
  then obtain t where t: "f s = Some t" "g t = Some s'" by (auto simp: bind_Some_iff)
  have "wf_kernel t" by (rule safeD [OF assms(1) w t(1)])
  from stays_trans [OF stayingD [OF assms(2) w t(1)] stayingD [OF assms(3) this t(2)]] show "stays k s s'" .
qed

lemma when_line_staying: "staying k f \<Longrightarrow> staying k (when_line A line f)"
  by (auto simp: staying_def when_line_def)

lemma manageDevices_staying:
  assumes "\<not> kernel_word A k" and "line \<in> {IL_DISK A, IL_FLASH A, IL_ETHERNET A, IL_PRINTER A}"
  shows "staying k (manageDevices A line)"
  unfolding staying_def
proof (intro allI impI)
  fix s s' assume "wf_kernel s" and r: "manageDevices A line s = Some s'"
  then obtain v where v: "kinv s v" by (auto simp: wf_kernel_def)
  have n: "device_sem A line s \<noteq> k"
    using assms getInterruptingDevice_bound [of A line s] unfolding kernel_word_def device_sem_def by blast
  show "stays k s s'"
  proof (cases "device_sem A line s = 0")
    case True
    then have "manageDevices A line s = None"
      unfolding manageDevices_def Let_def device_sem_def [symmetric]
      using V_sem_null [of _ v] kinvD(1) [OF v] by (simp add: store_word_def)
    with r show ?thesis by simp
  next
    case False
    show ?thesis
      by (rule staying_ends_ok [OF manageDevices_ok [OF v False] r])
        (use signalled_stays [OF _ n] v in \<open>simp add: device_served_def Let_def stays_def store_word_def\<close>)
  qed
qed

lemma serve_half_staying:
  assumes "k' \<noteq> k"
  shows "staying k (serve_half A st cm k')"
  unfolding staying_def
proof (intro allI impI)
  fix s s' assume "wf_kernel s" and r: "serve_half A st cm k' s = Some s'"
  then obtain v where v: "kinv s v" by (auto simp: wf_kernel_def)
  show "stays k s s'"
  proof (cases "k' = 0")
    case True
    have "V_sem 0 (store_word cm (ACK A) s) = None"
      using V_sem_null [of _ v] kinvD(1) [OF v] by (simp add: store_word_def)
    then have "serve_half A st cm k' s = Some s \<or> serve_half A st cm k' s = None"
      by (simp add: serve_half_def Let_def True)
    with r show ?thesis by auto
  next
    case False
    show ?thesis
      by (rule staying_ends_ok [OF serve_half_ok [OF v False] r])
        (use signalled_stays [OF _ assms] v in \<open>simp add: half_served_def stays_def store_word_def\<close>)
  qed
qed

lemma term_sem_words:
  assumes "\<not> kernel_word A k"
  shows "term_sem A 0 s \<noteq> k" and "term_sem A 1 s \<noteq> k"
  using assms getInterruptingDevice_bound [of A "IL_TERMINAL A" s]
  unfolding kernel_word_def term_sem_def add_0_right by blast+

lemma manageTerminal_staying: "\<not> kernel_word A k \<Longrightarrow> staying k (manageTerminal A)"
  unfolding staying_def manageTerminal_halves
proof (intro allI impI)
  fix s s' assume k: "\<not> kernel_word A k" and w: "wf_kernel s"
    and "(do {
      t \<leftarrow> serve_half A (term_base A s + off_transm_status A) (term_base A s + off_transm_command A) (term_sem A 1 s) s;
      serve_half A (term_base A s + off_recv_status A) (term_base A s + off_recv_command A) (term_sem A 0 s) t
    }) = Some s'"
  then obtain t where
    t: "serve_half A (term_base A s + off_transm_status A) (term_base A s + off_transm_command A) (term_sem A 1 s) s = Some t"
    "serve_half A (term_base A s + off_recv_status A) (term_base A s + off_recv_command A) (term_sem A 0 s) t = Some s'"
    by (auto simp: bind_Some_iff)
  note w' = safeD [OF serve_half_safe w t(1)]
  show "stays k s s'"
    by (rule stays_trans [OF stayingD [OF serve_half_staying [OF term_sem_words(2) [OF k]] w t(1)]
          stayingD [OF serve_half_staying [OF term_sem_words(1) [OF k]] w' t(2)]])
qed

lemma clock_interrupt_staying: "getPseudoClockSem A \<noteq> k \<Longrightarrow> staying k (clock_interrupt A)"
  unfolding staying_def
proof (intro allI impI)
  fix s s' assume n: "getPseudoClockSem A \<noteq> k" and "wf_kernel s" and r: "clock_interrupt A s = Some s'"
  then obtain v where v: "kinv s v" by (auto simp: wf_kernel_def)
  show "stays k s s'"
  proof (rule staying_ends_ok [OF clock_interrupt_ok [OF v] r])
    have "q \<notin> set (v_semq v (getPseudoClockSem A))" if "p_semAdd (pcbs s q) = k" for q
      using blocked_not_elsewhere(1) [OF kinvD(1) [OF v]] that n by metis
    then show "stays k s (ticked A v s)"
      by (auto simp: ticked_def stays_def store_word_def wake_procs_semAdd resetIntervalTimer_def)
  qed
qed

lemma plt_interrupt_staying: "staying k (plt_interrupt A)"
  unfolding staying_def
proof (intro allI impI)
  fix s s' assume "wf_kernel s" and r: "plt_interrupt A s = Some s'"
  then obtain v where v: "kinv s v" by (auto simp: wf_kernel_def)
  show "stays k s s'"
  proof (cases "timer_enabled A s")
    case True
    then obtain p where p: "current_active_process s = Some p"
      using r by (cases "current_active_process s") (auto simp: plt_interrupt_def timer_enabled_def currentProc_def)
    show ?thesis
      by (rule staying_ends_ok [OF plt_interrupt_ok [OF v p True] r]) (auto simp: stays_def preempted_def set_pcb_def)
  next
    case False
    with r show ?thesis by (simp add: plt_interrupt_off)
  qed
qed

lemma interruptHandler_stays:
  assumes k: "\<not> kernel_word A k" and w: "wf_kernel s" and r: "interruptHandler A s = Some (out, s')"
  shows "stays k s s'"
proof -
  from r obtain s1 s2 where 1: "when_line A 1 (plt_interrupt A) s = Some s1" "other_lines A s1 = Some s2"
    "(if currentProc s2 = None then schedule s2 else Some (LDST (bios_state s2), s2)) = Some (out, s')"
    by (auto simp: interruptHandler_lines bind_Some_iff)
  have clk: "getPseudoClockSem A \<noteq> k" using k by (auto simp: kernel_word_def)
  have d: "staying k (manageDevices A (IL_DISK A))" "staying k (manageDevices A (IL_FLASH A))"
    "staying k (manageDevices A (IL_ETHERNET A))" "staying k (manageDevices A (IL_PRINTER A))"
    by (rule manageDevices_staying [OF k], simp)+
  have o: "staying k (other_lines A)"
    unfolding other_lines_def
    by (intro staying_bind safe_bind when_line_safe when_line_staying manageDevices_safe manageTerminal_safe
        total_safe [OF clock_interrupt_total] clock_interrupt_staying [OF clk] d manageTerminal_staying [OF k])
  note w1 = safeD [OF when_line_safe [OF plt_interrupt_safe] w 1(1)]
  note w2 = safeD [OF other_lines_safe w1 1(2)]
  have "stays k s s2"
    by (rule stays_trans [OF stayingD [OF when_line_staying [OF plt_interrupt_staying] w 1(1)] stayingD [OF o w1 1(2)]])
  moreover have "stays k s2 s'"
    using 1(3) schedule_stays [OF wf_half [OF w2]] by (auto split: if_splits)
  ultimately show ?thesis by (rule stays_trans)
qed

section \<open>Termination\<close>

text \<open>A PCB that no process uses.\<close>

definition unused :: "kstate \<Rightarrow> nat \<Rightarrow> bool" where
  "unused s q \<longleftrightarrow> (\<exists>v. kabs s v \<and> q \<in> set (v_free v))"

definition waits_on :: "u32 \<Rightarrow> kstate \<Rightarrow> kstate \<Rightarrow> bool" where
  "waits_on k s s' \<longleftrightarrow> (\<forall>q. p_semAdd (pcbs s q) = k \<longrightarrow> p_semAdd (pcbs s' q) = k \<or> unused s' q)"

lemma stays_waits_on: "stays k s s' \<Longrightarrow> waits_on k s s'"
  by (simp add: stays_def waits_on_def)

lemma stays_then: "stays k s t \<Longrightarrow> waits_on k t s' \<Longrightarrow> waits_on k s s'"
  by (auto simp: stays_def waits_on_def)

lemma resumes_free: "resumes m t v \<Longrightarrow> m = Some (out, s') \<Longrightarrow> \<exists>v'. kinv s' v' \<and> v_free v' = v_free v"
  unfolding resumes_def by (cases "v_ready v") (auto split: if_splits)

lemma terminateProcess_waits:
  assumes v: "kabs s v" "inv_core s v" and p: "p < MAXPROC" "p \<notin> set (v_free v)"
    and r: "terminateProcess A (Some p) s = Some (out, s')"
  shows "waits_on k s s'"
proof -
  let ?D = "desc_of (kid_rel v) p"
  from terminateProcess_resumes [OF v p, of A] obtain fs where
    fs: "set fs = set (v_free v) \<union> ?D" and t: "resumes (terminateProcess A (Some p) s) (reaped A ?D s) (v_reaped ?D fs (v_orphan p v))"
    by blast
  from resumes_free [OF t r] obtain v' where v': "kinv s' v'" "v_free v' = fs" by (auto simp: v_reaped_def)
  have "unused s' q" if "q \<in> ?D" for q
    using kinvD(1) [OF v'(1)] v'(2) fs that by (auto simp: unused_def)
  then show ?thesis unfolding waits_on_def resumes_pcbs [OF t r] by (auto simp: reaped_def)
qed

lemma terminate_current_waits:
  assumes w: "wf_kernel s" and r: "terminateProcess A (currentProc s) s = Some (out, s')"
  shows "waits_on k s s'"
proof -
  from w obtain v where v: "kinv s v" by (auto simp: wf_kernel_def)
  from r obtain c where c: "current_active_process s = Some c"
    by (cases "current_active_process s") (auto simp: currentProc_def terminateProcess_null)
  from current_not_free [OF w kinvD(1) [OF v] c] terminateProcess_waits [OF kinvD(1,2) [OF v], of c A out s' k] r c
  show ?thesis by (simp add: currentProc_def)
qed

lemma terminate_found_waits:
  assumes w: "wf_kernel s" and f: "findPcb pid getReadyQueue s = Some p" and r: "terminateProcess A p s = Some (out, s')"
  shows "waits_on k s s'"
proof -
  from w obtain v where v: "kinv s v" by (auto simp: wf_kernel_def)
  from r obtain i where i: "p = Some i" by (cases p) (auto simp: terminateProcess_null)
  have "i \<in> set (v_ready v) \<union> v_blocked v"
    using findPcb_view [OF kinvD(1) [OF v], of pid] f i by (auto simp: getReadyQueue_def)
  from listed_live [OF kinvD(1,2) [OF v] this] terminateProcess_waits [OF kinvD(1,2) [OF v], of i A out s' k] r i
  show ?thesis by simp
qed

section \<open>System calls\<close>

lemma insertBlocked_current_stays:
  assumes w: "wf_kernel s" and r: "insertBlocked k' (currentProc s) s = Some (n, s')" and k: "k' \<noteq> 0" "k \<noteq> 0"
  shows "stays k s s'"
proof (cases "current_active_process s")
  case None
  then show ?thesis using r by (simp add: currentProc_def insertBlocked_null)
next
  case (Some p)
  from w obtain v where v: "kinv s v" by (auto simp: wf_kernel_def)
  from block_current [OF v Some k(1)] obtain h hh ds where
    "insertBlocked k' (Some p) s = Some (0, relink h hh ds (set_semAdd p k' s))" by (rule runs_toE)
  with r current_waits [OF v Some k(2), of k'] show ?thesis by (auto simp: currentProc_def Some)
qed

lemma P_sem_stays:
  assumes w: "wf_kernel s" and r: "P_sem k' s = Some s'" and k: "k \<noteq> 0"
  shows "stays k s s'"
proof -
  have k': "k' \<noteq> 0" using r by (auto simp: P_sem_def)
  show ?thesis
  proof (cases "mem s k' = 0")
    case True
    with r k' obtain n t where t: "insertBlocked k' (currentProc s) s = Some (n, t)" "s' = incrementSoftBlockCount t"
      by (auto simp: P_sem_def bind_Some_iff)
    with insertBlocked_current_stays [OF w t(1) k' k] show ?thesis by (simp add: stays_def incrementSoftBlockCount_def)
  next
    case False
    with r P_sem_pass [OF k' False] show ?thesis by auto
  qed
qed

lemma wake_then_stays:
  assumes v: "kinv s v" and q: "v_semq v k' = q # qs" and n: "k' \<noteq> k"
    and r: "(do { (proc, s) \<leftarrow> removeBlocked k' s; s \<leftarrow> enqueueReady proc s; Some (n, s) }) = Some (m, s')"
  shows "stays k s s'"
proof -
  have c: "clear_current q (set_semAdd q 0 s) = set_semAdd q 0 s"
    using not_current_woken [OF v, of q k'] q by (simp add: clear_current_def set_semAdd_def)
  from wake_then [OF kinvD(1) [OF v] q, of n] c obtain h hh ds where
    "(do { (proc, s) \<leftarrow> removeBlocked k' s; s \<leftarrow> enqueueReady proc s; Some (n, s) }) = Some (n, relink h hh ds (set_semAdd q 0 s))"
    by (auto elim!: runs_toE)
  with r other_waits [OF v, of q k' k 0] q n show ?thesis by auto
qed

lemma passeren_stays:
  assumes w: "wf_kernel s" and r: "passeren k' s = Some (n, s')" and k: "k \<noteq> 0" "k' \<noteq> k"
  shows "stays k s s'"
proof -
  have k': "k' \<noteq> 0" using r by (cases "k' = 0") (auto simp: passeren_def)
  from w obtain v where v: "kinv s v" by (auto simp: wf_kernel_def)
  show ?thesis
  proof (cases "mem s k' = 0")
    case True
    with r k' obtain m where "insertBlocked k' (currentProc s) s = Some (m, s')"
      by (auto simp: passeren_def bind_Some_iff)
    from insertBlocked_current_stays [OF w this k' k(1)] show ?thesis .
  next
    case False
    show ?thesis
    proof (cases "v_semq v k'")
      case Nil
      with passeren_pass [OF kinvD(1) [OF v] k' False] r show ?thesis by auto
    next
      case (Cons q qs)
      with r k' False headBlocked_view [OF kinvD(1) [OF v], of k']
      have "(do { (p, s) \<leftarrow> removeBlocked k' s; s \<leftarrow> enqueueReady p s; Some (0, s) }) = Some (n, s')"
        by (simp add: passeren_def)
      from wake_then_stays [OF v Cons k(2) this] show ?thesis .
    qed
  qed
qed

lemma verhogen_stays:
  assumes w: "wf_kernel s" and r: "verhogen k' s = Some (n, s')" and k: "k \<noteq> 0" "k' \<noteq> k"
  shows "stays k s s'"
proof -
  have k': "k' \<noteq> 0" using r by (cases "k' = 0") (auto simp: verhogen_def)
  from w obtain v where v: "kinv s v" by (auto simp: wf_kernel_def)
  show ?thesis
  proof (cases "mem s k' = 1")
    case True
    with r k' obtain m where "insertBlocked k' (currentProc s) s = Some (m, s')"
      by (auto simp: verhogen_def bind_Some_iff)
    from insertBlocked_current_stays [OF w this k' k(1)] show ?thesis .
  next
    case False
    show ?thesis
    proof (cases "v_semq v k'")
      case Nil
      with verhogen_pass [OF kinvD(1) [OF v] k' False] r show ?thesis by auto
    next
      case (Cons q qs)
      with r k' False headBlocked_view [OF kinvD(1) [OF v], of k']
      have "(do { (p, s) \<leftarrow> removeBlocked k' s; s \<leftarrow> enqueueReady p s; Some (0, s) }) = Some (n, s')"
        by (simp add: verhogen_def)
      from wake_then_stays [OF v Cons k(2) this] show ?thesis .
    qed
  qed
qed

lemma addNamespace_leaf_stays:
  assumes v: "kinv s v" and p: "p < MAXPROC" "p \<notin> set (v_free v)" "v_kids v p = []"
    and r: "addNamespace A (Some p) ns s = Some (ok, s')"
  shows "stays k s s'"
proof (cases ns)
  case None
  with r show ?thesis by (auto simp: addNamespace_null)
next
  case (Some n)
  with r obtain s1 s2 where
    1: "set_namespace A (Some p) (Some n) s = Some s1" "setAllChildNamespace A (Some (P_child p)) (Some n) s1 = Some s2"
    and 2: "(do {
      s \<leftarrow> on_lists (list_safe_del (Some (N_link n))) s2;
      on_lists (list_add_tail (Some (N_link n)) (Some PID_nsList_h)) s
    }) = Some s'"
    by (auto simp: addNamespace_def bind_Some_iff)
  from set_namespace_eq [OF 1(1)] have k1: "kinv s1 v" using v by (auto simp: kinv_set_pcb)
  have "s2 = s1" using setAllChildNamespace_leaf [OF kinvD(1) [OF k1] p, of A "Some n"] 1(2) by simp
  with use_namespace_view [OF kinvD(1) [OF k1], of n] 2 obtain h hh ds where "s' = relink h hh ds s1"
    by (auto elim!: ends_inE)
  then show ?thesis using set_namespace_eq [OF 1(1)] by (auto simp: stays_def set_pcb_def)
qed

lemma give_namespace_stays:
  assumes v: "kinv s v" and p: "p < MAXPROC" "p \<notin> set (v_free v)" "v_kids v p = []"
    and r: "give_namespace A (Some p) nsd s = Some (pid, s')"
  shows "stays k s s'"
proof (cases nsd)
  case None
  with r obtain ns ok where "addNamespace A (Some p) ns s = Some (ok, s')"
    by (auto simp: give_namespace_def addNamespace_null NS_TYPE_MAX_def bind_Some_iff)
  from addNamespace_leaf_stays [OF v p this] show ?thesis .
next
  case (Some n)
  from r obtain ok s1 where 1: "addNamespace A (Some p) nsd s = Some (ok, s1)" "ok \<Longrightarrow> s1 = s'"
    by (auto simp: give_namespace_def bind_Some_iff split: if_splits)
  with addNamespace_ok_iff [OF 1(1)] Some addNamespace_leaf_stays [OF v p 1(1)] show ?thesis by simp
qed

lemma createProcess_stays:
  assumes w: "wf_kernel s" and r: "createProcess A st supp nsd s = Some (pid, s')"
    and cur: "current_active_process s = Some c" and k: "k \<noteq> 0"
  shows "stays k s s'"
proof -
  from w obtain v where v: "kinv s v" by (auto simp: wf_kernel_def)
  show ?thesis
  proof (cases "v_free v")
    case Nil
    with createProcess_full [OF kinvD(1) [OF v]] r show ?thesis by auto
  next
    case (Cons p fs)
    from createProcess_alloc [OF v cur Cons, of A st supp nsd] obtain h hh ds where
      1: "createProcess A st supp nsd s = give_namespace A (Some p) nsd (relink h hh ds (new_process A p c st supp s))"
      "kabs (relink h hh ds (new_process A p c st supp s)) (v_new p fs c v)" unfolding Let_def by blast
    have i: "kinv (relink h hh ds (new_process A p c st supp s)) (v_new p fs c v)"
      using 1(2) create_inv [OF v cur Cons, of A st supp] by (simp add: kinv_def)
    from give_namespace_stays [OF i v_new_leaf(1-3) [OF v cur Cons], of A nsd pid s' k] r 1(1)
    have "stays k (relink h hh ds (new_process A p c st supp s)) s'" by simp
    moreover have "p_semAdd (pcbs s p) = 0" using kabs_facts(10) [OF kinvD(1) [OF v], of p] Cons by simp
    then have "stays k s (new_process A p c st supp s)" using k by (auto simp: stays_def new_process_def set_pcb_def)
    ultimately show ?thesis by (simp add: stays_def)
  qed
qed

lemma getChildren_stays:
  assumes "getChildren A children sz s = Some (r, s')"
  shows "stays k s s'"
proof -
  from assms obtain nsd first where
    "(r, s') = (0, s) \<or> getChildren_from A children sz nsd (p_child (currentProc s)) first 0 s = Some (r, s')"
    by (auto simp: getChildren_def bind_Some_iff split: if_splits)
  then have "\<exists>m. s' = s\<lparr>mem := m\<rparr>"
    using getChildren_from_frame [of A children sz nsd _ first 0 s "(r, s')"] by auto
  then show ?thesis by (auto simp: stays_def)
qed

lemma doIO_stays:
  assumes w: "wf_kernel s" and r: "doIO A a vals s = Some s'" and k: "k \<noteq> 0"
  shows "stays k s s'"
proof -
  obtain p where cur: "current_active_process s = Some p"
    using r by (cases "current_active_process s") (auto simp: doIO_def currentProc_def)
  have bit: "io_bit A a \<noteq> None"
    using r by (cases "io_bit A a") (auto simp: doIO_def io_bit_def io_line_def Let_def bind_Some_iff)
  let ?s = "io_saved vals p s" and ?t = "io_command A a vals (io_saved vals p s)"
  have 1: "stays k s ?s" by (auto simp: stays_def io_saved_def set_pcb_def)
  have c: "stays k ?s ?t" by (auto simp: io_command_def Let_def)
  have w': "wf_kernel ?t" using w by (auto simp: io_command_def Let_def io_saved_def wf_set_pcb)
  show ?thesis
  proof (cases "io_installed A a s")
    case True
    then have "P_sem (io_sem A a) ?t = Some s'" using r by (simp add: doIO_eq [OF cur bit])
    from stays_trans [OF stays_trans [OF 1 c] P_sem_stays [OF w' this k]] show ?thesis .
  next
    case False
    then have "s' = set_pcb p (\<lambda>b. b\<lparr>p_s := set_v0 A (-1) (p_s b)\<rparr>)
        (store_word (vals + 4 * ix_STATUS A) 0 ?s)"
      using r by (simp add: doIO_eq [OF cur bit])
    then show ?thesis by (auto simp: stays_def set_pcb_def io_saved_def store_word_def)
  qed
qed

lemma passUpOrDie_waits:
  assumes "wf_kernel s" and "passUpOrDie A n s = Some (out, s')"
  shows "waits_on k s s'"
proof (cases "current_active_process s")
  case None
  then have "s' = s" using assms(2) by (auto simp: passUpOrDie_def currentProc_def split: if_splits)
  then show ?thesis by (simp add: waits_on_def)
next
  case (Some p)
  show ?thesis
  proof (cases "(n = PGFAULTEXCEPT \<or> n = GENERALEXCEPT) \<and> p_supportStruct (pcbs s p) = 0")
    case True
    then have "terminateProcess A (currentProc s) s = Some (out, s')"
      using assms(2) Some by (simp add: passUpOrDie_def currentProc_def)
    from terminate_current_waits [OF assms(1) this] show ?thesis .
  next
    case False
    then have "\<exists>u. s' = s\<lparr>supports := u\<rparr> \<or> s' = s"
      using assms(2) Some by (auto simp: passUpOrDie_def currentProc_def Let_def split: if_splits)
    then show ?thesis by (auto simp: waits_on_def)
  qed
qed

section \<open>Exceptions\<close>

lemma return_stays: "return_to_caller (RETURN_SYS_VALUE A x t) = Some (out, s') \<Longrightarrow> stays k s t \<Longrightarrow> stays k s s'"
  by (auto simp: return_to_caller_def RETURN_SYS_VALUE_def stays_def)

lemma blocked_or_returns:
  assumes "(if n \<noteq> (0 :: nat) then save_and_schedule t else return_to_caller t) = Some (out, s')"
    and "if n = 0 then goes_on s t else half_wf t" and "stays k s t"
  shows "stays k s s'"
proof (cases "n = 0")
  case True
  with assms(1,3) show ?thesis by (auto simp: return_to_caller_def)
next
  case False
  with assms have "stays k t s'" by (auto intro: save_and_schedule_stays)
  with assms(3) show ?thesis by (rule stays_trans)
qed

lemma syscall_switch_waits:
  assumes r: "syscall_switch A s = Some (out, s')" and w: "wf_kernel s"
    and cur: "current_active_process s = Some c" and k: "k \<noteq> 0"
    and p: "sys_code A s \<in> {PASSEREN, VERHOGEN} \<longrightarrow> FIRST_PARAM A s \<noteq> k"
  shows "waits_on k s s'"
proof -
  note e = r [unfolded syscall_switch_def sys_code_def [symmetric] Let_def]
  consider (create) "sys_code A s = CREATEPROCESS" | (dies) "sys_code A s = TERMPROCESS"
    | (pass) "sys_code A s = PASSEREN" | (verh) "sys_code A s = VERHOGEN" | (io) "sys_code A s = DOIO"
    | (clock) "sys_code A s = CLOCKWAIT" | (kids) "sys_code A s = GETCHILDREN"
    | (answer) "sys_code A s \<in> {GETTIME, GETSUPPORTPTR, GETPROCESSID}"
    | (other) "sys_code A s \<notin> {CREATEPROCESS, TERMPROCESS, PASSEREN, VERHOGEN, DOIO, GETTIME, CLOCKWAIT, GETSUPPORTPTR,
        GETPROCESSID, GETCHILDREN}" by blast
  then show ?thesis
  proof cases
    case create
    then obtain nsd pid t where t:
      "createProcess A (load_state A (mem s) (FIRST_PARAM A s)) (SECOND_PARAM A s) nsd s = Some (pid, t)"
      "return_to_caller (RETURN_SYS_VALUE A pid t) = Some (out, s')"
      using e by (auto simp: bind_Some_iff)
    from return_stays [OF t(2) createProcess_stays [OF w t(1) cur k]] show ?thesis by (rule stays_waits_on)
  next
    case dies
    then obtain q where q: "(if FIRST_PARAM A s = 0 then Some (currentProc s)
        else findPcb (FIRST_PARAM A s) getReadyQueue s) = Some q" and t: "terminateProcess A q s = Some (out, s')"
      using e by (auto simp: syscall_codes bind_Some_iff)
    then show ?thesis
      using terminate_current_waits [OF w, of A out s'] terminate_found_waits [OF w, of _ q A out s']
      by (cases "FIRST_PARAM A s = 0") auto
  next
    case pass
    then obtain n t where t: "passeren (FIRST_PARAM A s) s = Some (n, t)"
      "(if n \<noteq> 0 then save_and_schedule t else return_to_caller t) = Some (out, s')"
      using e by (auto simp: syscall_codes bind_Some_iff)
    have "stays k s t" using passeren_stays [OF w t(1) k] p pass by simp
    from blocked_or_returns [OF t(2) passeren_wf [OF w t(1)] this] show ?thesis by (rule stays_waits_on)
  next
    case verh
    then obtain n t where t: "verhogen (FIRST_PARAM A s) s = Some (n, t)"
      "(if n \<noteq> 0 then save_and_schedule t else return_to_caller t) = Some (out, s')"
      using e by (auto simp: syscall_codes bind_Some_iff)
    have "stays k s t" using verhogen_stays [OF w t(1) k] p verh by simp
    from blocked_or_returns [OF t(2) verhogen_wf [OF w t(1)] this] show ?thesis by (rule stays_waits_on)
  next
    case io
    then obtain t where t: "doIO A (FIRST_PARAM A s) (SECOND_PARAM A s) s = Some t" "save_and_schedule t = Some (out, s')"
      using e by (auto simp: syscall_codes bind_Some_iff)
    from stays_trans [OF doIO_stays [OF w t(1) k] save_and_schedule_stays [OF doIO_half [OF w t(1)] t(2)]]
    show ?thesis by (rule stays_waits_on)
  next
    case clock
    then obtain t where t: "P_sem (getPseudoClockSem A) s = Some t" "save_and_schedule t = Some (out, s')"
      using e by (auto simp: syscall_codes bind_Some_iff)
    from stays_trans [OF P_sem_stays [OF w t(1) k] save_and_schedule_stays [OF P_sem_half [OF w t(1)] t(2)]]
    show ?thesis by (rule stays_waits_on)
  next
    case kids
    then obtain x t where t: "getChildren A (FIRST_PARAM A s) (SECOND_PARAM A s) s = Some (x, t)"
      "return_to_caller (RETURN_SYS_VALUE A x t) = Some (out, s')"
      using e by (auto simp: syscall_codes bind_Some_iff)
    from return_stays [OF t(2) getChildren_stays [OF t(1)]] show ?thesis by (rule stays_waits_on)
  next
    case answer
    then obtain x where "return_to_caller (RETURN_SYS_VALUE A x s) = Some (out, s')"
      using e by (auto simp: syscall_codes bind_Some_iff)
    from return_stays [OF this stays_refl] show ?thesis by (rule stays_waits_on)
  next
    case other
    then have "passUpOrDie A GENERALEXCEPT s = Some (out, s')" using e by simp
    from passUpOrDie_waits [OF w this] show ?thesis .
  qed
qed

lemma syscallHandler_waits:
  assumes r: "syscallHandler A s = Some (out, s')" and w: "wf_kernel s"
    and cur: "current_active_process s = Some c" and k: "k \<noteq> 0"
    and p: "kernel_mode A s \<Longrightarrow> sys_code A s \<in> {PASSEREN, VERHOGEN} \<longrightarrow> FIRST_PARAM A s \<noteq> k"
  shows "waits_on k s s'"
proof (cases "kernel_mode A s")
  case True
  have "wf_kernel (advanced s)" using w kinv_advanced by (auto simp: wf_kernel_def)
  then have "waits_on k (advanced s) s'"
    using syscall_switch_waits [of A "advanced s" out s' c k] p [OF True] r cur k
    by (simp add: syscallHandler_kernel [OF True] advanced_params)
  then show ?thesis by (simp add: waits_on_def)
next
  case False
  let ?s = "(advanced s)\<lparr>bios_state := (bios_state (advanced s))\<lparr>cause := push_bit (CAUSE_EXCCODE_BIT A) (EXC_RI A)\<rparr>\<rparr>"
  have "passUpOrDie A GENERALEXCEPT ?s = Some (out, s')"
    using r False by (simp add: syscallHandler_def kernel_mode_def advanced_def Let_def)
  moreover have "wf_kernel ?s" using w by (simp add: wf_kernel_def advanced_def)
  ultimately have "waits_on k ?s s'" using passUpOrDie_waits by blast
  then show ?thesis by (simp add: waits_on_def)
qed

text \<open>The process that waits: it waits on, or it is terminated.\<close>

lemma exceptionHandler_waits:
  assumes r: "exceptionHandler A s = Some (out, s')" and w: "wf_kernel s"
    and run: "exc_code A s = EXC_INT A \<or> current_active_process s \<noteq> None"
    and k: "\<not> kernel_word A k" and sp: "spares A k s"
  shows "waits_on k s s'"
proof -
  have k0: "k \<noteq> 0" using k by (simp add: kernel_word_def)
  from r obtain s1 where 1: "update_time s = Some s1"
    "(if exc_code A s = EXC_INT A then interruptHandler A s1
      else if exc_code A s = EXC_MOD A \<or> exc_code A s = EXC_TLBL A \<or> exc_code A s = EXC_TLBS A
      then passUpOrDie A PGFAULTEXCEPT s1
      else if exc_code A s = EXC_SYS A then syscallHandler A s1
      else passUpOrDie A GENERALEXCEPT s1) = Some (out, s')"
    unfolding exceptionHandler_def exc_code_def Let_def bind_Some_iff by blast
  have w1: "wf_kernel s1" "current_active_process s1 = current_active_process s"
    using update_time_goes_on [OF w 1(1)] by (simp_all add: goes_on_def)
  have s1: "s1 = s \<or> (\<exists>c. s1 = timed c s)"
    using 1(1) update_time_running by (cases "current_active_process s") (auto simp: update_time_def currentProc_def)
  then have sem: "p_semAdd (pcbs s1 q) = p_semAdd (pcbs s q)" for q by (auto simp: timed_def set_pcb_def)
  have "waits_on k s1 s'"
  proof (cases "exc_code A s = EXC_INT A")
    case True
    with 1(2) interruptHandler_stays [OF k w1(1)] show ?thesis by (auto intro: stays_waits_on)
  next
    case False
    with run w1 obtain c where c: "current_active_process s1 = Some c" by auto
    have "kernel_mode A s1 = kernel_mode A s" "sys_code A s1 = sys_code A s" "FIRST_PARAM A s1 = FIRST_PARAM A s"
      using s1 by (auto simp: kernel_mode_def sys_code_def FIRST_PARAM_def timed_def set_pcb_def)
    then have "waits_on k s1 s'" if "exc_code A s = EXC_SYS A" "syscallHandler A s1 = Some (out, s')"
      using syscallHandler_waits [OF that(2) w1(1) c k0] sp that(1) by (auto simp: spares_def kernel_call_def)
    with 1(2) False show ?thesis by (auto split: if_splits intro: passUpOrDie_waits [OF w1(1)])
  qed
  then show ?thesis by (simp add: waits_on_def sem)
qed

end
