(* ===== verification/Program.thy ===== *)
theory Program
  imports Syscall
begin

text \<open>
  User programs, as the kernel meets them: a program is the tree of what it does next.  Every
  interaction with its surroundings (a system call, a word or a structure of the shared memory,
  a service of the BIOS) is an \<open>event\<close>, and the rest of the program depends on the answer; local
  variables are parameters of the rest.  A loop need not end, so the trees are a codatatype; a
  turn of a loop is a \<open>Turn\<close>.

  A program says nothing on what the events do: that is the machine and the kernel
  (\<open>Program_Run\<close>, \<open>Mutex\<close>).
\<close>

section \<open>Programs\<close>

datatype event =
    Syscall u32 u32 u32 u32          \<comment> \<open>\<open>SYSCALL(a0, a1, a2, a3)\<close>, answered by \<open>v0\<close>\<close>
  | Load u32 | Store u32 u32          \<comment> \<open>a word of the memory\<close>
  | Load_state u32 | Store_state u32 state_t
  | Load_support u32 | Store_support u32 support_t
  | Local nat                         \<comment> \<open>the address of a local array of so many words\<close>
  | Stst u32 | Stck                   \<comment> \<open>\<open>STST\<close> to an address; the time of day\<close>
  | Set_entryhi u32 | Set_entrylo u32 | Tlbwr
  | Alloc_namespace u32               \<comment> \<open>\<open>allocNamespace\<close> of the kernel, called as a function\<close>

datatype answer = Word u32 | State state_t | Support support_t | Unit

text \<open>How a program gives up the processor for good: \<open>PANIC()\<close>, \<open>LDST\<close>, or undefined behaviour.\<close>

datatype stop = Panicked | Loaded state_t | Fault

codatatype 'a prog =
    Return 'a
  | Turn "'a prog"
  | Do event "answer \<Rightarrow> 'a prog"
  | Stop stop

text \<open>Sequencing: the second program starts with the result of the first.\<close>

primcorec and_then :: "'a prog \<Rightarrow> ('a \<Rightarrow> 'b prog) \<Rightarrow> 'b prog" where
  "and_then m f = (case m of
      Return x \<Rightarrow> f x
    | Turn m \<Rightarrow> Turn (and_then m f)
    | Do e k \<Rightarrow> Do e (\<lambda>r. and_then (k r) f)
    | Stop z \<Rightarrow> Stop z)"

lemma and_then_simps [simp]:
  "and_then (Return x) f = f x" "and_then (Turn m) f = Turn (and_then m f)"
  "and_then (Do e k) f = Do e (\<lambda>r. and_then (k r) f)" "and_then (Stop z) f = Stop z"
  by (subst and_then.code; simp)+

definition then_do :: "unit prog \<Rightarrow> 'a prog \<Rightarrow> 'a prog" where
  "then_do m n = and_then m (\<lambda>_. n)"

lemma then_do_simps [simp]:
  "then_do (Return ()) n = n" "then_do (Turn m) n = Turn (then_do m n)"
  "then_do (Do e k) n = Do e (\<lambda>r. then_do (k r) n)" "then_do (Stop z) n = Stop z"
  by (simp_all add: then_do_def)

lemma and_then_assoc: "and_then (and_then m f) g = and_then m (\<lambda>x. and_then (f x) g)"
proof (coinduction arbitrary: m rule: prog.coinduct_strong)
  case Eq_prog
  show ?case by (cases m) (auto simp: rel_fun_def)
qed

lemma then_do_and_then: "and_then (then_do m n) f = then_do m (and_then n f)"
  by (simp add: then_do_def and_then_assoc)

text \<open>
  A loop: the body answers \<open>Inl\<close> the variables for another turn or \<open>Inr\<close> the result.
\<close>

primcorec iterate_from :: "('s \<Rightarrow> ('s + 'a) prog) \<Rightarrow> ('s + 'a) prog \<Rightarrow> 'a prog" where
  "iterate_from body m = (case m of
      Return x \<Rightarrow> (case x of Inl s \<Rightarrow> Turn (iterate_from body (body s)) | Inr a \<Rightarrow> Return a)
    | Turn m \<Rightarrow> Turn (iterate_from body m)
    | Do e k \<Rightarrow> Do e (\<lambda>r. iterate_from body (k r))
    | Stop z \<Rightarrow> Stop z)"

lemma iterate_from_simps [simp]:
  "iterate_from body (Return (Inl s)) = Turn (iterate_from body (body s))"
  "iterate_from body (Return (Inr a)) = Return a"
  "iterate_from body (Turn m) = Turn (iterate_from body m)"
  "iterate_from body (Do e k) = Do e (\<lambda>r. iterate_from body (k r))"
  "iterate_from body (Stop z) = Stop z"
  by (subst iterate_from.code; simp)+

definition iterate :: "('s \<Rightarrow> ('s + 'a) prog) \<Rightarrow> 's \<Rightarrow> 'a prog" where
  "iterate body s = iterate_from body (body s)"

text \<open>A \<open>for\<close> over a range known in advance, with the variables the body changes.\<close>

fun for_each :: "'i list \<Rightarrow> ('i \<Rightarrow> 's \<Rightarrow> 's prog) \<Rightarrow> 's \<Rightarrow> 's prog" where
  "for_each [] body s = Return s"
| "for_each (i # is) body s = and_then (body i s) (for_each is body)"

text \<open>Empty turns, as in \<open>for (i = 1; i < n; i++);\<close>.\<close>

fun delay :: "nat \<Rightarrow> 'a prog \<Rightarrow> 'a prog" where
  "delay 0 m = m"
| "delay (Suc n) m = Turn (delay n m)"

section \<open>Statements\<close>

fun word_of :: "answer \<Rightarrow> u32" where
  "word_of (Word w) = w"
| "word_of _ = 0"

fun with_state :: "answer \<Rightarrow> (state_t \<Rightarrow> 'a prog) \<Rightarrow> 'a prog" where
  "with_state (State st) k = k st"
| "with_state _ k = Stop Fault"

fun with_support :: "answer \<Rightarrow> (support_t \<Rightarrow> 'a prog) \<Rightarrow> 'a prog" where
  "with_support (Support u) k = k u"
| "with_support _ k = Stop Fault"

definition syscall :: "u32 \<Rightarrow> u32 \<Rightarrow> u32 \<Rightarrow> u32 \<Rightarrow> (u32 \<Rightarrow> 'a prog) \<Rightarrow> 'a prog" where
  "syscall a0 a1 a2 a3 k = Do (Syscall a0 a1 a2 a3) (\<lambda>r. k (word_of r))"

text \<open>A call whose result is not used.\<close>

definition call :: "u32 \<Rightarrow> u32 \<Rightarrow> u32 \<Rightarrow> u32 \<Rightarrow> 'a prog \<Rightarrow> 'a prog" where
  "call a0 a1 a2 a3 m = Do (Syscall a0 a1 a2 a3) (\<lambda>_. m)"

definition load :: "u32 \<Rightarrow> (u32 \<Rightarrow> 'a prog) \<Rightarrow> 'a prog" where
  "load a k = Do (Load a) (\<lambda>r. k (word_of r))"

definition store :: "u32 \<Rightarrow> u32 \<Rightarrow> 'a prog \<Rightarrow> 'a prog" where
  "store a w m = Do (Store a w) (\<lambda>_. m)"

definition load_state_at :: "u32 \<Rightarrow> (state_t \<Rightarrow> 'a prog) \<Rightarrow> 'a prog" where
  "load_state_at a k = Do (Load_state a) (\<lambda>r. with_state r k)"

text \<open>Assignments to fields of the state and of the support structure at an address.\<close>

definition change_state :: "u32 \<Rightarrow> (state_t \<Rightarrow> state_t) \<Rightarrow> 'a prog \<Rightarrow> 'a prog" where
  "change_state a f m = load_state_at a (\<lambda>st. Do (Store_state a (f st)) (\<lambda>_. m))"

definition load_support :: "u32 \<Rightarrow> (support_t \<Rightarrow> 'a prog) \<Rightarrow> 'a prog" where
  "load_support a k = Do (Load_support a) (\<lambda>r. with_support r k)"

definition change_support :: "u32 \<Rightarrow> (support_t \<Rightarrow> support_t) \<Rightarrow> 'a prog \<Rightarrow> 'a prog" where
  "change_support a f m = load_support a (\<lambda>u. Do (Store_support a (f u)) (\<lambda>_. m))"

definition local :: "nat \<Rightarrow> (u32 \<Rightarrow> 'a prog) \<Rightarrow> 'a prog" where
  "local n k = Do (Local n) (\<lambda>r. k (word_of r))"

definition stck :: "(u32 \<Rightarrow> 'a prog) \<Rightarrow> 'a prog" where
  "stck k = Do Stck (\<lambda>r. k (word_of r))"

lemmas statement_defs = syscall_def call_def load_def store_def load_state_at_def change_state_def
  load_support_def change_support_def local_def stck_def

section \<open>What a program does\<close>

text \<open>The program after the events of a trace, each with the answer it got.\<close>

inductive does :: "'a prog \<Rightarrow> (event \<times> answer) list \<Rightarrow> 'a prog \<Rightarrow> bool" where
  here [intro]: "does m [] m"
| turn: "does m tr m' \<Longrightarrow> does (Turn m) tr m'"
| event: "does (k r) tr m' \<Longrightarrow> does (Do e k) ((e, r) # tr) m'"

inductive_simps does_Return: "does (Return x) tr m"
inductive_simps does_Turn: "does (Turn m) tr m'"
inductive_simps does_Do: "does (Do e k) tr m'"
inductive_simps does_Stop: "does (Stop z) tr m"

text \<open>A program is over when no event can follow.\<close>

fun over :: "'a prog \<Rightarrow> bool" where
  "over (Return _) = True"
| "over (Stop _) = True"
| "over _ = False"

fun is_syscall :: "event \<Rightarrow> bool" where
  "is_syscall (Syscall _ _ _ _) = True"
| "is_syscall _ = False"

definition syscalls :: "(event \<times> answer) list \<Rightarrow> event list" where
  "syscalls tr = filter is_syscall (map fst tr)"

lemma syscalls_simps [simp]:
  "syscalls [] = []" "syscalls ((Syscall a b c d, r) # tr) = Syscall a b c d # syscalls tr"
  "\<not> is_syscall e \<Longrightarrow> syscalls ((e, r) # tr) = syscalls tr"
  by (simp_all add: syscalls_def)

end
