(* ===== verification/P2test.thy ===== *)
theory P2test
  imports Program
begin

text \<open>
  \<open>pandos/phase2/p2test_04.c\<close>: the processes that exercise the kernel, as programs.  The addresses
  the linker gives the global variables and the functions are the parameter \<open>G\<close>; the elements of
  an array are consecutive words.  A function that falls off its end is a program that returns.
\<close>

unbundle bit_operations_syntax

section \<open>Constants, variables and functions\<close>

definition PRINTCHR :: u32 where "PRINTCHR = 2"
definition RECVD :: u32 where "RECVD = 5"
definition CLOCKINTERVAL :: u32 where "CLOCKINTERVAL = 100000"
definition TERMSTATMASK :: u32 where "TERMSTATMASK = 0xFF"
definition CAUSEMASK :: u32 where "CAUSEMASK = 0xFF"
definition BUSERROR :: u32 where "BUSERROR = 6"
definition RESVINSTR :: u32 where "RESVINSTR = 10"
definition ADDRERROR :: u32 where "ADDRERROR = 4"
definition SYSCALLEXCPT :: u32 where "SYSCALLEXCPT = 8"
definition QPAGE :: u32 where "QPAGE = 1024"
definition IEPBITON :: u32 where "IEPBITON = 0x4"
definition KUPBITON :: u32 where "KUPBITON = 0x8"
definition KUPBITOFF :: u32 where "KUPBITOFF = 0xFFFFFFF7"
definition CAUSEINTMASK :: u32 where "CAUSEINTMASK = 0xFD00"
definition MINLOOPTIME :: u32 where "MINLOOPTIME = 30000"
definition LOOPNUM :: nat where "LOOPNUM = 10000"
definition CLOCKLOOP :: nat where "CLOCKLOOP = 10"
definition MINCLOCKLOOP :: u32 where "MINCLOCKLOOP = 3000"
definition BADADDR :: u32 where "BADADDR = 0xFFFFFFFF"
definition PRINT_TERM0 :: u32 where "PRINT_TERM0 = 0x10000254"
definition NOLEAVES :: nat where "NOLEAVES = 4"
definition MAXSEM :: nat where "MAXSEM = 20"
definition NS_MAXCHILDREN :: nat where "NS_MAXCHILDREN = 5"
definition USERSYSCALL :: u32 where "USERSYSCALL = 11"

datatype semaphore =
    sem_term_mut | s_array | sem_testsem | sem_startp2 | sem_endp2 | sem_endp3 | sem_blkp4
  | sem_synp4 | sem_endp4 | sem_endp5 | sem_endp8 | sem_endcreate | sem_blkp8 | sem_blkp9 | sem_p11
  | sem_l_ns1_a | sem_l_ns1_b | sem_l_ns2_a | sem_l_ns2_b
  | sem_r_ns1_a | sem_r_ns1_b | sem_r_ns2_a | sem_r_ns2_b

datatype state_variable =
    hp_p1state | hp_p2state | p2state | p3state | p4state | p5state | p6state | p7state
  | p8rootstate | child1state | child2state | gchild1state | gchild2state | gchild3state
  | gchild4state | p9state | p10state | p11state | ns1_a_state | ns1_b_state | ns2_a_state | ns2_b_state

datatype int_variable =
    p2pid | p3pid | p4pid | p8pid | p9pid | p11pid | ns1_a_pid | ns1_b_pid | ns2_a_pid | ns2_b_pid
  | p1p2synch | p8inc | p4inc | p5Stack | p5MemLocation

datatype function_name =
    fun_p2 | fun_p3 | fun_p4 | fun_p5 | fun_p5a | fun_p5b | fun_p5gen | fun_p5mm | fun_p6 | fun_p7
  | fun_p8root | fun_child1 | fun_child2 | fun_p8leaf1 | fun_p8leaf2 | fun_p8leaf3 | fun_p8leaf4
  | fun_p9 | fun_p10 | fun_p11 | fun_ns_p_parent_ns | fun_ns_p_new_ns | fun_hp_p1 | fun_hp_p2

text \<open>What the linker knows: where each of them is.\<close>

record linker =
  at_sem :: "semaphore \<Rightarrow> u32"
  at_state :: "state_variable \<Rightarrow> u32"
  at_int :: "int_variable \<Rightarrow> u32"
  at_fun :: "function_name \<Rightarrow> u32"
  at_pFiveSupport :: u32

text \<open>The values the variables start with: of the semaphores (and their arrays) and of the integers.\<close>

definition sem_initially :: "semaphore \<Rightarrow> u32" where
  "sem_initially x = (if x \<in> {sem_term_mut, sem_endp2, sem_blkp4} then 1 else 0)"

definition int_initially :: "int_variable \<Rightarrow> u32" where
  "int_initially x = (if x = p4inc then 1 else 0)"

text \<open>\<open>&a[i]\<close> for an array of words.\<close>

definition elem_addr :: "u32 \<Rightarrow> nat \<Rightarrow> u32" where
  "elem_addr a i = a + 4 * of_nat i"

definition P :: "u32 \<Rightarrow> 'a prog \<Rightarrow> 'a prog" where
  "P sem m = call PASSEREN sem 0 0 m"

definition V :: "u32 \<Rightarrow> 'a prog \<Rightarrow> 'a prog" where
  "V sem m = call VERHOGEN sem 0 0 m"

section \<open>print and the TLB refill handler\<close>

text \<open>\<open>char\<close> is signed.  The loop runs over the characters before the terminator.\<close>

definition char_word :: "char \<Rightarrow> u32" where
  "char_word c = scast (of_char c :: u8)"

fun print_chars :: "string \<Rightarrow> unit prog" where
  "print_chars [] = Return ()"
| "print_chars (c # cs) =
     local 2 (\<lambda>value.
     store (elem_addr value 0) 0 (
     store (elem_addr value 1) (PRINTCHR OR push_bit 8 (char_word c)) (
     syscall DOIO (PRINT_TERM0 + 2 * 4) value 0 (\<lambda>st.
     if st \<noteq> 0 then Stop Panicked
     else load (elem_addr value 0) (\<lambda>v0.
       if v0 AND TERMSTATMASK \<noteq> RECVD then Stop Panicked
       else Turn (print_chars cs))))))"

definition print :: "linker \<Rightarrow> string \<Rightarrow> unit prog" where
  "print G msg = P (at_sem G sem_term_mut) (then_do (print_chars msg) (V (at_sem G sem_term_mut) (Return ())))"

text \<open>A message that ends its line, and what follows it; and a message before a panic.\<close>

definition say :: "linker \<Rightarrow> string \<Rightarrow> 'a prog \<Rightarrow> 'a prog" where
  "say G msg m = then_do (print G (msg @ [CHR 0x0A])) m"

definition complain :: "linker \<Rightarrow> string \<Rightarrow> 'a prog" where
  "complain G msg = say G msg (Stop Panicked)"

definition uTLB_RefillHandler :: "unit prog" where
  "uTLB_RefillHandler =
     Do (Set_entryhi 0x80000000) (\<lambda>_.
     Do (Set_entrylo 0x00000000) (\<lambda>_.
     Do Tlbwr (\<lambda>_.
     load_state_at 0x0FFFF000 (\<lambda>st. Stop (Loaded st)))))"

section \<open>p1\<close>

definition set_sp :: "umps \<Rightarrow> u32 \<Rightarrow> state_t \<Rightarrow> state_t" where
  "set_sp A sp st = st\<lparr>gpr := (gpr st)(ix_sp A := sp)\<rparr>"

definition get_sp :: "umps \<Rightarrow> state_t \<Rightarrow> u32" where
  "get_sp A st = gpr st (ix_sp A)"

definition set_pc :: "umps \<Rightarrow> u32 \<Rightarrow> state_t \<Rightarrow> state_t" where
  "set_pc A pc st = st\<lparr>pc_epc := pc, gpr := (gpr st)(ix_t9 A := pc)\<rparr>"

text \<open>
  The four statements that make the state of a process: \<open>STST\<close>, the stack some pages below the
  one of the state set up before it, the entry point, the interrupts.
\<close>

definition set_up_state :: "umps \<Rightarrow> linker \<Rightarrow> state_variable \<Rightarrow> function_name \<Rightarrow> state_variable \<Rightarrow> u32 \<Rightarrow> 'a prog \<Rightarrow> 'a prog" where
  "set_up_state A G st entry prev pages m =
     Do (Stst (at_state G st)) (\<lambda>_.
     load_state_at (at_state G prev) (\<lambda>p.
     change_state (at_state G st) (set_sp A (get_sp A p - pages * QPAGE)) (
     change_state (at_state G st) (set_pc A (at_fun G entry)) (
     change_state (at_state G st) (\<lambda>x. x\<lparr>status := status x OR IEPBITON OR CAUSEINTMASK OR TEBITON\<rparr>) m))))"

text \<open>The states in the order of the code: which, its entry, the one before, the distance in pages.\<close>

definition states_to_p4 :: "(state_variable \<times> function_name \<times> state_variable \<times> u32) list" where
  "states_to_p4 =
     [(hp_p1state, fun_hp_p1, hp_p1state, 1), (hp_p2state, fun_hp_p2, hp_p1state, 1),
      (p2state, fun_p2, hp_p2state, 1), (p3state, fun_p3, p2state, 1), (p4state, fun_p4, p3state, 1)]"

definition states_from_p6 :: "(state_variable \<times> function_name \<times> state_variable \<times> u32) list" where
  "states_from_p6 =
     [(p6state, fun_p6, p5state, 2), (p7state, fun_p7, p6state, 1), (p8rootstate, fun_p8root, p7state, 1),
      (child1state, fun_child1, p8rootstate, 1), (child2state, fun_child2, child1state, 1),
      (gchild1state, fun_p8leaf1, child2state, 1), (gchild2state, fun_p8leaf2, gchild1state, 1),
      (gchild3state, fun_p8leaf3, gchild2state, 1), (gchild4state, fun_p8leaf4, gchild3state, 1),
      (p9state, fun_p9, gchild4state, 1), (p10state, fun_p10, p9state, 1), (p11state, fun_p11, p10state, 1),
      (ns1_a_state, fun_ns_p_parent_ns, p11state, 1), (ns1_b_state, fun_ns_p_parent_ns, ns1_a_state, 1),
      (ns2_a_state, fun_ns_p_new_ns, ns1_b_state, 1), (ns2_b_state, fun_ns_p_new_ns, ns2_a_state, 1)]"

definition set_up_states :: "umps \<Rightarrow> linker \<Rightarrow> (state_variable \<times> function_name \<times> state_variable \<times> u32) list \<Rightarrow> 'a prog \<Rightarrow> 'a prog" where
  "set_up_states A G l m = foldr (\<lambda>(st, entry, prev, pages). set_up_state A G st entry prev pages) l m"

text \<open>The state of p5, whose stack pointer is also stored in \<open>p5Stack\<close>.\<close>

definition set_up_p5 :: "umps \<Rightarrow> linker \<Rightarrow> 'a prog \<Rightarrow> 'a prog" where
  "set_up_p5 A G m =
     Do (Stst (at_state G p5state)) (\<lambda>_.
     load_state_at (at_state G p4state) (\<lambda>p.
     change_state (at_state G p5state) (set_sp A (get_sp A p - 2 * QPAGE)) (
     store (at_int G p5Stack) (get_sp A p - 2 * QPAGE) (
     change_state (at_state G p5state) (set_pc A (at_fun G fun_p5)) (
     change_state (at_state G p5state) (\<lambda>x. x\<lparr>status := status x OR IEPBITON OR CAUSEINTMASK OR TEBITON\<rparr>) m)))))"

definition test_states :: "umps \<Rightarrow> linker \<Rightarrow> 'a prog \<Rightarrow> 'a prog" where
  "test_states A G m =
     set_up_states A G states_to_p4 (set_up_p5 A G (set_up_states A G states_from_p6 m))"

text \<open>\<open>SYSCALL(CREATEPROCESS, state, support, NULL)\<close>, with its result kept or not.\<close>

definition create :: "linker \<Rightarrow> state_variable \<Rightarrow> u32 \<Rightarrow> (u32 \<Rightarrow> 'a prog) \<Rightarrow> 'a prog" where
  "create G st supp k = syscall CREATEPROCESS (at_state G st) supp 0 k"

definition set_ctx :: "nat \<Rightarrow> (context_t \<Rightarrow> context_t) \<Rightarrow> support_t \<Rightarrow> support_t" where
  "set_ctx n f u = u\<lparr>sup_exceptContext := (sup_exceptContext u)(n := f (sup_exceptContext u n))\<rparr>"

definition set_exc :: "nat \<Rightarrow> (state_t \<Rightarrow> state_t) \<Rightarrow> support_t \<Rightarrow> support_t" where
  "set_exc n f u = u\<lparr>sup_exceptState := (sup_exceptState u)(n := f (sup_exceptState u n))\<rparr>"

text \<open>The support structure of p5.\<close>

definition test_p5_support :: "linker \<Rightarrow> 'a prog \<Rightarrow> 'a prog" where
  "test_p5_support G m =
     load (at_int G p5Stack) (\<lambda>sp.
     change_support (at_pFiveSupport G) (set_ctx GENERALEXCEPT (\<lambda>c. c\<lparr>ctx_stackPtr := sp\<rparr>)) (
     change_support (at_pFiveSupport G) (set_ctx GENERALEXCEPT
       (\<lambda>c. c\<lparr>ctx_status := 0 OR IEPBITON OR CAUSEINTMASK OR TEBITON\<rparr>)) (
     change_support (at_pFiveSupport G) (set_ctx GENERALEXCEPT (\<lambda>c. c\<lparr>ctx_pc := at_fun G fun_p5gen\<rparr>)) (
     load (at_int G p5Stack) (\<lambda>sp.
     change_support (at_pFiveSupport G) (set_ctx PGFAULTEXCEPT (\<lambda>c. c\<lparr>ctx_stackPtr := sp\<rparr>)) (
     change_support (at_pFiveSupport G) (set_ctx PGFAULTEXCEPT
       (\<lambda>c. c\<lparr>ctx_status := 0 OR IEPBITON OR CAUSEINTMASK OR TEBITON\<rparr>)) (
     change_support (at_pFiveSupport G) (set_ctx PGFAULTEXCEPT (\<lambda>c. c\<lparr>ctx_pc := at_fun G fun_p5mm\<rparr>)) m)))))))"

text \<open>The rounds with p8: the semaphores reset, the tree created, its end awaited.\<close>

definition test_p8_round :: "linker \<Rightarrow> unit prog" where
  "test_p8_round G =
     store (at_sem G sem_blkp8) 0 (
     store (at_sem G sem_endp8) 0 (
     then_do (for_each [0..<NOLEAVES] (\<lambda>i _. store (elem_addr (at_sem G sem_endcreate) i) 0 (Return ())) ()) (
     create G p8rootstate 0 (\<lambda>pid.
     store (at_int G p8pid) pid (
     P (at_sem G sem_endp8) (Return ()))))))"

definition test_p8_rounds :: "linker \<Rightarrow> unit prog" where
  "test_p8_rounds G =
     store (at_int G p8inc) 0 (iterate (\<lambda>_.
       load (at_int G p8inc) (\<lambda>n. if sint n < 4
         then then_do (test_p8_round G) (load (at_int G p8inc) (\<lambda>n. store (at_int G p8inc) (n + 1) (Return (Inl ()))))
         else Return (Inr ()))) ())"

text \<open>From the first process to the end of p3, then to the end of p5, then the rest.\<close>

definition test_end :: "linker \<Rightarrow> unit prog" where
  "test_end G =
     then_do (test_p8_rounds G) (
     create G p11state 0 (\<lambda>_.
     P (at_sem G sem_p11) (
     say G ''p1 finishes OK -- TTFN'' (
     store BADADDR 0 (
     complain G ''error: p1 still alive after progtrap & no trap vector'')))))"

definition test_p4_to_p9 :: "linker \<Rightarrow> unit prog" where
  "test_p4_to_p9 G =
     create G hp_p1state 0 (\<lambda>_.
     create G hp_p2state 0 (\<lambda>_.
     create G p4state 0 (\<lambda>pid.
     store (at_int G p4pid) pid (
     test_p5_support G (
     create G p5state (at_pFiveSupport G) (\<lambda>_.
     create G p6state 0 (\<lambda>_.
     create G p7state 0 (\<lambda>_.
     create G p9state 0 (\<lambda>pid.
     store (at_int G p9pid) pid (
     P (at_sem G sem_endp5) (
     say G ''p1 knows p5 ended'' (
     P (at_sem G sem_blkp4) (
     test_end G)))))))))))))"

definition test_p2_p3 :: "linker \<Rightarrow> unit prog" where
  "test_p2_p3 G =
     create G p2state 0 (\<lambda>pid.
     store (at_int G p2pid) pid (
     say G ''p2 was started'' (
     V (at_sem G sem_startp2) (
     V (at_sem G sem_endp2) (
     load (at_int G p1p2synch) (\<lambda>x.
     then_do (if x = 0 then print G (''error: p1/p2 synchronization bad'' @ [CHR 0x0A]) else Return ()) (
     create G p3state 0 (\<lambda>pid.
     store (at_int G p3pid) pid (
     say G ''p3 is started'' (
     P (at_sem G sem_endp3) (
     test_p4_to_p9 G)))))))))))"

definition test :: "umps \<Rightarrow> linker \<Rightarrow> unit prog" where
  "test A G =
     V (at_sem G sem_testsem) (
     say G ''p1 v(sem_testsem)'' (
     test_states A G (
     test_p2_p3 G)))"

section \<open>p2, p3 and p4\<close>

text \<open>\<open>for (i = 0; i <= MAXSEM; i++)\<close>: V, then P, each of the semaphores.\<close>

definition p2_clear :: "linker \<Rightarrow> unit prog" where
  "p2_clear G = for_each [0..<MAXSEM + 1] (\<lambda>i _. store (elem_addr (at_sem G s_array) i) 0 (Return ())) ()"

definition p2_pair :: "linker \<Rightarrow> nat \<Rightarrow> unit prog" where
  "p2_pair G i =
     (let a = elem_addr (at_sem G s_array) i in
      V a (P a (load a (\<lambda>x.
        if x \<noteq> 0 then print G (''error: p2 bad v/p pairs'' @ [CHR 0x0A]) else Return ()))))"

definition p2_pairs :: "linker \<Rightarrow> unit prog" where
  "p2_pairs G = for_each [0..<MAXSEM + 1] (\<lambda>i _. p2_pair G i) ()"

text \<open>\<open>cpu_t\<close> is a signed int; a division by zero is undefined.\<close>

definition min_ticks :: "u32 \<Rightarrow> (u32 \<Rightarrow> 'a prog) \<Rightarrow> 'a prog" where
  "min_ticks n k = load TIMESCALEADDR (\<lambda>t. if t = 0 then Stop Fault else k (sdiv32 n t))"

definition p2_times :: "linker \<Rightarrow> u32 \<Rightarrow> u32 \<Rightarrow> u32 \<Rightarrow> u32 \<Rightarrow> unit prog" where
  "p2_times G now1 now2 cpu_t1 cpu_t2 =
    (let blew =
       then_do (if sint (now2 - now1) < sint (cpu_t2 - cpu_t1)
                then print G (''error: more cpu time than real time'' @ [CHR 0x0A]) else Return ()) (
       min_ticks MINLOOPTIME (\<lambda>m.
       then_do (if sint (cpu_t2 - cpu_t1) < sint m
                then print G (''error: not enough cpu time went by'' @ [CHR 0x0A]) else Return ()) (
       print G (''p2 blew it!'' @ [CHR 0x0A]))))
     in if sint (now2 - now1) \<ge> sint (cpu_t2 - cpu_t1)
        then min_ticks MINLOOPTIME (\<lambda>m.
          if sint (cpu_t2 - cpu_t1) \<ge> sint m then print G (''p2 is OK'' @ [CHR 0x0A]) else blew)
        else blew)"

definition p2 :: "linker \<Rightarrow> unit prog" where
  "p2 G =
     P (at_sem G sem_startp2) (
     say G ''p2 starts'' (
     syscall GETPROCESSID 0 0 0 (\<lambda>pid.
     load (at_int G p2pid) (\<lambda>expected.
     if pid \<noteq> expected then complain G ''Inconsistent process id for p2!''
     else
     then_do (p2_clear G) (
     then_do (p2_pairs G) (
     say G ''p2 v's successfully'' (
     stck (\<lambda>now1.
     syscall GETTIME 0 0 0 (\<lambda>cpu_t1.
     delay (LOOPNUM - 1) (
     syscall GETTIME 0 0 0 (\<lambda>cpu_t2.
     stck (\<lambda>now2.
     then_do (p2_times G now1 now2 cpu_t1 cpu_t2) (
     store (at_int G p1p2synch) 1 (
     P (at_sem G sem_endp2) (
     call TERMPROCESS 0 0 0 (
     complain G ''error: p2 didn't terminate''))))))))))))))))"

text \<open>
  The loop of p3 and p5b: wait for the clock until half an interval lies between two readings.
  The difference is compared as unsigned, like \<open>CLOCKINTERVAL\<close>.
\<close>

definition clock_loop :: "unit prog" where
  "clock_loop = iterate (\<lambda>(time1, time2).
     if time2 - time1 < drop_bit 1 CLOCKINTERVAL then
       stck (\<lambda>time1. call CLOCKWAIT 0 0 0 (stck (\<lambda>time2. Return (Inl (time1, time2)))))
     else Return (Inr ())) (0, 0)"

definition p3 :: "linker \<Rightarrow> unit prog" where
  "p3 G =
     then_do clock_loop (
     say G ''p3 - CLOCKWAIT OK'' (
     syscall GETTIME 0 0 0 (\<lambda>cpu_t1.
     then_do (for_each [0..<CLOCKLOOP] (\<lambda>_ _. call CLOCKWAIT 0 0 0 (Return ())) ()) (
     syscall GETTIME 0 0 0 (\<lambda>cpu_t2.
     min_ticks MINCLOCKLOOP (\<lambda>m.
     then_do (if sint (cpu_t2 - cpu_t1) < sint m
              then print G (''error: p3 - CPU time incorrectly maintained'' @ [CHR 0x0A])
              else print G (''p3 - CPU time correctly maintained'' @ [CHR 0x0A])) (
     syscall GETPROCESSID 0 0 0 (\<lambda>pid.
     load (at_int G p3pid) (\<lambda>expected.
     if pid \<noteq> expected then complain G ''Inconsistent process id for p3!''
     else
     V (at_sem G sem_endp3) (
     call TERMPROCESS 0 0 0 (
     complain G ''error: p3 didn't terminate'')))))))))))"

definition p4_announce :: "linker \<Rightarrow> unit prog" where
  "p4_announce G = load (at_int G p4inc) (\<lambda>n.
     if n = 1 then
       say G ''first incarnation of p4 starts'' (
       load (at_int G p4inc) (\<lambda>n. store (at_int G p4inc) (n + 1) (Return ())))
     else if n = 2 then say G ''second incarnation of p4 starts'' (Return ())
     else Return ())"

definition p4 :: "umps \<Rightarrow> linker \<Rightarrow> unit prog" where
  "p4 A G =
     then_do (p4_announce G) (
     syscall GETPROCESSID 0 0 0 (\<lambda>pid.
     load (at_int G p4pid) (\<lambda>expected.
     if pid \<noteq> expected then complain G ''Inconsistent process id for p4!''
     else
     V (at_sem G sem_synp4) (
     P (at_sem G sem_blkp4) (
     P (at_sem G sem_synp4) (
     change_state (at_state G p4state) (\<lambda>st. set_sp A (get_sp A st - QPAGE) st) (
     create G p4state 0 (\<lambda>pid.
     store (at_int G p4pid) pid (
     P (at_sem G sem_synp4) (
     V (at_sem G sem_endp4) (
     say G ''p4 incarnation terminating'' (
     call TERMPROCESS 0 0 0 (
     complain G ''error: p4 didn't terminate'')))))))))))))"

section \<open>p5\<close>

text \<open>\<open>LDST\<close> of a state saved in the support structure.\<close>

definition p5_resume :: "linker \<Rightarrow> nat \<Rightarrow> 'a prog" where
  "p5_resume G n = load_support (at_pFiveSupport G) (\<lambda>u. Stop (Loaded (sup_exceptState u n)))"

definition change_exc :: "linker \<Rightarrow> nat \<Rightarrow> (state_t \<Rightarrow> state_t) \<Rightarrow> 'a prog \<Rightarrow> 'a prog" where
  "change_exc G n f m = change_support (at_pFiveSupport G) (set_exc n f) m"

text \<open>Going on at a function: the program counter and \<open>t9\<close> are stored one after the other.\<close>

definition continue_at :: "umps \<Rightarrow> linker \<Rightarrow> nat \<Rightarrow> function_name \<Rightarrow> 'a prog \<Rightarrow> 'a prog" where
  "continue_at A G n entry m =
     change_exc G n (\<lambda>st. st\<lparr>pc_epc := at_fun G entry\<rparr>) (
     change_exc G n (\<lambda>st. st\<lparr>gpr := (gpr st)(ix_t9 A := at_fun G entry)\<rparr>) m)"

definition p5sys :: "linker \<Rightarrow> unit prog" where
  "p5sys G = load_support (at_pFiveSupport G) (\<lambda>u.
     let p5status = drop_bit 31 (push_bit 28 (status (sup_exceptState u GENERALEXCEPT))) in
     then_do (if p5status = 1 then print G (''High level SYS call from user mode process'' @ [CHR 0x0A])
              else if p5status = 0 then print G (''High level SYS call from kernel mode process'' @ [CHR 0x0A])
              else Return ()) (
     change_exc G GENERALEXCEPT (\<lambda>st. st\<lparr>pc_epc := pc_epc st + 4\<rparr>) (
     p5_resume G GENERALEXCEPT)))"

definition p5gen :: "umps \<Rightarrow> linker \<Rightarrow> unit prog" where
  "p5gen A G = load_support (at_pFiveSupport G) (\<lambda>u.
     let exeCode = drop_bit 2 (cause (sup_exceptState u GENERALEXCEPT) AND CAUSEMASK);
         to_p5b_in_kernel_mode = continue_at A G GENERALEXCEPT fun_p5b
           (change_exc G GENERALEXCEPT (\<lambda>st. st\<lparr>status := status st AND KUPBITOFF\<rparr>) (Return ()))
     in then_do
       (if exeCode = BUSERROR then
          say G ''Bus Error (as expected): Access non-existent memory''
            (continue_at A G GENERALEXCEPT fun_p5a (Return ()))
        else if exeCode = RESVINSTR then say G ''privileged instruction'' to_p5b_in_kernel_mode
        else if exeCode = ADDRERROR then
          say G ''Address Error (as expected): non-kuseg access w/KU=1'' to_p5b_in_kernel_mode
        else if exeCode = SYSCALLEXCPT then p5sys G
        else print G (''other program trap'' @ [CHR 0x0A]))
       (p5_resume G GENERALEXCEPT))"

definition p5mm :: "umps \<Rightarrow> linker \<Rightarrow> unit prog" where
  "p5mm A G =
     say G ''memory management trap'' (
     syscall GETSUPPORTPTR 0 0 0 (\<lambda>pFiveSupAddr.
     then_do (if pFiveSupAddr \<noteq> at_pFiveSupport G
              then print G (''Support Structure Address Error'' @ [CHR 0x0A])
              else print G (''Correct Support Structure Address'' @ [CHR 0x0A])) (
     change_exc G PGFAULTEXCEPT (\<lambda>st. st\<lparr>status := status st OR KUPBITON\<rparr>) (
     continue_at A G PGFAULTEXCEPT fun_p5b (
     p5_resume G PGFAULTEXCEPT)))))"

definition p5 :: "linker \<Rightarrow> unit prog" where
  "p5 G =
     say G ''p5 starts'' (
     load (at_int G p5MemLocation) (\<lambda>a. load a (\<lambda>x.
     load (at_int G p5MemLocation) (\<lambda>a. store a (x + 1) (Return ())))))"

definition p5a :: "linker \<Rightarrow> unit prog" where
  "p5a G =
     store (at_int G p5MemLocation) 0x80000000 (
     load (at_int G p5MemLocation) (\<lambda>a. store a 42 (Return ())))"

definition p5b :: "linker \<Rightarrow> unit prog" where
  "p5b G =
     call USERSYSCALL 0 0 0 (
     P (at_sem G sem_endp4) (
     then_do clock_loop (
     V (at_sem G sem_blkp4) (
     V (at_sem G sem_endp5) (
     call TERMPROCESS 0 0 0 (
     complain G ''error: p5 didn't terminate''))))))"

section \<open>p6 to p10\<close>

definition p6 :: "linker \<Rightarrow> unit prog" where
  "p6 G =
     say G ''p6 starts'' (
     call USERSYSCALL 0 0 0 (
     complain G ''error: p6 alive after SYS9() with no trap vector''))"

definition p7 :: "linker \<Rightarrow> unit prog" where
  "p7 G =
     say G ''p7 starts'' (
     store BADADDR 0 (
     complain G ''error: p7 alive after program trap with no trap vector''))"

definition p8root :: "linker \<Rightarrow> unit prog" where
  "p8root G =
     say G ''p8root starts'' (
     create G child1state 0 (\<lambda>_.
     create G child2state 0 (\<lambda>_.
     then_do (for_each [0..<NOLEAVES] (\<lambda>i _. P (elem_addr (at_sem G sem_endcreate) i) (Return ())) ()) (
     V (at_sem G sem_endp8) (
     call TERMPROCESS 0 0 0 (Return ()))))))"

definition child1 :: "linker \<Rightarrow> unit prog" where
  "child1 G =
     say G ''child1 starts'' (
     syscall GETPROCESSID 1 0 0 (\<lambda>ppid.
     load (at_int G p8pid) (\<lambda>expected.
     if ppid \<noteq> expected then complain G ''Inconsistent (parent) process id for p8's first child''
     else
     create G gchild1state 0 (\<lambda>_.
     create G gchild2state 0 (\<lambda>_.
     P (at_sem G sem_blkp8) (Return ()))))))"

definition child2 :: "linker \<Rightarrow> unit prog" where
  "child2 G =
     say G ''child2 starts'' (
     syscall GETPROCESSID 1 0 0 (\<lambda>ppid.
     load (at_int G p8pid) (\<lambda>expected.
     if ppid \<noteq> expected then complain G ''Inconsistent (parent) process id for p8's second child''
     else
     create G gchild3state 0 (\<lambda>_.
     create G gchild4state 0 (\<lambda>_.
     P (at_sem G sem_blkp8) (Return ()))))))"

definition p8leaf1 :: "linker \<Rightarrow> unit prog" where
  "p8leaf1 G =
     say G ''leaf process (1) starts'' (
     V (elem_addr (at_sem G sem_endcreate) 0) (P (at_sem G sem_blkp8) (Return ())))"

definition p8leaf2 :: "linker \<Rightarrow> unit prog" where
  "p8leaf2 G =
     say G ''leaf process (2) starts'' (
     V (elem_addr (at_sem G sem_endcreate) 1) (P (at_sem G sem_blkp8) (Return ())))"

definition p8leaf3 :: "linker \<Rightarrow> unit prog" where
  "p8leaf3 G =
     say G ''leaf process (3) starts'' (
     V (elem_addr (at_sem G sem_endcreate) 2) (P (at_sem G sem_blkp8) (Return ())))"

definition p8leaf4 :: "linker \<Rightarrow> unit prog" where
  "p8leaf4 G =
     say G ''leaf process (4) starts'' (
     V (elem_addr (at_sem G sem_endcreate) 3) (P (at_sem G sem_blkp8) (Return ())))"

definition p9 :: "linker \<Rightarrow> unit prog" where
  "p9 G =
     say G ''p9 starts'' (
     create G p10state 0 (\<lambda>_.
     P (at_sem G sem_blkp9) (Return ())))"

definition p10 :: "linker \<Rightarrow> unit prog" where
  "p10 G =
     say G ''p10 starts'' (
     syscall GETPROCESSID 1 0 0 (\<lambda>ppid.
     load (at_int G p9pid) (\<lambda>expected.
     if ppid \<noteq> expected then complain G ''Inconsistent process id for p9!''
     else
     call TERMPROCESS ppid 0 0 (
     complain G ''Error: p10 didn't die with its parent!''))))"

definition hp_p1 :: "linker \<Rightarrow> unit prog" where
  "hp_p1 G =
     say G ''hp_p1 starts'' (
     call TERMPROCESS 0 0 0 (
     complain G ''Error: hp_p1 didn't die!''))"

definition hp_p2 :: "linker \<Rightarrow> unit prog" where
  "hp_p2 G =
     say G ''hp_p2 starts'' (
     then_do (for_each [0..<10] (\<lambda>_ _. call CLOCKWAIT 0 0 0 (Return ())) ()) (
     call TERMPROCESS 0 0 0 (
     complain G ''Error: hp_p2 didn't die!'')))"

section \<open>p11 and the namespaces\<close>

text \<open>The two semaphores of the process, by its pid; the second pid is read when the first differs.\<close>

definition ns_p_parent_ns :: "linker \<Rightarrow> unit prog" where
  "ns_p_parent_ns G =
     syscall GETPROCESSID 1 0 0 (\<lambda>ppid.
     say G ''ns pid in parent namespace'' (
     syscall GETPROCESSID 0 0 0 (\<lambda>pid.
     if ppid = 0 then complain G ''Inconsistent (parent) namespace management''
     else
     let go_on = (\<lambda>sem_ns sem_child_ns.
       say G ''Locking parent ns'' (
       P sem_child_ns (
       say G ''Unlocked parent ns'' (
       V sem_ns (
       call TERMPROCESS 0 0 0 (
       complain G ''Error: n_p_parent_ns didn't die!''))))))
     in load (at_int G ns1_a_pid) (\<lambda>a.
       if pid = a then go_on (at_sem G sem_r_ns1_a) (at_sem G sem_l_ns1_a)
       else load (at_int G ns1_b_pid) (\<lambda>b.
         if pid = b then go_on (at_sem G sem_r_ns1_b) (at_sem G sem_l_ns1_b)
         else complain G ''ns1 wrong semaphore selected'')))))"

definition ns_p_new_ns :: "linker \<Rightarrow> unit prog" where
  "ns_p_new_ns G =
     syscall GETPROCESSID 1 0 0 (\<lambda>ppid.
     say G ''ns pid not in parent namespace'' (
     syscall GETPROCESSID 0 0 0 (\<lambda>pid.
     if ppid \<noteq> 0 then complain G ''Inconsistent (parent) namespace management''
     else
     let go_on = (\<lambda>sem_ns sem_child_ns.
       say G ''Locking child ns'' (
       P sem_child_ns (
       say G ''Unlocked child ns'' (
       V sem_ns (
       call TERMPROCESS 0 0 0 (
       complain G ''Error: n_p_new_ns didn't die!''))))))
     in load (at_int G ns2_a_pid) (\<lambda>a.
       if pid = a then go_on (at_sem G sem_r_ns2_a) (at_sem G sem_l_ns2_a)
       else load (at_int G ns2_b_pid) (\<lambda>b.
         if pid = b then go_on (at_sem G sem_r_ns2_b) (at_sem G sem_l_ns2_b)
         else complain G ''ns2 wrong semaphore selected'')))))"

text \<open>Which of the two children the answer of \<open>GETCHILDREN\<close> names.\<close>

definition p11_find :: "linker \<Rightarrow> u32 \<Rightarrow> nat \<Rightarrow> (nat \<Rightarrow> u32) \<Rightarrow> (nat \<Rightarrow> u32) prog" where
  "p11_find G children_pids i found =
     load (elem_addr children_pids i) (\<lambda>pid.
     load (at_int G ns1_a_pid) (\<lambda>a.
     if pid = a then Return (found(0 := 1))
     else load (elem_addr children_pids i) (\<lambda>pid.
       load (at_int G ns1_b_pid) (\<lambda>b.
       if pid = b then Return (found(1 := 1))
       else complain G ''Inconsistent GETCHILDREN namespace management (pid return 1)''))))"

definition p11_check :: "linker \<Rightarrow> nat \<Rightarrow> (nat \<Rightarrow> u32) \<Rightarrow> (nat \<Rightarrow> u32) prog" where
  "p11_check G i found =
     (if found i \<noteq> 1 then complain G ''Inconsistent GETCHILDREN namespace management (pid return 2)''
      else Return found)"

definition p11_end :: "linker \<Rightarrow> unit prog" where
  "p11_end G =
     say G ''p11, waiting for children'' (
     V (at_sem G sem_l_ns1_a) (
     V (at_sem G sem_l_ns1_b) (
     V (at_sem G sem_l_ns2_a) (
     V (at_sem G sem_l_ns2_b) (
     P (at_sem G sem_r_ns1_a) (
     P (at_sem G sem_r_ns1_b) (
     P (at_sem G sem_r_ns2_a) (
     P (at_sem G sem_r_ns2_b) (
     V (at_sem G sem_p11) (
     call TERMPROCESS 0 0 0 (
     complain G ''Error: p11 didn't die!'')))))))))))"

text \<open>The two counts asked for are 2 from here on, the size of \<open>found\<close>.\<close>

definition p11_children :: "linker \<Rightarrow> u32 \<Rightarrow> unit prog" where
  "p11_children G children_pids =
     syscall GETCHILDREN 0 0 0 (\<lambda>n.
     if n \<noteq> 2 then complain G ''Inconsistent GETCHILDREN namespace management 1''
     else
     syscall GETCHILDREN children_pids (of_nat NS_MAXCHILDREN) 0 (\<lambda>n.
     if n \<noteq> 2 then complain G ''Inconsistent GETCHILDREN namespace management 2''
     else
     and_then (for_each [0..<unat n] (p11_find G children_pids) (\<lambda>_. 0)) (\<lambda>found.
     and_then (for_each [0..<unat n] (p11_check G) found) (\<lambda>_.
     p11_end G))))"

definition p11 :: "linker \<Rightarrow> unit prog" where
  "p11 G =
     local NS_MAXCHILDREN (\<lambda>children_pids.
     say G ''p11 starts'' (
     Do (Alloc_namespace NS_PID) (\<lambda>r.
     let ns2 = word_of r in
     if ns2 = 0 then complain G ''failed namespace management''
     else
     create G ns1_a_state 0 (\<lambda>pid. store (at_int G ns1_a_pid) pid (
     create G ns1_b_state 0 (\<lambda>pid. store (at_int G ns1_b_pid) pid (
     syscall CREATEPROCESS (at_state G ns2_a_state) 0 ns2 (\<lambda>pid. store (at_int G ns2_a_pid) pid (
     syscall CREATEPROCESS (at_state G ns2_b_state) 0 ns2 (\<lambda>pid. store (at_int G ns2_b_pid) pid (
     p11_children G children_pids)))))))))))"

end
