(* ===== verification/Print_Prog.thy ===== *)
theory Print_Prog
  imports P2test
begin

text \<open>
  What \<open>print\<close> of the test program does, for every answer of its surroundings: the P and V around
  the transmission of the characters, each command in the order of the string, and the panic.
\<close>

unbundle bit_operations_syntax

text \<open>The calls of a trace by their code and first argument.\<close>

fun call_of :: "event \<Rightarrow> u32 \<times> u32" where
  "call_of (Syscall a0 a1 _ _) = (a0, a1)"
| "call_of _ = (0, 0)"

definition calls :: "(event \<times> answer) list \<Rightarrow> (u32 \<times> u32) list" where
  "calls tr = map call_of (syscalls tr)"

lemma calls_simps [simp]:
  "calls [] = []" "calls ((Syscall a b c d, r) # tr) = (a, b) # calls tr"
  "\<not> is_syscall e \<Longrightarrow> calls ((e, r) # tr) = calls tr"
  by (simp_all add: calls_def)

text \<open>The words behind the status word of the buffers at the time of each \<open>DOIO\<close>.\<close>

fun sent :: "(u32 \<Rightarrow> u32) \<Rightarrow> (event \<times> answer) list \<Rightarrow> u32 list" where
  "sent m [] = []"
| "sent m ((Store a w, r) # tr) = sent (m(a := w)) tr"
| "sent m ((Syscall a0 a1 a2 a3, r) # tr) =
     (if a0 = DOIO then m (elem_addr a2 1) # sent m tr else sent m tr)"
| "sent m ((_, r) # tr) = sent m tr"

definition print_cmd :: "char \<Rightarrow> u32" where
  "print_cmd c = PRINTCHR OR push_bit 8 (char_word c)"

abbreviation term0_command :: u32 where
  "term0_command \<equiv> PRINT_TERM0 + 2 * 4"

text \<open>The characters alone, with what follows them.\<close>

definition chars_then ::
  "string \<Rightarrow> (u32 \<Rightarrow> u32) \<Rightarrow> (event \<times> answer) list \<Rightarrow> 'a prog \<Rightarrow> 'a prog \<Rightarrow> bool" where
  "chars_then cs wm tr rest m \<longleftrightarrow>
     (\<exists>tr1 tr2 wm'. tr = tr1 @ tr2 \<and> length tr1 = 5 * length cs \<and> does rest tr2 m
        \<and> calls tr = replicate (length cs) (DOIO, term0_command) @ calls tr2
        \<and> sent wm tr = map print_cmd cs @ sent wm' tr2)
   \<or> (\<exists>n < length cs. m = Stop Panicked \<and> length tr \<le> 5 * length cs
        \<and> calls tr = replicate (Suc n) (DOIO, term0_command) \<and> sent wm tr = map print_cmd (take (Suc n) cs))
   \<or> \<not> over m \<and> length tr \<le> 5 * length cs"

lemma elem_addr_0_1: "elem_addr a 0 \<noteq> elem_addr a 1"
  by (simp add: elem_addr_def)

text \<open>The trace of one character, answered.\<close>

definition char_trace :: "char \<Rightarrow> u32 \<Rightarrow> answer \<Rightarrow> answer \<Rightarrow> answer \<Rightarrow> answer \<Rightarrow> answer \<Rightarrow> (event \<times> answer) list" where
  "char_trace c a r0 r1 r2 r3 r4 =
     [(Local 2, r0), (Store (elem_addr a 0) 0, r1), (Store (elem_addr a 1) (print_cmd c), r2),
      (Syscall DOIO term0_command a 0, r3), (Load (elem_addr a 0), r4)]"

lemma char_trace_simps [simp]:
  "length (char_trace c a r0 r1 r2 r3 r4) = 5"
  "calls (char_trace c a r0 r1 r2 r3 r4 @ tr) = (DOIO, term0_command) # calls tr"
  "sent wm (char_trace c a r0 r1 r2 r3 r4 @ tr) =
     print_cmd c # sent (wm(elem_addr a 0 := 0, elem_addr a 1 := print_cmd c)) tr"
  by (simp_all add: char_trace_def)

lemma print_char_cases:
  assumes "does (then_do (print_chars (c # cs)) rest) tr m"
  obtains (unfinished) "\<not> over m" "length tr \<le> 5"
  | (refused) r0 r1 r2 r3 where "m = Stop Panicked"
      "tr = take 4 (char_trace c (word_of r0) r0 r1 r2 r3 r3)"
  | (failed) r0 r1 r2 r3 r4 where "m = Stop Panicked" "tr = char_trace c (word_of r0) r0 r1 r2 r3 r4"
  | (sent) r0 r1 r2 r3 r4 tr' where "tr = char_trace c (word_of r0) r0 r1 r2 r3 r4 @ tr'"
      "does (then_do (print_chars cs) rest) tr' m"
  using assms
  by (auto simp: statement_defs does_Do does_Turn does_Stop char_trace_def print_cmd_def numeral_eq_Suc split: if_splits)

lemma print_chars_does:
  "does (then_do (print_chars cs) rest) tr m \<Longrightarrow> chars_then cs wm tr rest m"
proof (induction cs arbitrary: tr wm)
  case Nil
  then show ?case unfolding chars_then_def by (intro disjI1 exI [of _ "[]"] exI [of _ tr] exI [of _ wm]) simp
next
  case (Cons c cs)
  from Cons.prems show ?case
  proof (cases rule: print_char_cases)
    case unfinished
    then show ?thesis by (simp add: chars_then_def)
  next
    case (refused r0 r1 r2 r3)
    then show ?thesis unfolding chars_then_def
      by (intro disjI2 disjI1 exI [of _ 0]) (simp add: char_trace_def numeral_eq_Suc)
  next
    case (failed r0 r1 r2 r3 r4)
    then show ?thesis unfolding chars_then_def
      by (intro disjI2 disjI1 exI [of _ 0])
        (use char_trace_simps(2) [of c "word_of r0" r0 r1 r2 r3 r4 "[]"]
          char_trace_simps(3) [of wm c "word_of r0" r0 r1 r2 r3 r4 "[]"] in simp)
  next
    case (sent r0 r1 r2 r3 r4 tr')
    let ?a = "word_of r0" and ?wm = "wm(elem_addr (word_of r0) 0 := 0, elem_addr (word_of r0) 1 := print_cmd c)"
    from Cons.IH [OF sent(2), of ?wm] consider
      tr1 tr2 wm' where "tr' = tr1 @ tr2" "length tr1 = 5 * length cs" "does rest tr2 m"
        "calls tr' = replicate (length cs) (DOIO, term0_command) @ calls tr2"
        "sent ?wm tr' = map print_cmd cs @ sent wm' tr2"
    | n where "n < length cs" "m = Stop Panicked" "length tr' \<le> 5 * length cs"
        "calls tr' = replicate (Suc n) (DOIO, term0_command)" "sent ?wm tr' = map print_cmd (take (Suc n) cs)"
    | "\<not> over m" "length tr' \<le> 5 * length cs"
      unfolding chars_then_def by blast
    then show ?thesis
    proof cases
      case 1
      then show ?thesis unfolding chars_then_def sent(1)
        by (intro disjI1 exI [of _ "char_trace c ?a r0 r1 r2 r3 r4 @ tr1"] exI [of _ tr2] exI [of _ wm']) simp
    next
      case 2
      then show ?thesis unfolding chars_then_def sent(1)
        by (intro disjI2 disjI1 exI [of _ "Suc n"]) simp
    next
      case 3
      then show ?thesis by (simp add: chars_then_def sent(1))
    qed
  qed
qed

text \<open>The whole of \<open>print\<close>.\<close>

lemma print_does:
  assumes "does (print G msg) tr m"
  shows "length tr \<le> 5 * length msg + 2"
    and "m = Return x \<Longrightarrow> calls tr = (PASSEREN, at_sem G sem_term_mut)
        # replicate (length msg) (DOIO, term0_command) @ [(VERHOGEN, at_sem G sem_term_mut)]
      \<and> sent wm tr = map print_cmd msg"
    and "m = Stop z \<Longrightarrow> z = Panicked \<and> (\<exists>n < length msg. calls tr = (PASSEREN, at_sem G sem_term_mut)
        # replicate (Suc n) (DOIO, term0_command) \<and> sent wm tr = map print_cmd (take (Suc n) msg))"
proof -
  let ?k = "at_sem G sem_term_mut"
  have codes: "PASSEREN \<noteq> DOIO" "VERHOGEN \<noteq> DOIO" by (simp_all add: syscall_codes)
  have v: "length tr2 \<le> 1 \<and> (over m \<longrightarrow> m = Return () \<and> (\<exists>r. tr2 = [(Syscall VERHOGEN ?k 0 0, r)]))"
    if "does (V ?k (Return ())) tr2 m" for tr2 m
    using that by (auto simp: V_def call_def does_Do does_Return)
  consider "tr = []" "\<not> over m"
    | r tr' where "tr = (Syscall PASSEREN ?k 0 0, r) # tr'"
      "does (then_do (print_chars msg) (V ?k (Return ()))) tr' m"
    using assms by (auto simp: print_def P_def call_def does_Do)
  note pc = this
  show "length tr \<le> 5 * length msg + 2"
  proof (cases rule: pc)
    case (2 r tr')
    from print_chars_does [OF 2(2)] v show ?thesis by (fastforce simp: chars_then_def 2(1))
  qed simp
  show "calls tr = (PASSEREN, ?k) # replicate (length msg) (DOIO, term0_command) @ [(VERHOGEN, ?k)]
      \<and> sent wm tr = map print_cmd msg" if e: "m = Return x"
  proof (cases rule: pc)
    case (2 r tr')
    from print_chars_does [OF 2(2), of wm] obtain tr1 tr2 wm' where
      t: "tr' = tr1 @ tr2" "does (V ?k (Return ())) tr2 m"
        "calls tr' = replicate (length msg) (DOIO, term0_command) @ calls tr2"
        "sent wm tr' = map print_cmd msg @ sent wm' tr2"
      using e by (auto simp: chars_then_def)
    from v [OF t(2)] e obtain r' where "tr2 = [(Syscall VERHOGEN ?k 0 0, r')]" by auto
    with t codes show ?thesis by (simp add: 2(1))
  qed (use e in simp)
  show "z = Panicked \<and> (\<exists>n < length msg. calls tr = (PASSEREN, ?k) # replicate (Suc n) (DOIO, term0_command)
      \<and> sent wm tr = map print_cmd (take (Suc n) msg))" if e: "m = Stop z"
  proof (cases rule: pc)
    case (2 r tr')
    from print_chars_does [OF 2(2), of wm] v obtain n where
      "z = Panicked" "n < length msg" "calls tr' = replicate (Suc n) (DOIO, term0_command)"
      "sent wm tr' = map print_cmd (take (Suc n) msg)"
      using e by (fastforce simp: chars_then_def)
    with codes show ?thesis by (auto simp: 2(1))
  qed (use e in simp)
qed

end
