(* ===== verification/Discipline.thy ===== *)
theory Discipline
  imports Print_Prog
begin

text \<open>
  The processes of the test program use the lock of the terminal as a lock: on every path, and
  whatever the answers are, their calls on it are a P, then a V, then a P, and so on; and they give
  commands to the terminal only between a P and its V.
\<close>

section \<open>Programs that obey a lock\<close>

definition locks :: "u32 \<Rightarrow> event \<Rightarrow> bool" where
  "locks k e \<longleftrightarrow> is_syscall e \<and> call_of e = (PASSEREN, k)"

definition unlocks :: "u32 \<Rightarrow> event \<Rightarrow> bool" where
  "unlocks k e \<longleftrightarrow> is_syscall e \<and> call_of e = (VERHOGEN, k)"

definition prints :: "event \<Rightarrow> bool" where
  "prints e \<longleftrightarrow> is_syscall e \<and> call_of e = (DOIO, term0_command)"

datatype side = Outside | Inside

text \<open>Inside the lock or not, what the program may do next; it returns only outside.\<close>

coinductive obeys :: "u32 \<Rightarrow> side \<Rightarrow> 'a prog \<Rightarrow> bool" for k where
  ends: "obeys k Outside (Return x)"
| stops: "obeys k b (Stop z)"
| turns: "obeys k b m \<Longrightarrow> obeys k b (Turn m)"
| locks: "locks k e \<Longrightarrow> (\<forall>r. obeys k Inside (c r)) \<Longrightarrow> obeys k Outside (Do e c)"
| unlocks: "unlocks k e \<Longrightarrow> (\<forall>r. obeys k Outside (c r)) \<Longrightarrow> obeys k Inside (Do e c)"
| other: "\<not> locks k e \<Longrightarrow> \<not> unlocks k e \<Longrightarrow> (prints e \<longrightarrow> b = Inside) \<Longrightarrow> (\<forall>r. obeys k b (c r)) \<Longrightarrow>
    obeys k b (Do e c)"

inductive_cases obeys_ReturnE: "obeys k b (Return x)"
inductive_cases obeys_TurnE: "obeys k b (Turn m)"
inductive_cases obeys_DoE: "obeys k b (Do e c)"

lemma locks_unlocks: "locks k e \<Longrightarrow> \<not> unlocks k e"
  by (simp add: locks_def unlocks_def syscall_codes)

lemma obeys_simps [simp]:
  "obeys k b (Return x) \<longleftrightarrow> b = Outside" "obeys k b (Stop z)" "obeys k b (Turn m) \<longleftrightarrow> obeys k b m"
  "obeys k b (Do e c) \<longleftrightarrow> (if locks k e then b = Outside \<and> (\<forall>r. obeys k Inside (c r))
     else if unlocks k e then b = Inside \<and> (\<forall>r. obeys k Outside (c r))
     else (prints e \<longrightarrow> b = Inside) \<and> (\<forall>r. obeys k b (c r)))"
proof -
  show "obeys k b (Return x) \<longleftrightarrow> b = Outside" by (cases b) (auto elim: obeys_ReturnE intro: obeys.intros)
  show "obeys k b (Stop z)" by (rule obeys.intros)
  show "obeys k b (Turn m) \<longleftrightarrow> obeys k b m" by (auto elim: obeys_TurnE intro: obeys.intros)
  show "obeys k b (Do e c) \<longleftrightarrow> (if locks k e then b = Outside \<and> (\<forall>r. obeys k Inside (c r))
     else if unlocks k e then b = Inside \<and> (\<forall>r. obeys k Outside (c r))
     else (prints e \<longrightarrow> b = Inside) \<and> (\<forall>r. obeys k b (c r)))"
    using locks_unlocks [of k e] by (cases b) (auto elim!: obeys_DoE intro: obeys.intros)
qed

lemma obeys_and_then:
  assumes "obeys k b m" and "\<And>x. obeys k Outside (f x)"
  shows "obeys k b (and_then m f)"
  using assms(1)
proof (coinduction arbitrary: b m rule: obeys.coinduct)
  case obeys
  show ?case
  proof (cases m)
    case (Return x)
    then have "b = Outside" "obeys k Outside (f x)" using obeys assms(2) by simp_all
    then show ?thesis unfolding Return and_then_simps by (cases "f x") (auto split: if_splits)
  next
    case (Do e c)
    then show ?thesis using obeys locks_unlocks [of k e]
      by (cases "locks k e"; cases "unlocks k e"; cases b) (auto split: if_splits)
  qed (use obeys in auto)
qed

lemma obeys_then_do: "obeys k b m \<Longrightarrow> obeys k Outside n \<Longrightarrow> obeys k b (then_do m n)"
  by (simp add: then_do_def obeys_and_then)

lemma obeys_for_each: "(\<And>i s. i \<in> set is \<Longrightarrow> obeys k Outside (body i s)) \<Longrightarrow> obeys k Outside (for_each is body s)"
  by (induction "is" arbitrary: s) (auto intro: obeys_and_then)

lemma obeys_iterate_from:
  assumes "obeys k b m" and "\<And>s. obeys k Outside (body s)"
  shows "obeys k b (iterate_from body m)"
  using assms(1)
proof (coinduction arbitrary: b m rule: obeys.coinduct)
  case obeys
  show ?case
  proof (cases m)
    case (Return x)
    then show ?thesis using obeys assms(2) by (cases x) auto
  next
    case (Do e c)
    then show ?thesis using obeys locks_unlocks [of k e]
      by (cases "locks k e"; cases "unlocks k e"; cases b) (auto split: if_splits)
  qed (use obeys in auto)
qed

lemma obeys_iterate: "(\<And>s. obeys k Outside (body s)) \<Longrightarrow> obeys k Outside (iterate body s)"
  by (simp add: iterate_def obeys_iterate_from)

lemma obeys_delay [simp]: "obeys k b (delay n m) = obeys k b m"
  by (induction n) simp_all

section \<open>The calls on the lock\<close>

fun alternates :: "u32 \<Rightarrow> side \<Rightarrow> (u32 \<times> u32) list \<Rightarrow> bool" where
  "alternates k b [] = True"
| "alternates k b ((code, a) # cs) =
     (if code = PASSEREN \<and> a = k then b = Outside \<and> alternates k Inside cs
      else if code = VERHOGEN \<and> a = k then b = Inside \<and> alternates k Outside cs
      else alternates k b cs)"

lemma locks_simps [simp]:
  "locks k (Syscall a0 a1 a2 a3) \<longleftrightarrow> a0 = PASSEREN \<and> a1 = k" "unlocks k (Syscall a0 a1 a2 a3) \<longleftrightarrow> a0 = VERHOGEN \<and> a1 = k"
  "prints (Syscall a0 a1 a2 a3) \<longleftrightarrow> a0 = DOIO \<and> a1 = term0_command"
  "\<not> is_syscall e \<Longrightarrow> \<not> locks k e" "\<not> is_syscall e \<Longrightarrow> \<not> unlocks k e" "\<not> is_syscall e \<Longrightarrow> \<not> prints e"
  by (auto simp: locks_def unlocks_def prints_def)

lemma obeys_alternates: "does m tr m' \<Longrightarrow> obeys k b m \<Longrightarrow> alternates k b (calls tr)"
proof (induction arbitrary: b rule: does.induct)
  case (event c r tr m' e)
  show ?case
  proof (cases e)
    case (Syscall a0 a1 a2 a3)
    with event show ?thesis by (auto split: if_splits)
  qed (use event in auto)
qed auto

section \<open>The programs\<close>

text \<open>The lock of the terminal is no other semaphore of the program.\<close>

definition lock_apart :: "linker \<Rightarrow> bool" where
  "lock_apart G \<longleftrightarrow> (\<forall>x. at_sem G x = at_sem G sem_term_mut \<longrightarrow> x = sem_term_mut)
     \<and> (\<forall>i \<le> MAXSEM. elem_addr (at_sem G s_array) i \<noteq> at_sem G sem_term_mut)
     \<and> (\<forall>i < NOLEAVES. elem_addr (at_sem G sem_endcreate) i \<noteq> at_sem G sem_term_mut)"

lemma apart_simps:
  assumes "lock_apart G"
  shows "x \<noteq> sem_term_mut \<Longrightarrow> at_sem G x \<noteq> at_sem G sem_term_mut"
    and "i \<le> MAXSEM \<Longrightarrow> elem_addr (at_sem G s_array) i \<noteq> at_sem G sem_term_mut"
    and "i < NOLEAVES \<Longrightarrow> elem_addr (at_sem G sem_endcreate) i \<noteq> at_sem G sem_term_mut"
  using assms by (auto simp: lock_apart_def)

lemma code_simps [simp]: "DOIO \<noteq> PASSEREN" "DOIO \<noteq> VERHOGEN" "CREATEPROCESS \<noteq> PASSEREN" "CREATEPROCESS \<noteq> VERHOGEN"
  "TERMPROCESS \<noteq> PASSEREN" "TERMPROCESS \<noteq> VERHOGEN" "GETTIME \<noteq> PASSEREN" "GETTIME \<noteq> VERHOGEN"
  "CLOCKWAIT \<noteq> PASSEREN" "CLOCKWAIT \<noteq> VERHOGEN" "GETSUPPORTPTR \<noteq> PASSEREN" "GETSUPPORTPTR \<noteq> VERHOGEN"
  "GETPROCESSID \<noteq> PASSEREN" "GETPROCESSID \<noteq> VERHOGEN" "GETCHILDREN \<noteq> PASSEREN" "GETCHILDREN \<noteq> VERHOGEN"
  "USERSYSCALL \<noteq> PASSEREN" "USERSYSCALL \<noteq> VERHOGEN" "PASSEREN \<noteq> VERHOGEN" "VERHOGEN \<noteq> PASSEREN"
  "PASSEREN \<noteq> DOIO" "VERHOGEN \<noteq> DOIO" "CREATEPROCESS \<noteq> DOIO" "TERMPROCESS \<noteq> DOIO" "GETTIME \<noteq> DOIO"
  "CLOCKWAIT \<noteq> DOIO" "GETSUPPORTPTR \<noteq> DOIO" "GETPROCESSID \<noteq> DOIO" "GETCHILDREN \<noteq> DOIO" "USERSYSCALL \<noteq> DOIO"
  by (simp_all add: syscall_codes USERSYSCALL_def)

lemma obeys_chars: "obeys k Inside rest \<Longrightarrow> obeys k Inside (then_do (print_chars cs) rest)"
  by (induction cs) (simp_all add: statement_defs)

lemma obeys_print [simp]: "obeys (at_sem G sem_term_mut) Outside (print G msg)"
  by (simp add: print_def P_def V_def call_def obeys_chars)

lemma obeys_say [simp]: "obeys (at_sem G sem_term_mut) Outside m \<Longrightarrow> obeys (at_sem G sem_term_mut) Outside (say G msg m)"
  by (simp add: say_def obeys_then_do)

lemma obeys_complain [simp]: "obeys (at_sem G sem_term_mut) Outside (complain G msg)"
  by (simp add: complain_def)

lemma obeys_with_state: "(\<And>st. obeys k b (f st)) \<Longrightarrow> obeys k b (with_state r f)"
  by (cases r) simp_all

lemma obeys_with_support: "(\<And>u. obeys k b (f u)) \<Longrightarrow> obeys k b (with_support r f)"
  by (cases r) simp_all

text \<open>Statements, with the semaphores of P and V other ones.\<close>

lemma obeys_statements [simp]:
  "obeys k b (load a f) \<longleftrightarrow> (\<forall>r. obeys k b (f (word_of r)))"
  "obeys k b (store a w m) \<longleftrightarrow> obeys k b m"
  "obeys k b (local n f) \<longleftrightarrow> (\<forall>r. obeys k b (f (word_of r)))"
  "obeys k b (stck f) \<longleftrightarrow> (\<forall>r. obeys k b (f (word_of r)))"
  "a \<noteq> k \<Longrightarrow> obeys k b (P a m) \<longleftrightarrow> obeys k b m" "a \<noteq> k \<Longrightarrow> obeys k b (V a m) \<longleftrightarrow> obeys k b m"
  "c \<notin> {PASSEREN, VERHOGEN, DOIO} \<Longrightarrow> obeys k b (call c a1 a2 a3 m) \<longleftrightarrow> obeys k b m"
  "c \<notin> {PASSEREN, VERHOGEN, DOIO} \<Longrightarrow> obeys k b (syscall c a1 a2 a3 f) \<longleftrightarrow> (\<forall>r. obeys k b (f (word_of r)))"
  "obeys k b (create G st supp f) \<longleftrightarrow> (\<forall>r. obeys k b (f (word_of r)))"
  by (simp_all add: statement_defs P_def V_def create_def)

lemma obeys_change:
  "obeys k b m \<Longrightarrow> obeys k b (change_state a f m)" "obeys k b m \<Longrightarrow> obeys k b (change_support a g m)"
  "obeys k b m \<Longrightarrow> obeys k b (change_exc G n f m)" "obeys k b m \<Longrightarrow> obeys k b (continue_at A G n entry m)"
  "obeys k b (p5_resume G n)"
  by (simp_all add: statement_defs change_exc_def continue_at_def p5_resume_def obeys_with_state obeys_with_support)

lemma obeys_set_up:
  "obeys k b m \<Longrightarrow> obeys k b (set_up_state A G st entry prev n m)" "obeys k b m \<Longrightarrow> obeys k b (set_up_p5 A G m)"
  "obeys k b m \<Longrightarrow> obeys k b (set_up_states A G l m)"
proof -
  show 1: "obeys k b (set_up_state A G st entry prev n m)" if "obeys k b m" for st entry prev n m
    using that by (simp add: set_up_state_def load_state_at_def obeys_change obeys_with_state)
  show "obeys k b m \<Longrightarrow> obeys k b (set_up_p5 A G m)"
    by (simp add: set_up_p5_def load_state_at_def obeys_change obeys_with_state)
  show "obeys k b m \<Longrightarrow> obeys k b (set_up_states A G l m)"
    by (induction l) (auto simp: set_up_states_def 1)
qed

lemma obeys_clock_loop [simp]: "obeys k Outside clock_loop"
  unfolding clock_loop_def by (rule obeys_iterate) auto

lemma obeys_test:
  assumes "lock_apart G"
  shows "obeys (at_sem G sem_term_mut) Outside (test A G)"
proof -
  note a = apart_simps [OF assms]
  have round: "obeys (at_sem G sem_term_mut) Outside (test_p8_round G)"
    by (auto simp: test_p8_round_def a intro!: obeys_say obeys_then_do obeys_for_each)
  have "obeys (at_sem G sem_term_mut) Outside (test_p8_rounds G)"
    unfolding test_p8_rounds_def by (auto intro!: obeys_iterate obeys_then_do round)
  then have "obeys (at_sem G sem_term_mut) Outside (test_end G)"
    by (simp add: test_end_def obeys_then_do a)
  then have "obeys (at_sem G sem_term_mut) Outside (test_p4_to_p9 G)"
    by (simp add: test_p4_to_p9_def test_p5_support_def obeys_change a)
  then have "obeys (at_sem G sem_term_mut) Outside (test_p2_p3 G)"
    by (auto simp: test_p2_p3_def a intro!: obeys_say obeys_then_do)
  then show ?thesis
    by (simp add: test_def test_states_def obeys_set_up a)
qed

lemma obeys_p2_to_p4:
  assumes "lock_apart G"
  shows "obeys (at_sem G sem_term_mut) Outside (p2 G)" and "obeys (at_sem G sem_term_mut) Outside (p3 G)"
    and "obeys (at_sem G sem_term_mut) Outside (p4 A G)"
proof -
  note a = apart_simps [OF assms]
  have c: "obeys (at_sem G sem_term_mut) Outside (p2_clear G)" "obeys (at_sem G sem_term_mut) Outside (p2_pairs G)"
    by (auto simp: p2_clear_def p2_pairs_def p2_pair_def Let_def a intro!: obeys_for_each)
  have t: "obeys (at_sem G sem_term_mut) Outside (p2_times G w x y z)" for w x y z
    by (auto simp: p2_times_def min_ticks_def Let_def intro!: obeys_say obeys_then_do)
  show "obeys (at_sem G sem_term_mut) Outside (p2 G)"
    by (auto simp: p2_def a c t intro!: obeys_say obeys_then_do)
  show "obeys (at_sem G sem_term_mut) Outside (p3 G)"
    by (auto simp: p3_def min_ticks_def a intro!: obeys_say obeys_then_do obeys_for_each)
  have "obeys (at_sem G sem_term_mut) Outside (p4_announce G)" by (simp add: p4_announce_def)
  then show "obeys (at_sem G sem_term_mut) Outside (p4 A G)"
    by (auto simp: p4_def a intro!: obeys_say obeys_then_do obeys_change)
qed

lemma obeys_p5:
  assumes "lock_apart G"
  shows "obeys (at_sem G sem_term_mut) Outside (p5 G)" and "obeys (at_sem G sem_term_mut) Outside (p5a G)"
    and "obeys (at_sem G sem_term_mut) Outside (p5b G)" and "obeys (at_sem G sem_term_mut) Outside (p5sys G)"
    and "obeys (at_sem G sem_term_mut) Outside (p5gen A G)" and "obeys (at_sem G sem_term_mut) Outside (p5mm A G)"
proof -
  note a = apart_simps [OF assms]
  show "obeys (at_sem G sem_term_mut) Outside (p5 G)" "obeys (at_sem G sem_term_mut) Outside (p5a G)"
    by (simp_all add: p5_def p5a_def)
  show "obeys (at_sem G sem_term_mut) Outside (p5b G)" by (simp add: p5b_def a obeys_then_do)
  show s: "obeys (at_sem G sem_term_mut) Outside (p5sys G)"
    by (auto simp: p5sys_def load_support_def Let_def intro!: obeys_with_support obeys_then_do obeys_change)
  show "obeys (at_sem G sem_term_mut) Outside (p5gen A G)"
    by (simp add: p5gen_def load_support_def Let_def s obeys_with_support obeys_then_do obeys_change)
  show "obeys (at_sem G sem_term_mut) Outside (p5mm A G)"
    by (auto simp: p5mm_def intro!: obeys_say obeys_then_do obeys_change)
qed

lemma obeys_p6_to_p10:
  assumes "lock_apart G"
  shows "obeys (at_sem G sem_term_mut) Outside (p6 G)" and "obeys (at_sem G sem_term_mut) Outside (p7 G)"
    and "obeys (at_sem G sem_term_mut) Outside (p8root G)" and "obeys (at_sem G sem_term_mut) Outside (child1 G)"
    and "obeys (at_sem G sem_term_mut) Outside (child2 G)" and "obeys (at_sem G sem_term_mut) Outside (p8leaf1 G)"
    and "obeys (at_sem G sem_term_mut) Outside (p8leaf2 G)" and "obeys (at_sem G sem_term_mut) Outside (p8leaf3 G)"
    and "obeys (at_sem G sem_term_mut) Outside (p8leaf4 G)" and "obeys (at_sem G sem_term_mut) Outside (p9 G)"
    and "obeys (at_sem G sem_term_mut) Outside (p10 G)" and "obeys (at_sem G sem_term_mut) Outside (hp_p1 G)"
    and "obeys (at_sem G sem_term_mut) Outside (hp_p2 G)"
proof -
  note a = apart_simps [OF assms]
  have l: "i < NOLEAVES \<Longrightarrow> elem_addr (at_sem G sem_endcreate) i \<noteq> at_sem G sem_term_mut" for i by (rule a(3))
  have l': "elem_addr (at_sem G sem_endcreate) 0 \<noteq> at_sem G sem_term_mut"
    "elem_addr (at_sem G sem_endcreate) (Suc 0) \<noteq> at_sem G sem_term_mut"
    "elem_addr (at_sem G sem_endcreate) 2 \<noteq> at_sem G sem_term_mut"
    "elem_addr (at_sem G sem_endcreate) 3 \<noteq> at_sem G sem_term_mut"
    by (rule l; simp add: NOLEAVES_def)+
  note d = p6_def p7_def p8root_def child1_def child2_def p8leaf1_def p8leaf2_def p8leaf3_def p8leaf4_def p9_def p10_def
    hp_p1_def hp_p2_def
  show "obeys (at_sem G sem_term_mut) Outside (p6 G)" "obeys (at_sem G sem_term_mut) Outside (p7 G)"
    "obeys (at_sem G sem_term_mut) Outside (p8root G)" "obeys (at_sem G sem_term_mut) Outside (child1 G)"
    "obeys (at_sem G sem_term_mut) Outside (child2 G)" "obeys (at_sem G sem_term_mut) Outside (p8leaf1 G)"
    "obeys (at_sem G sem_term_mut) Outside (p8leaf2 G)" "obeys (at_sem G sem_term_mut) Outside (p8leaf3 G)"
    "obeys (at_sem G sem_term_mut) Outside (p8leaf4 G)" "obeys (at_sem G sem_term_mut) Outside (p9 G)"
    "obeys (at_sem G sem_term_mut) Outside (p10 G)" "obeys (at_sem G sem_term_mut) Outside (hp_p1 G)"
    "obeys (at_sem G sem_term_mut) Outside (hp_p2 G)"
    by (auto simp: d a l' intro!: obeys_say obeys_then_do obeys_for_each)
qed

lemma obeys_p11:
  assumes "lock_apart G"
  shows "obeys (at_sem G sem_term_mut) Outside (p11 G)" and "obeys (at_sem G sem_term_mut) Outside (ns_p_parent_ns G)"
    and "obeys (at_sem G sem_term_mut) Outside (ns_p_new_ns G)"
proof -
  note a = apart_simps [OF assms]
  show "obeys (at_sem G sem_term_mut) Outside (ns_p_parent_ns G)" "obeys (at_sem G sem_term_mut) Outside (ns_p_new_ns G)"
    by (auto simp: ns_p_parent_ns_def ns_p_new_ns_def Let_def a)
  have e: "obeys (at_sem G sem_term_mut) Outside (p11_end G)" by (simp add: p11_end_def a)
  have "obeys (at_sem G sem_term_mut) Outside (p11_children G c)" for c
    by (auto simp: p11_children_def p11_find_def p11_check_def e intro!: obeys_and_then obeys_for_each)
  then show "obeys (at_sem G sem_term_mut) Outside (p11 G)" by (auto simp: p11_def Let_def)
qed

text \<open>Every process of the test.\<close>

definition processes :: "umps \<Rightarrow> linker \<Rightarrow> unit prog set" where
  "processes A G = {test A G, p2 G, p3 G, p4 A G, p5 G, p5a G, p5b G, p5sys G, p5gen A G, p5mm A G, p6 G, p7 G,
     p8root G, child1 G, child2 G, p8leaf1 G, p8leaf2 G, p8leaf3 G, p8leaf4 G, p9 G, p10 G, p11 G,
     ns_p_parent_ns G, ns_p_new_ns G, hp_p1 G, hp_p2 G}"

lemma processes_obey: "lock_apart G \<Longrightarrow> m \<in> processes A G \<Longrightarrow> obeys (at_sem G sem_term_mut) Outside m"
  by (auto simp: processes_def simp del: obeys_simps
      intro: obeys_test obeys_p2_to_p4 obeys_p5 obeys_p6_to_p10 obeys_p11)

end
