(* ===== verification/Program_Run.thy ===== *)
theory Program_Run
  imports P2test Kernel_Step Handler_Abs
begin

text \<open>
  Running a program on a machine that answers its events, and the machine that is the kernel: a
  system call raises an exception, the kernel handles it, and the program goes on with \<open>v0\<close> of
  the state the kernel loads, if that state is its own.  Here the process has the processor for
  itself: nothing answers a call that blocks it, or an exception of another kind.
\<close>

section \<open>Execution\<close>

partial_function (option) exec :: "(event \<Rightarrow> ('w, answer) action) \<Rightarrow> 'a prog \<Rightarrow> ('w, 'a + stop) action" where
  "exec f m w = (case m of
      Return x \<Rightarrow> Some (Inl x, w)
    | Turn m \<Rightarrow> exec f m w
    | Do e k \<Rightarrow> Option.bind (f e w) (\<lambda>(r, w). exec f (k r) w)
    | Stop z \<Rightarrow> Some (Inr z, w))"

lemma exec_simps [simp]:
  "exec f (Return x) w = Some (Inl x, w)" "exec f (Turn m) w = exec f m w"
  "exec f (Do e k) w = Option.bind (f e w) (\<lambda>(r, w). exec f (k r) w)"
  "exec f (Stop z) w = Some (Inr z, w)"
  by (subst exec.simps; simp)+

lemma exec_delay [simp]: "exec f (delay n m) w = exec f m w"
  by (induction n) simp_all

lemma and_then_for_each: "and_then (for_each (i # is) body s) f = and_then (body i s) (\<lambda>s. and_then (for_each is body s) f)"
  by (simp add: and_then_assoc)

lemma then_do_for_each:
  "then_do (for_each (i # is) body ()) m = then_do (body i ()) (then_do (for_each is body ()) m)"
  by (simp add: then_do_def and_then_assoc)

section \<open>The kernel as the machine\<close>

text \<open>What the BIOS saves when a program calls the kernel.\<close>

definition trapped :: "umps \<Rightarrow> u32 \<Rightarrow> u32 \<Rightarrow> u32 \<Rightarrow> u32 \<Rightarrow> state_t \<Rightarrow> state_t" where
  "trapped A a0 a1 a2 a3 st = st\<lparr>cause := push_bit (CAUSE_EXCCODE_BIT A) (EXC_SYS A),
     gpr := (gpr st)(ix_a0 A := a0, ix_a1 A := a1, ix_a2 A := a2, ix_a3 A := a3)\<rparr>"

definition trap :: "umps \<Rightarrow> u32 \<Rightarrow> u32 \<Rightarrow> u32 \<Rightarrow> u32 \<Rightarrow> kstate \<Rightarrow> kstate" where
  "trap A a0 a1 a2 a3 s = s\<lparr>bios_state := trapped A a0 a1 a2 a3 (bios_state s)\<rparr>"

fun serve :: "umps \<Rightarrow> event \<Rightarrow> (kstate, answer) action" where
  "serve A (Syscall a0 a1 a2 a3) s = Option.bind (exceptionHandler A (trap A a0 a1 a2 a3 s)) (\<lambda>(out, t).
     case out of
       LDST st \<Rightarrow> if current_active_process t = current_active_process s
         then Some (Word (gpr st (ix_v0 A)), t) else None
     | _ \<Rightarrow> None)"
| "serve A (Load a) s = Some (Word (mem s a), s)"
| "serve A (Store a w) s = Some (Unit, store_word a w s)"
| "serve A (Load_state a) s = Some (State (load_state A (mem s) a), s)"
| "serve A (Load_support a) s = Some (Support (supports s a), s)"
| "serve A (Store_support a u) s = Some (Unit, s\<lparr>supports := (supports s)(a := u)\<rparr>)"
| "serve A Stck s = Some (Word (tod s), s)"
| "serve A _ s = None"

declare serve.simps(1) [simp del]

text \<open>The codes of \<open>Cause\<close>, and the registers of the call, as the processor has them.\<close>

definition traps_ok :: "umps \<Rightarrow> bool" where
  "traps_ok A \<longleftrightarrow> CAUSE_GET_EXCCODE A (push_bit (CAUSE_EXCCODE_BIT A) (EXC_SYS A)) = EXC_SYS A
     \<and> EXC_SYS A \<notin> {EXC_INT A, EXC_MOD A, EXC_TLBL A, EXC_TLBS A}
     \<and> distinct [ix_a0 A, ix_a1 A, ix_a2 A, ix_a3 A]"

lemma trap_facts [simp]:
  "current_active_process (trap A a0 a1 a2 a3 s) = current_active_process s"
  "pcbs (trap A a0 a1 a2 a3 s) = pcbs s" "mem (trap A a0 a1 a2 a3 s) = mem s"
  "kernel_mode A (trap A a0 a1 a2 a3 s) = kernel_mode A s" "kinv (trap A a0 a1 a2 a3 s) v = kinv s v"
  "tod (trap A a0 a1 a2 a3 s) = tod s" "start_time (trap A a0 a1 a2 a3 s) = start_time s"
  "lists (trap A a0 a1 a2 a3 s) = lists s" "reg_STATUS (trap A a0 a1 a2 a3 s) = reg_STATUS s"
  by (simp_all add: trap_def kernel_mode_def)

lemma trap_args:
  assumes "traps_ok A"
  shows "sys_code A (trap A a0 a1 a2 a3 s) = a0" "FIRST_PARAM A (trap A a0 a1 a2 a3 s) = a1"
    "SECOND_PARAM A (trap A a0 a1 a2 a3 s) = a2" "THIRD_PARAM A (trap A a0 a1 a2 a3 s) = a3"
    "exc_code A (trap A a0 a1 a2 a3 s) = EXC_SYS A"
  using assms
  by (auto simp: traps_ok_def sys_code_def FIRST_PARAM_def SECOND_PARAM_def THIRD_PARAM_def trap_def trapped_def exc_code_def)

lemma timed_call [simp]:
  "kernel_mode A (timed c s) = kernel_mode A s" "SECOND_PARAM A (timed c s) = SECOND_PARAM A s"
  "sys_code A (timed c s) = sys_code A s" "FIRST_PARAM A (timed c s) = FIRST_PARAM A s"
  "THIRD_PARAM A (timed c s) = THIRD_PARAM A s"
  by (simp_all add: timed_params kernel_mode_def SECOND_PARAM_def)

lemma syscall_exception:
  assumes "traps_ok A" and "current_active_process s = Some c"
  shows "exceptionHandler A (trap A a0 a1 a2 a3 s) = syscallHandler A (timed c (trap A a0 a1 a2 a3 s))"
  using trap_args(5) [OF assms(1), of a0 a1 a2 a3 s] assms
  by (simp add: exceptionHandler_def exc_code_def [symmetric] update_time_running traps_ok_def)

text \<open>A process that runs in kernel mode, in a state of the kernel with the invariant.\<close>

definition runs_in :: "umps \<Rightarrow> nat \<Rightarrow> kview \<Rightarrow> kstate \<Rightarrow> bool" where
  "runs_in A p v s \<longleftrightarrow> kinv s v \<and> current_active_process s = Some p \<and> kernel_mode A s"

lemma runs_in_simps:
  "runs_in A p v s \<Longrightarrow> kinv s v" "runs_in A p v s \<Longrightarrow> current_active_process s = Some p"
  "runs_in A p v s \<Longrightarrow> kernel_mode A s"
  by (simp_all add: runs_in_def)

lemma runs_in_store [simp]: "runs_in A p v (store_word a w s) = runs_in A p v s"
  by (simp add: runs_in_def store_word_def kernel_mode_def)

lemma runs_in_advanced: "runs_in A p v s \<Longrightarrow> runs_in A p v (advanced (timed c (trap A a0 a1 a2 a3 s)))"
  by (simp add: runs_in_def kinv_advanced) (simp add: kernel_mode_def advanced_def)

text \<open>A call that returns to the caller is answered by \<open>v0\<close>.\<close>

lemma serve_returns:
  assumes "traps_ok A" and "current_active_process s = Some c"
    and "syscallHandler A (timed c (trap A a0 a1 a2 a3 s)) = Some (LDST st, t)" and "current_active_process t = Some c"
  shows "serve A (Syscall a0 a1 a2 a3) s = Some (Word (gpr st (ix_v0 A)), t)"
  using assms by (simp add: serve.simps(1) syscall_exception)

text \<open>P on a semaphore that is not 0, and V on one that is not 1, when no process waits on it.\<close>

lemma serve_P:
  assumes ok: "traps_ok A" and r: "runs_in A p v s" and k: "k \<noteq> 0" "mem s k \<noteq> 0" "v_semq v k = []"
  obtains w t where "serve A (Syscall PASSEREN k 0 0) s = Some (Word w, t)" "runs_in A p v t"
    "mem t = (mem s)(k := mem s k - 1)" "process_count t = process_count s" "soft_block_count t = soft_block_count s"
proof -
  let ?s = "timed p (trap A PASSEREN k 0 0 s)"
  note f = runs_in_simps [OF r]
  let ?t = "store_word k (mem s k - 1) (advanced ?s)"
  have "syscallHandler A ?s = Some (LDST (bios_state (advanced ?s)), ?t)"
    using SYS3_goes_on [of ?s v A k] f k by (simp add: trap_args [OF ok])
  moreover have t: "runs_in A p v ?t" "mem ?t = (mem s)(k := mem s k - 1)"
    "process_count ?t = process_count s" "soft_block_count ?t = soft_block_count s"
    using runs_in_advanced [OF r, of p PASSEREN k 0 0]
    by simp_all (simp_all add: store_word_def advanced_def timed_def trap_def set_pcb_def)
  ultimately show ?thesis
    using runs_in_simps(2) [OF t(1)] by (intro that [OF _ t]) (rule serve_returns [OF ok f(2)])
qed

lemma serve_V:
  assumes ok: "traps_ok A" and r: "runs_in A p v s" and k: "k \<noteq> 0" "mem s k \<noteq> 1" "v_semq v k = []"
  obtains w t where "serve A (Syscall VERHOGEN k 0 0) s = Some (Word w, t)" "runs_in A p v t"
    "mem t = (mem s)(k := mem s k + 1)" "process_count t = process_count s" "soft_block_count t = soft_block_count s"
    "\<forall>q. p_savedDeviceStatus (pcbs t q) = p_savedDeviceStatus (pcbs s q)"
proof -
  let ?s = "timed p (trap A VERHOGEN k 0 0 s)"
  note f = runs_in_simps [OF r]
  let ?t = "store_word k (mem s k + 1) (advanced ?s)"
  have "syscallHandler A ?s = Some (LDST (bios_state (advanced ?s)), ?t)"
    using SYS4_goes_on [of ?s v A k] f k by (simp add: trap_args [OF ok])
  moreover have t: "runs_in A p v ?t" "mem ?t = (mem s)(k := mem s k + 1)"
    "process_count ?t = process_count s" "soft_block_count ?t = soft_block_count s"
    "\<forall>q. p_savedDeviceStatus (pcbs ?t q) = p_savedDeviceStatus (pcbs s q)"
    using runs_in_advanced [OF r, of p VERHOGEN k 0 0]
    by simp_all (simp_all add: store_word_def advanced_def timed_def trap_def set_pcb_def)
  ultimately show ?thesis
    using runs_in_simps(2) [OF t(1)] by (intro that [OF _ t]) (rule serve_returns [OF ok f(2)])
qed

section \<open>The semaphores of p2\<close>

text \<open>The memory with \<open>n\<close> words from \<open>a\<close> cleared.\<close>

definition cleared :: "u32 \<Rightarrow> nat set \<Rightarrow> (u32 \<Rightarrow> u32) \<Rightarrow> u32 \<Rightarrow> u32" where
  "cleared a I m b = (if b \<in> elem_addr a ` I then 0 else m b)"

lemma exec_clear:
  assumes "runs_in A p v s"
  shows "\<exists>t. exec (serve A) (then_do (for_each is (\<lambda>i _. store (elem_addr a i) 0 (Return ())) ()) m) s = exec (serve A) m t
    \<and> runs_in A p v t \<and> mem t = cleared a (set is) (mem s)"
  using assms
proof (induction "is" arbitrary: s)
  case Nil
  then show ?case by (intro exI [of _ s]) (auto simp: cleared_def fun_eq_iff)
next
  case (Cons i "is")
  let ?s = "store_word (elem_addr a i) 0 s"
  have "runs_in A p v ?s" using Cons.prems by simp
  from Cons.IH [OF this] obtain t where
    t: "exec (serve A) (then_do (for_each is (\<lambda>i _. store (elem_addr a i) 0 (Return ())) ()) m) ?s = exec (serve A) m t"
    "runs_in A p v t" "mem t = cleared a (set is) (mem ?s)" by blast
  have "cleared a (set is) (mem ?s) = cleared a (set (i # is)) (mem s)"
    by (auto simp: cleared_def store_word_def fun_eq_iff)
  with t show ?case by (intro exI [of _ t]) (simp add: then_do_for_each store_def)
qed

lemma exec_pair:
  assumes ok: "traps_ok A" and r: "runs_in A p v s" and a: "a = elem_addr (at_sem G s_array) i" "a \<noteq> 0"
    "v_semq v a = []" "mem s a = 0"
  shows "\<exists>t. exec (serve A) (then_do (p2_pair G i) m) s = exec (serve A) m t \<and> runs_in A p v t \<and> mem t = mem s"
proof -
  have "mem s a \<noteq> 1" using a(4) by simp
  from serve_V [OF ok r a(2) this a(3)] obtain w t where
    t: "serve A (Syscall VERHOGEN a 0 0) s = Some (Word w, t)" "runs_in A p v t" "mem t = (mem s)(a := mem s a + 1)"
    by metis
  have "mem t a \<noteq> 0" using t(3) a(4) by simp
  from serve_P [OF ok t(2) a(2) this a(3)] obtain w' u where
    u: "serve A (Syscall PASSEREN a 0 0) t = Some (Word w', u)" "runs_in A p v u" "mem u = (mem t)(a := mem t a - 1)"
    by metis
  have m: "mem u = mem s" using u(3) t(3) a(4) by auto
  with t u a(1,4) show ?thesis
    by (intro exI [of _ u]) (simp add: p2_pair_def Let_def V_def P_def call_def load_def)
qed

text \<open>
  All pairs, run by a process alone: no call blocks, no message is printed, and the semaphores are
  0 again.
\<close>

lemma exec_pairs:
  assumes ok: "traps_ok A" and r: "runs_in A p v s"
    and a: "\<And>i. i \<in> set is \<Longrightarrow> elem_addr (at_sem G s_array) i \<noteq> 0 \<and> v_semq v (elem_addr (at_sem G s_array) i) = []
      \<and> mem s (elem_addr (at_sem G s_array) i) = 0"
  shows "\<exists>t. exec (serve A) (then_do (for_each is (\<lambda>i _. p2_pair G i) ()) m) s = exec (serve A) m t
    \<and> runs_in A p v t \<and> mem t = mem s"
  using r a
proof (induction "is" arbitrary: s)
  case Nil
  then show ?case by auto
next
  case (Cons i "is")
  from exec_pair [OF ok Cons.prems(1) refl, of G i] Cons.prems(2) [of i] obtain t where
    t: "exec (serve A) (then_do (p2_pair G i) (then_do (for_each is (\<lambda>i _. p2_pair G i) ()) m)) s
        = exec (serve A) (then_do (for_each is (\<lambda>i _. p2_pair G i) ()) m) t"
    "runs_in A p v t" "mem t = mem s" by auto
  from Cons.IH [OF t(2)] Cons.prems(2) obtain u where
    "exec (serve A) (then_do (for_each is (\<lambda>i _. p2_pair G i) ()) m) t = exec (serve A) m u" "runs_in A p v u" "mem u = mem s"
    by (auto simp: t(3))
  with t(1) show ?case unfolding then_do_for_each by auto
qed

section \<open>The whole of p2's pairs\<close>

text \<open>A program followed by nothing is the program.\<close>

lemma then_do_Return [simp]: "then_do m (Return ()) = m"
proof (coinduction arbitrary: m rule: prog.coinduct)
  case Eq_prog
  then show ?case by (cases m) (auto simp: then_do_def)
qed

lemma exec_clear_pairs:
  assumes ok: "traps_ok A" and r: "runs_in A p v s"
    and q: "\<And>i. i \<le> MAXSEM \<Longrightarrow> elem_addr (at_sem G s_array) i \<noteq> 0 \<and> v_semq v (elem_addr (at_sem G s_array) i) = []"
  shows "\<exists>t. exec (serve A) (then_do (p2_clear G) (p2_pairs G)) s = Some (Inl (), t) \<and> runs_in A p v t
    \<and> mem t = cleared (at_sem G s_array) {..MAXSEM} (mem s)"
proof -
  let ?is = "[0..<MAXSEM + 1]"
  have s: "set ?is = {..MAXSEM}" by auto
  from exec_clear [OF r, of ?is "at_sem G s_array" "p2_pairs G"] obtain t where
    t: "exec (serve A) (then_do (p2_clear G) (p2_pairs G)) s = exec (serve A) (p2_pairs G) t" "runs_in A p v t"
    "mem t = cleared (at_sem G s_array) {..MAXSEM} (mem s)"
    unfolding p2_clear_def s by blast
  have "elem_addr (at_sem G s_array) i \<noteq> 0 \<and> v_semq v (elem_addr (at_sem G s_array) i) = []
      \<and> mem t (elem_addr (at_sem G s_array) i) = 0" if "i \<in> set ?is" for i
    using q [of i] that unfolding s by (auto simp: t(3) cleared_def)
  from exec_pairs [OF ok t(2), of ?is G "Return ()"] this obtain u where
    "exec (serve A) (p2_pairs G) t = Some (Inl (), u)" "runs_in A p v u" "mem u = mem t"
    unfolding p2_pairs_def then_do_Return by (metis exec_simps(1))
  with t show ?thesis by auto
qed

end
