(* ===== verification/Coexistence.thy ===== *)
theory Coexistence
  imports Mutex Sem_Stay Discipline Program_Run
begin

text \<open>
  The test program on the kernel: every process is a program, and the kernel decides which one
  goes on.  A process makes a system call and goes on, some time later, with \<open>v0\<close> of the state
  that the kernel loads; its exceptions may be passed up to a handler of its own, which loads a
  state at its end; interrupts come at any point; a PCB that is used again starts another program.

  The calls of a process on the word \<open>k\<close> (the lock of the terminal) are remembered with it: it is
  \<open>Inside\<close> from its P to its V.
\<close>

section \<open>Processes\<close>

text \<open>The code at an address: the entry of p1, which the linker gives the kernel, and the others.\<close>

fun body_of :: "umps \<Rightarrow> linker \<Rightarrow> function_name \<Rightarrow> unit prog" where
  "body_of A G fun_p2 = p2 G" | "body_of A G fun_p3 = p3 G" | "body_of A G fun_p4 = p4 A G"
| "body_of A G fun_p5 = p5 G" | "body_of A G fun_p5a = p5a G" | "body_of A G fun_p5b = p5b G"
| "body_of A G fun_p5gen = p5gen A G" | "body_of A G fun_p5mm = p5mm A G" | "body_of A G fun_p6 = p6 G"
| "body_of A G fun_p7 = p7 G" | "body_of A G fun_p8root = p8root G" | "body_of A G fun_child1 = child1 G"
| "body_of A G fun_child2 = child2 G" | "body_of A G fun_p8leaf1 = p8leaf1 G" | "body_of A G fun_p8leaf2 = p8leaf2 G"
| "body_of A G fun_p8leaf3 = p8leaf3 G" | "body_of A G fun_p8leaf4 = p8leaf4 G" | "body_of A G fun_p9 = p9 G"
| "body_of A G fun_p10 = p10 G" | "body_of A G fun_p11 = p11 G" | "body_of A G fun_ns_p_parent_ns = ns_p_parent_ns G"
| "body_of A G fun_ns_p_new_ns = ns_p_new_ns G" | "body_of A G fun_hp_p1 = hp_p1 G" | "body_of A G fun_hp_p2 = hp_p2 G"

definition starts :: "umps \<Rightarrow> linker \<Rightarrow> u32 \<Rightarrow> unit prog \<Rightarrow> bool" where
  "starts A G pc m \<longleftrightarrow> pc = test_addr A \<and> m = test A G \<or> (\<exists>f. pc = at_fun G f \<and> m = body_of A G f)"

lemma starts_processes: "starts A G pc m \<Longrightarrow> m \<in> processes A G"
  unfolding starts_def
proof (elim disjE exE conjE)
  fix f assume "m = body_of A G f"
  then show ?thesis by (cases f) (simp_all add: processes_def)
qed (simp add: processes_def)

text \<open>What a process is doing: it runs, or it has called the kernel.\<close>

datatype activity = Running "unit prog" | Asked "answer \<Rightarrow> unit prog"

text \<open>
  A process has not run yet, or it is doing something; below that is what its exceptions have
  interrupted.
\<close>

datatype thread = Fresh | Thread activity side "(side \<times> (answer \<Rightarrow> unit prog)) list"

fun interrupted :: "activity \<Rightarrow> answer \<Rightarrow> unit prog" where
  "interrupted (Running m) = (\<lambda>_. m)"
| "interrupted (Asked c) = c"

section \<open>Steps\<close>

text \<open>The kernel gives the processor to a process.\<close>

inductive lands :: "umps \<Rightarrow> linker \<Rightarrow> outcome \<Rightarrow> kstate \<Rightarrow> (nat \<Rightarrow> thread) \<Rightarrow> (nat \<Rightarrow> thread) \<Rightarrow> bool" for A G where
  begins: "current_active_process s = Some c \<Longrightarrow> T c = Fresh \<Longrightarrow> starts A G (pc_epc st) m \<Longrightarrow>
    lands A G (LDST st) s T (T(c := Thread (Running m) Outside []))"
| answered: "current_active_process s = Some c \<Longrightarrow> T c = Thread (Asked f) b l \<Longrightarrow>
    lands A G (LDST st) s T (T(c := Thread (Running (f (Word (gpr st (ix_v0 A))))) b l))"
| continues: "current_active_process s = Some c \<Longrightarrow> T c = Thread (Running m) b l \<Longrightarrow> lands A G (LDST st) s T T"
| passed_up: "current_active_process s = Some c \<Longrightarrow> T c = Thread a b l \<Longrightarrow> starts A G pc m \<Longrightarrow>
    lands A G (LDCXT sp status' pc) s T (T(c := Thread (Running m) Outside ((b, interrupted a) # l)))"
| nobody: "\<not> gives_processor out \<Longrightarrow> lands A G out s T T"

text \<open>After an exception, what was known of a process that is terminated is forgotten.\<close>

definition settle :: "kstate \<Rightarrow> (nat \<Rightarrow> thread) \<Rightarrow> nat \<Rightarrow> thread" where
  "settle s T q = (if unused s q then Fresh else T q)"

text \<open>A call on the lock is remembered.\<close>

definition after_call :: "u32 \<Rightarrow> event \<Rightarrow> side \<Rightarrow> side" where
  "after_call k e b = (if locks k e then Inside else if unlocks k e then Outside else b)"

text \<open>An event that is no call: on the memory as \<open>serve\<close> says, the others as they like.\<close>

definition acts :: "umps \<Rightarrow> event \<Rightarrow> kstate \<Rightarrow> answer \<Rightarrow> kstate \<Rightarrow> bool" where
  "acts A e s r s' \<longleftrightarrow> \<not> is_syscall e \<and> (\<forall>t. e \<noteq> Alloc_namespace t) \<and>
     (case serve A e s of Some y \<Rightarrow> y = (r, s') | None \<Rightarrow> outside s s')"

text \<open>The state in which the BIOS calls the kernel, with the call.\<close>

definition called :: "umps \<Rightarrow> event \<Rightarrow> kstate \<Rightarrow> bool" where
  "called A e s \<longleftrightarrow> exc_code A s = EXC_SYS A \<and>
     e = Syscall (sys_code A s) (FIRST_PARAM A s) (SECOND_PARAM A s) (THIRD_PARAM A s)"

text \<open>The buffers and arrays that the processes give to the kernel do not contain the word.\<close>

definition args_clear :: "umps \<Rightarrow> u32 \<Rightarrow> kstate \<Rightarrow> bool" where
  "args_clear A k s \<longleftrightarrow> buffers_clear A k s \<and> (kernel_call A s \<longrightarrow>
     (sys_code A s = DOIO \<longrightarrow> k \<notin> io_words A (FIRST_PARAM A s) (SECOND_PARAM A s)) \<and>
     (sys_code A s = GETCHILDREN \<longrightarrow> (\<forall>i < MAXPROC. FIRST_PARAM A s + 4 * of_nat i \<noteq> k)))"

type_synonym system = "(nat \<Rightarrow> thread) \<times> outcome \<times> kstate"

inductive sys_step :: "umps \<Rightarrow> linker \<Rightarrow> u32 \<Rightarrow> system \<Rightarrow> system \<Rightarrow> bool" for A G k where
  world: "gives_processor out \<or> out = WAIT \<Longrightarrow> outside s s' \<Longrightarrow> mem s' k = mem s k \<Longrightarrow>
    sys_step A G k (T, out, s) (T, out, s')"
| turn: "gives_processor out \<Longrightarrow> current_active_process s = Some c \<Longrightarrow> T c = Thread (Running (Turn m)) b l \<Longrightarrow>
    sys_step A G k (T, out, s) (T(c := Thread (Running m) b l), out, s)"
| acts: "gives_processor out \<Longrightarrow> current_active_process s = Some c \<Longrightarrow> T c = Thread (Running (Do e f)) b l \<Longrightarrow>
    acts A e s r s' \<Longrightarrow> mem s' k = mem s k \<Longrightarrow>
    sys_step A G k (T, out, s) (T(c := Thread (Running (f r)) b l), out, s')"
| allocates: "gives_processor out \<Longrightarrow> current_active_process s = Some c \<Longrightarrow>
    T c = Thread (Running (Do (Alloc_namespace t) f)) b l \<Longrightarrow> allocNamespace t s = Some (n, s') \<Longrightarrow>
    nsd_of_addr A a = Some n \<Longrightarrow> sys_step A G k (T, out, s) (T(c := Thread (Running (f (Word a))) b l), out, s')"
| calls: "gives_processor out \<Longrightarrow> current_active_process s = Some c \<Longrightarrow> T c = Thread (Running (Do e f)) b l \<Longrightarrow>
    outside s s1 \<Longrightarrow> mem s1 k = mem s k \<Longrightarrow> called A e s1 \<Longrightarrow> (locks k e \<or> unlocks k e \<longrightarrow> kernel_mode A s1) \<Longrightarrow>
    args_clear A k s1 \<Longrightarrow> exceptionHandler A s1 = Some (out', s') \<Longrightarrow>
    lands A G out' s' (settle s' (T(c := Thread (Asked f) (after_call k e b) l))) T' \<Longrightarrow>
    sys_step A G k (T, out, s) (T', out', s')"
| traps: "gives_processor out \<Longrightarrow> outside s s1 \<Longrightarrow> mem s1 k = mem s k \<Longrightarrow> exc_code A s1 \<noteq> EXC_SYS A \<Longrightarrow>
    buffers_clear A k s1 \<Longrightarrow> exceptionHandler A s1 = Some (out', s') \<Longrightarrow> lands A G out' s' (settle s' T) T' \<Longrightarrow>
    sys_step A G k (T, out, s) (T', out', s')"
| wakes: "outside s s1 \<Longrightarrow> mem s1 k = mem s k \<Longrightarrow> exc_code A s1 = EXC_INT A \<Longrightarrow> buffers_clear A k s1 \<Longrightarrow>
    exceptionHandler A s1 = Some (out', s') \<Longrightarrow> lands A G out' s' (settle s' T) T' \<Longrightarrow>
    sys_step A G k (T, WAIT, s) (T', out', s')"
| goes_back: "gives_processor out \<Longrightarrow> current_active_process s = Some c \<Longrightarrow>
    T c = Thread (Running (Stop (Loaded st))) b ((b', f) # l) \<Longrightarrow>
    sys_step A G k (T, out, s) (T(c := Thread (Running (f (Word (gpr st (ix_v0 A))))) b' l), out, s)"
| goes_elsewhere: "gives_processor out \<Longrightarrow> current_active_process s = Some c \<Longrightarrow>
    T c = Thread (Running (Stop (Loaded st))) b l \<Longrightarrow> starts A G (pc_epc st) m \<Longrightarrow>
    sys_step A G k (T, out, s) (T(c := Thread (Running m) Outside (tl l)), out, s)"

text \<open>The runs of the system from boot, with the word at its initial value.\<close>

inductive sys_run :: "umps \<Rightarrow> linker \<Rightarrow> u32 \<Rightarrow> system \<Rightarrow> bool" for A G k where
  boot: "zeroed s0 \<Longrightarrow> main_entry A s0 = Some (out, s) \<Longrightarrow> lands A G out s (\<lambda>_. Fresh) T \<Longrightarrow>
    mem s k = sem_initially sem_term_mut \<Longrightarrow> sys_run A G k (T, out, s)"
| step: "sys_run A G k x \<Longrightarrow> sys_step A G k x y \<Longrightarrow> sys_run A G k y"

section \<open>The invariant\<close>

fun act_obeys :: "u32 \<Rightarrow> side \<Rightarrow> activity \<Rightarrow> bool" where
  "act_obeys k b (Running m) \<longleftrightarrow> obeys k b m"
| "act_obeys k b (Asked f) \<longleftrightarrow> (\<forall>r. obeys k b (f r))"

definition lone :: "side list \<Rightarrow> bool" where
  "lone bs \<longleftrightarrow> length (filter (\<lambda>b. b = Inside) bs) \<le> 1"

lemma lone_simps [simp]: "lone []" "lone (Outside # bs) \<longleftrightarrow> lone bs" "lone (Inside # bs) \<longleftrightarrow> Inside \<notin> set bs"
  by (auto simp: lone_def filter_empty_conv)

lemma lone_ConsD: "lone (b # bs) \<Longrightarrow> lone bs"
  by (cases b) (auto simp: lone_def)

lemma lone_none: "Inside \<notin> set bs \<Longrightarrow> lone (b # bs)"
proof (induction bs)
  case (Cons a bs)
  then show ?case by (cases a; cases b) auto
qed (cases b; simp)

text \<open>
  Where the process is with respect to the lock; the call it waits in does not count.  What it
  does next obeys the lock, from that side.
\<close>

fun sides_held :: "u32 \<Rightarrow> kstate \<Rightarrow> nat \<Rightarrow> thread \<Rightarrow> side list" where
  "sides_held k s q Fresh = []"
| "sides_held k s q (Thread a b l) = (if p_semAdd (pcbs s q) = k then map fst l else b # map fst l)"

lemma sides_held_cong: "(p_semAdd (pcbs s' q) = k \<longleftrightarrow> p_semAdd (pcbs s q) = k) \<Longrightarrow> sides_held k s' q t = sides_held k s q t"
  by (cases t) simp_all

definition holds :: "u32 \<Rightarrow> kstate \<Rightarrow> (nat \<Rightarrow> thread) \<Rightarrow> nat \<Rightarrow> bool" where
  "holds k s T q \<longleftrightarrow> Inside \<in> set (sides_held k s q (T q))"

fun thread_obeys :: "u32 \<Rightarrow> thread \<Rightarrow> bool" where
  "thread_obeys k Fresh \<longleftrightarrow> True"
| "thread_obeys k (Thread a b l) \<longleftrightarrow> act_obeys k b a \<and> (\<forall>(b', f) \<in> set l. \<forall>r. obeys k b' (f r))"

definition threads_ok :: "u32 \<Rightarrow> nat set \<Rightarrow> kstate \<Rightarrow> (nat \<Rightarrow> thread) \<Rightarrow> bool" where
  "threads_ok k I s T \<longleftrightarrow> (\<forall>q. thread_obeys k (T q) \<and> lone (sides_held k s q (T q)) \<and> (holds k s T q \<longrightarrow> q \<in> I))"

text \<open>The same processes wait, of those that are not forgotten.\<close>

definition same_waiting :: "u32 \<Rightarrow> kstate \<Rightarrow> kstate \<Rightarrow> bool" where
  "same_waiting k s s' \<longleftrightarrow> (\<forall>q. unused s' q \<or> (p_semAdd (pcbs s' q) = k \<longleftrightarrow> p_semAdd (pcbs s q) = k))"

lemma threads_ok_settle: "threads_ok k I s T \<Longrightarrow> same_waiting k s s' \<Longrightarrow> threads_ok k I s' (settle s' T)"
  unfolding threads_ok_def same_waiting_def holds_def settle_def
proof (intro allI)
  fix q
  assume ok: "\<forall>q. thread_obeys k (T q) \<and> lone (sides_held k s q (T q)) \<and> (Inside \<in> set (sides_held k s q (T q)) \<longrightarrow> q \<in> I)"
    and w: "\<forall>q. unused s' q \<or> (p_semAdd (pcbs s' q) = k \<longleftrightarrow> p_semAdd (pcbs s q) = k)"
  show "thread_obeys k (if unused s' q then Fresh else T q) \<and> lone (sides_held k s' q (if unused s' q then Fresh else T q))
    \<and> (Inside \<in> set (sides_held k s' q (if unused s' q then Fresh else T q)) \<longrightarrow> q \<in> I)"
  proof (cases "unused s' q")
    case True
    then show ?thesis by simp
  next
    case False
    with w have "sides_held k s' q (T q) = sides_held k s q (T q)" by (intro sides_held_cong) blast
    with ok False show ?thesis by simp
  qed
qed

lemma threads_ok_same: "threads_ok k I s T \<Longrightarrow> (\<And>q. p_semAdd (pcbs s' q) = p_semAdd (pcbs s q)) \<Longrightarrow> threads_ok k I s' T"
  using sides_held_cong [of s' _ k s] by (simp add: threads_ok_def holds_def)

text \<open>A process that does not wait may change what it does, on its side.\<close>

lemma threads_ok_upd:
  assumes "threads_ok k I s T" and "thread_obeys k t" and "lone (sides_held k s c t)"
    and "Inside \<in> set (sides_held k s c t) \<Longrightarrow> c \<in> I"
  shows "threads_ok k I s (T(c := t))"
  using assms by (auto simp: threads_ok_def holds_def)

lemma threads_okD:
  assumes "threads_ok k I s T"
  shows "thread_obeys k (T q)" and "lone (sides_held k s q (T q))" and "Inside \<in> set (sides_held k s q (T q)) \<Longrightarrow> q \<in> I"
  using assms by (auto simp: threads_ok_def holds_def)

lemma starts_obeys: "lock_apart G \<Longrightarrow> starts A G pc m \<Longrightarrow> obeys (at_sem G sem_term_mut) Outside m"
  by (rule processes_obey [OF _ starts_processes])

lemma lands_ok:
  assumes l: "lands A G out s T T'" and ok: "threads_ok k I s T" and G: "lock_apart G" and k: "k = at_sem G sem_term_mut"
    and free: "\<And>c. current_active_process s = Some c \<Longrightarrow> p_semAdd (pcbs s c) \<noteq> k"
  shows "threads_ok k I s T'"
  using l
proof cases
  case (begins c st m)
  have "obeys k Outside m" using starts_obeys [OF G begins(5)] by (simp add: k)
  then have "threads_ok k I s (T(c := Thread (Running m) Outside []))"
    using free [OF begins(3)] by (intro threads_ok_upd [OF ok]) simp_all
  then show ?thesis by (simp only: begins(2))
next
  case (answered c f b l st)
  have "threads_ok k I s (T(c := Thread (Running (f (Word (gpr st (ix_v0 A))))) b l))"
    using threads_okD [OF ok, of c] answered(4) by (intro threads_ok_upd [OF ok]) auto
  then show ?thesis by (simp only: answered(2))
next
  case (passed_up c a b l pc m sp status')
  have 1: "obeys k Outside m" using starts_obeys [OF G passed_up(5)] by (simp add: k)
  have 2: "\<forall>r. obeys k b (interrupted a r)" using threads_okD(1) [OF ok, of c] passed_up(4) by (cases a) simp_all
  have "threads_ok k I s (T(c := Thread (Running m) Outside ((b, interrupted a) # l)))"
    using 1 2 free [OF passed_up(3)] threads_okD [OF ok, of c] passed_up(4)
    by (intro threads_ok_upd [OF ok]) simp_all
  then show ?thesis by (simp only: passed_up(2))
qed (use ok in simp_all)

section \<open>Exceptions\<close>

lemma spares_args: "args_clear A k s \<Longrightarrow>
    \<not> (kernel_call A s \<and> sys_code A s \<in> {PASSEREN, VERHOGEN} \<and> FIRST_PARAM A s = k) \<Longrightarrow> spares A k s"
  by (auto simp: args_clear_def spares_def)

lemma running_not_waiting: "wf_kernel s \<Longrightarrow> current_active_process s = Some c \<Longrightarrow> k \<noteq> 0 \<Longrightarrow> p_semAdd (pcbs s c) \<noteq> k"
proof -
  assume "wf_kernel s" and c: "current_active_process s = Some c" and k: "k \<noteq> 0"
  then obtain v where "kinv s v" by (auto simp: wf_kernel_def)
  from kinvD(5) [OF this c] k show ?thesis by (simp add: v_queued_def)
qed

text \<open>An exception that is no call on the lock.\<close>

lemma exception_ok:
  assumes ok: "lock_ok k I s" "threads_ok k I s T" and w: "wf_kernel s"
    and run: "exc_code A s = EXC_INT A \<or> current_active_process s \<noteq> None"
    and A: "null_n_type A \<noteq> None" and k: "\<not> kernel_word A k"
    and b: "buffers_clear A k s" and sp: "spares A k s" and r: "exceptionHandler A s = Some (out', s')"
  shows "lock_ok k I s' \<and> threads_ok k I s' (settle s' T)"
proof -
  note u = exceptionHandler_untouched [OF r A w run k b sp]
  have "same_waiting k s s'"
    using exceptionHandler_waits [OF r w run k sp] u by (auto simp: same_waiting_def waits_on_def untouched_def)
  with lock_ok_untouched [OF ok(1) u] threads_ok_settle [OF ok(2)] show ?thesis by blast
qed

text \<open>The thread of a process that calls: its call is remembered.\<close>

abbreviation asking :: "u32 \<Rightarrow> nat \<Rightarrow> (answer \<Rightarrow> unit prog) \<Rightarrow> event \<Rightarrow> side \<Rightarrow> (side \<times> (answer \<Rightarrow> unit prog)) list \<Rightarrow>
    (nat \<Rightarrow> thread) \<Rightarrow> nat \<Rightarrow> thread" where
  "asking k c f e b l T \<equiv> T(c := Thread (Asked f) (after_call k e b) l)"

lemma asking_other:
  assumes ok: "threads_ok k I s T" and t: "T c = Thread (Running (Do e f)) b l" and n: "\<not> locks k e" "\<not> unlocks k e"
  shows "threads_ok k I s (asking k c f e b l T)"
  using threads_okD [OF ok, of c] t n by (intro threads_ok_upd [OF ok]) (auto simp: after_call_def)

lemma threads_obey_asking:
  assumes ok: "threads_ok k I s T" and t: "T c = Thread (Running (Do e f)) b l"
  shows "thread_obeys k (asking k c f e b l T q)"
  using threads_okD(1) [OF ok, of c] threads_okD(1) [OF ok, of q] t locks_unlocks [of k e]
  by (auto simp: after_call_def split: if_splits)

text \<open>How the state of the lock and of the processes changes with a call on it.\<close>

lemma threads_okI:
  assumes "\<And>q. thread_obeys k (T q)" and "\<And>q. lone (sides_held k s q (T q))"
    and "\<And>q. Inside \<in> set (sides_held k s q (T q)) \<Longrightarrow> q \<in> I"
  shows "threads_ok k I s T"
  using assms by (auto simp: threads_ok_def holds_def)

lemma settled_threads: "threads_ok k I s T \<Longrightarrow> threads_ok k I s (settle s T)"
  by (erule threads_ok_settle) (auto simp: same_waiting_def)

lemma enters_threads:
  assumes ok: "threads_ok k {} s T" and t: "T c = Thread (Running (Do e f)) b l" and e: "locks k e"
    and free: "\<And>p. p_semAdd (pcbs s p) \<noteq> k" and same: "\<And>p. p_semAdd (pcbs s' p) = p_semAdd (pcbs s p)"
  shows "threads_ok k {c} s' (asking k c f e b l T)"
proof (rule threads_okI)
  fix q
  show "thread_obeys k (asking k c f e b l T q)" by (rule threads_obey_asking [OF ok t])
  have none: "Inside \<notin> set (sides_held k s q (T q))" for q using threads_okD(3) [OF ok, of q] by blast
  have eq: "sides_held k s' q u = sides_held k s q u" for u by (rule sides_held_cong) (simp add: same)
  show "lone (sides_held k s' q (asking k c f e b l T q))"
    using none [of c] threads_okD(2) [OF ok, of q] t e free by (auto simp: after_call_def eq)
  show "Inside \<in> set (sides_held k s' q (asking k c f e b l T q)) \<Longrightarrow> q \<in> {c}"
    using none [of q] by (auto simp: eq split: if_splits)
qed

lemma waits_threads:
  assumes ok: "threads_ok k I s T" and t: "T c = Thread (Running (Do e f)) b l"
    and c: "p_semAdd (pcbs s c) \<noteq> k"
    and same: "\<And>p. p_semAdd (pcbs s' p) = (if p = c then k else p_semAdd (pcbs s p))"
  shows "threads_ok k I s' (asking k c f e b l T)"
proof (rule threads_okI)
  fix q
  show "thread_obeys k (asking k c f e b l T q)" by (rule threads_obey_asking [OF ok t])
  have eq: "sides_held k s' q u = sides_held k s q u" if "q \<noteq> c" for u
    using that by (intro sides_held_cong) (simp add: same)
  have "sides_held k s c (T c) = b # map fst l" using t c by simp
  then have lc: "lone (map fst l)" "Inside \<in> fst ` set l \<Longrightarrow> c \<in> I"
    using threads_okD(2,3) [OF ok, of c] by (auto dest: lone_ConsD)
  show "lone (sides_held k s' q (asking k c f e b l T q))"
    using threads_okD(2) [OF ok, of q] lc(1) eq by (cases "q = c") (simp_all add: same)
  show "Inside \<in> set (sides_held k s' q (asking k c f e b l T q)) \<Longrightarrow> q \<in> I"
    using threads_okD(3) [OF ok, of q] lc(2) eq by (cases "q = c") (simp_all add: same)
qed

text \<open>V by the only process inside; with a waiting process, that one is inside afterwards.\<close>

lemma leaves_threads:
  assumes ok: "threads_ok k {c} s T" and t: "T c = Thread (Running (Do e f)) Inside l" and e: "unlocks k e"
    and c: "p_semAdd (pcbs s c) \<noteq> k" and sub: "I \<subseteq> {q. p_semAdd (pcbs s q) = k}"
    and same: "\<And>p. p_semAdd (pcbs s' p) = k \<longleftrightarrow> p_semAdd (pcbs s p) = k \<and> p \<notin> I"
  shows "threads_ok k I s' (asking k c f e Inside l T)"
proof (rule threads_okI)
  fix q
  show "thread_obeys k (asking k c f e Inside l T q)" by (rule threads_obey_asking [OF ok t])
  have lc: "lone (Inside # map fst l)" using threads_okD(2) [OF ok, of c] t c by simp
  have after: "after_call k e Inside = Outside" using e locks_unlocks [of k e] by (auto simp: after_call_def)
  have others: "Inside \<notin> set (sides_held k s q (T q))" if "q \<noteq> c"
    using threads_okD(3) [OF ok, of q] that by blast
  have cI: "c \<notin> I" using sub c by blast
  have cs: "sides_held k s' c (Thread (Asked f) Outside l) = Outside # map fst l" using c by (simp add: same)
  have qs: "lone (sides_held k s' q (T q)) \<and> (Inside \<in> set (sides_held k s' q (T q)) \<longrightarrow> q \<in> I)" if "q \<noteq> c"
  proof (cases "q \<in> I")
    case False
    then have "sides_held k s' q (T q) = sides_held k s q (T q)" by (intro sides_held_cong) (simp add: same)
    with others [OF that] threads_okD(2) [OF ok, of q] show ?thesis by simp
  next
    case True
    then have w: "p_semAdd (pcbs s q) = k" "p_semAdd (pcbs s' q) \<noteq> k" using sub same by auto
    show ?thesis
    proof (cases "T q")
      case (Thread a b m)
      then have "Inside \<notin> set (map fst m)" using others [OF that] w(1) by simp
      then have "lone (b # map fst m)" by (rule lone_none)
      then show ?thesis using Thread w(2) True by simp
    qed simp
  qed
  show "lone (sides_held k s' q (asking k c f e Inside l T q))"
    using qs lone_none [of "map fst l" Outside] lc cs by (cases "q = c") (auto simp: after)
  show "Inside \<in> set (sides_held k s' q (asking k c f e Inside l T q)) \<Longrightarrow> q \<in> I"
    using qs lc cs by (cases "q = c") (auto simp: after)
qed

section \<open>Runs\<close>

definition sys_ok :: "u32 \<Rightarrow> system \<Rightarrow> bool" where
  "sys_ok k x \<longleftrightarrow> (case x of (T, out, s) \<Rightarrow> settled (out, s) \<and> (\<exists>I. lock_ok k I s \<and> threads_ok k I s T))"

lemma sys_okI: "settled (out, s) \<Longrightarrow> lock_ok k I s \<Longrightarrow> threads_ok k I s T \<Longrightarrow> sys_ok k (T, out, s)"
  by (auto simp: sys_ok_def)

lemma outside_ok:
  assumes "outside s s'" and "mem s' k = mem s k"
  shows "settled (out, s) \<Longrightarrow> settled (out, s')" and "lock_ok k I s \<Longrightarrow> lock_ok k I s'"
    and "threads_ok k I s T \<Longrightarrow> threads_ok k I s' T" and "current_active_process s' = current_active_process s"
proof -
  show "settled (out, s')" if "settled (out, s)"
    using that outside_wf [OF assms(1)] by (simp add: settled_def goes_on_def)
  show "lock_ok k I s \<Longrightarrow> lock_ok k I s'" by (erule lock_ok_untouched) (rule outside_untouched [OF assms])
  show "threads_ok k I s T \<Longrightarrow> threads_ok k I s' T"
    by (erule threads_ok_same) (use assms(1) in \<open>auto simp: outside_def\<close>)
  show "current_active_process s' = current_active_process s" using assms(1) by (auto simp: outside_def)
qed

lemma outside_memory: "outside s (s\<lparr>mem := m, supports := u\<rparr>)"
  unfolding outside_def
  by (intro exI [of _ m] exI [of _ u] exI [of _ "bios_state s"] exI [of _ "reg_STATUS s"] exI [of _ "reg_CAUSE s"]
      exI [of _ "reg_TIMER s"] exI [of _ "interval_timer s"] exI [of _ "tod s"]) (cases s, simp)

lemma acts_outside:
  assumes "acts A e s r s'"
  shows "outside s s'"
proof (cases "serve A e s")
  case None
  with assms show ?thesis by (simp add: acts_def)
next
  case (Some y)
  with assms have "serve A e s = Some (r, s')" "\<not> is_syscall e" by (simp_all add: acts_def)
  then have "\<exists>m u. s' = s\<lparr>mem := m, supports := u\<rparr>"
    by (intro exI [of _ "mem s'"] exI [of _ "supports s'"]) (cases s; cases e; auto simp: store_word_def)
  then show ?thesis using outside_memory by blast
qed

lemma allocates_ok:
  assumes w: "settled (out, s)" and r: "allocNamespace t s = Some (n, s')"
  shows "settled (out, s') \<and> mem s' = mem s \<and> pcbs s' = pcbs s \<and> current_active_process s' = current_active_process s"
proof -
  from w obtain v where v: "kinv s v" by (auto simp: settled_def wf_kernel_def)
  show ?thesis
  proof (cases "v_nsfree v")
    case Nil
    with allocNamespace_view_empty [OF kinvD(1) [OF v]] r w show ?thesis by auto
  next
    case (Cons i ns)
    let ?s = "s\<lparr>nsds := (nsds s)(i := (nsds s i)\<lparr>n_type := t\<rparr>)\<rparr>"
    obtain h hh ds where
      1: "allocNamespace t s = Some (Some i, relink h hh ds ?s)" "kabs (relink h hh ds ?s) (v\<lparr>v_nsfree := ns\<rparr>)"
      using allocNamespace_view [OF kinvD(1) [OF v] Cons] by (rule runs_toE)
    have "inv_core ?s (v\<lparr>v_nsfree := ns\<rparr>)" "cur_ok ?s (v\<lparr>v_nsfree := ns\<rparr>)"
      using v by (auto simp: kinv_def inv_core_def in_table_def kid_rel_def cur_ok_def v_queued_def)
    then have "wf_kernel s'" using 1 r by (auto simp: wf_kernel_def kinv_def)
    then show ?thesis using 1(1) r w by (auto simp: settled_def)
  qed
qed

text \<open>A call on the lock.\<close>

lemma call_ok:
  assumes lk: "lock_ok k I s" and ok: "threads_ok k I s T" and set: "settled (out, s)" and cur: "current_active_process s = Some c"
    and t: "T c = Thread (Running (Do e f)) b l" and e: "locks k e \<or> unlocks k e" and c: "called A e s" and mode: "kernel_mode A s"
    and A: "sys_distinct A" and k0: "k \<noteq> 0" and r: "exceptionHandler A s = Some (out', s')"
  shows "\<exists>I'. lock_ok k I' s' \<and> threads_ok k I' s' (settle s' (asking k c f e b l T))"
proof -
  from set obtain v where v: "kinv s v" and w: "wf_kernel s" by (auto simp: settled_def wf_kernel_def)
  note nc = running_not_waiting [OF w cur k0]
  have side: "act_obeys k b (Running (Do e f))" using threads_okD(1) [OF ok, of c] t by simp
  from e have "\<exists>I'. lock_ok k I' s' \<and> threads_ok k I' s' (asking k c f e b l T)"
  proof
    assume l: "locks k e"
    then have call: "sem_call A PASSEREN k s" using c mode by (auto simp: sem_call_def kernel_call_def called_def)
    show ?thesis
    proof (cases "mem s k = 0")
      case True
      from waits_ok [OF v k0 A lk cur call True r] waits_threads [OF ok t nc waits_state(2) [OF v k0 A cur call True r]]
      show ?thesis by blast
    next
      case False
      note st = enters_state [OF v k0 A lk cur call False r]
      have "threads_ok k {} s T" using ok by (simp add: st(1))
      from enters_threads [OF this t l st(3,4)] enters_ok [OF v k0 A lk cur call False r] st(1) show ?thesis by auto
    qed
  next
    assume u: "unlocks k e"
    then have call: "sem_call A VERHOGEN k s" using c mode by (auto simp: sem_call_def kernel_call_def called_def)
    have b: "b = Inside" using side u locks_unlocks [of k e] by (auto split: if_splits)
    then have cI: "c \<in> I" using threads_okD(3) [OF ok, of c] t nc by simp
    note st = leaves_state [OF v k0 A lk cur cI call r]
    have ok1: "threads_ok k {c} s T" using ok st(1) by simp
    have t1: "T c = Thread (Running (Do e f)) Inside l" using t b by simp
    from st(4) obtain h where h: "headBlocked k s = Some h" by blast
    show ?thesis
    proof (cases h)
      case None
      note m = st(2) [OF h [unfolded None]]
      have "threads_ok k {} s' (asking k c f e Inside l T)"
        by (rule leaves_threads [OF ok1 t1 u nc]) (use m in auto)
      moreover have "lock_ok k {} s'" using m by (simp add: lock_ok_def)
      ultimately show ?thesis using b by blast
    next
      case (Some q)
      note m = st(3) [OF h [unfolded Some]]
      have "threads_ok k {q} s' (asking k c f e Inside l T)"
        by (rule leaves_threads [OF ok1 t1 u nc]) (use m k0 in auto)
      moreover have "lock_ok k {q} s'" using m by (simp add: lock_ok_def)
      ultimately show ?thesis using b by blast
    qed
  qed
  then show ?thesis using settled_threads by blast
qed

text \<open>What every step keeps.\<close>

lemma lands_sys_ok:
  assumes "lands A G out s T T'" and "settled (out, s)" and "lock_ok k I s" and "threads_ok k I s T"
    and "lock_apart G" and "k = at_sem G sem_term_mut" and "k \<noteq> 0"
  shows "sys_ok k (T', out, s)"
proof (rule sys_okI [OF assms(2,3)])
  have "wf_kernel s" using assms(2) by (simp add: settled_def)
  then show "threads_ok k I s T'"
    by (intro lands_ok [OF assms(1,4-6)] running_not_waiting assms(7))
qed

lemma sys_step_ok:
  assumes st: "sys_step A G k x y" and ok: "sys_ok k x" and G: "lock_apart G" "k = at_sem G sem_term_mut"
    and A: "null_n_type A \<noteq> None" "sys_distinct A" and k: "\<not> kernel_word A k"
  shows "sys_ok k y"
proof -
  have k0: "k \<noteq> 0" using k by (simp add: kernel_word_def)
  have stays: "sys_ok k (T', out, s)" if "settled (out, s)" "lock_ok k I s" "threads_ok k I s T" "T' = T(c := t)"
    "thread_obeys k t" "lone (sides_held k s c t)" "Inside \<in> set (sides_held k s c t) \<Longrightarrow> c \<in> I" for T' out s I T c t
    using sys_okI [OF that(1,2) threads_ok_upd [OF that(3,5-7)]] that(4) by simp
  from st show ?thesis
  proof cases
    case (world out s s' T)
    with ok obtain I where I: "settled (out, s)" "lock_ok k I s" "threads_ok k I s T" by (auto simp: sys_ok_def)
    note o = outside_ok [OF world(4,5)]
    from sys_okI [OF o(1) [OF I(1)] o(2) [OF I(2)] o(3) [OF I(3)]] show ?thesis by (simp add: world)
  next
    case (turn out s c T m b l)
    with ok obtain I where I: "settled (out, s)" "lock_ok k I s" "threads_ok k I s T" by (auto simp: sys_ok_def)
    show ?thesis unfolding turn(2)
      by (rule stays [OF I refl]) (use threads_okD [OF I(3), of c] turn(5) in auto)
  next
    case (acts out s c T e f b l r s')
    with ok obtain I where I: "settled (out, s)" "lock_ok k I s" "threads_ok k I s T" by (auto simp: sys_ok_def)
    note o = outside_ok [OF acts_outside [OF acts(6)] acts(7)]
    have n: "\<not> is_syscall e" using acts(6) by (simp add: acts_def)
    show ?thesis unfolding acts(2)
      by (rule stays [OF o(1) [OF I(1)] o(2) [OF I(2)] o(3) [OF I(3)] refl])
        (use threads_okD [OF o(3) [OF I(3)], of c] acts(5) n in auto)
  next
    case (allocates out s c T t f b l n s' a)
    with ok obtain I where I: "settled (out, s)" "lock_ok k I s" "threads_ok k I s T" by (auto simp: sys_ok_def)
    note al = allocates_ok [OF I(1) allocates(6)]
    have 1: "settled (out, s')" "lock_ok k I s'" using al I(2) by (simp_all add: lock_ok_def)
    have 2: "threads_ok k I s' T" by (rule threads_ok_same [OF I(3)]) (simp add: al)
    show ?thesis unfolding allocates(2)
      by (rule stays [OF 1 2 refl]) (use threads_okD [OF 2, of c] allocates(5) in auto)
  next
    case (calls out s c T e f b l s1 out' s' T')
    with ok obtain I where I: "settled (out, s)" "lock_ok k I s" "threads_ok k I s T" by (auto simp: sys_ok_def)
    note o = outside_ok [OF calls(6,7)]
    note J = o(1) [OF I(1)] o(2) [OF I(2)] o(3) [OF I(3)]
    have cur: "current_active_process s1 = Some c" using calls(4) o(4) by simp
    have w: "wf_kernel s1" using J(1) by (simp add: settled_def)
    have s': "settled (out', s')" by (rule exceptionHandler_settled [OF w _ calls(11)]) (simp add: cur)
    have "\<exists>I'. lock_ok k I' s' \<and> threads_ok k I' s' (settle s' (asking k c f e b l T))"
    proof (cases "locks k e \<or> unlocks k e")
      case True
      with call_ok [OF J(2,3,1) cur calls(5) _ calls(8) _ A(2) k0 calls(11)] calls(9) show ?thesis by blast
    next
      case False
      have sp: "spares A k s1"
        by (rule spares_args [OF calls(10)]) (use False calls(8) in \<open>auto simp: called_def\<close>)
      have b: "buffers_clear A k s1" using calls(10) by (simp add: args_clear_def)
      have "threads_ok k I s1 (asking k c f e b l T)" using asking_other [OF J(3) calls(5)] False by blast
      from exception_ok [OF J(2) this w _ A(1) k b sp calls(11)] cur show ?thesis by auto
    qed
    then show ?thesis unfolding calls(2) using lands_sys_ok [OF calls(12) s' _ _ G k0] by blast
  next
    case (traps out s s1 out' s' T T')
    with ok obtain I where I: "settled (out, s)" "lock_ok k I s" "threads_ok k I s T" by (auto simp: sys_ok_def)
    note o = outside_ok [OF traps(4,5)]
    note J = o(1) [OF I(1)] o(2) [OF I(2)] o(3) [OF I(3)]
    have w: "wf_kernel s1" and cur: "current_active_process s1 \<noteq> None" using J(1) traps(3) by (auto simp: settled_def)
    have sp: "spares A k s1" using traps(6) by (simp add: spares_def kernel_call_def)
    have s': "settled (out', s')" by (rule exceptionHandler_settled [OF w _ traps(8)]) (simp add: cur)
    from exception_ok [OF J(2,3) w _ A(1) k traps(7) sp traps(8)] cur show ?thesis
      unfolding traps(2) using lands_sys_ok [OF traps(9) s' _ _ G k0] by blast
  next
    case (wakes s s1 out' s' T T')
    with ok obtain I where I: "settled (WAIT, s)" "lock_ok k I s" "threads_ok k I s T" by (auto simp: sys_ok_def)
    note o = outside_ok [OF wakes(3,4)]
    note J = o(1) [OF I(1)] o(2) [OF I(2)] o(3) [OF I(3)]
    have w: "wf_kernel s1" using J(1) by (auto simp: settled_def)
    have sp: "spares A k s1" using wakes(5) A(2) by (auto simp: spares_def kernel_call_def sys_distinct_def)
    have s': "settled (out', s')" by (rule exceptionHandler_settled [OF w _ wakes(7)]) (simp add: wakes(5))
    from exception_ok [OF J(2,3) w _ A(1) k wakes(6) sp wakes(7)] wakes(5) show ?thesis
      unfolding wakes(2) using lands_sys_ok [OF wakes(8) s' _ _ G k0] by blast
  next
    case (goes_back out s c T st b b' f l)
    with ok obtain I where I: "settled (out, s)" "lock_ok k I s" "threads_ok k I s T" by (auto simp: sys_ok_def)
    have "wf_kernel s" using I(1) by (simp add: settled_def)
    note nc = running_not_waiting [OF this goes_back(4) k0]
    show ?thesis unfolding goes_back(2)
      by (rule stays [OF I refl]) (use threads_okD [OF I(3), of c] goes_back(5) nc in \<open>auto dest: lone_ConsD\<close>)
  next
    case (goes_elsewhere out s c T st b l m)
    with ok obtain I where I: "settled (out, s)" "lock_ok k I s" "threads_ok k I s T" by (auto simp: sys_ok_def)
    have "wf_kernel s" using I(1) by (simp add: settled_def)
    note nc = running_not_waiting [OF this goes_elsewhere(4) k0]
    have m: "obeys k Outside m" using starts_obeys [OF G(1) goes_elsewhere(6)] G(2) by simp
    show ?thesis unfolding goes_elsewhere(2)
      by (rule stays [OF I refl]; cases l)
        (use threads_okD [OF I(3), of c] goes_elsewhere(5) nc m in \<open>auto dest!: lone_ConsD\<close>)
  qed
qed

lemma sys_boot_ok:
  assumes z: "zeroed s0" and r: "main_entry A s0 = Some (out, s)" and l: "lands A G out s (\<lambda>_. Fresh) T"
    and m: "mem s k = sem_initially sem_term_mut" and G: "lock_apart G" "k = at_sem G sem_term_mut" and k0: "k \<noteq> 0"
  shows "sys_ok k (T, out, s)"
proof -
  from main_entry_boot [OF z, of A] r have v: "kinv s (v_first\<lparr>v_ready := []\<rparr>)" by auto
  have "p_semAdd (pcbs s p) \<noteq> k" for p
    using kabs_facts(8) [OF kinvD(1) [OF v] k0, of p] by (simp add: v_first_def v_boot_def)
  then have "lock_ok k {} s" using m by (simp add: lock_ok_def sem_initially_def)
  moreover have "threads_ok k {} s (\<lambda>_. Fresh)" by (simp add: threads_ok_def holds_def)
  ultimately show ?thesis using lands_sys_ok [OF l boot_settled [OF z r] _ _ G k0] by blast
qed

lemma sys_run_ok:
  assumes "sys_run A G k x" and G: "lock_apart G" "k = at_sem G sem_term_mut"
    and A: "null_n_type A \<noteq> None" "sys_distinct A" and k: "\<not> kernel_word A k"
  shows "sys_ok k x"
  using assms(1)
proof induction
  case (boot s0 out s T)
  have "k \<noteq> 0" using k by (simp add: kernel_word_def)
  from sys_boot_ok [OF boot G this] show ?case .
next
  case (step x y)
  then show ?case by (blast intro: sys_step_ok [OF _ _ G A k])
qed

text \<open>
  At most one process holds the lock, and who gives a command to the terminal holds it.
\<close>

lemma sys_run_exclusive:
  assumes "sys_run A G k (T, out, s)" and "lock_apart G" and "k = at_sem G sem_term_mut"
    and "null_n_type A \<noteq> None" and "sys_distinct A" and k: "\<not> kernel_word A k"
  shows "holds k s T p \<Longrightarrow> holds k s T q \<Longrightarrow> p = q" and "holds k s T p \<Longrightarrow> mem s k = 0"
    and "current_active_process s = Some c \<Longrightarrow> T c = Thread (Running (Do e f)) b l \<Longrightarrow> prints e \<Longrightarrow> holds k s T c"
proof -
  have k0: "k \<noteq> 0" using k by (simp add: kernel_word_def)
  from sys_run_ok [OF assms] obtain I where
    I: "settled (out, s)" "lock_ok k I s" "threads_ok k I s T" by (auto simp: sys_ok_def)
  have held: "p \<in> I" if "holds k s T p" for p using threads_okD(3) [OF I(3)] that by (simp add: holds_def)
  show "holds k s T p \<Longrightarrow> holds k s T q \<Longrightarrow> p = q" "holds k s T p \<Longrightarrow> mem s k = 0"
    using held I(2) by (auto simp: lock_ok_def)
  assume c: "current_active_process s = Some c" and t: "T c = Thread (Running (Do e f)) b l" and e: "prints e"
  have "wf_kernel s" using I(1) by (simp add: settled_def)
  note nc = running_not_waiting [OF this c k0]
  have "\<not> locks k e" "\<not> unlocks k e" using e by (auto simp: prints_def locks_def unlocks_def)
  then have "b = Inside" using threads_okD(1) [OF I(3), of c] t e by simp
  then show "holds k s T c" using t nc by (simp add: holds_def)
qed

end
