(* ===== verification/Test_Setup.thy ===== *)
theory Test_Setup
  imports Program_Run
begin

text \<open>
  The states the first process of the test makes for the others: each starts at its function, with
  interrupts on, and on a page of stack of its own.  The program runs here on a store that only
  has the memory of the process, with the structures at their addresses.
\<close>

unbundle bit_operations_syntax

section \<open>The memory of a process\<close>

record ustore =
  u_words :: "u32 \<Rightarrow> u32"
  u_states :: "u32 \<Rightarrow> state_t"
  u_supports :: "u32 \<Rightarrow> support_t"
  u_cpu :: state_t

fun store_serve :: "event \<Rightarrow> (ustore, answer) action" where
  "store_serve (Load a) w = Some (Word (u_words w a), w)"
| "store_serve (Store a x) w = Some (Unit, w\<lparr>u_words := (u_words w)(a := x)\<rparr>)"
| "store_serve (Load_state a) w = Some (State (u_states w a), w)"
| "store_serve (Store_state a st) w = Some (Unit, w\<lparr>u_states := (u_states w)(a := st)\<rparr>)"
| "store_serve (Load_support a) w = Some (Support (u_supports w a), w)"
| "store_serve (Store_support a u) w = Some (Unit, w\<lparr>u_supports := (u_supports w)(a := u)\<rparr>)"
| "store_serve (Stst a) w = Some (Unit, w\<lparr>u_states := (u_states w)(a := u_cpu w)\<rparr>)"
| "store_serve _ w = None"

section \<open>The state of a process\<close>

text \<open>The processor state of p1 with another stack and entry, and interrupts enabled.\<close>

definition made_state :: "umps \<Rightarrow> state_t \<Rightarrow> u32 \<Rightarrow> u32 \<Rightarrow> state_t" where
  "made_state A cpu sp pc =
     (set_pc A pc (set_sp A sp cpu))\<lparr>status := status cpu OR IEPBITON OR CAUSEINTMASK OR TEBITON\<rparr>"

text \<open>The function each process runs and how many pages its stack is below the one of p1.\<close>

fun entry_of :: "state_variable \<Rightarrow> function_name" where
  "entry_of hp_p1state = fun_hp_p1" | "entry_of hp_p2state = fun_hp_p2" | "entry_of p2state = fun_p2"
| "entry_of p3state = fun_p3" | "entry_of p4state = fun_p4" | "entry_of p5state = fun_p5"
| "entry_of p6state = fun_p6" | "entry_of p7state = fun_p7" | "entry_of p8rootstate = fun_p8root"
| "entry_of child1state = fun_child1" | "entry_of child2state = fun_child2"
| "entry_of gchild1state = fun_p8leaf1" | "entry_of gchild2state = fun_p8leaf2"
| "entry_of gchild3state = fun_p8leaf3" | "entry_of gchild4state = fun_p8leaf4"
| "entry_of p9state = fun_p9" | "entry_of p10state = fun_p10" | "entry_of p11state = fun_p11"
| "entry_of ns1_a_state = fun_ns_p_parent_ns" | "entry_of ns1_b_state = fun_ns_p_parent_ns"
| "entry_of ns2_a_state = fun_ns_p_new_ns" | "entry_of ns2_b_state = fun_ns_p_new_ns"

fun page_of :: "state_variable \<Rightarrow> nat" where
  "page_of hp_p1state = 1" | "page_of hp_p2state = 2" | "page_of p2state = 3" | "page_of p3state = 4"
| "page_of p4state = 5" | "page_of p5state = 7" | "page_of p6state = 9" | "page_of p7state = 10"
| "page_of p8rootstate = 11" | "page_of child1state = 12" | "page_of child2state = 13"
| "page_of gchild1state = 14" | "page_of gchild2state = 15" | "page_of gchild3state = 16"
| "page_of gchild4state = 17" | "page_of p9state = 18" | "page_of p10state = 19" | "page_of p11state = 20"
| "page_of ns1_a_state = 21" | "page_of ns1_b_state = 22" | "page_of ns2_a_state = 23" | "page_of ns2_b_state = 24"

definition stack_at :: "umps \<Rightarrow> state_t \<Rightarrow> nat \<Rightarrow> u32" where
  "stack_at A cpu n = get_sp A cpu - of_nat n * QPAGE"

definition state_for :: "umps \<Rightarrow> linker \<Rightarrow> state_t \<Rightarrow> state_variable \<Rightarrow> state_t" where
  "state_for A G cpu x = made_state A cpu (stack_at A cpu (page_of x)) (at_fun G (entry_of x))"

lemma get_sp_made: "ix_sp A \<noteq> ix_t9 A \<Longrightarrow> get_sp A (made_state A cpu sp pc) = sp"
  by (simp add: made_state_def get_sp_def set_pc_def set_sp_def)

lemma stack_at_less: "stack_at A cpu n - of_nat k * QPAGE = stack_at A cpu (n + k)"
  by (simp add: stack_at_def algebra_simps)

section \<open>Setting up\<close>

lemma exec_set_up_state:
  "exec store_serve (set_up_state A G st entry prev n m) w = exec store_serve m
     (w\<lparr>u_states := (u_states w)(at_state G st := made_state A (u_cpu w)
        (get_sp A (((u_states w)(at_state G st := u_cpu w)) (at_state G prev)) - n * QPAGE) (at_fun G entry))\<rparr>)"
  by (simp add: set_up_state_def statement_defs made_state_def set_pc_def set_sp_def)

text \<open>The states of the set \<open>S\<close> have been made.\<close>

definition made_for :: "umps \<Rightarrow> linker \<Rightarrow> state_variable set \<Rightarrow> ustore \<Rightarrow> bool" where
  "made_for A G S w \<longleftrightarrow> (\<forall>x \<in> S. u_states w (at_state G x) = state_for A G (u_cpu w) x)"

fun in_order :: "state_variable set \<Rightarrow> (state_variable \<times> function_name \<times> state_variable \<times> u32) list \<Rightarrow> bool" where
  "in_order S [] = True"
| "in_order S ((x, entry, prev, n) # l) \<longleftrightarrow> prev \<in> S \<and> x \<noteq> prev \<and> entry = entry_of x
     \<and> page_of x = page_of prev + unat n \<and> in_order (insert x S) l"

lemma exec_set_up_states:
  assumes "inj (at_state G)" and "ix_sp A \<noteq> ix_t9 A"
  shows "made_for A G S w \<Longrightarrow> in_order S l \<Longrightarrow>
    \<exists>w'. exec store_serve (set_up_states A G l m) w = exec store_serve m w' \<and> made_for A G (S \<union> fst ` set l) w'
      \<and> u_cpu w' = u_cpu w \<and> u_words w' = u_words w"
proof (induction l arbitrary: S w)
  case Nil
  then show ?case by (auto simp: set_up_states_def)
next
  case (Cons y l)
  obtain x entry prev n where y: "y = (x, entry, prev, n)" by (cases y)
  have o: "prev \<in> S" "x \<noteq> prev" "entry = entry_of x" "page_of x = page_of prev + unat n" "in_order (insert x S) l"
    using Cons.prems(2) by (simp_all add: y)
  have ne: "at_state G prev \<noteq> at_state G x" using o(2) assms(1) by (auto dest: injD)
  have "get_sp A (u_states w (at_state G prev)) - n * QPAGE = stack_at A (u_cpu w) (page_of x)"
    using Cons.prems(1) o(1,4) stack_at_less [of A "u_cpu w" "page_of prev" "unat n"]
    by (simp add: made_for_def state_for_def get_sp_made [OF assms(2)])
  then have st: "exec store_serve (set_up_state A G x entry prev n p) w = exec store_serve p
      (w\<lparr>u_states := (u_states w)(at_state G x := state_for A G (u_cpu w) x)\<rparr>)" for p :: "'a prog"
    using ne o(3) by (simp add: exec_set_up_state state_for_def)
  let ?w = "w\<lparr>u_states := (u_states w)(at_state G x := state_for A G (u_cpu w) x)\<rparr>"
  have "made_for A G (insert x S) ?w"
    using Cons.prems(1) assms(1) by (auto simp: made_for_def inj_eq)
  from Cons.IH [OF this o(5)] obtain w' where
    "exec store_serve (set_up_states A G l m) ?w = exec store_serve m w'" "made_for A G (insert x S \<union> fst ` set l) w'"
    "u_cpu w' = u_cpu ?w" "u_words w' = u_words ?w" by blast
  then show ?case
    by (intro exI [of _ w']) (simp add: y set_up_states_def st [unfolded set_up_states_def])
qed

lemma exec_set_up_first:
  assumes "ix_sp A \<noteq> ix_t9 A"
  shows "\<exists>w'. exec store_serve (set_up_state A G hp_p1state fun_hp_p1 hp_p1state 1 m) w = exec store_serve m w'
      \<and> made_for A G {hp_p1state} w' \<and> u_cpu w' = u_cpu w \<and> u_words w' = u_words w"
  unfolding exec_set_up_state
  by (rule exI, rule conjI [OF refl]) (simp add: made_for_def state_for_def stack_at_def)

lemma exec_set_up_p5:
  assumes "inj (at_state G)" and "ix_sp A \<noteq> ix_t9 A" and "made_for A G S w" and "p4state \<in> S"
  shows "\<exists>w'. exec store_serve (set_up_p5 A G m) w = exec store_serve m w' \<and> made_for A G (insert p5state S) w'
      \<and> u_cpu w' = u_cpu w \<and> u_words w' = (u_words w)(at_int G p5Stack := stack_at A (u_cpu w) 7)"
proof -
  have ne: "at_state G p4state \<noteq> at_state G p5state" using assms(1) by (auto dest: injD)
  have sp: "get_sp A (u_states w (at_state G p4state)) - 2 * QPAGE = stack_at A (u_cpu w) 7"
    using assms(3,4) stack_at_less [of A "u_cpu w" 5 2]
    by (simp add: made_for_def state_for_def get_sp_made [OF assms(2)])
  let ?w = "w\<lparr>u_words := (u_words w)(at_int G p5Stack := stack_at A (u_cpu w) 7),
    u_states := (u_states w)(at_state G p5state := state_for A G (u_cpu w) p5state)\<rparr>"
  have "exec store_serve (set_up_p5 A G m) w = exec store_serve m ?w"
    using ne by (simp add: set_up_p5_def statement_defs sp state_for_def made_state_def set_pc_def set_sp_def)
  moreover have "made_for A G (insert p5state S) ?w"
    using assms(1,3) by (auto simp: made_for_def inj_eq)
  ultimately show ?thesis by (intro exI [of _ ?w]) simp
qed

lemma all_states: "fst ` set states_to_p4 \<union> {p5state} \<union> fst ` set states_from_p6 = UNIV"
proof -
  have "x \<in> fst ` set states_to_p4 \<union> {p5state} \<union> fst ` set states_from_p6" for x
    by (cases x) (simp_all add: states_to_p4_def states_from_p6_def)
  then show ?thesis by blast
qed

lemma exec_test_states:
  assumes "inj (at_state G)" and "ix_sp A \<noteq> ix_t9 A"
  shows "\<exists>w'. exec store_serve (test_states A G m) w = exec store_serve m w' \<and> made_for A G UNIV w'
      \<and> u_cpu w' = u_cpu w \<and> u_words w' = (u_words w)(at_int G p5Stack := stack_at A (u_cpu w) 7)"
proof -
  let ?rest = "set_up_p5 A G (set_up_states A G states_from_p6 m)"
  let ?l = "tl states_to_p4"
  have s: "set_up_states A G states_to_p4 ?rest =
      set_up_state A G hp_p1state fun_hp_p1 hp_p1state 1 (set_up_states A G ?l ?rest)"
    by (simp add: set_up_states_def states_to_p4_def)
  from exec_set_up_first [OF assms(2)] obtain w1 where
    1: "exec store_serve (set_up_states A G states_to_p4 ?rest) w = exec store_serve (set_up_states A G ?l ?rest) w1"
    "made_for A G {hp_p1state} w1" "u_cpu w1 = u_cpu w" "u_words w1 = u_words w"
    unfolding s by blast
  have "in_order {hp_p1state} ?l" by (simp add: states_to_p4_def)
  from exec_set_up_states [OF assms 1(2) this, of ?rest] obtain w2 where
    2: "exec store_serve (set_up_states A G ?l ?rest) w1 = exec store_serve ?rest w2"
    "made_for A G ({hp_p1state} \<union> fst ` set ?l) w2" "u_cpu w2 = u_cpu w1" "u_words w2 = u_words w1" by blast
  have "p4state \<in> {hp_p1state} \<union> fst ` set ?l" by (simp add: states_to_p4_def)
  from exec_set_up_p5 [OF assms 2(2) this] obtain w3 where
    3: "exec store_serve ?rest w2 = exec store_serve (set_up_states A G states_from_p6 m) w3"
    "made_for A G (insert p5state ({hp_p1state} \<union> fst ` set ?l)) w3" "u_cpu w3 = u_cpu w2"
    "u_words w3 = (u_words w2)(at_int G p5Stack := stack_at A (u_cpu w2) 7)" by blast
  have "in_order (insert p5state ({hp_p1state} \<union> fst ` set ?l)) states_from_p6"
    by (simp add: states_from_p6_def states_to_p4_def)
  from exec_set_up_states [OF assms 3(2) this, of m] obtain w4 where
    4: "exec store_serve (set_up_states A G states_from_p6 m) w3 = exec store_serve m w4"
    "made_for A G (insert p5state ({hp_p1state} \<union> fst ` set ?l) \<union> fst ` set states_from_p6) w4"
    "u_cpu w4 = u_cpu w3" "u_words w4 = u_words w3" by blast
  have "insert p5state ({hp_p1state} \<union> fst ` set ?l) \<union> fst ` set states_from_p6 = UNIV"
    using all_states by (auto simp: states_to_p4_def)
  with 1 2 3 4 show ?thesis by (intro exI [of _ w4]) (simp add: test_states_def)
qed

lemma page_of_inj: "page_of x = page_of y \<Longrightarrow> x = y"
  by (cases x; cases y; simp)

lemma page_of_bound: "page_of x \<le> 24" "page_of x \<noteq> 6"
  by (cases x; simp)+

text \<open>Different pages are different stacks, a page apart at least in both directions.\<close>

lemma stack_at_less_apart:
  assumes "i \<le> 24" and "j < i"
  shows "QPAGE \<le> stack_at A cpu j - stack_at A cpu i" and "QPAGE \<le> stack_at A cpu i - stack_at A cpu j"
proof -
  have d: "stack_at A cpu j - stack_at A cpu i = of_nat ((i - j) * 1024)"
    using assms(2) by (simp add: stack_at_def QPAGE_def algebra_simps of_nat_diff)
  have u: "unat (of_nat ((i - j) * 1024) :: u32) = (i - j) * 1024"
    unfolding unat_of_nat by (rule mod_less) (use assms in simp)
  then show "QPAGE \<le> stack_at A cpu j - stack_at A cpu i"
    unfolding d word_le_nat_alt u using assms(2) by (simp add: QPAGE_def)
  have "stack_at A cpu i - stack_at A cpu j = - (of_nat ((i - j) * 1024))" unfolding d [symmetric] by simp
  also have "\<dots> = (of_nat (2 ^ 32 - (i - j) * 1024) :: u32)" using assms by (simp add: of_nat_diff)
  also have "QPAGE \<le> \<dots>"
  proof -
    have "unat (of_nat (2 ^ 32 - (i - j) * 1024) :: u32) = 2 ^ 32 - (i - j) * 1024"
      unfolding unat_of_nat by (rule mod_less) (use assms in simp)
    then show ?thesis unfolding word_le_nat_alt using assms(1) by (simp add: QPAGE_def)
  qed
  finally show "QPAGE \<le> stack_at A cpu i - stack_at A cpu j" .
qed

lemma stacks_apart:
  assumes "x \<noteq> y"
  shows "QPAGE \<le> stack_at A cpu (page_of x) - stack_at A cpu (page_of y)"
proof -
  consider "page_of x < page_of y" | "page_of y < page_of x"
    using page_of_inj [of x y] assms by (metis nat_neq_iff)
  then show ?thesis using stack_at_less_apart page_of_bound(1) by cases blast+
qed

end
