(* ===== verification/Print_Run.thy ===== *)
theory Print_Run
  imports Program_Run Print_Prog Runs Io_Abs
begin

text \<open>
  \<open>print\<close> of the test program on the kernel, with a terminal: a process that is alone prints a
  string.  Each character is a system call that blocks the process; the processor waits until the
  terminal has transmitted the character and raises its interrupt; the kernel then completes the
  call and gives the processor back.  The machine is the one of \<open>Umps3\<close>.
\<close>

unbundle bit_operations_syntax

section \<open>The terminal\<close>

text \<open>
  Terminal 0 reports success in its status register, its bit in the bitmap of the line and the
  line in \<open>Cause\<close>.
\<close>

definition transmitted :: "kstate \<Rightarrow> kstate" where
  "transmitted s = s\<lparr>mem := (mem s)(0x1000025C := 5, 0x10000050 := 1), reg_CAUSE := 0x8000,
     bios_state := (bios_state s)\<lparr>cause := 0\<rparr>\<rparr>"

text \<open>
  A call that leaves the processor waiting is over after the interrupt; the terminal has got the
  word in its command register.  The array of \<open>print\<close> is at \<open>a\<close>.
\<close>

fun serve_term :: "u32 \<Rightarrow> event \<Rightarrow> (kstate \<times> u32 list, answer) action" where
  "serve_term a (Syscall a0 a1 a2 a3) (s, out) =
     Option.bind (exceptionHandler umps3 (trap umps3 a0 a1 a2 a3 s)) (\<lambda>(r, t).
     case r of
       LDST st \<Rightarrow> if current_active_process t = current_active_process s
         then Some (Word (gpr st (ix_v0 umps3)), (t, out)) else None
     | WAIT \<Rightarrow> Option.bind (exceptionHandler umps3 (transmitted t)) (\<lambda>(r, u).
         case r of
           LDST st \<Rightarrow> if current_active_process u = current_active_process s
             then Some (Word (gpr st (ix_v0 umps3)), (u, out @ [mem t 0x10000260])) else None
         | _ \<Rightarrow> None)
     | _ \<Rightarrow> None)"
| "serve_term a (Load b) (s, out) = Some (Word (mem s b), (s, out))"
| "serve_term a (Store b w) (s, out) = Some (Unit, (store_word b w s, out))"
| "serve_term a (Local n) (s, out) = Some (Word a, (s, out))"
| "serve_term a _ _ = None"

section \<open>One character\<close>

abbreviation (input) "transm_sem \<equiv> 0x20003084 :: u32"
abbreviation (input) "recv_sem \<equiv> 0x20003080 :: u32"
abbreviation (input) "term0_cmd \<equiv> 0x1000025C :: u32"

lemma term0_facts:
  "io_line umps3 term0_cmd = 7" "io_index umps3 term0_cmd = 33" "io_sem umps3 term0_cmd = transm_sem"
  "io_bit umps3 term0_cmd = Some 1"
proof -
  show l: "io_line umps3 term0_cmd = 7" by (simp add: io_line_def umps3_def)
  have a: "DEV_REG_ADDR umps3 7 0 = 0x10000254" by (simp add: umps3_def)
  have d: "sdiv32 8 8 = 1" "sdiv32 8 16 = 0" by (simp_all add: sdiv32_def)
  show i: "io_index umps3 term0_cmd = 33"
    by (simp add: io_index_def l a) (simp add: umps3_def d)
  have s: "dev_sems_addr umps3 = 0x20003000" by (simp add: umps3_def)
  show "io_sem umps3 term0_cmd = transm_sem" using s by (simp add: io_sem_def i getDevSem_def)
  show "io_bit umps3 term0_cmd = Some 1" by (simp add: io_bit_def l a d shl1_def)
qed

lemma umps3_traps: "traps_ok umps3"
  by (simp add: traps_ok_def umps3_def)

text \<open>The words of the terminal.\<close>

definition term_words :: "u32 set" where
  "term_words = {transm_sem, recv_sem, 0x1000003C, 0x10000050, 0x10000254, 0x10000258, 0x1000025C, 0x10000260}"

definition prints_in :: "nat \<Rightarrow> kview \<Rightarrow> kstate \<Rightarrow> bool" where
  "prints_in p v s \<longleftrightarrow> runs_in umps3 p v s \<and> v_ready v = [] \<and> v_semq v transm_sem = [] \<and> v_semq v recv_sem = []
     \<and> mem s transm_sem = 0 \<and> odd (mem s 0x1000003C) \<and> process_count s \<noteq> 0 \<and> soft_block_count s + 1 \<noteq> 0"

lemma io_command_term0:
  "io_command umps3 term0_cmd vals s = store_word 0x10000260 (mem s (vals + 4)) s"
proof -
  have "IL_TERMINAL umps3 = 7" "DEV_REG_SIZE umps3 = 16" "off_transm_command umps3 = 12" "ix_COMMAND umps3 = 1"
    by (simp_all add: umps3_def)
  then show ?thesis by (simp add: io_command_def term0_facts)
qed

text \<open>The call blocks the process, with the command given.\<close>

definition asked :: "nat \<Rightarrow> u32 \<Rightarrow> kstate \<Rightarrow> kstate" where
  "asked p a s = save_state p (incrementSoftBlockCount (set_semAdd p transm_sem
     (store_word 0x10000260 (mem s (a + 4)) (io_saved a p (advanced (timed p (trap umps3 DOIO term0_cmd a 0 s)))))))"

lemma char_asked:
  assumes "prints_in p v s"
  obtains h hh ds where
    "exceptionHandler umps3 (trap umps3 DOIO term0_cmd a 0 s) = Some (WAIT, relink h hh ds (waiting (asked p a s)))"
    "kinv (relink h hh ds (waiting (asked p a s))) (v_block transm_sem p v)"
proof -
  have r: "runs_in umps3 p v s" and m: "mem s transm_sem = 0" "odd (mem s 0x1000003C)" "process_count s \<noteq> 0"
    "soft_block_count s + 1 \<noteq> 0" and rd: "v_ready v = []"
    using assms by (simp_all add: prints_in_def)
  note f = runs_in_simps [OF r]
  let ?s = "timed p (trap umps3 DOIO term0_cmd a 0 s)"
  note args = trap_args [OF umps3_traps, of DOIO term0_cmd a 0 s]
  have st: "io_started umps3 p ?s = store_word 0x10000260 (mem s (a + 4)) (io_saved a p (advanced ?s))"
    by (simp add: io_started_def args io_command_term0) (simp add: io_saved_def set_pcb_def)
  have bm: "IDEV_BITMAP_ADDR umps3 7 = 0x1000003C" by (simp add: umps3_def)
  have inst: "io_installed umps3 (FIRST_PARAM umps3 ?s) ?s"
    using m(2) by (simp add: io_installed_def args term0_facts bm and_one_eq odd_iff_mod_2_eq_one)
  have mk: "mem (io_started umps3 p ?s) transm_sem = 0"
    unfolding st using m(1) by (simp add: store_word_def io_saved_def set_pcb_def)
  have "resumes (syscallHandler umps3 ?s) (asked p a s) (v_block transm_sem p v)"
    using SYS5_blocks [of ?s v p umps3 transm_sem] f inst mk
    by (simp add: args term0_facts asked_def st)
  moreover have "v_ready (v_block transm_sem p v) = []" using rd by (simp add: v_block_def)
  moreover have "process_count (asked p a s) \<noteq> 0" "0 < soft_block_count (asked p a s)"
    using m(3,4)
    by (simp_all add: asked_def save_state_def set_pcb_def incrementSoftBlockCount_def set_semAdd_def store_word_def
        io_saved_def advanced_def timed_def trap_def word_gt_0)
  ultimately show ?thesis using that
    by (auto simp: resumes_def syscall_exception [OF umps3_traps f(2)])
qed

text \<open>The interrupt of the terminal completes the call: the receiver may be signalled as well.\<close>

definition ack_recv :: "kstate \<Rightarrow> kstate" where
  "ack_recv s = (if half_ready umps3 0x10000254 s then store_word recv_sem 1 (store_word 0x10000258 1 s) else s)"

definition answered :: "nat \<Rightarrow> kstate \<Rightarrow> kstate" where
  "answered p s = ack_recv (io_done umps3 p 0 5 (store_word 0x10000260 1 s))"

lemma umps3_term: "IL_TERMINAL umps3 = 7" "DEV_REG_ADDR umps3 7 0 = 0x10000254" "EXT_IL_INDEX umps3 7 = 4" "DEVPERINT umps3 = 8"
  "off_transm_status umps3 = 8" "off_transm_command umps3 = 12" "off_recv_status umps3 = 0" "off_recv_command umps3 = 4"
  "READY umps3 = 1" "BUSY umps3 = 3" "ACK umps3 = 1" "ix_STATUS umps3 = 0" "dev_sems_addr umps3 = 0x20003000"
  by (simp_all add: umps3_def)

lemma term0_served:
  assumes v: "kinv s v" and q: "v_semq v transm_sem = [p]" "v_semq v recv_sem = []"
    and m: "mem s 0x1000025C = 5" "mem s 0x10000050 = 1"
  shows "ends_ok (manageTerminal umps3 s) (answered p s) (v_wake transm_sem v)"
proof -
  have "CDEV_BITMAP_ADDR umps3 7 = 0x10000050" by (simp add: umps3_def)
  then have d: "getInterruptingDevice umps3 7 s = 0"
    using m(2) by (simp add: getInterruptingDevice_def getInterruptingDevice_loop.simps)
  have b: "term_base umps3 s = 0x10000254" "term_sem umps3 1 s = transm_sem" "term_sem umps3 0 s = recv_sem"
    by (simp_all add: term_base_def term_sem_def umps3_term d getDevSem_def)
  have h: "half_ready umps3 0x1000025C s" by (simp add: half_ready_def m(1) umps3_term)
  have t: "transm_served umps3 v s = io_done umps3 p 0 5 (store_word 0x10000260 1 s)" "v_transm umps3 s v = v_wake transm_sem v"
    using h q(1) m(1)
    by (simp_all add: transm_served_def v_transm_def half_served_def v_half_def b umps3_term signalled_def v_signal_def
        TERMOPSUCCESS_def IOOPSUCCESS_def)
  have qr: "v_semq (v_wake transm_sem v) recv_sem = []" using q(2) by (simp add: v_wake_def)
  have "terminal_served umps3 v s = answered p s" "v_terminal umps3 s v = v_wake transm_sem v"
    using qr
    by (simp_all add: terminal_served_def v_terminal_def t b umps3_term half_served_def v_half_def answered_def ack_recv_def
        signalled_def v_signal_def)
  with manageTerminal_ok [OF v, of umps3] b show ?thesis by simp
qed

lemma transmitted_facts:
  "kinv (transmitted s) v = kinv s v" "current_active_process (transmitted s) = current_active_process s"
  "pcbs (transmitted s) = pcbs s" "exc_code umps3 (transmitted s) = EXC_INT umps3"
  "mem (transmitted s) = (mem s)(0x1000025C := 5, 0x10000050 := 1)"
  "process_count (transmitted s) = process_count s" "soft_block_count (transmitted s) = soft_block_count s"
  by (simp_all add: transmitted_def exc_code_def umps3_def)

lemma waiting_facts:
  "mem (waiting s) = mem s" "process_count (waiting s) = process_count s" "soft_block_count (waiting s) = soft_block_count s"
  by (simp_all add: waiting_def)

lemma term0_interrupt:
  assumes v: "kinv s v" and q: "v_semq v transm_sem = [p]" "v_semq v recv_sem = []" and cur: "current_active_process s = None"
    and rd: "v_ready v = []"
  shows "\<exists>h hh ds. exceptionHandler umps3 (transmitted s) =
      Some (LDST (p_s (pcbs (answered p (transmitted s)) p)), relink h hh ds (running p (answered p (transmitted s))))
    \<and> kinv (relink h hh ds (running p (answered p (transmitted s)))) (v\<lparr>v_semq := (v_semq v)(transm_sem := [])\<rparr>)"
proof -
  let ?s = "transmitted s" and ?w = "v_wake transm_sem v"
  have v': "kinv ?s v" using v by (simp add: transmitted_facts)
  have "ends_ok (manageTerminal umps3 ?s) (answered p ?s) ?w"
    by (rule term0_served [OF v' q]) (simp_all add: transmitted_facts)
  then obtain h hh ds where t: "manageTerminal umps3 ?s = Some (relink h hh ds (answered p ?s))"
    "kinv (relink h hh ds (answered p ?s)) ?w" by (rule ends_okE)
  let ?t = "relink h hh ds (answered p ?s)"
  have cause: "reg_CAUSE ?s = 0x8000" by (simp add: transmitted_def)
  have ip: "CAUSE_IP umps3 l = push_bit (unat l + 8) 1" for l by (simp add: umps3_def)
  have on: "INT_LINE umps3 7 ?s" and off: "l \<in> {1, 2, 3, 4, 5, 6} \<Longrightarrow> \<not> INT_LINE umps3 l ?s" for l
    unfolding INT_LINE_def cause ip by auto
  have lines: "DISKINT umps3 = 3" "FLASHINT umps3 = 4" "NETWINT umps3 = 5" "PRNTINT umps3 = 6" "TERMINT umps3 = 7"
    by (simp_all add: umps3_def)
  have o: "other_lines umps3 ?s = Some ?t"
    using on off by (simp add: other_lines_def lines when_line_off when_line_on t(1))
  have "update_time ?s = Some ?s" using cur by (simp add: update_time_def currentProc_def transmitted_facts)
  then have "exceptionHandler umps3 ?s = interruptHandler umps3 ?s"
    using transmitted_facts(4) by (simp add: exceptionHandler_def exc_code_def)
  also have "\<dots> = (if currentProc ?t = None then schedule ?t else Some (LDST (bios_state ?t), ?t))"
    using off [of 1] o by (simp add: interruptHandler_lines when_line_off)
  also have "currentProc ?t = None"
    using cur by (simp add: currentProc_def answered_def ack_recv_def io_done_def store_word_def set_pcb_def
        decrementSoftBlockCount_def transmitted_facts)
  finally have e: "exceptionHandler umps3 ?s = schedule ?t" by simp
  have "v_ready ?w = [p]" "?w\<lparr>v_ready := []\<rparr> = v\<lparr>v_semq := (v_semq v)(transm_sem := [])\<rparr>"
    using rd q(1) by (simp_all add: v_wake_def)
  with schedule_resumes [OF kinvD(1,2) [OF t(2)], unfolded resumes_relink] show ?thesis
    by (auto simp: e resumes_def)
qed


text \<open>The memory after the interrupt, and what else the next call needs.\<close>

lemma asked_facts:
  "mem (asked p a s) = (mem s)(0x10000260 := mem s (a + 4))" "p_savedDeviceStatus (pcbs (asked p a s) p) = a"
  "process_count (asked p a s) = process_count s" "soft_block_count (asked p a s) = soft_block_count s + 1"
  by (simp_all add: asked_def save_state_def set_pcb_def incrementSoftBlockCount_def set_semAdd_def store_word_def
      io_saved_def advanced_def timed_def trap_def)

lemma answered_facts:
  assumes "p_savedDeviceStatus (pcbs s p) = a" and "a \<notin> term_words"
  shows "mem (answered p s) a = 5" "b \<notin> insert a term_words \<Longrightarrow> mem (answered p s) b = mem s b"
    "mem (answered p s) transm_sem = mem s transm_sem" "mem (answered p s) 0x1000003C = mem s 0x1000003C"
    "process_count (answered p s) = process_count s" "soft_block_count (answered p s) = soft_block_count s - 1"
    "gpr (p_s (pcbs (answered p s) p)) (ix_v0 umps3) = 0" "reg_STATUS (answered p s) = reg_STATUS s"
  using assms
  by (auto simp: answered_def ack_recv_def io_done_def store_word_def set_pcb_def decrementSoftBlockCount_def
      term_words_def umps3_term set_v0_def)

lemma waiting_kernel_mode: "reg_STATUS s = reg_STATUS (waiting t) \<Longrightarrow> kernel_mode umps3 s"
  by (simp add: kernel_mode_def waiting_def umps3_def IECON_def IMON_def TEBITON_def)

text \<open>
  A character is transmitted: the terminal gets the command, the caller the status, and the
  system is ready for the next character.
\<close>

lemma char_served:
  assumes s: "prints_in p v s" and a: "a \<notin> term_words"
  shows "\<exists>t. serve_term a (Syscall DOIO term0_cmd a 0) (s, out) = Some (Word 0, (t, out @ [mem s (a + 4)]))
    \<and> prints_in p v t \<and> mem t a = 5 \<and> (\<forall>b. b \<notin> insert a term_words \<longrightarrow> mem t b = mem s b)"
proof -
  let ?vb = "v_block transm_sem p v"
  from char_asked [OF s] obtain h hh ds where
    t: "exceptionHandler umps3 (trap umps3 DOIO term0_cmd a 0 s) = Some (WAIT, relink h hh ds (waiting (asked p a s)))"
    "kinv (relink h hh ds (waiting (asked p a s))) ?vb" .
  let ?t = "relink h hh ds (waiting (asked p a s))" and ?x = "answered p (transmitted (relink h hh ds (waiting (asked p a s))))"
  have "v_semq ?vb transm_sem = [p]" "v_semq ?vb recv_sem = []" "v_ready ?vb = []" "current_active_process ?t = None"
    using s by (simp_all add: prints_in_def v_block_def waiting_def)
  from term0_interrupt [OF t(2) this(1,2,4,3)] obtain h' hh' ds' where
    u: "exceptionHandler umps3 (transmitted ?t) = Some (LDST (p_s (pcbs ?x p)), relink h' hh' ds' (running p ?x))"
    "kinv (relink h' hh' ds' (running p ?x)) (?vb\<lparr>v_semq := (v_semq ?vb)(transm_sem := [])\<rparr>)" by blast
  let ?u = "relink h' hh' ds' (running p ?x)"
  have v: "?vb\<lparr>v_semq := (v_semq ?vb)(transm_sem := [])\<rparr> = v"
    using s by (simp add: prints_in_def v_block_def fun_upd_idem)
  have saved: "p_savedDeviceStatus (pcbs (transmitted ?t) p) = a"
    by (simp add: transmitted_facts waiting_def asked_facts)
  note x = answered_facts [OF saved a]
  have mt: "mem ?t = (mem s)(0x10000260 := mem s (a + 4))" by (simp add: waiting_def asked_facts)
  have out: "mem ?t 0x10000260 = mem s (a + 4)" by (simp add: mt)
  have "reg_STATUS ?u = reg_STATUS (waiting (asked p a s))"
    by (simp add: running_def x) (simp add: transmitted_def)
  then have "runs_in umps3 p v ?u"
    using u(2) waiting_kernel_mode unfolding v by (auto simp: runs_in_def running_def)
  moreover have "mem ?u transm_sem = mem s transm_sem" "mem ?u 0x1000003C = mem s 0x1000003C"
    "process_count ?u = process_count s" "soft_block_count ?u = soft_block_count s"
    using mt by (simp_all add: running_def x transmitted_facts asked_facts waiting_facts)
  ultimately have "prints_in p v ?u" using s by (simp add: prints_in_def)
  moreover have "mem ?u a = 5" by (simp add: running_def x)
  moreover have "mem ?u b = mem s b" if "b \<notin> insert a term_words" for b
    using that mt by (simp add: running_def x transmitted_facts) (auto simp: term_words_def)
  moreover have "current_active_process s = Some p" "current_active_process ?u = Some p"
    using s by (simp_all add: prints_in_def runs_in_def running_def)
  ultimately show ?thesis
    using u(1) t(1) out x(7) by (intro exI [of _ ?u]) (simp del: fun_upd_apply)
qed


section \<open>A string\<close>

text \<open>The words the program itself stores.\<close>

lemma prints_in_store: "b \<notin> term_words \<Longrightarrow> prints_in p v (store_word b w s) = prints_in p v s"
  by (auto simp: prints_in_def store_word_def term_words_def runs_in_def kernel_mode_def)

lemma exec_print_chars:
  assumes "prints_in p v s" and a: "a \<notin> term_words" "a + 4 \<notin> term_words"
  shows "\<exists>t. exec (serve_term a) (then_do (print_chars msg) m) (s, out) = exec (serve_term a) m (t, out @ map print_cmd msg)
    \<and> prints_in p v t \<and> (\<forall>b. b \<notin> insert a (insert (a + 4) term_words) \<longrightarrow> mem t b = mem s b)"
  using assms(1)
proof (induction msg arbitrary: s out)
  case Nil
  then show ?case by auto
next
  case (Cons c cs)
  let ?s = "store_word (a + 4) (print_cmd c) (store_word a 0 s)"
  have e: "elem_addr a 0 = a" "elem_addr a 1 = a + 4" "elem_addr a (Suc 0) = a + 4" by (simp_all add: elem_addr_def)
  have "prints_in p v ?s" using Cons.prems a by (simp add: prints_in_store)
  from char_served [OF this a(1), of out] obtain t where
    t: "serve_term a (Syscall DOIO term0_cmd a 0) (?s, out) = Some (Word 0, (t, out @ [print_cmd c]))"
    "prints_in p v t" "mem t a = 5" "\<forall>b. b \<notin> insert a term_words \<longrightarrow> mem t b = mem ?s b"
    by (auto simp: store_word_def)
  have "mem t b = mem s b" if "b \<notin> insert a (insert (a + 4) term_words)" for b
    using t(4) that by (simp add: store_word_def)
  moreover from Cons.IH [OF t(2), of "out @ [print_cmd c]"] obtain u where
    "exec (serve_term a) (then_do (print_chars cs) m) (t, out @ [print_cmd c])
      = exec (serve_term a) m (u, out @ print_cmd c # map print_cmd cs)"
    "prints_in p v u" "\<forall>b. b \<notin> insert a (insert (a + 4) term_words) \<longrightarrow> mem u b = mem t b"
    by auto
  ultimately show ?case
    using t(1,3) by (intro exI [of _ u]) (simp add: statement_defs e print_cmd_def [symmetric] PRINT_TERM0_def P2test.TERMSTATMASK_def RECVD_def del: serve_term.simps(1))
qed

text \<open>P and V of a semaphore that no process waits for, on the machine with the terminal.\<close>

lemma serve_term_call:
  assumes "serve umps3 (Syscall a0 a1 a2 a3) s = Some (Word w, t)"
  shows "serve_term a (Syscall a0 a1 a2 a3) (s, out) = Some (Word w, (t, out))"
  using assms by (auto simp: serve.simps(1) bind_eq_Some_conv split: outcome.splits if_splits)

lemma exec_print:
  assumes s: "prints_in p v s" and a: "a \<notin> term_words" "a + 4 \<notin> term_words"
    and k: "k = at_sem G sem_term_mut" "k \<noteq> 0" "k \<notin> insert a (insert (a + 4) term_words)"
    "v_semq v k = []" "mem s k = 1"
  shows "\<exists>t. exec (serve_term a) (print G msg) (s, out) = Some (Inl (), (t, out @ map print_cmd msg))
    \<and> prints_in p v t \<and> (\<forall>b. b \<notin> insert a (insert (a + 4) term_words) \<longrightarrow> mem t b = mem s b)"
proof -
  have kept: "prints_in p v t'" if "prints_in p v t" "runs_in umps3 p v t'" "mem t' = (mem t)(k := w)"
    "process_count t' = process_count t" "soft_block_count t' = soft_block_count t" for t t' w
    using that k(3) by (auto simp: prints_in_def term_words_def)
  have "runs_in umps3 p v s" using s by (simp add: prints_in_def)
  from serve_P [OF umps3_traps this k(2) _ k(4)] k(5) obtain w t where
    t: "serve umps3 (Syscall PASSEREN k 0 0) s = Some (Word w, t)" "runs_in umps3 p v t" "mem t = (mem s)(k := 0)"
      "process_count t = process_count s" "soft_block_count t = soft_block_count s" by auto
  from exec_print_chars [OF kept [OF s t(2-5)] a, of msg "V k (Return ())" out] obtain u where
    u: "exec (serve_term a) (then_do (print_chars msg) (V k (Return ()))) (t, out)
        = exec (serve_term a) (V k (Return ())) (u, out @ map print_cmd msg)" "prints_in p v u"
      "\<forall>b. b \<notin> insert a (insert (a + 4) term_words) \<longrightarrow> mem u b = mem t b" by blast
  have r: "runs_in umps3 p v u" and mu: "mem u k = 0" using u(2,3) t(3) k(3) by (auto simp: prints_in_def)
  have "mem u k \<noteq> 1" by (simp add: mu)
  from serve_V [OF umps3_traps r k(2) this k(4)] obtain w' x where
    x: "serve umps3 (Syscall VERHOGEN k 0 0) u = Some (Word w', x)" "runs_in umps3 p v x" "mem x = (mem u)(k := 1)"
      "process_count x = process_count u" "soft_block_count x = soft_block_count u" by (metis add_0 mu)
  have "mem x b = mem s b" if "b \<notin> insert a (insert (a + 4) term_words)" for b
    using that u(3) t(3) x(3) k(5) by auto
  then show ?thesis
    using kept [OF u(2) x(2-5)] u(1)
    by (intro exI [of _ x])
      (simp add: print_def k(1) [symmetric] P_def V_def call_def serve_term_call [OF t(1)] serve_term_call [OF x(1)]
        del: serve_term.simps(1))
qed

end
