(* ===== verification/Test_Image.thy ===== *)
theory Test_Image
  imports Discipline Test_Setup Print_Run Mutex
begin

text \<open>
  An image of the test program: addresses for its variables, on which the theorems about it are
  applied.  The variables are a page apart, in the order of the source.
\<close>

fun sem_no :: "semaphore \<Rightarrow> nat" where
  "sem_no sem_term_mut = 0" | "sem_no s_array = 1" | "sem_no sem_testsem = 2" | "sem_no sem_startp2 = 3"
| "sem_no sem_endp2 = 4" | "sem_no sem_endp3 = 5" | "sem_no sem_blkp4 = 6" | "sem_no sem_synp4 = 7"
| "sem_no sem_endp4 = 8" | "sem_no sem_endp5 = 9" | "sem_no sem_endp8 = 10" | "sem_no sem_endcreate = 11"
| "sem_no sem_blkp8 = 12" | "sem_no sem_blkp9 = 13" | "sem_no sem_p11 = 14" | "sem_no sem_l_ns1_a = 15"
| "sem_no sem_l_ns1_b = 16" | "sem_no sem_l_ns2_a = 17" | "sem_no sem_l_ns2_b = 18" | "sem_no sem_r_ns1_a = 19"
| "sem_no sem_r_ns1_b = 20" | "sem_no sem_r_ns2_a = 21" | "sem_no sem_r_ns2_b = 22"

definition test_image :: linker where
  "test_image = \<lparr>at_sem = (\<lambda>x. 0x20010000 + 0x1000 * of_nat (sem_no x)),
     at_state = (\<lambda>x. 0x20040000 + 0x1000 * of_nat (page_of x)), at_int = (\<lambda>x. 0x20080000),
     at_fun = (\<lambda>f. 0x20090000), at_pFiveSupport = 0x200A0000\<rparr>"

lemma image_simps:
  "at_sem test_image x = 0x20010000 + 0x1000 * of_nat (sem_no x)"
  "at_state test_image y = 0x20040000 + 0x1000 * of_nat (page_of y)"
  by (simp_all add: test_image_def)

lemma image_states: "inj (at_state test_image)"
proof (rule injI)
  fix x y assume "at_state test_image x = at_state test_image y"
  then have "(0x1000 * of_nat (page_of x) :: u32) = 0x1000 * of_nat (page_of y)" by (simp add: image_simps)
  then have "unat (of_nat (0x1000 * page_of x) :: u32) = unat (of_nat (0x1000 * page_of y) :: u32)" by simp
  then show "x = y"
    using page_of_bound(1) [of x] page_of_bound(1) [of y]
    by (intro page_of_inj) (simp add: unat_of_nat take_bit_nat_eq_self del: of_nat_mult)
qed

lemma sem_no_bound: "sem_no x \<le> 22" "sem_no x = 0 \<longleftrightarrow> x = sem_term_mut"
  by (cases x; simp)+

lemma image_offset:
  assumes "n \<le> 22" and "j < 1024" and "n \<noteq> 0"
  shows "elem_addr (0x20010000 + 0x1000 * of_nat n) j \<noteq> 0x20010000"
proof
  assume "elem_addr (0x20010000 + 0x1000 * of_nat n) j = 0x20010000"
  then have "(of_nat (0x1000 * n + 4 * j) :: u32) = 0" by (simp add: elem_addr_def add.assoc)
  then have "2 ^ 32 dvd 0x1000 * n + 4 * j" by (simp only: word_of_nat_eq_0_iff) simp
  with assms show False by (auto dest!: dvd_imp_le)
qed

lemma image_lock: "lock_apart test_image"
proof -
  have "elem_addr (at_sem test_image x) j \<noteq> at_sem test_image sem_term_mut" if "j < 1024" "x \<noteq> sem_term_mut" for x j
    using image_offset [of "sem_no x" j] sem_no_bound [of x] that by (simp add: image_simps)
  note a = this
  show ?thesis
    unfolding lock_apart_def MAXSEM_def NOLEAVES_def
  proof (intro conjI allI impI)
    fix x assume "at_sem test_image x = at_sem test_image sem_term_mut"
    then show "x = sem_term_mut" using a [of 0 x] by (auto simp: elem_addr_def)
  qed (rule a; simp)+
qed


section \<open>The lock of the terminal\<close>

abbreviation (input) "term_lock \<equiv> 0x20010000 :: u32"

lemma image_lock_addr: "at_sem test_image sem_term_mut = term_lock"
  by (simp add: image_simps)

lemma image_lock_word: "\<not> kernel_word umps3 term_lock"
proof -
  have n: "N_DEV_PER_IL umps3 = 8" by (simp add: umps3_def)
  show ?thesis
    unfolding kernel_word_def n
    by (auto dest!: word_le_8 simp: umps3_def getDevSem_def getPseudoClockSem_def)
qed


text \<open>The first process calls P on the lock, which has its initial value.\<close>

definition lock_mem :: "u32 \<Rightarrow> u32" where
  "lock_mem = (\<lambda>_. 0)(at_sem test_image sem_term_mut := sem_initially sem_term_mut)"

abbreviation locking :: kstate where
  "locking \<equiv> calling_with lock_mem PASSEREN (at_sem test_image sem_term_mut) 0 0"

lemma lock_mem: "lock_mem (at_sem test_image sem_term_mut) = 1"
  by (simp add: lock_mem_def sem_initially_def)

lemma locking_free: "p_semAdd (pcbs locking p) \<noteq> at_sem test_image sem_term_mut"
  using kabs_facts(8) [OF kinvD(1) [OF started_facts(1)], of "at_sem test_image sem_term_mut" p]
  by (auto simp: calling_with_def image_lock_addr)

lemma umps3_distinct: "sys_distinct umps3"
  by (simp add: sys_distinct_def umps3_def)

lemma locking_enters:
  "\<exists>out t. exceptionHandler umps3 locking = Some (out, t) \<and> sem_call umps3 PASSEREN (at_sem test_image sem_term_mut) locking"
proof -
  let ?k = "at_sem test_image sem_term_mut" and ?s = "timed first_pcb locking"
  have call: "sem_call umps3 PASSEREN ?k locking"
    using calling_facts(3-5,9) [of lock_mem PASSEREN ?k 0 0]
    by (simp add: sem_call_def kernel_call_def) (simp add: umps3_def)
  note h = sem_call_handler [OF call umps3_distinct calling_facts(2)]
  have "\<exists>c. syscallHandler umps3 ?s = Some c"
    using SYS3_goes_on [of ?s v_started umps3 ?k] h calling_facts(1) [of lock_mem]
    using lock_mem by (simp add: calling_facts(8) image_lock_addr)
  with h(1) call show ?thesis by auto
qed


section \<open>Memories\<close>

text \<open>The lock is free and the bitmap of the installed terminals has terminal 0; the array of p2.\<close>

definition printing_mem :: "u32 \<Rightarrow> u32" where
  "printing_mem = lock_mem(0x1000003C := 1)"

lemma printing_mem_facts:
  "printing_mem (at_sem test_image sem_term_mut) = 1" "printing_mem term_lock = 1" "printing_mem 0x1000003C = 1"
  "printing_mem transm_sem = 0"
  by (simp_all add: printing_mem_def lock_mem_def image_lock_addr sem_initially_def)

lemma image_array_nonzero:
  assumes "i \<le> MAXSEM"
  shows "elem_addr (at_sem test_image s_array) i \<noteq> 0"
proof
  assume "elem_addr (at_sem test_image s_array) i = 0"
  then have "(of_nat (0x20011000 + 4 * i) :: u32) = 0" by (simp add: elem_addr_def image_simps)
  then have "2 ^ 32 dvd 0x20011000 + 4 * i" by (simp only: word_of_nat_eq_0_iff) simp
  with assms show False by (auto dest!: dvd_imp_le simp: MAXSEM_def)
qed

definition empty_store :: ustore where
  "empty_store = \<lparr>u_words = \<lambda>_. 0, u_states = \<lambda>_. zero_word_state, u_supports = \<lambda>_. zero_support, u_cpu = zero_word_state\<rparr>"

end
