(* ===== verification/Lock_Start.thy ===== *)
theory Lock_Start
  imports Coexistence Test_Image
begin

text \<open>
  A beginning of the test program on the kernel: p1 starts, calls V on \<open>sem_testsem\<close>, and takes
  the lock of the terminal to print its first message.
\<close>

section \<open>A call that the kernel answers at once\<close>

text \<open>What the kernel answers to a process alone is a step of the system.\<close>

lemma serve_step:
  assumes ok: "traps_ok A" and out: "gives_processor out" and r: "runs_in A p v s"
    and T: "T p = Thread (Running (Do (Syscall a0 a1 a2 a3) f)) b l"
    and a: "args_clear A k (trap A a0 a1 a2 a3 s)"
    and sv: "serve A (Syscall a0 a1 a2 a3) s = Some (Word w, t)" and t: "runs_in A p v' t"
  shows "\<exists>T' out'. sys_step A G k (T, out, s) (T', out', t) \<and> gives_processor out'
    \<and> T' p = Thread (Running (f (Word w))) (after_call k (Syscall a0 a1 a2 a3) b) l"
proof -
  let ?s = "trap A a0 a1 a2 a3 s" and ?e = "Syscall a0 a1 a2 a3"
  let ?T = "settle t (T(p := Thread (Asked f) (after_call k ?e b) l))"
  note rs = runs_in_simps [OF r] and rt = runs_in_simps [OF t]
  from sv obtain oc t' where oc: "exceptionHandler A ?s = Some (oc, t')" by (auto simp: serve.simps(1) bind_Some_iff)
  with sv obtain st where st: "exceptionHandler A ?s = Some (LDST st, t)" "w = gpr st (ix_v0 A)"
    by (cases oc) (auto simp: serve.simps(1) split: if_split_asm)
  have "wf_kernel t" using rt(1) by (auto simp: wf_kernel_def)
  then have "\<not> unused t p" using current_not_free rt(2) by (auto simp: unused_def)
  then have u: "?T p = Thread (Asked f) (after_call k ?e b) l" by (simp add: settle_def)
  have o: "outside s ?s"
    using outside_update [where s = s and m = "mem s" and b = "bios_state ?s" and st = "reg_STATUS s"] by (simp add: trap_def)
  have "called A ?e ?s" using trap_args [OF ok] by (simp add: called_def)
  from sys_step.calls [OF out rs(2) T o _ this _ a st(1) lands.answered [of t p ?T, OF rt(2) u]] rs(3)
  have "sys_step A G k (T, out, s) (?T(p := Thread (Running (f (Word w))) (after_call k ?e b) l), LDST st, t)"
    by (simp add: st(2))
  moreover have "gives_processor (LDST st)" by (simp add: gives_processor_def)
  ultimately show ?thesis by (metis fun_upd_same)
qed

text \<open>The calls P and V of a process.\<close>

lemma args_clear_semaphore:
  assumes "traps_ok A" and "a0 \<in> {PASSEREN, VERHOGEN}" and "4 * ix_STATUS A \<noteq> k"
    and "\<forall>q. p_savedDeviceStatus (pcbs s q) = 0"
  shows "args_clear A k (trap A a0 a1 a2 a3 s)"
  using assms by (auto simp: args_clear_def buffers_clear_def trap_args syscall_codes)

section \<open>p1 takes the lock\<close>

abbreviation (input) "the_lock \<equiv> at_sem test_image sem_term_mut"

definition lock_state :: kstate where
  "lock_state = zero_state\<lparr>mem := lock_mem\<rparr>"

lemma lock_state_zeroed: "zeroed lock_state"
  using zero_state_zeroed by (simp add: lock_state_def zeroed_def)

lemma lock_untouched_by_boot: "the_lock \<noteq> getPseudoClockSem umps3" "i < SEM_NUM umps3 \<Longrightarrow> the_lock \<noteq> getDevSem umps3 (of_nat i)"
proof -
  show "the_lock \<noteq> getPseudoClockSem umps3" by (simp add: image_lock_addr getPseudoClockSem_def umps3_def)
  assume i: "i < SEM_NUM umps3"
  have "SEM_NUM umps3 = 48" by (simp add: SEM_NUM_def umps3_def)
  with i have "unat (of_nat (4 * i) :: u32) = 4 * i" by (simp add: unat_of_nat take_bit_nat_eq_self del: of_nat_mult)
  moreover have "4 * i \<noteq> 0xD000" using i \<open>SEM_NUM umps3 = 48\<close> by simp
  ultimately have "(of_nat (4 * i) :: u32) \<noteq> 0xD000" by auto
  then show "the_lock \<noteq> getDevSem umps3 (of_nat i)" by (auto simp: image_lock_addr getDevSem_def umps3_def)
qed

lemma lock_state_boot:
  "\<exists>st t. main_entry umps3 lock_state = Some (LDST st, t) \<and> pc_epc st = test_addr umps3 \<and> kinv t v_started
    \<and> current_active_process t = Some first_pcb \<and> mem t the_lock = 1 \<and> mem t (at_sem test_image sem_testsem) = 0
    \<and> (\<forall>q. p_savedDeviceStatus (pcbs t q) = 0)"
proof -
  from main_entry_boot [OF lock_state_zeroed, of umps3] obtain t where
    t: "main_entry umps3 lock_state = Some (LDST (p_s (pcbs t first_pcb)), t)" "kinv t v_started"
    "current_active_process t = Some first_pcb" "mem t = cleared_sems umps3 lock_mem"
    "p_s (pcbs t first_pcb) = entry_state umps3 (test_addr umps3) (RAMTOP t) (reset_state umps3 (p_s (pcbs lock_state first_pcb)))"
    "\<forall>q. p_savedDeviceStatus (pcbs t q) \<in> {0, p_savedDeviceStatus (pcbs lock_state q)}"
    by (auto simp: v_started_def lock_state_def)
  have "pc_epc (p_s (pcbs t first_pcb)) = test_addr umps3" by (simp add: t(5) entry_state_def)
  moreover have "lock_mem (at_sem test_image sem_testsem) = 0"
    by (simp add: lock_mem_def image_simps)
  then have "mem t (at_sem test_image sem_testsem) = 0" by (simp add: t(4) cleared_sems)
  moreover have "mem t the_lock = 1"
    using lock_mem by (auto simp: t(4) cleared_sems lock_untouched_by_boot)
  moreover have "p_savedDeviceStatus (pcbs lock_state q) = 0" for q by (simp add: lock_state_def zero_state_def zero_pcb_def)
  ultimately show ?thesis using t by auto
qed

lemma test_begins: "\<exists>m. test A G = Do (Syscall VERHOGEN (at_sem G sem_testsem) 0 0) (\<lambda>_. Do (Syscall PASSEREN (at_sem G sem_term_mut) 0 0) m)"
  by (simp add: test_def V_def P_def call_def say_def print_def then_do_def) (simp only: fun_eq_iff; blast)

text \<open>V, then P: the process runs with the lock, which is 0.\<close>

lemma p1_takes_lock:
  "\<exists>T out s. sys_run umps3 test_image the_lock (T, out, s) \<and> holds the_lock s T first_pcb \<and> mem s the_lock = 0"
proof -
  let ?run = "sys_run umps3 test_image the_lock" and ?V = "Syscall VERHOGEN (at_sem test_image sem_testsem) 0 0"
    and ?P = "Syscall PASSEREN the_lock 0 0"
  from lock_state_boot obtain st t where
    t: "main_entry umps3 lock_state = Some (LDST st, t)" "pc_epc st = test_addr umps3" "kinv t v_started"
    "current_active_process t = Some first_pcb" "mem t the_lock = 1" "mem t (at_sem test_image sem_testsem) = 0"
    "\<forall>q. p_savedDeviceStatus (pcbs t q) = 0" by blast
  let ?T = "(\<lambda>_. Fresh)(first_pcb := Thread (Running (test umps3 test_image)) Outside [])"
  have lands: "lands umps3 test_image (LDST st) t (\<lambda>_. Fresh) ?T"
    by (rule lands.begins) (simp_all add: t(2,4) starts_def)
  have g: "gives_processor (LDST st)" by (simp add: gives_processor_def)
  have r0: "?run (?T, LDST st, t)"
    by (rule sys_run.boot [OF lock_state_zeroed t(1) lands]) (simp add: t(5) sem_initially_def)
  let ?s = "t\<lparr>reg_STATUS := 0\<rparr>"
  have o: "outside t ?s" using outside_update [where s = t and m = "mem t" and b = "bios_state t" and st = 0] by (cases t) simp
  have r1: "?run (?T, LDST st, ?s)" by (rule sys_run.step [OF r0 sys_step.world [OF _ o]]) (simp_all add: g)
  have run: "runs_in umps3 first_pcb v_started ?s" using t(3,4) by (simp add: runs_in_def kernel_mode_def)
  have apart: "at_sem test_image sem_testsem \<noteq> the_lock" "the_lock \<noteq> 0" "at_sem test_image sem_testsem \<noteq> 0"
    "4 * ix_STATUS umps3 \<noteq> the_lock" by (simp_all add: image_simps) (simp add: umps3_def)
  have "mem ?s (at_sem test_image sem_testsem) \<noteq> 1" by (simp add: t(6))
  have q: "v_semq v_started a = []" for a by simp
  from serve_V [OF umps3_traps run apart(3) \<open>mem ?s (at_sem test_image sem_testsem) \<noteq> 1\<close> q] obtain w u where
    u: "serve umps3 ?V ?s = Some (Word w, u)" "runs_in umps3 first_pcb v_started u"
    "mem u = (mem ?s)(at_sem test_image sem_testsem := mem ?s (at_sem test_image sem_testsem) + 1)"
    "\<forall>q. p_savedDeviceStatus (pcbs u q) = p_savedDeviceStatus (pcbs ?s q)" by metis
  have a1: "args_clear umps3 the_lock (trap umps3 VERHOGEN (at_sem test_image sem_testsem) 0 0 ?s)"
    by (rule args_clear_semaphore [OF umps3_traps _ apart(4)]) (simp_all add: t(7))
  from test_begins [of umps3 test_image] obtain m where
    m: "test umps3 test_image = Do ?V (\<lambda>_. Do ?P m)" by blast
  have T0: "?T first_pcb = Thread (Running (Do ?V (\<lambda>_. Do ?P m))) Outside []" by (simp add: m)
  have "after_call the_lock ?V Outside = Outside" using apart(1) by (simp add: after_call_def)
  with serve_step [where T = ?T and G = test_image, OF umps3_traps g run T0 a1 u(1,2)] obtain T1 out1 where
    T1: "sys_step umps3 test_image the_lock (?T, LDST st, ?s) (T1, out1, u)" "gives_processor out1"
    "T1 first_pcb = Thread (Running (Do ?P m)) Outside []"
    by auto
  have mu: "mem u the_lock = 1" using apart(1) by (simp add: u(3) t(5))
  have "mem u the_lock \<noteq> 0" by (simp add: mu)
  from serve_P [OF umps3_traps u(2) apart(2) this q] obtain w' x where
    x: "serve umps3 ?P u = Some (Word w', x)" "runs_in umps3 first_pcb v_started x" "mem x = (mem u)(the_lock := mem u the_lock - 1)"
    by metis
  have a2: "args_clear umps3 the_lock (trap umps3 PASSEREN the_lock 0 0 u)"
    by (rule args_clear_semaphore [OF umps3_traps _ apart(4)]) (simp_all add: u(4) t(7))
  from serve_step [where T = T1 and G = test_image, OF umps3_traps T1(2) u(2) T1(3) a2 x(1,2)] obtain T2 out2 where
    T2: "sys_step umps3 test_image the_lock (T1, out1, u) (T2, out2, x)"
    "T2 first_pcb = Thread (Running (m (Word w'))) Inside []" by (auto simp: after_call_def)
  have "?run (T2, out2, x)" using r1 T1(1) T2(1) by (blast intro: sys_run.step)
  moreover have "p_semAdd (pcbs x first_pcb) \<noteq> the_lock"
    using running_not_waiting [of x first_pcb the_lock] x(2) apart(2) by (auto simp: runs_in_def wf_kernel_def)
  then have "holds the_lock x T2 first_pcb" by (simp add: holds_def T2(2))
  moreover have "mem x the_lock = 0" by (simp add: x(3) mu)
  ultimately show ?thesis by blast
qed

end
