(* ===== verification/Abs_Kernel.thy ===== *)
theory Abs_Kernel
  imports Syscall_Abs "HOL-Library.Sublist"
begin

text \<open>
  The kernel as a specification: its state is the view and the running process, and an exception
  is some moves (a process blocks, is woken, yields, is created) or the termination of a process
  with its descendants, after which a processor that nobody has is given to the first ready
  process.  What the specification says of waiting lines: nobody overtakes.
\<close>

section \<open>The abstract kernel\<close>

type_synonym akstate = "kview \<times> nat option"

text \<open>
  A process may also lose the processor without being in any queue (\<open>loses\<close>): the code does that to
  the caller of SYS5 when there is nothing to wait for, and to the caller of SYS2 on another process.
\<close>

inductive move :: "akstate \<Rightarrow> akstate \<Rightarrow> bool" where
  blocks: "k \<noteq> 0 \<Longrightarrow> move (v, Some c) (v_block k c v, None)"
| wakes: "v_semq v k \<noteq> [] \<Longrightarrow> move (v, r) (v_wake k v, r)"
| yields: "move (v, Some c) (v\<lparr>v_ready := v_ready v @ [c]\<rparr>, None)"
| loses: "move (v, Some c) (v, None)"
| spawns: "v_free v = p # fs \<Longrightarrow> move (v, Some c) (v_new p fs c v, Some c)"
| names: "move (v, r) (v_used n v, r)"

text \<open>The process and its descendants are free again; whoever called, the processor is free.\<close>

inductive dies :: "akstate \<Rightarrow> akstate \<Rightarrow> bool" where
  dies: "p < MAXPROC \<Longrightarrow> p \<notin> set (v_free v) \<Longrightarrow> D = desc_of (kid_rel v) p \<Longrightarrow> set fs = set (v_free v) \<union> D \<Longrightarrow>
    dies (v, r) (v_reaped D fs (v_orphan p v), None)"

fun hand_over :: "akstate \<Rightarrow> akstate" where
  "hand_over (v, Some c) = (v, Some c)"
| "hand_over (v, None) = (case v_ready v of [] \<Rightarrow> (v, None) | p # ps \<Rightarrow> (v\<lparr>v_ready := ps\<rparr>, Some p))"

definition kernel_move :: "akstate \<Rightarrow> akstate \<Rightarrow> bool" where
  "kernel_move a b \<longleftrightarrow> (\<exists>m. (move\<^sup>*\<^sup>* a m \<or> dies a m) \<and> b = hand_over m)"

text \<open>The processor is never left idle while a process is ready.\<close>

lemma hand_over_busy: "snd (hand_over a) = None \<Longrightarrow> v_ready (fst (hand_over a)) = []"
  by (cases a rule: hand_over.cases) (auto split: list.splits)

lemma kernel_move_busy: "kernel_move a (v, None) \<Longrightarrow> v_ready v = []"
proof -
  assume "kernel_move a (v, None)"
  then obtain m where "(v, None) = hand_over m" by (auto simp: kernel_move_def)
  then show ?thesis using hand_over_busy [of m] by (metis fst_conv snd_conv)
qed

text \<open>A system that implements a specification: each of its steps is some steps of the specification.\<close>

locale simulation =
  fixes cstep :: "'c \<Rightarrow> 'c \<Rightarrow> bool" and astep :: "'a \<Rightarrow> 'a \<Rightarrow> bool" and implements :: "'c \<Rightarrow> 'a \<Rightarrow> bool"
  assumes simulates: "implements c a \<Longrightarrow> cstep c c' \<Longrightarrow> \<exists>a'. astep\<^sup>*\<^sup>* a a' \<and> implements c' a'"
begin

lemma runs: "cstep\<^sup>*\<^sup>* c c' \<Longrightarrow> implements c a \<Longrightarrow> \<exists>a'. astep\<^sup>*\<^sup>* a a' \<and> implements c' a'"
proof (induction rule: rtranclp_induct)
  case (step d e)
  then obtain a1 where a1: "astep\<^sup>*\<^sup>* a a1" "implements d a1" by blast
  from simulates [OF a1(2) step.hyps(2)] obtain a2 where "astep\<^sup>*\<^sup>* a1 a2" "implements e a2" by blast
  with a1(1) show ?case by (meson rtranclp_trans)
qed blast

lemma invariant: "cstep\<^sup>*\<^sup>* c c' \<Longrightarrow> implements c a \<Longrightarrow> (\<And>a'. astep\<^sup>*\<^sup>* a a' \<Longrightarrow> P a') \<Longrightarrow> \<exists>a'. implements c' a' \<and> P a'"
  using runs by blast

end

section \<open>Places in a line\<close>

definition ahead :: "nat \<Rightarrow> nat list \<Rightarrow> nat list" where
  "ahead p xs = takeWhile (\<lambda>q. q \<noteq> p) xs"

lemma ahead_simps [simp]:
  "ahead p [] = []" "ahead p (x # xs) = (if x = p then [] else x # ahead p xs)"
  "p \<in> set xs \<Longrightarrow> ahead p (xs @ ys) = ahead p xs"
  by (auto simp: ahead_def takeWhile_append1)

lemma ahead_filter: "P p \<Longrightarrow> ahead p (filter P xs) = filter P (ahead p xs)"
  by (induction xs) auto

lemma length_ahead: "p \<in> set xs \<Longrightarrow> length (ahead p xs) < length xs"
  by (induction xs) auto

text \<open>
  A line in which nobody is overtaken, and one in which every process served goes before those
  that stay.
\<close>

inductive queueing :: "('c \<Rightarrow> 'c \<Rightarrow> bool) \<Rightarrow> ('c \<Rightarrow> nat list) \<Rightarrow> ('c \<Rightarrow> 'c \<Rightarrow> nat) \<Rightarrow> nat \<Rightarrow> 'c \<Rightarrow> nat \<Rightarrow> 'c \<Rightarrow> bool"
  for step line served p c0 where
  stands: "p \<in> set (line c0) \<Longrightarrow> queueing step line served p c0 0 c0"
| stays: "queueing step line served p c0 n c \<Longrightarrow> step c c' \<Longrightarrow> p \<in> set (line c') \<Longrightarrow>
    queueing step line served p c0 (n + served c c') c'"

lemma queueing_in_line: "queueing step line served p c0 n c \<Longrightarrow> p \<in> set (line c0) \<and> p \<in> set (line c)"
  by (induction rule: queueing.induct) auto

lemma queueing_run:
  assumes "\<forall>i < N. step (f i) (f (Suc i))" and "\<forall>i \<le> N. p \<in> set (line (f i))"
  shows "queueing step line served p (f 0) (\<Sum>i < N. served (f i) (f (Suc i))) (f N)"
  using assms
proof (induction N)
  case (Suc N)
  then show ?case using queueing.stays [of step line served p "f 0" _ "f N" "f (Suc N)"] by simp
qed (simp add: queueing.stands)

locale waiting_line =
  fixes step :: "'c \<Rightarrow> 'c \<Rightarrow> bool" and line :: "'c \<Rightarrow> nat list"
  assumes in_order: "step c c' \<Longrightarrow> p \<in> set (line c) \<Longrightarrow> p \<in> set (line c') \<Longrightarrow>
    subseq (ahead p (line c')) (ahead p (line c))"
begin

lemma nobody_overtakes: "queueing step line served p c0 n c \<Longrightarrow> subseq (ahead p (line c)) (ahead p (line c0))"
proof (induction rule: queueing.induct)
  case (stays n c c')
  have "subseq (ahead p (line c')) (ahead p (line c))"
    using in_order [OF stays.hyps(2) _ stays.hyps(3)] queueing_in_line [OF stays.hyps(1)] by blast
  then show ?case using stays.IH by (rule subseq_order.order_trans)
qed simp

lemma run_in_order:
  "\<forall>i < N. step (f i) (f (Suc i)) \<Longrightarrow> \<forall>i \<le> N. p \<in> set (line (f i)) \<Longrightarrow>
    subseq (ahead p (line (f N))) (ahead p (line (f 0)))"
  by (rule nobody_overtakes [OF queueing_run [where f = f and served = "\<lambda>_ _. 0"]])

end

locale served_line = waiting_line +
  fixes served :: "'a \<Rightarrow> 'a \<Rightarrow> nat"
  assumes served_first: "step c c' \<Longrightarrow> p \<in> set (line c) \<Longrightarrow> p \<in> set (line c') \<Longrightarrow>
    length (ahead p (line c')) + served c c' \<le> length (ahead p (line c))"
begin

lemma bounded_wait: "queueing step line served p c0 n c \<Longrightarrow> length (ahead p (line c)) + n \<le> length (ahead p (line c0))"
proof (induction rule: queueing.induct)
  case (stays n c c')
  have "length (ahead p (line c')) + served c c' \<le> length (ahead p (line c))"
    using served_first [OF stays.hyps(2) _ stays.hyps(3)] queueing_in_line [OF stays.hyps(1)] by blast
  then show ?case using stays.IH by simp
qed simp

text \<open>Who waits is served when more than those ahead have been served.\<close>

lemma leaves_in_time:
  assumes "\<forall>i < N. step (f i) (f (Suc i))" and "p \<in> set (line (f 0))"
    and "length (ahead p (line (f 0))) < (\<Sum>i < N. served (f i) (f (Suc i)))"
  shows "\<exists>i < N. p \<in> set (line (f i)) \<and> p \<notin> set (line (f (Suc i)))"
proof (rule ccontr)
  assume stay: "\<not> ?thesis"
  have "p \<in> set (line (f i))" if "i \<le> N" for i
    using that by (induction i) (use stay assms(2) in auto)
  then have "queueing step line served p (f 0) (\<Sum>i < N. served (f i) (f (Suc i))) (f N)"
    using queueing_run [where f = f, OF assms(1)] by blast
  from bounded_wait [OF this] assms(3) show False by simp
qed

end

section \<open>The lines of the abstract kernel\<close>

lemma move_ready: "move a b \<Longrightarrow> \<exists>ws. v_ready (fst b) = v_ready (fst a) @ ws"
  by (induction rule: move.induct) (auto simp: v_block_def v_wake_def v_new_def v_used_def)

lemma moves_ready: "move\<^sup>*\<^sup>* a b \<Longrightarrow> \<exists>ws. v_ready (fst b) = v_ready (fst a) @ ws"
proof (induction rule: rtranclp_induct)
  case (step b c)
  then show ?case using move_ready [of b c] by auto
qed simp

lemma moves_runs: "move\<^sup>*\<^sup>* a b \<Longrightarrow> snd b = snd a \<or> snd b = None"
proof (induction rule: rtranclp_induct)
  case (step b c)
  from step(2) have "snd c = snd b \<or> snd c = None" by (induction rule: move.induct) auto
  with step.IH show ?case by auto
qed simp

text \<open>Who is ready goes before who comes, and each dispatch takes one from the front.\<close>

lemma ready_in_order:
  assumes m: "kernel_move (v, r) (v', r')" and p: "p \<in> set (v_ready v)" "p \<in> set (v_ready v')" "r' \<noteq> Some p"
  shows "subseq (ahead p (v_ready v')) (ahead p (v_ready v))"
    and "length (ahead p (v_ready v')) + (if r' \<noteq> None \<and> r' \<noteq> r then 1 else 0) \<le> length (ahead p (v_ready v))"
proof -
  from m obtain w q where w: "move\<^sup>*\<^sup>* (v, r) (w, q) \<or> dies (v, r) (w, q)" "(v', r') = hand_over (w, q)"
    unfolding kernel_move_def by auto
  have ready: "ahead p (v_ready w) = ahead p (v_ready v) \<or>
      (q = None \<and> (\<exists>D. p \<notin> D \<and> ahead p (v_ready w) = filter (\<lambda>x. x \<notin> D) (ahead p (v_ready v))))"
    using w(1)
  proof
    assume "move\<^sup>*\<^sup>* (v, r) (w, q)"
    from moves_ready [OF this] p(1) show ?thesis by auto
  next
    assume "dies (v, r) (w, q)"
    then obtain D where D: "q = None" "v_ready w = filter (\<lambda>x. x \<notin> D) (v_ready v)"
      by (cases rule: dies.cases) (auto simp: v_reaped_def v_orphan_def)
    have "p \<in> set (v_ready w)" using w(2) p(2) D(1) by (auto split: list.splits)
    then have "p \<notin> D" using D(2) by simp
    then show ?thesis using D ahead_filter [of "\<lambda>x. x \<notin> D" p "v_ready v"] by auto
  qed
  then have sub: "subseq (ahead p (v_ready w)) (ahead p (v_ready v))" by auto
  note len = list_emb_length [OF sub]
  have "subseq (ahead p (v_ready v')) (ahead p (v_ready v))
    \<and> length (ahead p (v_ready v')) + (if r' \<noteq> None \<and> r' \<noteq> r then 1 else 0) \<le> length (ahead p (v_ready v))"
  proof (cases q)
    case (Some c)
    then have e: "v' = w" "r' = q" using w(2) by auto
    have "r' = r" using w(1) moves_runs [of "(v, r)" "(w, q)"] Some e by (auto elim: dies.cases)
    with e sub len show ?thesis by simp
  next
    case None
    with w(2) p obtain x where x: "v_ready w = x # v_ready v'" "r' = Some x" by (auto split: list.splits)
    with p(3) have "ahead p (v_ready w) = x # ahead p (v_ready v')" by auto
    then show ?thesis using sub len by (auto dest: subseq_Cons')
  qed
  then show "subseq (ahead p (v_ready v')) (ahead p (v_ready v))"
    and "length (ahead p (v_ready v')) + (if r' \<noteq> None \<and> r' \<noteq> r then 1 else 0) \<le> length (ahead p (v_ready v))"
    by blast+
qed

text \<open>Who leaves the ready queue gets the processor or is terminated.\<close>

lemma hand_over_ready: "p \<in> set (v_ready w) \<Longrightarrow> (v', r') = hand_over (w, q) \<Longrightarrow> p \<in> set (v_ready v') \<or> r' = Some p"
  by (cases q) (auto split: list.splits)

lemma hand_over_other: "(v', r') = hand_over (w, q) \<Longrightarrow> v_free v' = v_free w \<and> v_semq v' = v_semq w \<and> v_kids v' = v_kids w"
  by (cases q) (auto split: list.splits)

lemma dies_leaves:
  assumes "dies (v, r) (w, q)"
  obtains D where "v_ready w = filter (\<lambda>x. x \<notin> D) (v_ready v)" and "\<And>k. v_semq w k = filter (\<lambda>x. x \<notin> D) (v_semq v k)"
    and "D \<subseteq> set (v_free w)"
  using assms by (cases rule: dies.cases) (auto simp: v_reaped_def v_orphan_def)

lemma ready_leaves:
  assumes m: "kernel_move (v, r) (v', r')" and p: "p \<in> set (v_ready v)" "p \<notin> set (v_ready v')"
  shows "r' = Some p \<or> p \<in> set (v_free v')"
proof -
  from m obtain w q where w: "move\<^sup>*\<^sup>* (v, r) (w, q) \<or> dies (v, r) (w, q)" "(v', r') = hand_over (w, q)"
    unfolding kernel_move_def by auto
  have "p \<in> set (v_ready w) \<or> p \<in> set (v_free w)"
    using w(1) moves_ready [of "(v, r)" "(w, q)"] p(1) by (auto elim!: dies_leaves)
  with hand_over_ready [OF _ w(2)] hand_over_other [OF w(2)] p(2) show ?thesis by auto
qed

text \<open>
  Who waits on a semaphore goes before who comes later, and leaves to be ready or by termination.
\<close>

definition waits_in :: "nat \<Rightarrow> u32 \<Rightarrow> akstate \<Rightarrow> akstate \<Rightarrow> bool" where
  "waits_in p k a b \<longleftrightarrow> snd b \<noteq> Some p \<and> count_list (v_semq (fst b) k) p \<le> 1 \<and>
     (p \<in> set (v_semq (fst b) k) \<longrightarrow> subseq (ahead p (v_semq (fst b) k)) (ahead p (v_semq (fst a) k))) \<and>
     (p \<in> set (v_semq (fst b) k) \<or> p \<in> set (v_ready (fst b)))"

lemma count_distinct: "distinct xs \<Longrightarrow> count_list xs x \<le> 1"
  by (induction xs) (auto simp: count_list_0_iff)

lemma move_waits:
  assumes "move b c" and "waits_in p k a b"
  shows "waits_in p k a c"
  using assms
proof (induction rule: move.induct)
  case (blocks k' v c)
  then have "c \<noteq> p" by (simp add: waits_in_def)
  with blocks show ?case by (auto simp: waits_in_def v_block_def)
next
  case (wakes v k' r)
  show ?case
  proof (cases "k' = k")
    case True
    from wakes(1) obtain x xs where x: "v_semq v k = x # xs" unfolding True by (cases "v_semq v k") auto
    have c: "x = p \<Longrightarrow> p \<notin> set xs" using wakes(2) by (auto simp: waits_in_def x count_list_0_iff)
    show ?thesis using wakes(2) c
      by (auto simp: waits_in_def True x v_wake_def split: if_splits dest: subseq_Cons')
  next
    case False
    then show ?thesis using wakes(2) by (auto simp: waits_in_def v_wake_def)
  qed
qed (auto simp: waits_in_def v_new_def v_used_def)

lemma moves_wait: "move\<^sup>*\<^sup>* b c \<Longrightarrow> waits_in p k a b \<Longrightarrow> waits_in p k a c"
  by (induction rule: rtranclp_induct) (auto intro: move_waits)

lemma sem_in_order:
  assumes m: "kernel_move (v, r) (v', r')" and p: "p \<in> set (v_semq v k)" "distinct (v_semq v k)" "r \<noteq> Some p"
  shows "p \<in> set (v_semq v' k) \<Longrightarrow> subseq (ahead p (v_semq v' k)) (ahead p (v_semq v k))"
    and "p \<notin> set (v_semq v' k) \<Longrightarrow> p \<in> set (v_ready v') \<or> r' = Some p \<or> p \<in> set (v_free v')"
proof -
  from m obtain w q where w: "move\<^sup>*\<^sup>* (v, r) (w, q) \<or> dies (v, r) (w, q)" "(v', r') = hand_over (w, q)"
    unfolding kernel_move_def by auto
  note h = hand_over_other [OF w(2)]
  have "waits_in p k (v, r) (v, r)" using p count_distinct [OF p(2), of p] by (simp add: waits_in_def)
  with w(1) have "waits_in p k (v, r) (w, q) \<or> dies (v, r) (w, q)" using moves_wait by blast
  then have "(p \<in> set (v_semq w k) \<longrightarrow> subseq (ahead p (v_semq w k)) (ahead p (v_semq v k)))
    \<and> (p \<in> set (v_semq w k) \<or> p \<in> set (v_ready w) \<or> p \<in> set (v_free w))"
  proof
    assume "dies (v, r) (w, q)"
    then obtain D where "v_semq w k = filter (\<lambda>x. x \<notin> D) (v_semq v k)" "D \<subseteq> set (v_free w)"
      by (auto elim!: dies_leaves)
    then show ?thesis using p(1) ahead_filter [of "\<lambda>x. x \<notin> D" p "v_semq v k"] by auto
  qed (auto simp: waits_in_def)
  with h hand_over_ready [OF _ w(2)]
  show "p \<in> set (v_semq v' k) \<Longrightarrow> subseq (ahead p (v_semq v' k)) (ahead p (v_semq v k))"
    and "p \<notin> set (v_semq v' k) \<Longrightarrow> p \<in> set (v_ready v') \<or> r' = Some p \<or> p \<in> set (v_free v')" by auto
qed

end
