(* ===== verification/View_Unique.thy ===== *)
theory View_Unique
  imports Kernel_View
begin

text \<open>
  The abstraction is a function: a state represents at most one view.  So what the theorems say
  of some view of a state holds of its view.
\<close>

lemma hchain_unique: "hchain h loc xs \<Longrightarrow> hchain h loc ys \<Longrightarrow> xs = ys"
proof (induction xs arbitrary: loc ys)
  case Nil
  then show ?case by (cases ys) auto
next
  case (Cons x xs)
  then show ?case by (cases ys) auto
qed

lemma heap_abs_unique: "heap_abs h L \<Longrightarrow> heap_abs h L' \<Longrightarrow> L r = Some xs \<Longrightarrow> L' r = Some ys \<Longrightarrow> xs = ys"
  by (blast intro: dll_unique heap_abs_dll)

lemma links_unique:
  assumes "links s a" and "links s a'"
  shows "a_bkt a = a_bkt a'" and "a_free a = a_free a'" and "a_ready a = a_ready a'"
    and "a_nsfree a = a_nsfree a'" and "a_nslist a = a_nslist a'"
    and "a_kids a p = Some ks \<Longrightarrow> a_kids a' p = Some ks' \<Longrightarrow> ks = ks'"
    and "a_procq a i = Some q \<Longrightarrow> a_procq a' i = Some q' \<Longrightarrow> q = q'"
proof -
  have h: "hash_abs (semd_h s) (a_bkt a)" "hash_abs (semd_h s) (a_bkt a')" using assms by (simp_all add: links_def)
  show "a_bkt a = a_bkt a'" using hchain_unique [OF hash_abs_hchain [OF h(1)] hash_abs_hchain [OF h(2)]] by auto
  note u = heap_abs_unique [OF links_lists [OF assms(1)] links_lists [OF assms(2)]]
  have [simp]: "inj P_list" "inj N_link" "inj P_sib" by (auto intro: injI)
  show "a_free a = a_free a'" using u [of PcbFree_h "map P_list (a_free a)" "map P_list (a_free a')"] by (simp add: inj_map_eq_map)
  show "a_ready a = a_ready a'" using u [of Ready_queue "map P_list (a_ready a)" "map P_list (a_ready a')"] by (simp add: inj_map_eq_map)
  show "a_nsfree a = a_nsfree a'" using u [of PID_nsFree_h "map N_link (a_nsfree a)" "map N_link (a_nsfree a')"] by (simp add: inj_map_eq_map)
  show "a_nslist a = a_nslist a'" using u [of PID_nsList_h "map N_link (a_nslist a)" "map N_link (a_nslist a')"] by (simp add: inj_map_eq_map)
  show "a_kids a p = Some ks \<Longrightarrow> a_kids a' p = Some ks' \<Longrightarrow> ks = ks'" using u [of "P_child p" "map P_sib ks" "map P_sib ks'"] by (simp add: inj_map_eq_map)
  show "a_procq a i = Some q \<Longrightarrow> a_procq a' i = Some q' \<Longrightarrow> q = q'" using u [of "S_procq i" "map P_list q" "map P_list q'"] by (simp add: inj_map_eq_map)
qed

lemma semq_unique:
  assumes l: "links s a" "links s a'" and i: "ash_inv s a" "ash_inv s a'"
  shows "semq s a k = semq s a' k"
proof -
  have d: "desc s a k = desc s a' k" by (simp add: desc_def links_unique(1) [OF l])
  have "queue_of a i = queue_of a' i" if "desc s a k = Some i" for i
  proof -
    have "queue_of a i \<noteq> []" "queue_of a' i \<noteq> []"
      using desc_SomeD [OF that] desc_SomeD [OF that [unfolded d]] ash_invD(4) [OF i(1)] ash_invD(4) [OF i(2)] by blast+
    then show ?thesis
      using links_unique(7) [OF l, of i] by (auto simp: queue_of_def split: option.splits)
  qed
  then show ?thesis by (simp add: semq_def d split: option.split)
qed

lemma kids_unique:
  assumes l: "links s a" "links s a'" and t: "tree_inv s a" "tree_inv s a'"
  shows "kids_of a p = kids_of a' p"
proof (cases "kids_of a p = [] \<or> kids_of a' p = []")
  case True
  have "set (kids_of a p) = set (kids_of a' p)" using t by (auto simp: tree_inv_def)
  with True show ?thesis by auto
next
  case False
  then show ?thesis using links_unique(6) [OF l, of p] by (auto simp: kids_of_def split: option.splits)
qed

theorem kabs_unique: "kabs s v \<Longrightarrow> kabs s v' \<Longrightarrow> v = v'"
proof (elim kabsE)
  fix a a'
  assume a: "links s a" "ash_inv s a" "tree_inv s a" "v = view s a"
    and a': "links s a'" "ash_inv s a'" "tree_inv s a'" "v' = view s a'"
  note l = links_unique [OF a(1) a'(1)]
  have "semq s a = semq s a'" "kids_of a = kids_of a'"
    using semq_unique [OF a(1) a'(1) a(2) a'(2)] kids_unique [OF a(1) a'(1) a(3) a'(3)] by auto
  then show "v = v'" by (simp add: a(4) a'(4) view_def l(2-5))
qed

end
