(* ===== verification/Kernel_Refines.thy ===== *)
theory Kernel_Refines
  imports Abs_Kernel Kernel_Step View_Unique Io_Abs
begin

text \<open>
  The kernel implements its specification: whatever an exception does is a move of the abstract
  kernel, and the machine stops or waits only when the specification says so.
\<close>

section \<open>Operations that are moves\<close>

abbreviation astate :: "kview \<Rightarrow> kstate \<Rightarrow> akstate" where
  "astate v s \<equiv> (v, current_active_process s)"

text \<open>The operation is over: its effect is that of some moves.\<close>

definition progress :: "kstate \<Rightarrow> kstate \<Rightarrow> bool" where
  "progress s s' \<longleftrightarrow> (\<forall>v. kinv s v \<longrightarrow> (\<exists>v'. kinv s' v' \<and> move\<^sup>*\<^sup>* (astate v s) (astate v' s')))"

text \<open>The same when the running process is still marked as running, but has lost the processor.\<close>

definition parks :: "kstate \<Rightarrow> kstate \<Rightarrow> bool" where
  "parks s s' \<longleftrightarrow> (\<forall>v. kinv s v \<longrightarrow> (\<exists>v'. kabs s' v' \<and> inv_core s' v' \<and> move\<^sup>*\<^sup>* (astate v s) (v', None)))"

definition progressive :: "kstate update \<Rightarrow> bool" where
  "progressive f \<longleftrightarrow> (\<forall>s s'. f s = Some s' \<longrightarrow> progress s s')"

lemma progressI: "(\<And>v. kinv s v \<Longrightarrow> \<exists>v'. kinv s' v' \<and> move\<^sup>*\<^sup>* (astate v s) (astate v' s')) \<Longrightarrow> progress s s'"
  by (simp add: progress_def)

lemma progress_refl [simp]: "progress s s"
  by (auto simp: progress_def)

lemma progress_trans: "progress s t \<Longrightarrow> progress t u \<Longrightarrow> progress s u"
  unfolding progress_def by (meson rtranclp_trans)

lemma progress_parks: "progress s t \<Longrightarrow> parks t u \<Longrightarrow> parks s u"
  unfolding progress_def parks_def by (meson rtranclp_trans)

text \<open>Steps that leave the view alone.\<close>

lemma progress_same: "(\<And>v. kinv s v \<Longrightarrow> kinv s' v) \<Longrightarrow> current_active_process s' = current_active_process s \<Longrightarrow> progress s s'"
  by (auto simp: progress_def)

lemma progress_store [simp]: "progress s (store_word a x s)"
  by (rule progress_same) (simp_all add: store_word_def)

lemma progress_v0 [simp]: "progress s (RETURN_SYS_VALUE A x t) = progress s t"
proof -
  have "kinv (RETURN_SYS_VALUE A x t) v = kinv t v" for v
    by (simp add: RETURN_SYS_VALUE_def kinv_def inv_core_def cur_ok_def v_queued_def)
  moreover have "current_active_process (RETURN_SYS_VALUE A x t) = current_active_process t"
    by (simp add: RETURN_SYS_VALUE_def)
  ultimately show ?thesis by (simp add: progress_def)
qed

lemma progressiveD: "progressive f \<Longrightarrow> f s = Some s' \<Longrightarrow> progress s s'"
  by (simp add: progressive_def)

lemma progressive_bind: "progressive f \<Longrightarrow> progressive g \<Longrightarrow> progressive (\<lambda>s. Option.bind (f s) g)"
  unfolding progressive_def by (auto simp: bind_Some_iff) (meson progress_trans)

lemma progressive_line: "progressive f \<Longrightarrow> progressive (when_line A line f)"
  by (auto simp: progressive_def when_line_def)

lemma progressive_ends_ok:
  assumes "\<And>s v s'. kinv s v \<Longrightarrow> f s = Some s' \<Longrightarrow> \<exists>t w. ends_ok (f s) t w \<and> move\<^sup>*\<^sup>* (astate v s) (astate w t)"
  shows "progressive f"
  unfolding progressive_def progress_def
proof (intro allI impI)
  fix s s' v assume r: "f s = Some s'" and v: "kinv s v"
  from assms [OF v r] obtain t w where t: "ends_ok (f s) t w" "move\<^sup>*\<^sup>* (astate v s) (astate w t)" by blast
  then obtain h hh ds where "s' = relink h hh ds t" "kinv (relink h hh ds t) w" using r by (auto elim!: ends_okE)
  with t(2) show "\<exists>v'. kinv s' v' \<and> move\<^sup>*\<^sup>* (astate v s) (astate v' s')" by auto
qed

section \<open>Interrupts\<close>

lemma move_signal: "move\<^sup>*\<^sup>* (v, r) (v_signal k v, r)"
  by (auto simp: v_signal_def intro: move.wakes)

lemma move_wake_all: "move\<^sup>*\<^sup>* (v, r) (v_wake_all k v, r)"
proof (induction "v_semq v k" arbitrary: v)
  case Nil
  then show ?case by (simp add: v_wake_all_def fun_upd_idem)
next
  case (Cons p ps)
  then have e: "v_semq v k = p # ps" by simp
  have "move\<^sup>*\<^sup>* (v_wake k v, r) (v_wake_all k (v_wake k v), r)" by (rule Cons.hyps(1)) (simp add: v_wake_def e)
  moreover have "v_wake_all k (v_wake k v) = v_wake_all k v" by (simp add: v_wake_all_def v_wake_def e)
  ultimately show ?case using move.wakes [of v k r] e by (simp add: converse_rtranclp_into_rtranclp)
qed

lemma signalled_current [simp]: "current_active_process (signalled A k x st v s) = current_active_process s"
  by (simp add: signalled_def io_done_def store_word_def set_pcb_def decrementSoftBlockCount_def split: list.split)

lemma manageDevices_progressive: "progressive (manageDevices A line)"
proof (rule progressive_ends_ok)
  fix s v s' assume v: "kinv s v" and r: "manageDevices A line s = Some s'"
  have "device_sem A line s \<noteq> 0"
  proof
    assume "device_sem A line s = 0"
    then have "manageDevices A line s = None"
      unfolding manageDevices_def Let_def device_sem_def [symmetric]
      using V_sem_null [of _ v] kinvD(1) [OF v] by (simp add: store_word_def)
    with r show False by simp
  qed
  from manageDevices_ok [OF v this] move_signal
  show "\<exists>t w. ends_ok (manageDevices A line s) t w \<and> move\<^sup>*\<^sup>* (astate v s) (astate w t)"
    by (intro exI conjI) (assumption, simp add: device_served_def Let_def store_word_def)
qed

lemma serve_half_progressive: "progressive (serve_half A st cm k)"
proof (rule progressive_ends_ok)
  fix s v s' assume v: "kinv s v" and r: "serve_half A st cm k s = Some s'"
  show "\<exists>t w. ends_ok (serve_half A st cm k s) t w \<and> move\<^sup>*\<^sup>* (astate v s) (astate w t)"
  proof (cases "k = 0")
    case True
    have "V_sem 0 (store_word cm (ACK A) s) = None"
      using V_sem_null [of _ v] kinvD(1) [OF v] by (simp add: store_word_def)
    then have "serve_half A st cm k s = Some s" using r by (auto simp: serve_half_def Let_def True split: if_splits)
    then show ?thesis using ends_ok_Some [OF v] by auto
  next
    case False
    from serve_half_ok [OF v this, of A st cm] move_signal [of v "current_active_process s" k] show ?thesis
      by (intro exI conjI) (assumption, auto simp: half_served_def v_half_def store_word_def)
  qed
qed

lemma manageTerminal_progressive: "progressive (manageTerminal A)"
  unfolding progressive_def manageTerminal_halves
  by (auto simp: bind_Some_iff intro: progress_trans progressiveD [OF serve_half_progressive])

lemma clock_progressive: "progressive (clock_interrupt A)"
proof (rule progressive_ends_ok)
  fix s v s' assume v: "kinv s v"
  have c: "current_active_process (ticked A v s) = current_active_process s"
    using wake_procs_current [of "resetIntervalTimer s" "v_semq v (getPseudoClockSem A)"] not_current_woken [OF v]
    by (auto simp: ticked_def store_word_def resetIntervalTimer_def)
  with clock_interrupt_ok [OF v] move_wake_all
  show "\<exists>t w. ends_ok (clock_interrupt A s) t w \<and> move\<^sup>*\<^sup>* (astate v s) (astate w t)" by metis
qed

lemma plt_progressive: "progressive (plt_interrupt A)"
  unfolding progressive_def
proof (intro allI impI)
  fix s s' assume r: "plt_interrupt A s = Some s'"
  show "progress s s'"
  proof (cases "timer_enabled A s")
    case True
    then obtain p where p: "current_active_process s = Some p"
      using r by (cases "current_active_process s") (auto simp: plt_interrupt_def timer_enabled_def currentProc_def)
    show ?thesis
    proof (rule progressI)
      fix v assume v: "kinv s v"
      from plt_interrupt_ok [OF v p True] r obtain h hh ds where
        e: "s' = relink h hh ds (preempted p s)" "kinv s' (v\<lparr>v_ready := v_ready v @ [p]\<rparr>)" by (auto elim!: ends_okE)
      have "current_active_process s' = None" by (simp add: e(1) preempted_def)
      with e(2) p show "\<exists>v'. kinv s' v' \<and> move\<^sup>*\<^sup>* (astate v s) (astate v' s')"
        by (auto intro!: exI [of _ "v\<lparr>v_ready := v_ready v @ [p]\<rparr>"] move.yields)
    qed
  next
    case False
    with r show ?thesis by (simp add: plt_interrupt_off)
  qed
qed

lemma lines_progressive: "progressive (other_lines A)"
  unfolding other_lines_def
  by (intro progressive_bind progressive_line manageDevices_progressive manageTerminal_progressive clock_progressive)

section \<open>The end of an exception\<close>

text \<open>
  Why the kernel gives no process the processor: \<open>HALT\<close> when there is no process, \<open>WAIT\<close> when somebody
  waits for a device or the clock, \<open>PANIC\<close> when nobody does; nobody is ready then.
\<close>

definition outcome_ok :: "outcome \<Rightarrow> kstate \<Rightarrow> kview \<Rightarrow> bool" where
  "outcome_ok out s v \<longleftrightarrow> (case out of
      HALT \<Rightarrow> process_count s = 0 \<and> v_ready v = []
    | WAIT \<Rightarrow> process_count s \<noteq> 0 \<and> soft_block_count s > 0 \<and> v_ready v = []
    | PANIC \<Rightarrow> process_count s \<noteq> 0 \<and> soft_block_count s = 0 \<and> v_ready v = []
    | _ \<Rightarrow> True)"

definition handled :: "kstate \<Rightarrow> outcome \<Rightarrow> kstate \<Rightarrow> bool" where
  "handled s out s' \<longleftrightarrow> (\<forall>v. kinv s v \<longrightarrow>
     (\<exists>v'. kinv s' v' \<and> kernel_move (astate v s) (astate v' s') \<and> outcome_ok out s' v'))"

lemma resumes_hand_over:
  assumes "resumes m t v" and "m = Some (out, s')"
  obtains v' where "kinv s' v'" and "astate v' s' = hand_over (v, None)" and "outcome_ok out s' v'"
  using assms unfolding resumes_def
  by (cases "v_ready v") (auto simp: outcome_ok_def running_def waiting_def word_gt_0 split: if_splits)

lemma scheduled:
  assumes p: "parks s t" and r: "schedule t = Some (out, s')"
  shows "handled s out s'"
  unfolding handled_def
proof (intro allI impI)
  fix v assume "kinv s v"
  with p obtain w where w: "kabs t w" "inv_core t w" "move\<^sup>*\<^sup>* (astate v s) (w, None)" by (auto simp: parks_def)
  from resumes_hand_over [OF schedule_resumes [OF w(1,2)] r] obtain v' where
    v': "kinv s' v'" "astate v' s' = hand_over (w, None)" "outcome_ok out s' v'" by blast
  have "kernel_move (astate v s) (astate v' s')" unfolding kernel_move_def v'(2) using w(3) by blast
  with v' show "\<exists>v'. kinv s' v' \<and> kernel_move (astate v s) (astate v' s') \<and> outcome_ok out s' v'" by blast
qed

lemma returned:
  assumes "progress s s'" and "current_active_process s' = Some c" and "gives_processor out"
  shows "handled s out s'"
  unfolding handled_def
proof (intro allI impI)
  fix v assume "kinv s v"
  with assms(1) obtain v' where v': "kinv s' v'" "move\<^sup>*\<^sup>* (astate v s) (astate v' s')" by (auto simp: progress_def)
  have "kernel_move (astate v s) (astate v' s')"
    unfolding kernel_move_def using v'(2) by (intro exI [of _ "astate v' s'"]) (simp add: assms(2))
  with v'(1) assms(3) show "\<exists>v'. kinv s' v' \<and> kernel_move (astate v s) (astate v' s') \<and> outcome_ok out s' v'"
    by (auto simp: outcome_ok_def gives_processor_def split: outcome.splits)
qed

text \<open>An operation before, that changes neither the view nor the running process.\<close>

lemma handled_before:
  assumes "handled t out s'" and "\<And>v. kinv s v \<Longrightarrow> kinv t v" and "current_active_process t = current_active_process s"
  shows "handled s out s'"
  using assms by (simp add: handled_def)

lemma interrupt_handled:
  assumes r: "interruptHandler A s = Some (out, s')"
  shows "handled s out s'"
proof -
  from r obtain s1 s2 where 1: "when_line A 1 (plt_interrupt A) s = Some s1" "other_lines A s1 = Some s2"
    "(if currentProc s2 = None then schedule s2 else Some (LDST (bios_state s2), s2)) = Some (out, s')"
    by (auto simp: interruptHandler_lines bind_Some_iff)
  have p: "progress s s2"
    by (rule progress_trans [OF progressiveD [OF progressive_line [OF plt_progressive] 1(1)]
          progressiveD [OF lines_progressive 1(2)]])
  show ?thesis
  proof (cases "current_active_process s2")
    case None
    then have "parks s2 s2" by (auto simp: parks_def dest: kinvD)
    from scheduled [OF progress_parks [OF p this]] 1(3) None show ?thesis by (simp add: currentProc_def)
  next
    case (Some c)
    then have "s' = s2" "gives_processor out" using 1(3) by (auto simp: currentProc_def gives_processor_def)
    with returned [of s s' c out] p Some show ?thesis by simp
  qed
qed

section \<open>Termination\<close>

lemma terminated:
  assumes r: "terminateProcess A (Some p) s = Some (out, s')"
    and p: "\<And>v. kinv s v \<Longrightarrow> p < MAXPROC \<and> p \<notin> set (v_free v)"
  shows "handled s out s'"
  unfolding handled_def
proof (intro allI impI)
  fix v assume v: "kinv s v"
  note q = p [OF v]
  let ?D = "desc_of (kid_rel v) p"
  from terminateProcess_resumes [OF kinvD(1,2) [OF v], of p A] q obtain fs where
    fs: "set fs = set (v_free v) \<union> ?D" and t: "resumes (terminateProcess A (Some p) s) (reaped A ?D s) (v_reaped ?D fs (v_orphan p v))"
    by blast
  from resumes_hand_over [OF t r] obtain v' where
    v': "kinv s' v'" "astate v' s' = hand_over (v_reaped ?D fs (v_orphan p v), None)" "outcome_ok out s' v'" by blast
  have "dies (astate v s) (v_reaped ?D fs (v_orphan p v), None)" using q fs by (blast intro: dies.intros)
  then have "kernel_move (astate v s) (astate v' s')" unfolding kernel_move_def v'(2) by blast
  with v' show "\<exists>v'. kinv s' v' \<and> kernel_move (astate v s) (astate v' s') \<and> outcome_ok out s' v'" by blast
qed

lemma current_terminated:
  assumes r: "terminateProcess A (currentProc s) s = Some (out, s')"
  shows "handled s out s'"
proof -
  from r obtain c where c: "current_active_process s = Some c"
    by (cases "current_active_process s") (auto simp: currentProc_def terminateProcess_null)
  show ?thesis
    by (rule terminated [of A c]) (use r c current_not_free [OF wf_kernelI _ c] in \<open>auto simp: currentProc_def dest: kinvD\<close>)
qed

lemma found_terminated:
  assumes f: "findPcb pid getReadyQueue s = Some p" and r: "terminateProcess A p s = Some (out, s')"
  shows "handled s out s'"
proof -
  from r obtain i where i: "p = Some i" by (cases p) (auto simp: terminateProcess_null)
  have "i < MAXPROC \<and> i \<notin> set (v_free v)" if v: "kinv s v" for v
    using findPcb_view [OF kinvD(1) [OF v], of pid] f i listed_live [OF kinvD(1,2) [OF v], of i]
    by (auto simp: getReadyQueue_def)
  with terminated [of A i s out s'] r i show ?thesis by blast
qed

section \<open>System calls\<close>

lemma saved_and_scheduled:
  assumes p: "parks s t" and r: "save_and_schedule t = Some (out, s')"
  shows "handled s out s'"
proof -
  obtain c where c: "current_active_process t = Some c"
    using r by (cases "current_active_process t") (auto simp: save_and_schedule_def currentProc_def)
  have "save_and_schedule t = schedule (save_state c t)"
    using c by (simp add: save_and_schedule_def currentProc_def save_state_def set_pcb_def)
  moreover have "parks s (save_state c t)"
    using p by (simp add: parks_def save_state_def kabs_set_pcb inv_core_def) (simp add: set_pcb_def)
  ultimately show ?thesis using scheduled r by simp
qed

lemma insertBlocked_parks:
  assumes r: "insertBlocked k (currentProc s) s = Some (n, s')" and k: "k \<noteq> 0" and c: "current_active_process s = Some c"
  shows "parks s s'"
  unfolding parks_def
proof (intro allI impI)
  fix v assume v: "kinv s v"
  have p: "c < MAXPROC" using kinvD(5) [OF v c] by blast
  from block_current [OF v c k] obtain h hh ds where
    1: "insertBlocked k (Some c) s = Some (0, relink h hh ds (set_semAdd c k s))"
    "kabs (relink h hh ds (set_semAdd c k s)) (v_block k c v)" by (rule runs_toE)
  have "s' = relink h hh ds (set_semAdd c k s)" using r 1(1) by (simp add: currentProc_def c)
  moreover have "move\<^sup>*\<^sup>* (astate v s) (v_block k c v, None)" using move.blocks [OF k] by (simp add: c r_into_rtranclp)
  ultimately show "\<exists>v'. kabs s' v' \<and> inv_core s' v' \<and> move\<^sup>*\<^sup>* (astate v s) (v', None)"
    using 1(2) v_block_inv [OF kinvD(2) [OF v] p, of k] by auto
qed

text \<open>The running process loses the processor, in no queue.\<close>

lemma progress_loses: "progress s t \<Longrightarrow> current_active_process t = Some c \<Longrightarrow> parks s t"
  unfolding progress_def parks_def
proof (intro allI impI)
  fix v assume p: "\<forall>v. kinv s v \<longrightarrow> (\<exists>v'. kinv t v' \<and> move\<^sup>*\<^sup>* (astate v s) (astate v' t))"
    and c: "current_active_process t = Some c" and "kinv s v"
  then obtain w where w: "kinv t w" "move\<^sup>*\<^sup>* (astate v s) (w, Some c)" by auto
  have "move\<^sup>*\<^sup>* (astate v s) (w, None)" using w(2) move.loses by (rule rtranclp.rtrancl_into_rtrancl)
  with kinvD(1,2) [OF w(1)] show "\<exists>v'. kabs t v' \<and> inv_core t v' \<and> move\<^sup>*\<^sup>* (astate v s) (v', None)" by blast
qed

lemma P_sem_parks:
  assumes r: "P_sem k s = Some s'" and c: "current_active_process s = Some c"
  shows "parks s s'"
proof -
  have k: "k \<noteq> 0" using r by (auto simp: P_sem_def)
  show ?thesis
  proof (cases "mem s k = 0")
    case True
    with r k obtain n t where t: "insertBlocked k (currentProc s) s = Some (n, t)" "s' = incrementSoftBlockCount t"
      by (auto simp: P_sem_def bind_Some_iff)
    from insertBlocked_parks [OF t(1) k c] show ?thesis
      by (simp add: t(2) parks_def incrementSoftBlockCount_def inv_core_def)
  next
    case False
    with r P_sem_pass [OF k False] have e: "s' = store_word k 0 s" by simp
    show ?thesis by (rule progress_loses [of _ _ c]) (simp_all add: e c store_word_def [symmetric], simp add: store_word_def c)
  qed
qed

lemma woken_moves:
  assumes v: "kinv s v" and x: "v_semq v k = x # xs"
    and r: "(do { (proc, s) \<leftarrow> removeBlocked k s; s \<leftarrow> enqueueReady proc s; Some (n, s) }) = Some (m, s')"
  shows "m = n" and "progress s s'" and "current_active_process s' = current_active_process s"
proof -
  have c: "clear_current x (set_semAdd x 0 s) = set_semAdd x 0 s"
    using not_current_woken [OF v, of x k] x by (simp add: clear_current_def set_semAdd_def)
  from wake_then [OF kinvD(1) [OF v] x, of n] c obtain h hh ds where
    e: "(do { (proc, s) \<leftarrow> removeBlocked k s; s \<leftarrow> enqueueReady proc s; Some (n, s) }) = Some (n, relink h hh ds (set_semAdd x 0 s))"
    "kabs (relink h hh ds (set_semAdd x 0 s)) (v_wake k v)" by (auto elim!: runs_toE)
  have s': "s' = relink h hh ds (set_semAdd x 0 s)" and "m = n" using r e(1) by simp_all
  then show "m = n" and cur: "current_active_process s' = current_active_process s" by (simp_all add: set_semAdd_def)
  have "kinv s' (v_wake k v)" using e(2) wake_inv [OF v x] by (simp add: s' kinv_def)
  moreover have "move\<^sup>*\<^sup>* (astate v s) (astate (v_wake k v) s')" unfolding cur using move.wakes [of v k] x by auto
  ultimately show "progress s s'" unfolding progress_def using v
    by (metis kabs_unique kinvD(1))
qed

text \<open>P and V of a process: with 0 it goes on.\<close>

definition sem_moves :: "nat \<Rightarrow> nat \<Rightarrow> kstate \<Rightarrow> kstate \<Rightarrow> bool" where
  "sem_moves c n s s' \<longleftrightarrow> (if n = 0 then progress s s' \<and> current_active_process s' = Some c else parks s s')"

lemma passeren_moves:
  assumes r: "passeren k s = Some (n, s')" and c: "current_active_process s = Some c" and v: "kinv s v"
  shows "sem_moves c n s s'"
proof -
  have k: "k \<noteq> 0" using r by (cases "k = 0") (auto simp: passeren_def)
  show ?thesis
  proof (cases "mem s k = 0")
    case True
    with r k obtain m where "insertBlocked k (currentProc s) s = Some (m, s')" "n = 1"
      by (auto simp: passeren_def bind_Some_iff)
    with insertBlocked_parks [OF this(1) k c] show ?thesis by (simp add: sem_moves_def)
  next
    case False
    show ?thesis
    proof (cases "v_semq v k")
      case Nil
      with passeren_pass [OF kinvD(1) [OF v] k False] r c show ?thesis by (auto simp: sem_moves_def) (simp add: store_word_def)
    next
      case (Cons q qs)
      with r k False headBlocked_view [OF kinvD(1) [OF v], of k]
      have "(do { (p, s) \<leftarrow> removeBlocked k s; s \<leftarrow> enqueueReady p s; Some (0, s) }) = Some (n, s')"
        by (simp add: passeren_def)
      from woken_moves [OF v Cons this] c show ?thesis by (simp add: sem_moves_def)
    qed
  qed
qed

lemma verhogen_moves:
  assumes r: "verhogen k s = Some (n, s')" and c: "current_active_process s = Some c" and v: "kinv s v"
  shows "sem_moves c n s s'"
proof -
  have k: "k \<noteq> 0" using r by (cases "k = 0") (auto simp: verhogen_def)
  show ?thesis
  proof (cases "mem s k = 1")
    case True
    with r k obtain m where "insertBlocked k (currentProc s) s = Some (m, s')" "n = 1"
      by (auto simp: verhogen_def bind_Some_iff)
    with insertBlocked_parks [OF this(1) k c] show ?thesis by (simp add: sem_moves_def)
  next
    case False
    show ?thesis
    proof (cases "v_semq v k")
      case Nil
      with verhogen_pass [OF kinvD(1) [OF v] k False] r c show ?thesis by (auto simp: sem_moves_def) (simp add: store_word_def)
    next
      case (Cons q qs)
      with r k False headBlocked_view [OF kinvD(1) [OF v], of k]
      have "(do { (p, s) \<leftarrow> removeBlocked k s; s \<leftarrow> enqueueReady p s; Some (0, s) }) = Some (n, s')"
        by (simp add: verhogen_def)
      from woken_moves [OF v Cons this] c show ?thesis by (simp add: sem_moves_def)
    qed
  qed
qed

lemma sem_call_handled:
  assumes "sem_moves c n s t" and "(if n \<noteq> 0 then save_and_schedule t else return_to_caller t) = Some (out, s')"
  shows "handled s out s'"
proof (cases "n = 0")
  case True
  with assms show ?thesis
    by (auto simp: sem_moves_def return_to_caller_def gives_processor_def intro: returned)
next
  case False
  with assms show ?thesis by (auto simp: sem_moves_def intro: saved_and_scheduled)
qed

text \<open>The device gets its command, and the caller waits or is lost.\<close>

lemma doIO_parks:
  assumes r: "doIO A a vals s = Some s'" and p: "current_active_process s = Some p"
  shows "parks s s'"
proof -
  have bit: "io_bit A a \<noteq> None"
    using r by (cases "io_bit A a") (auto simp: doIO_def io_bit_def io_line_def Let_def bind_Some_iff)
  let ?s = "io_saved vals p s" and ?t = "io_command A a vals (io_saved vals p s)"
  have s: "progress s ?s" by (rule progress_same) (simp_all add: io_saved_def kinv_set_pcb, simp add: set_pcb_def)
  have cs: "current_active_process ?s = Some p" using p by (simp add: io_saved_def set_pcb_def)
  have t: "progress ?s ?t" "current_active_process ?t = Some p"
    by (rule progress_same) (simp_all add: io_command_def Let_def, simp_all add: store_word_def cs p)
  show ?thesis
  proof (cases "io_installed A a s")
    case True
    then have "P_sem (io_sem A a) ?t = Some s'" using r by (simp add: doIO_eq [OF p bit])
    from progress_parks [OF progress_trans [OF s t(1)] P_sem_parks [OF this t(2)]] show ?thesis .
  next
    case False
    then have e: "s' = set_pcb p (\<lambda>b. b\<lparr>p_s := set_v0 A (-1) (p_s b)\<rparr>) (store_word (vals + 4 * ix_STATUS A) 0 ?s)"
      using r by (simp add: doIO_eq [OF p bit])
    have "progress ?s s'" "current_active_process s' = Some p"
      by (rule progress_same) (simp_all add: e kinv_set_pcb, simp_all add: set_pcb_def store_word_def cs p)
    from progress_loses [OF progress_trans [OF s this(1)] this(2)] show ?thesis .
  qed
qed

text \<open>Creation: the new process, and a namespace for it.\<close>

lemma addNamespace_leaf_moves:
  assumes v: "kinv s v" and p: "p < MAXPROC" "p \<notin> set (v_free v)" "v_kids v p = []"
    and r: "addNamespace A (Some p) ns s = Some (ok, s')"
  shows "progress s s'" and "current_active_process s' = current_active_process s"
proof -
  show cur: "current_active_process s' = current_active_process s"
    using addNamespace_leaf_wf [OF v p r] by (simp add: goes_on_def)
  show "progress s s'"
  proof (cases ns)
    case None
    with r show ?thesis by (auto simp: addNamespace_null)
  next
    case (Some n)
    with r obtain s1 s2 where
      1: "set_namespace A (Some p) (Some n) s = Some s1" "setAllChildNamespace A (Some (P_child p)) (Some n) s1 = Some s2"
      and 2: "(do {
        s \<leftarrow> on_lists (list_safe_del (Some (N_link n))) s2;
        on_lists (list_add_tail (Some (N_link n)) (Some PID_nsList_h)) s
      }) = Some s'"
      by (auto simp: addNamespace_def bind_Some_iff)
    from set_namespace_eq [OF 1(1)] have k1: "kinv s1 v" using v by (auto simp: kinv_set_pcb)
    have "s2 = s1" using setAllChildNamespace_leaf [OF kinvD(1) [OF k1] p, of A "Some n"] 1(2) by simp
    with use_namespace_view [OF kinvD(1) [OF k1], of n] 2 obtain h hh ds where
      s': "s' = relink h hh ds s1" "kabs (relink h hh ds s1) (v_used n v)" by (auto elim!: ends_inE)
    have "inv_core s1 (v_used n v)" "cur_ok s1 (v_used n v)"
      using k1 by (auto simp: kinv_def inv_core_v_used) (auto simp: cur_ok_def v_queued_def v_used_def)
    with s' have "kinv s' (v_used n v)" by (simp add: kinv_def)
    moreover have "move\<^sup>*\<^sup>* (astate v s) (astate (v_used n v) s')" unfolding cur by (auto intro: move.names)
    ultimately show ?thesis unfolding progress_def using v by (metis kabs_unique kinvD(1))
  qed
qed

lemma give_namespace_moves:
  assumes v: "kinv s v" and p: "p < MAXPROC" "p \<notin> set (v_free v)" "v_kids v p = []"
    and r: "give_namespace A (Some p) nsd s = Some (pid, s')"
  shows "progress s s'" and "current_active_process s' = current_active_process s"
proof -
  have "\<exists>ns ok. addNamespace A (Some p) ns s = Some (ok, s')"
  proof (cases nsd)
    case None
    with r show ?thesis by (auto simp: give_namespace_def addNamespace_null NS_TYPE_MAX_def bind_Some_iff)
  next
    case (Some n)
    from r obtain ok s1 where 1: "addNamespace A (Some p) nsd s = Some (ok, s1)" "ok \<Longrightarrow> s1 = s'"
      by (auto simp: give_namespace_def bind_Some_iff split: if_splits)
    with addNamespace_ok_iff [OF 1(1)] Some show ?thesis by auto
  qed
  then show "progress s s'" "current_active_process s' = current_active_process s"
    using addNamespace_leaf_moves [OF v p] by blast+
qed

lemma createProcess_moves:
  assumes v: "kinv s v" and r: "createProcess A st supp nsd s = Some (pid, s')"
    and cur: "current_active_process s = Some c"
  shows "progress s s'" and "current_active_process s' = Some c"
proof -
  have "progress s s' \<and> current_active_process s' = Some c"
  proof (cases "v_free v")
    case Nil
    with createProcess_full [OF kinvD(1) [OF v]] r cur show ?thesis by auto
  next
    case (Cons p fs)
    from createProcess_alloc [OF v cur Cons, of A st supp nsd] obtain h hh ds where
      1: "createProcess A st supp nsd s = give_namespace A (Some p) nsd (relink h hh ds (new_process A p c st supp s))"
      "kabs (relink h hh ds (new_process A p c st supp s)) (v_new p fs c v)" unfolding Let_def by blast
    let ?t = "relink h hh ds (new_process A p c st supp s)"
    have i: "kinv ?t (v_new p fs c v)"
      using 1(2) create_inv [OF v cur Cons, of A st supp] by (simp add: kinv_def)
    have ct: "current_active_process ?t = Some c" using cur by (simp add: new_process_def set_pcb_def)
    have "move\<^sup>*\<^sup>* (astate v s) (astate (v_new p fs c v) ?t)"
      unfolding cur ct using move.spawns [of v p fs c] Cons by auto
    with i v have "progress s ?t" unfolding progress_def by (metis kabs_unique kinvD(1))
    with give_namespace_moves [OF i v_new_leaf(1-3) [OF v cur Cons], of A nsd pid s'] r 1(1) ct
    show ?thesis using progress_trans by auto
  qed
  then show "progress s s'" "current_active_process s' = Some c" by blast+
qed

section \<open>Exceptions\<close>

lemma passUpOrDie_handled:
  assumes r: "passUpOrDie A n s = Some (out, s')" and c: "current_active_process s = Some c"
    and n: "n = PGFAULTEXCEPT \<or> n = GENERALEXCEPT"
  shows "handled s out s'"
proof (cases "p_supportStruct (pcbs s c) = 0")
  case True
  then have "terminateProcess A (currentProc s) s = Some (out, s')"
    using r n c by (simp add: passUpOrDie_def currentProc_def)
  then show ?thesis by (rule current_terminated)
next
  case False
  then have "\<exists>u. s' = s\<lparr>supports := u\<rparr> \<and> gives_processor out"
    using r n c by (auto simp: passUpOrDie_def currentProc_def gives_processor_def Let_def)
  then obtain u where u: "s' = s\<lparr>supports := u\<rparr>" "gives_processor out" by blast
  have "progress s s'" by (rule progress_same) (simp_all add: u(1))
  from returned [OF this _ u(2), of c] c show ?thesis by (simp add: u(1))
qed

lemma answered_handled:
  assumes "return_to_caller (RETURN_SYS_VALUE A x t) = Some (out, s')" and "progress s t"
    and "current_active_process t = Some c"
  shows "handled s out s'"
  using assms returned [of s s' c out] by (auto simp: return_to_caller_def gives_processor_def) (simp add: RETURN_SYS_VALUE_def)

lemma syscall_switch_handled:
  assumes r: "syscall_switch A s = Some (out, s')" and v: "kinv s v" and c: "current_active_process s = Some c"
  shows "handled s out s'"
proof -
  note e = r [unfolded syscall_switch_def sys_code_def [symmetric] Let_def]
  consider (create) "sys_code A s = CREATEPROCESS" | (dies) "sys_code A s = TERMPROCESS"
    | (pass) "sys_code A s = PASSEREN" | (verh) "sys_code A s = VERHOGEN" | (io) "sys_code A s = DOIO"
    | (clock) "sys_code A s = CLOCKWAIT" | (kids) "sys_code A s = GETCHILDREN"
    | (answer) "sys_code A s \<in> {GETTIME, GETSUPPORTPTR, GETPROCESSID}"
    | (other) "sys_code A s \<notin> {CREATEPROCESS, TERMPROCESS, PASSEREN, VERHOGEN, DOIO, GETTIME, CLOCKWAIT, GETSUPPORTPTR,
        GETPROCESSID, GETCHILDREN}" by blast
  then show ?thesis
  proof cases
    case create
    then obtain nsd pid t where t:
      "createProcess A (load_state A (mem s) (FIRST_PARAM A s)) (SECOND_PARAM A s) nsd s = Some (pid, t)"
      "return_to_caller (RETURN_SYS_VALUE A pid t) = Some (out, s')"
      using e by (auto simp: bind_Some_iff)
    from answered_handled [OF t(2) createProcess_moves [OF v t(1) c]] show ?thesis .
  next
    case dies
    then obtain q where "(if FIRST_PARAM A s = 0 then Some (currentProc s)
        else findPcb (FIRST_PARAM A s) getReadyQueue s) = Some q" "terminateProcess A q s = Some (out, s')"
      using e by (auto simp: syscall_codes bind_Some_iff)
    then show ?thesis
      by (cases "FIRST_PARAM A s = 0") (auto intro: current_terminated found_terminated)
  next
    case pass
    then obtain n t where t: "passeren (FIRST_PARAM A s) s = Some (n, t)"
      "(if n \<noteq> 0 then save_and_schedule t else return_to_caller t) = Some (out, s')"
      using e by (auto simp: syscall_codes bind_Some_iff)
    from sem_call_handled [OF passeren_moves [OF t(1) c v] t(2)] show ?thesis .
  next
    case verh
    then obtain n t where t: "verhogen (FIRST_PARAM A s) s = Some (n, t)"
      "(if n \<noteq> 0 then save_and_schedule t else return_to_caller t) = Some (out, s')"
      using e by (auto simp: syscall_codes bind_Some_iff)
    from sem_call_handled [OF verhogen_moves [OF t(1) c v] t(2)] show ?thesis .
  next
    case io
    then obtain t where t: "doIO A (FIRST_PARAM A s) (SECOND_PARAM A s) s = Some t" "save_and_schedule t = Some (out, s')"
      using e by (auto simp: syscall_codes bind_Some_iff)
    from saved_and_scheduled [OF doIO_parks [OF t(1) c] t(2)] show ?thesis .
  next
    case clock
    then obtain t where t: "P_sem (getPseudoClockSem A) s = Some t" "save_and_schedule t = Some (out, s')"
      using e by (auto simp: syscall_codes bind_Some_iff)
    from saved_and_scheduled [OF P_sem_parks [OF t(1) c] t(2)] show ?thesis .
  next
    case kids
    then obtain x t where t: "getChildren A (FIRST_PARAM A s) (SECOND_PARAM A s) s = Some (x, t)"
      "return_to_caller (RETURN_SYS_VALUE A x t) = Some (out, s')"
      using e by (auto simp: syscall_codes bind_Some_iff)
    from t(1) obtain nsd first where
      "(x, t) = (0, s) \<or> getChildren_from A (FIRST_PARAM A s) (SECOND_PARAM A s) nsd (p_child (currentProc s)) first 0 s = Some (x, t)"
      by (auto simp: getChildren_def bind_Some_iff split: if_splits)
    then have "\<exists>m. t = s\<lparr>mem := m\<rparr>"
      using getChildren_from_frame [of A "FIRST_PARAM A s" "SECOND_PARAM A s" nsd _ first 0 s "(x, t)"] by auto
    then obtain m where m: "t = s\<lparr>mem := m\<rparr>" by blast
    have "progress s t" "current_active_process t = Some c" by (rule progress_same) (simp_all add: m c)
    from answered_handled [OF t(2) this] show ?thesis .
  next
    case answer
    then obtain x where "return_to_caller (RETURN_SYS_VALUE A x s) = Some (out, s')"
      using e by (auto simp: syscall_codes bind_Some_iff)
    from answered_handled [OF this progress_refl c] show ?thesis .
  next
    case other
    then have "passUpOrDie A GENERALEXCEPT s = Some (out, s')" using e by simp
    from passUpOrDie_handled [OF this c] show ?thesis by simp
  qed
qed

lemma syscall_handled:
  assumes r: "syscallHandler A s = Some (out, s')" and v: "kinv s v" and c: "current_active_process s = Some c"
  shows "handled s out s'"
proof (cases "kernel_mode A s")
  case True
  from r have "syscall_switch A (advanced s) = Some (out, s')" by (simp add: syscallHandler_kernel [OF True])
  from syscall_switch_handled [OF this kinv_advanced [OF v], of c] c have "handled (advanced s) out s'" by simp
  then show ?thesis by (rule handled_before) (simp_all add: kinv_advanced)
next
  case False
  let ?s = "(advanced s)\<lparr>bios_state := (bios_state (advanced s))\<lparr>cause := push_bit (CAUSE_EXCCODE_BIT A) (EXC_RI A)\<rparr>\<rparr>"
  have "passUpOrDie A GENERALEXCEPT ?s = Some (out, s')"
    using r False by (simp add: syscallHandler_def kernel_mode_def advanced_def Let_def)
  from passUpOrDie_handled [OF this, of c] c have "handled ?s out s'" by simp
  then show ?thesis by (rule handled_before) (simp_all add: advanced_def)
qed

theorem exception_handled:
  assumes r: "exceptionHandler A s = Some (out, s')" and w: "wf_kernel s"
    and run: "exc_code A s = EXC_INT A \<or> current_active_process s \<noteq> None"
  shows "handled s out s'"
proof -
  from r obtain s1 where 1: "update_time s = Some s1"
    "(if exc_code A s = EXC_INT A then interruptHandler A s1
      else if exc_code A s = EXC_MOD A \<or> exc_code A s = EXC_TLBL A \<or> exc_code A s = EXC_TLBS A
      then passUpOrDie A PGFAULTEXCEPT s1
      else if exc_code A s = EXC_SYS A then syscallHandler A s1
      else passUpOrDie A GENERALEXCEPT s1) = Some (out, s')"
    unfolding exceptionHandler_def exc_code_def Let_def bind_Some_iff by blast
  have cur: "current_active_process s1 = current_active_process s" and w1: "wf_kernel s1"
    using update_time_goes_on [OF w 1(1)] by (simp_all add: goes_on_def)
  have s1: "s1 = s \<or> (\<exists>c. s1 = timed c s)"
    using 1(1) update_time_running by (cases "current_active_process s") (auto simp: update_time_def currentProc_def)
  have "handled s1 out s'"
  proof (cases "exc_code A s = EXC_INT A")
    case True
    with 1(2) show ?thesis by (auto intro: interrupt_handled)
  next
    case False
    with run cur obtain c where c: "current_active_process s1 = Some c" by auto
    from w1 obtain v where "kinv s1 v" by (auto simp: wf_kernel_def)
    with 1(2) False c show ?thesis by (auto split: if_splits intro: passUpOrDie_handled syscall_handled)
  qed
  then show ?thesis
    by (rule handled_before) (use s1 cur in \<open>auto simp: timed_def kinv_set_pcb\<close>)
qed

end
