(* ===== verification/Fairness.thy ===== *)
theory Fairness
  imports Kernel_Refines
begin

text \<open>
  The runs of the kernel as runs of its specification, and what follows: the machine stops for a
  reason, nobody overtakes in the ready queue or in the queue of a semaphore, and a process that
  is ready gets the processor before it has been given away twenty times.
\<close>

section \<open>The simulation\<close>

definition represents :: "outcome \<times> kstate \<Rightarrow> akstate \<Rightarrow> bool" where
  "represents c a \<longleftrightarrow> settled c \<and> kinv (snd c) (fst a) \<and> snd a = current_active_process (snd c)
     \<and> outcome_ok (fst c) (snd c) (fst a)"

lemma outside_kept: "outside s s' \<Longrightarrow> current_active_process s' = current_active_process s
    \<and> process_count s' = process_count s \<and> soft_block_count s' = soft_block_count s \<and> kinv s' v = kinv s v"
  by (auto simp: outside_def)

lemma exception_refines:
  assumes r: "exceptionHandler A s = Some c" and a: "represents (out, s) a"
    and run: "exc_code A s = EXC_INT A \<or> current_active_process s \<noteq> None"
  shows "\<exists>a'. kernel_move a a' \<and> represents c a'"
proof -
  from a have w: "wf_kernel s" "kinv s (fst a)" "a = astate (fst a) s"
    by (auto simp: represents_def settled_def prod_eq_iff)
  from r have r': "exceptionHandler A s = Some (fst c, snd c)" by simp
  from exception_handled [OF r' w(1) run] w(2) obtain v' where
    "kinv (snd c) v'" "kernel_move (astate (fst a) s) (astate v' (snd c))" "outcome_ok (fst c) (snd c) v'"
    unfolding handled_def by blast
  with w(3) exceptionHandler_settled [OF w(1) run r] show ?thesis
    by (intro exI [of _ "astate v' (snd c)"]) (simp add: represents_def)
qed

lemma kstep_refines:
  assumes "kstep A c c'" and "represents c a"
  shows "\<exists>a'. (a' = a \<or> kernel_move a a') \<and> represents c' a'"
  using assms
proof (induction rule: kstep.induct)
  case (outside out s s')
  have "settled (out, s')" by (rule kstep_settled [OF kstep.outside [OF outside(1,2)]]) (use outside(3) in \<open>simp add: represents_def\<close>)
  with outside_kept [OF outside(2)] outside(3) have "represents (out, s') a"
    by (auto simp: represents_def outcome_ok_def split: outcome.splits)
  then show ?case by blast
next
  case (exception out s c)
  then have "current_active_process s \<noteq> None" by (simp add: represents_def settled_def)
  with exception_refines [OF exception(2,3)] show ?case by blast
next
  case (interrupt s c)
  with exception_refines [OF interrupt(2,3)] show ?case by blast
qed

interpretation kernel: simulation "kstep A" kernel_move represents for A
proof
  fix c a c' assume "represents c a" and "kstep A c c'"
  from kstep_refines [OF this(2,1)] show "\<exists>a'. kernel_move\<^sup>*\<^sup>* a a' \<and> represents c' a'" by blast
qed

text \<open>The specification starts with the first process running.\<close>

definition first_astate :: akstate where
  "first_astate = (v_first\<lparr>v_ready := []\<rparr>, Some first_pcb)"

lemma boot_represents: "zeroed s \<Longrightarrow> main_entry A s = Some c \<Longrightarrow> represents c first_astate"
  using main_entry_boot [of s A] boot_settled [of s A c]
  by (auto simp: represents_def first_astate_def outcome_ok_def)

lemma reachable_runs: "reachable A c \<Longrightarrow> \<exists>s c0. zeroed s \<and> main_entry A s = Some c0 \<and> (kstep A)\<^sup>*\<^sup>* c0 c"
proof (induction rule: reachable.induct)
  case (step c c')
  then show ?case by (meson rtranclp.rtrancl_into_rtrancl)
qed blast

lemma reachable_abstract: "reachable A c \<Longrightarrow> \<exists>a. kernel_move\<^sup>*\<^sup>* first_astate a \<and> represents c a"
  using reachable_runs [of A c] boot_represents kernel.runs by blast

section \<open>Why the machine stops\<close>

lemma nobody_left:
  assumes "kinv s v" and "process_count s = 0"
  shows "set (v_free v) = {..<MAXPROC}"
proof -
  have l: "length (v_free v) \<le> MAXPROC" by (rule free_length [OF kinvD(1,3) [OF assms(1)]])
  have "(of_nat (MAXPROC - length (v_free v)) :: u32) = 0" using kinvD(6) [OF assms(1)] assms(2) by simp
  then have "2 ^ 32 dvd MAXPROC - length (v_free v)" by (simp only: word_of_nat_eq_0_iff) simp
  then have "length (v_free v) = MAXPROC" using l by (auto dest!: dvd_imp_le simp: MAXPROC_def)
  moreover have "set (v_free v) \<subseteq> {..<MAXPROC}" using in_tableD(1) [OF kinvD(3) [OF assms(1)]] by auto
  ultimately show ?thesis
    using distinct_card [OF kabs_facts(1) [OF kinvD(1) [OF assms(1)]]] by (intro card_subset_eq) simp_all
qed

lemma somebody_left:
  assumes "kinv s v" and "process_count s \<noteq> 0"
  shows "set (v_free v) \<noteq> {..<MAXPROC}"
proof
  assume "set (v_free v) = {..<MAXPROC}"
  then have "length (v_free v) = MAXPROC"
    using distinct_card [OF kabs_facts(1) [OF kinvD(1) [OF assms(1)]]] by simp
  with kinvD(6) [OF assms(1)] assms(2) show False by simp
qed

section \<open>Waiting lines\<close>

type_synonym vconfig = "(outcome \<times> kstate) \<times> kview"

text \<open>Steps with the views of the states.\<close>

definition vstep :: "umps \<Rightarrow> vconfig \<Rightarrow> vconfig \<Rightarrow> bool" where
  "vstep A x y \<longleftrightarrow> represents (fst x) (astate (snd x) (snd (fst x))) \<and> kstep A (fst x) (fst y)
     \<and> kinv (snd (fst y)) (snd y)"

definition ready_of :: "vconfig \<Rightarrow> nat list" where
  "ready_of x = v_ready (snd x)"

definition queue_on :: "u32 \<Rightarrow> vconfig \<Rightarrow> nat list" where
  "queue_on k x = v_semq (snd x) k"

text \<open>The processor is given to another process.\<close>

definition switched :: "vconfig \<Rightarrow> vconfig \<Rightarrow> nat" where
  "switched x y = (let r = current_active_process (snd (fst x)); r' = current_active_process (snd (fst y)) in
     if r' \<noteq> None \<and> r' \<noteq> r then 1 else 0)"

lemma vstep_moves:
  assumes "vstep A ((out, s), v) ((out', s'), v')"
  shows "kinv s v" and "kinv s' v'" and "astate v' s' = astate v s \<or> kernel_move (astate v s) (astate v' s')"
proof -
  from assms show k: "kinv s v" "kinv s' v'" by (simp_all add: vstep_def represents_def)
  from assms have "represents (out, s) (astate v s)" "kstep A (out, s) (out', s')" by (simp_all add: vstep_def)
  from kstep_refines [OF this(2,1)] obtain w r where
    w: "(w, r) = astate v s \<or> kernel_move (astate v s) (w, r)" "represents (out', s') (w, r)" by auto
  have "w = v'" "r = current_active_process s'"
    using w(2) kabs_unique [OF kinvD(1) [OF k(2)]] by (auto simp: represents_def dest: kinvD(1))
  with w(1) show "astate v' s' = astate v s \<or> kernel_move (astate v s) (astate v' s')" by auto
qed

lemma not_running: "kinv s v \<Longrightarrow> p \<in> set (v_ready v) \<or> p \<in> set (v_semq v k) \<Longrightarrow> current_active_process s \<noteq> Some p"
proof
  assume v: "kinv s v" and p: "p \<in> set (v_ready v) \<or> p \<in> set (v_semq v k)" and c: "current_active_process s = Some p"
  from kinvD(5) [OF v c] p blocked_not_elsewhere(1,2) [OF kinvD(1) [OF v], of p k] show False
    by (auto simp: v_queued_def)
qed

lemma ready_length:
  assumes "vstep A x y"
  shows "length (v_ready (snd x)) \<le> MAXPROC"
proof -
  from assms have v: "kinv (snd (fst x)) (snd x)" by (simp add: vstep_def represents_def)
  have "length (v_ready (snd x)) = card (set (v_ready (snd x)))"
    using distinct_card [OF kabs_facts(2) [OF kinvD(1) [OF v]]] by simp
  also have "\<dots> \<le> card {..<MAXPROC}" using in_tableD(2) [OF kinvD(3) [OF v]] by (intro card_mono) auto
  finally show ?thesis by simp
qed

lemma ready_step:
  assumes "vstep A x y" and "p \<in> set (ready_of x)" and "p \<in> set (ready_of y)"
  shows "subseq (ahead p (ready_of y)) (ahead p (ready_of x))"
    and "length (ahead p (ready_of y)) + switched x y \<le> length (ahead p (ready_of x))"
proof -
  obtain out s v out' s' v' where x: "x = ((out, s), v)" and y: "y = ((out', s'), v')" by (metis prod.exhaust)
  note m = vstep_moves [OF assms(1) [unfolded x y]]
  have p: "p \<in> set (v_ready v)" "p \<in> set (v_ready v')" using assms(2,3) by (simp_all add: x y ready_of_def)
  have n: "current_active_process s' \<noteq> Some p" using not_running [OF m(2)] p(2) by blast
  show "subseq (ahead p (ready_of y)) (ahead p (ready_of x))"
    "length (ahead p (ready_of y)) + switched x y \<le> length (ahead p (ready_of x))"
    using m(3) ready_in_order [OF _ p n, of "current_active_process s"]
    by (auto simp: x y ready_of_def switched_def Let_def)
qed

interpretation ready_queue: served_line "vstep A" ready_of switched for A
  by unfold_locales (fact ready_step)+

lemma queue_step:
  assumes "vstep A x y" and "p \<in> set (queue_on k x)" and "p \<in> set (queue_on k y)"
  shows "subseq (ahead p (queue_on k y)) (ahead p (queue_on k x))"
proof -
  obtain out s v out' s' v' where x: "x = ((out, s), v)" and y: "y = ((out', s'), v')" by (metis prod.exhaust)
  note m = vstep_moves [OF assms(1) [unfolded x y]]
  have p: "p \<in> set (v_semq v k)" "p \<in> set (v_semq v' k)" using assms(2,3) by (simp_all add: x y queue_on_def)
  have n: "current_active_process s \<noteq> Some p" using not_running [OF m(1)] p(1) by blast
  show ?thesis
    using m(3) sem_in_order(1) [OF _ p(1) kabs_facts(4) [OF kinvD(1) [OF m(1)]] n p(2)]
    by (auto simp: x y queue_on_def)
qed

interpretation sem_queue: waiting_line "vstep A" "queue_on k" for A k
  by unfold_locales (fact queue_step)

text \<open>Who leaves a line has been served, or terminated.\<close>

lemma leaves_ready:
  assumes "vstep A ((out, s), v) ((out', s'), v')" and "p \<in> set (v_ready v)" and "p \<notin> set (v_ready v')"
  shows "current_active_process s' = Some p \<or> p \<in> set (v_free v')"
  using vstep_moves(3) [OF assms(1)] ready_leaves [OF _ assms(2,3)] assms(2,3) by auto

lemma leaves_queue:
  assumes "vstep A ((out, s), v) ((out', s'), v')" and "p \<in> set (v_semq v k)" and "p \<notin> set (v_semq v' k)"
  shows "p \<in> set (v_ready v') \<or> current_active_process s' = Some p \<or> p \<in> set (v_free v')"
proof -
  note m = vstep_moves [OF assms(1)]
  have n: "current_active_process s \<noteq> Some p" using not_running [OF m(1)] assms(2) by blast
  show ?thesis
    using m(3) sem_in_order(2) [OF _ assms(2) kabs_facts(4) [OF kinvD(1) [OF m(1)]] n assms(3)] assms(2,3) by auto
qed

end
