(* ===== verification/Fair_Runs.thy ===== *)
theory Fair_Runs
  imports Fairness Runs
begin

text \<open>
  Three processes on the machine of the documentation: states in which some wait for others, on
  which the theorems about waiting lines are applied.
\<close>

section \<open>Two processes are ready\<close>

text \<open>The first process creates PCB 18 and PCB 17.\<close>

definition crowded :: kstate where
  "crowded = snd (the (createProcess umps3 zero_word_state 0 None created))"

definition v_crowded :: kview where
  "v_crowded = v_new 17 (rev [0..<17]) first_pcb v_created"

lemma second_free: "v_free v_created = 17 # rev [0..<17]"
proof -
  have "[0..<18] = [0..<17] @ [17 :: nat]" by (simp add: upt_rec numeral_eq_Suc)
  then show ?thesis by simp
qed

lemma created_namespace: "namespaces (pcbs created first_pcb) 0 = None"
proof -
  from createProcess_stale(1) [OF started_facts(1,2) first_free zero_pcb_facts, of zero_word_state 0]
  obtain h hh ds where c: "created = relink h hh ds (new_process umps3 18 first_pcb zero_word_state 0 started)"
    by (auto simp: created_def elim!: runs_toE)
  show ?thesis unfolding c using zero_pcb_facts by (simp add: new_process_def set_pcb_def first_pcb_def)
qed

lemma crowded_facts: "kinv crowded v_crowded" "current_active_process crowded = Some first_pcb"
proof -
  let ?n = "new_process umps3 17 first_pcb zero_word_state 0 created"
  from createProcess_stale(1) [OF created_facts(1,2) second_free created_namespace zero_pcb_facts(2), of zero_word_state 0]
  obtain h hh ds where
    1: "createProcess umps3 zero_word_state 0 None created = Some (pid_counter created, relink h hh ds ?n)"
    "kabs (relink h hh ds ?n) v_crowded"
    by (auto simp: v_crowded_def elim!: runs_toE)
  have c: "crowded = relink h hh ds ?n" by (simp add: crowded_def 1(1))
  show "kinv crowded v_crowded"
    using 1(2) create_inv [OF created_facts(1,2) second_free] by (simp add: kinv_def c v_crowded_def)
  show "current_active_process crowded = Some first_pcb"
    using created_facts(2) by (simp add: c new_process_def set_pcb_def)
qed

lemma v_crowded_simps [simp]: "v_ready v_crowded = [18, 17]" "v_semq v_crowded = (\<lambda>_. [])"
  by (simp_all add: v_crowded_def v_new_def)

lemma represents_running: "kinv s v \<Longrightarrow> current_active_process s = Some c \<Longrightarrow> represents (LDST st, s) (astate v s)"
  by (auto simp: represents_def settled_def wf_kernel_def gives_processor_def outcome_ok_def)

text \<open>The time slice of the running process is over.\<close>

definition out_of_time :: "kstate \<Rightarrow> kstate" where
  "out_of_time s = s\<lparr>bios_state := zero_word_state, reg_CAUSE := 0x200, reg_STATUS := 0x08000000\<rparr>"

lemma out_of_time_facts: "kinv (out_of_time s) v = kinv s v" "current_active_process (out_of_time s) = current_active_process s"
  "timer_enabled umps3 (out_of_time s)" "pending_only umps3 1 (out_of_time s)" "exc_code umps3 (out_of_time s) = EXC_INT umps3"
  by (simp_all add: out_of_time_def timer_enabled_def pending_only_def INT_LINE_def umps3_def exc_code_def zero_word_state_def)

lemma out_of_time_outside: "outside s (out_of_time s)"
  unfolding outside_def out_of_time_def
  by (intro exI [of _ "mem s"] exI [of _ "supports s"] exI [of _ zero_word_state] exI [of _ "0x08000000"] exI [of _ "0x200"]
      exI [of _ "reg_TIMER s"] exI [of _ "interval_timer s"] exI [of _ "tod s"]) (cases s, simp)

lemma preempts:
  assumes v: "kinv s v" "current_active_process s = Some c" "v_ready v = q # qs"
  shows "\<exists>st s'. exceptionHandler umps3 (out_of_time s) = Some (LDST st, s') \<and> kinv s' (v\<lparr>v_ready := qs @ [c]\<rparr>)
    \<and> current_active_process s' = Some q"
proof -
  let ?s = "timed c (out_of_time s)"
  have n: "1 \<notin> {DISKINT umps3, FLASHINT umps3, NETWINT umps3, PRNTINT umps3, TERMINT umps3}" by (simp add: umps3_def)
  have "timer_enabled umps3 ?s" "pending_only umps3 1 ?s"
    using out_of_time_facts(3,4) [of s] by (simp_all add: timer_enabled_def pending_only_def INT_LINE_def)
  then have "resumes (interruptHandler umps3 ?s) (preempted c ?s) (v\<lparr>v_ready := v_ready v @ [c]\<rparr>)"
    using timer_interrupt [OF _ _ _ _ n, of ?s v c] v(1,2) by (simp add: out_of_time_facts)
  moreover have "exceptionHandler umps3 (out_of_time s) = interruptHandler umps3 ?s"
    using v(2) out_of_time_facts(2,5) [of s] by (simp add: exceptionHandler_def exc_code_def update_time_running)
  ultimately show ?thesis using v(3) by (auto simp: resumes_def running_def)
qed

lemma running_step:
  assumes "kinv s v" "current_active_process s = Some c" "kstep A (LDST st, s) (out, s')" "kinv s' v'"
  shows "vstep A ((LDST st, s), v) ((out, s'), v')"
  using represents_running [OF assms(1,2)] assms(3,4) by (simp add: vstep_def)

text \<open>Two slices end: PCB 18 gets the processor, then PCB 17.\<close>

lemma crowded_run:
  "\<exists>f. f 0 = ((LDST zero_word_state, out_of_time crowded), v_crowded) \<and> (\<forall>i < 3. vstep umps3 (f i) (f (Suc i)))
    \<and> (\<Sum>i < 3. switched (f i) (f (Suc i))) = 2"
proof -
  let ?v1 = "v_crowded\<lparr>v_ready := [17, first_pcb]\<rparr>" and ?v2 = "v_crowded\<lparr>v_ready := [first_pcb, 18]\<rparr>"
  from preempts [OF crowded_facts v_crowded_simps(1)] obtain st1 s1 where
    1: "exceptionHandler umps3 (out_of_time crowded) = Some (LDST st1, s1)" "kinv s1 ?v1" "current_active_process s1 = Some 18"
    by auto
  from preempts [OF 1(2,3), of 17 "[first_pcb]"] obtain st2 s2 where
    2: "exceptionHandler umps3 (out_of_time s1) = Some (LDST st2, s2)" "kinv s2 ?v2" "current_active_process s2 = Some 17"
    by auto
  let ?x = "[((LDST zero_word_state, out_of_time crowded), v_crowded), ((LDST st1, s1), ?v1),
      ((LDST st1, out_of_time s1), ?v1), ((LDST st2, s2), ?v2)]"
  have "vstep umps3 (?x ! 0) (?x ! 1)"
    using crowded_facts 1 by (auto intro!: running_step kstep.exception simp: out_of_time_facts gives_processor_def)
  moreover have "vstep umps3 (?x ! 1) (?x ! 2)"
    using 1(2,3) by (auto intro!: running_step kstep.outside out_of_time_outside simp: out_of_time_facts gives_processor_def)
  moreover have "vstep umps3 (?x ! 2) (?x ! 3)"
    using 1(2,3) 2 by (auto intro!: running_step kstep.exception simp: out_of_time_facts gives_processor_def)
  ultimately have "\<forall>i < 3. vstep umps3 (?x ! i) (?x ! Suc i)" by (simp add: less_Suc_eq numeral_eq_Suc)
  moreover have "(\<Sum>i < 3. switched (?x ! i) (?x ! Suc i)) = 2"
    using 1(3) 2(3) crowded_facts(2) by (simp add: switched_def out_of_time_facts first_pcb_def numeral_eq_Suc)
  ultimately show ?thesis by (intro exI [of _ "\<lambda>i. ?x ! i"]) simp
qed

section \<open>Two processes wait on a semaphore\<close>

definition blocked_on :: "kstate \<Rightarrow> kstate" where
  "blocked_on s = snd (the (syscallHandler umps3 (call_in s (\<lambda>_. 0) PASSEREN user_sem 0)))"

lemma blocked_on_facts:
  assumes "kinv s v" and "current_active_process s = Some p" and "v_ready v = q # qs"
  shows "kinv (blocked_on s) ((v_block user_sem p v)\<lparr>v_ready := qs\<rparr>)" and "current_active_process (blocked_on s) = Some q"
proof -
  let ?s = "call_in s (\<lambda>_. 0) PASSEREN user_sem 0"
  let ?t = "save_state p (set_semAdd p user_sem (advanced ?s))"
  have "resumes (syscallHandler umps3 ?s) ?t (v_block user_sem p v)"
    by (rule SYS3_blocks) (use assms in \<open>simp_all add: call_in_facts user_sem_def\<close>)
  moreover have "v_ready (v_block user_sem p v) = q # qs" using assms(3) by (simp add: v_block_def)
  ultimately show "kinv (blocked_on s) ((v_block user_sem p v)\<lparr>v_ready := qs\<rparr>)"
    "current_active_process (blocked_on s) = Some q"
    by (auto simp: resumes_def blocked_on_def running_def)
qed

text \<open>PCB 19, then PCB 18 call P; PCB 17 runs and calls V.\<close>

definition lined_up :: kstate where
  "lined_up = call_in (blocked_on (blocked_on crowded)) (\<lambda>_. 0) VERHOGEN user_sem 0"

definition v_lined_up :: kview where
  "v_lined_up = v_crowded\<lparr>v_ready := [], v_semq := (\<lambda>_. [])(user_sem := [first_pcb, 18])\<rparr>"

lemma lined_up_facts: "kinv lined_up v_lined_up" "current_active_process lined_up = Some 17"
proof -
  note 1 = blocked_on_facts [OF crowded_facts v_crowded_simps(1)]
  note 2 = blocked_on_facts [OF 1, of 17 "[]"]
  have v: "(v_block user_sem 18 ((v_block user_sem first_pcb v_crowded)\<lparr>v_ready := [17]\<rparr>))\<lparr>v_ready := []\<rparr> = v_lined_up"
    by (simp add: v_block_def v_lined_up_def)
  show "kinv lined_up v_lined_up" using 2(1) by (simp add: lined_up_def call_in_facts v)
  show "current_active_process lined_up = Some 17" using 2(2) by (simp add: lined_up_def call_in_facts)
qed

lemma lined_up_signals:
  "\<exists>out s'. exceptionHandler umps3 lined_up = Some (out, s')
    \<and> kinv s' (v_lined_up\<lparr>v_ready := [first_pcb], v_semq := (\<lambda>_. [])(user_sem := [18])\<rparr>)"
proof -
  let ?s = "timed 17 lined_up"
  have e: "exceptionHandler umps3 lined_up = syscallHandler umps3 ?s"
    using lined_up_facts(2)
    by (simp add: exceptionHandler_def update_time_running) (simp add: lined_up_def call_in_def call_state_def umps3_def)
  have f: "kernel_mode umps3 lined_up" "sys_code umps3 lined_up = VERHOGEN" "FIRST_PARAM umps3 lined_up = user_sem"
    "mem lined_up user_sem \<noteq> 1" by (simp_all add: lined_up_def call_in_facts)
  then have "kernel_mode umps3 ?s" by (simp add: kernel_mode_def)
  from SYS4_goes_on [of ?s v_lined_up umps3 user_sem, OF _ this] f lined_up_facts(1)
  have "runs_to (exceptionHandler umps3 lined_up) (LDST (bios_state (advanced ?s)))
      (set_semAdd first_pcb 0 (advanced ?s)) (v_wake user_sem v_lined_up)"
    by (simp add: e timed_params v_lined_up_def user_sem_def)
  then obtain s' where s': "exceptionHandler umps3 lined_up = Some (LDST (bios_state (advanced ?s)), s')"
    "kabs s' (v_wake user_sem v_lined_up)" by (auto elim!: runs_toE)
  have w: "wf_kernel lined_up" using lined_up_facts(1) by (auto simp: wf_kernel_def)
  from exceptionHandler_settled [OF w _ s'(1)] lined_up_facts(2) obtain v' where "kinv s' v'"
    by (auto simp: settled_def wf_kernel_def)
  with s'(2) have "kinv s' (v_wake user_sem v_lined_up)" by (metis kabs_unique kinvD(1))
  moreover have "v_wake user_sem v_lined_up
      = v_lined_up\<lparr>v_ready := [first_pcb], v_semq := (\<lambda>_. [])(user_sem := [18])\<rparr>"
    by (simp add: v_wake_def v_lined_up_def)
  ultimately show ?thesis using s'(1) by auto
qed

text \<open>PCB 18 stays in the line while PCB 19 leaves it.\<close>

lemma lined_up_step:
  "\<exists>y. vstep umps3 ((LDST zero_word_state, lined_up), v_lined_up) y \<and> queue_on user_sem y = [18]"
proof -
  let ?v = "v_lined_up\<lparr>v_ready := [first_pcb], v_semq := (\<lambda>_. [])(user_sem := [18])\<rparr>"
  from lined_up_signals obtain out s' where s': "exceptionHandler umps3 lined_up = Some (out, s')" "kinv s' ?v" by blast
  have "vstep umps3 ((LDST zero_word_state, lined_up), v_lined_up) ((out, s'), ?v)"
    using lined_up_facts s' by (auto intro!: running_step kstep.exception simp: gives_processor_def)
  then show ?thesis by (intro exI [of _ "((out, s'), ?v)"]) (simp add: queue_on_def)
qed

section \<open>The machine stops\<close>

lemma calling_exception:
  "exceptionHandler umps3 (calling code a) = syscallHandler umps3 (timed first_pcb (calling code a))"
proof -
  have "exc_code umps3 (calling code a) = 8" by (rule calling_facts(9))
  moreover have "EXC_INT umps3 = 0" "EXC_MOD umps3 = 1" "EXC_TLBL umps3 = 2" "EXC_TLBS umps3 = 3" "EXC_SYS umps3 = 8"
    by (simp_all add: umps3_def)
  ultimately show ?thesis using calling_facts(2) [of "\<lambda>_. 0" code a 0 0]
    by (simp add: exceptionHandler_def exc_code_def update_time_running)
qed

lemma call_reached:
  "syscallHandler umps3 (timed first_pcb (calling code a)) = Some c \<Longrightarrow> reachable umps3 c"
  by (rule reachable.step [OF calling_reachable [of "\<lambda>_. 0" code a 0 0]], rule kstep.exception)
    (simp_all add: gives_processor_def calling_exception)

lemma timed_calling_facts:
  "kinv (timed first_pcb (calling code a)) v_started" "current_active_process (timed first_pcb (calling code a)) = Some first_pcb"
  "kernel_mode umps3 (timed first_pcb (calling code a))" "sys_code umps3 (timed first_pcb (calling code a)) = code"
  "FIRST_PARAM umps3 (timed first_pcb (calling code a)) = a" "mem (timed first_pcb (calling code a)) = (\<lambda>_. 0)"
  "process_count (timed first_pcb (calling code a)) = 1" "soft_block_count (timed first_pcb (calling code a)) = 0"
  using calling_facts [of "\<lambda>_. 0" code a 0 0] started_other [of "\<lambda>_. 0" code a 0 0]
  by (simp_all add: timed_params kernel_mode_def) (simp_all add: timed_def set_pcb_def)

text \<open>The first process waits for the clock: the machine waits.\<close>

lemma waits_reached: "\<exists>s. reachable umps3 (WAIT, s)"
proof -
  let ?s = "timed first_pcb (calling CLOCKWAIT 0)"
  let ?t = "save_state first_pcb (incrementSoftBlockCount (set_semAdd first_pcb clock_sem (advanced ?s)))"
  have "resumes (syscallHandler umps3 ?s) ?t (v_block clock_sem first_pcb v_started)"
    by (rule SYS7_blocks) (simp_all add: timed_calling_facts calling_facts clock_sem_eq)
  moreover have "v_ready (v_block clock_sem first_pcb v_started) = []" by (simp add: v_block_def)
  moreover have "process_count ?t = 1" "soft_block_count ?t = 1"
    by (simp_all add: save_state_def set_pcb_def incrementSoftBlockCount_def set_semAdd_def timed_calling_facts)
  ultimately obtain s' where "syscallHandler umps3 ?s = Some (WAIT, s')" by (auto simp: resumes_def)
  then show ?thesis using call_reached by blast
qed

text \<open>The first process terminates: the machine halts.\<close>

lemma halts_reached: "\<exists>s. reachable umps3 (HALT, s)"
proof -
  let ?s = "timed first_pcb (calling TERMPROCESS 0)" and ?D = "desc_of (kid_rel v_started) first_pcb"
  have D: "?D = {first_pcb}" by (auto simp: desc_of_def kid_rel_def elim: rtranclE)
  have p: "first_pcb < MAXPROC" "first_pcb \<notin> set (v_free v_started)" by (simp_all add: first_pcb_def MAXPROC_def)
  note k = kinv_advanced [OF timed_calling_facts(1) [of TERMPROCESS 0]]
  have f: "FIRST_PARAM umps3 (advanced ?s) = 0" "sys_code umps3 (advanced ?s) = TERMPROCESS"
    "current_active_process (advanced ?s) = Some first_pcb"
    using timed_calling_facts [of TERMPROCESS 0] by simp_all
  then have e: "syscallHandler umps3 ?s = terminateProcess umps3 (Some first_pcb) (advanced ?s)"
    by (simp add: syscallHandler_kernel timed_calling_facts syscall_switch_def sys_code_def currentProc_def syscall_codes)
  from terminateProcess_resumes [OF kinvD(1,2) [OF k] p] obtain fs where
    "resumes (syscallHandler umps3 ?s) (reaped umps3 ?D (advanced ?s)) (v_reaped ?D fs (v_orphan first_pcb v_started))"
    unfolding e by blast
  moreover have "v_ready (v_reaped ?D fs (v_orphan first_pcb v_started)) = []" by (simp add: v_reaped_def v_orphan_def)
  moreover have "process_count (reaped umps3 ?D (advanced ?s)) = 0" by (simp add: reaped_def D timed_calling_facts)
  ultimately obtain s' where "syscallHandler umps3 ?s = Some (HALT, s')" by (auto simp: resumes_def)
  then show ?thesis using call_reached by blast
qed

end
