(* ===== verification/Twins.thy ===== *)
theory Twins
  imports Ash Ns
begin

text \<open>
  What an operation does not touch it does not depend on.  Two heaps are twins off a set of nodes
  when they agree on every other node, whose links do not lead into the set; an operation
  on other nodes takes twins to twins, with the same result, and leaves the set alone in both.
  So what is proved of the data structures in a state in which all of them are initialised holds
  in a state in which some are not yet.
\<close>

section \<open>Heaps\<close>

definition off :: "'a set \<Rightarrow> 'a ptr \<Rightarrow> bool" where
  "off X p \<longleftrightarrow> (\<forall>n. p = Some n \<longrightarrow> n \<notin> X)"

definition twin :: "'a set \<Rightarrow> 'a lheap \<Rightarrow> 'a lheap \<Rightarrow> 'a lheap \<Rightarrow> 'a lheap \<Rightarrow> bool" where
  "twin X a c h k \<longleftrightarrow> (\<forall>n. if n \<in> X
     then nxt h n = nxt a n \<and> prv h n = prv a n \<and> nxt k n = nxt c n \<and> prv k n = prv c n
     else nxt h n = nxt k n \<and> prv h n = prv k n \<and> off X (nxt h n) \<and> off X (prv h n))"

definition same_off :: "'a set \<Rightarrow> 'a ptr \<Rightarrow> 'a ptr \<Rightarrow> bool" where
  "same_off X p q \<longleftrightarrow> p = q \<and> off X p"

lemma off_simps [simp]: "off X None" "off X (Some n) \<longleftrightarrow> n \<notin> X"
  by (simp_all add: off_def)

lemma twin_sym: "twin X a c h k \<Longrightarrow> twin X c a k h"
  unfolding twin_def by metis

lemma twin_at:
  "twin X a c h k \<Longrightarrow> if n \<in> X
     then nxt h n = nxt a n \<and> prv h n = prv a n \<and> nxt k n = nxt c n \<and> prv k n = prv c n
     else nxt h n = nxt k n \<and> prv h n = prv k n \<and> off X (nxt h n) \<and> off X (prv h n)"
  unfolding twin_def by blast

lemma rel_bind:
  "rel_option R m n \<Longrightarrow> (\<And>x y. R x y \<Longrightarrow> rel_option T (f x) (g y)) \<Longrightarrow> rel_option T (Option.bind m f) (Option.bind n g)"
  by (cases m; cases n) auto

lemma rel_bind_ptr:
  "rel_option (same_off X) m n \<Longrightarrow> (\<And>v. off X v \<Longrightarrow> rel_option T (f v) (g v)) \<Longrightarrow>
    rel_option T (Option.bind m f) (Option.bind n g)"
  by (erule rel_bind) (simp add: same_off_def)

lemma rel_bind_eq:
  "m = n \<Longrightarrow> (\<And>v. rel_option T (f v) (g v)) \<Longrightarrow> rel_option T (Option.bind m f) (Option.bind n g)"
  by (cases n) auto

lemma rel_SomeI: "R x y \<Longrightarrow> rel_option R (Some x) (Some y)"
  by simp

lemma rel_ifI:
  "b = b' \<Longrightarrow> (b \<Longrightarrow> rel_option T x y) \<Longrightarrow> (\<not> b \<Longrightarrow> rel_option T x' y') \<Longrightarrow>
    rel_option T (if b then x else x') (if b' then y else y')"
  by simp

lemma twin_access:
  assumes "twin X a c h k" and "off X p"
  shows "rel_option (same_off X) (get_next p h) (get_next p k)"
    and "rel_option (same_off X) (get_prev p h) (get_prev p k)"
    and "off X v \<Longrightarrow> rel_option (twin X a c) (set_next p v h) (set_next p v k)"
    and "off X v \<Longrightarrow> rel_option (twin X a c) (set_prev p v h) (set_prev p v k)"
  using assms by (cases p; auto simp: twin_def same_off_def heap_defs split: if_splits)+

lemmas twin_intros = rel_SomeI rel_ifI twin_access twin_access(1,2) [THEN rel_bind_ptr] twin_access(3,4) [THEN rel_bind]

lemma twin_entry_del:
  "twin X a c h k \<Longrightarrow> off X p \<Longrightarrow> rel_option (twin X a c) (list_del_entry_internal p h) (list_del_entry_internal p k)"
  unfolding list_del_entry_internal_def list_del_internal_def list_del_entry_valid_def
  by (intro twin_intros) auto

lemma twin_ops:
  assumes "twin X a c h k" and "off X p"
  shows "rel_option (twin X a c) (INIT_LIST_HEAD p h) (INIT_LIST_HEAD p k)"
    and "rel_option (twin X a c) (list_del p h) (list_del p k)"
    and "rel_option (=) (list_empty p h) (list_empty p k)"
    and "off X r \<Longrightarrow> rel_option (twin X a c) (list_add p r h) (list_add p r k)"
    and "off X r \<Longrightarrow> rel_option (twin X a c) (list_add_tail p r h) (list_add_tail p r k)"
  unfolding INIT_LIST_HEAD_def list_del_def list_empty_def list_add_def list_add_tail_def list_add_internal_def list_add_valid_def
  using assms by (intro twin_intros twin_entry_del [THEN rel_bind]; simp)+

lemma twin_safe_del:
  "twin X a c h k \<Longrightarrow> off X p \<Longrightarrow> rel_option (twin X a c) (list_safe_del p h) (list_safe_del p k)"
  unfolding list_safe_del_def by (intro twin_intros twin_ops(2) [THEN rel_bind]) auto

text \<open>The loop of \<open>list_search\<close>.\<close>

lemma twin_search:
  assumes "list_search_from i r cmp p h = Some x" and "twin X a c h k" and "off X p"
  shows "list_search_from i r cmp p k = Some x"
proof -
  have "off X p \<longrightarrow> twin X a c h k \<longrightarrow> list_search_from i r cmp p k = Some x"
  proof (rule list_search_from.raw_induct
      [where P = "\<lambda>i r cmp p h x. off X p \<longrightarrow> twin X a c h k \<longrightarrow> list_search_from i r cmp p k = Some x", OF _ assms(1)])
    fix F and i r :: "'a ptr" and cmp and p :: "'a ptr" and h x
    assume IH: "\<And>i r cmp p h y. F i r cmp p h = Some y \<Longrightarrow>
        off X p \<longrightarrow> twin X a c h k \<longrightarrow> list_search_from i r cmp p k = Some y"
      and s: "(if p = r then Some None else if \<not> cmp i p then Some p
        else Option.bind (get_next p h) (\<lambda>tmp. F i r cmp tmp h)) = Some x"
    show "off X p \<longrightarrow> twin X a c h k \<longrightarrow> list_search_from i r cmp p k = Some x"
    proof (intro impI)
      assume p: "off X p" and t: "twin X a c h k"
      show "list_search_from i r cmp p k = Some x"
      proof (cases "p = r \<or> \<not> cmp i p")
        case True
        with s show ?thesis by (subst list_search_from.simps) (auto split: if_splits)
      next
        case False
        with s obtain q where q: "get_next p h = Some q" "F i r cmp q h = Some x" by (auto simp: bind_Some_iff)
        from twin_access(1) [OF t p] q(1) have "get_next p k = Some q" "off X q"
          by (cases "get_next p k"; simp add: same_off_def)+
        with IH [OF q(2)] t False show ?thesis by (subst list_search_from.simps) simp
      qed
    qed
  qed
  with assms show ?thesis by blast
qed

lemma option_eqI: "(\<And>x. m = Some x \<longleftrightarrow> n = Some x) \<Longrightarrow> m = n"
  by (cases m; cases n) auto

lemma twin_contains:
  assumes t: "twin X a c h k" and r: "off X r"
  shows "list_contains i r h = list_contains i r k"
proof -
  from twin_access(1) [OF t r] have "get_next r h = get_next r k \<and> (\<forall>p. get_next r h = Some p \<longrightarrow> off X p)"
    by (cases "get_next r h"; cases "get_next r k") (auto simp: same_off_def)
  moreover have "list_search_from i r cmp p h = list_search_from i r cmp p k" if "off X p" for cmp p
    by (rule option_eqI) (blast intro: twin_search [OF _ t that] twin_search [OF _ twin_sym [OF t] that])
  ultimately show ?thesis by (cases "get_next r k") (auto simp: list_contains_def list_search_def)
qed

lemma twin_first_entry:
  assumes "twin X a c h k" and "off X r"
  shows "list_first_entry f r h = list_first_entry f r k"
proof -
  from twin_access(1) [OF assms] show ?thesis
    by (cases "get_next r h"; cases "get_next r k") (auto simp: list_first_entry_def same_off_def)
qed

section \<open>States\<close>

definition ktwin :: "lnode set \<Rightarrow> lnode lheap \<Rightarrow> lnode lheap \<Rightarrow> kstate \<Rightarrow> kstate \<Rightarrow> bool" where
  "ktwin X a c s t \<longleftrightarrow> twin X a c (lists s) (lists t) \<and> t = s\<lparr>lists := lists t\<rparr>"

abbreviation kpair :: "lnode set \<Rightarrow> lnode lheap \<Rightarrow> lnode lheap \<Rightarrow> 'r \<times> kstate \<Rightarrow> 'r \<times> kstate \<Rightarrow> bool" where
  "kpair X a c x y \<equiv> fst x = fst y \<and> ktwin X a c (snd x) (snd y)"

lemma ktwin_lists: "ktwin X a c s t \<Longrightarrow> twin X a c (lists s) (lists t)"
  by (simp add: ktwin_def)

lemma ktwin_same:
  assumes "ktwin X a c s t"
  shows "pcbs t = pcbs s" and "nsds t = nsds s" and "semds t = semds s" and "semd_h t = semd_h s"
proof -
  from assms have e: "t = s\<lparr>lists := lists t\<rparr>" by (simp add: ktwin_def)
  show "pcbs t = pcbs s" "nsds t = nsds s" "semds t = semds s" "semd_h t = semd_h s"
    by (subst e, simp)+
qed

lemma ktwin_update:
  assumes "ktwin X a c s t" and "\<And>s h. f (s\<lparr>lists := h\<rparr>) = (f s)\<lparr>lists := h\<rparr>" and "\<And>s. lists (f s) = lists s"
  shows "ktwin X a c (f s) (f t)"
proof -
  from assms(1) have e: "t = s\<lparr>lists := lists t\<rparr>" "twin X a c (lists s) (lists t)" by (simp_all add: ktwin_def)
  have "f t = f (s\<lparr>lists := lists t\<rparr>)" using e(1) by simp
  then have "f t = (f s)\<lparr>lists := lists t\<rparr>" by (simp only: assms(2))
  with e(2) show ?thesis by (simp add: ktwin_def assms(3))
qed

lemma ktwin_on_lists:
  assumes t: "ktwin X a c s t" and f: "\<And>h k. twin X a c h k \<Longrightarrow> rel_option (twin X a c) (f h) (f k)"
  shows "rel_option (ktwin X a c) (on_lists f s) (on_lists f t)"
proof -
  from t have e: "t = s\<lparr>lists := lists t\<rparr>" by (simp add: ktwin_def)
  have "on_lists f t = map_option (\<lambda>h. s\<lparr>lists := h\<rparr>) (f (lists t))" by (subst e) (simp add: on_lists_def)
  with f [OF ktwin_lists [OF t]] show ?thesis
    by (cases "f (lists s)"; cases "f (lists t)") (auto simp: on_lists_def ktwin_def)
qed

lemma ktwin_store_pcb: "ktwin X a c s t \<Longrightarrow> rel_option (ktwin X a c) (store_pcb p f s) (store_pcb p f t)"
  by (cases p) (auto simp: store_pcb_def ktwin_same intro!: ktwin_update [where f = "\<lambda>s. s\<lparr>pcbs := _ s\<rparr>"])

text \<open>The rules that take an operation apart.\<close>

lemma twin_empty: "ktwin X a c s t \<Longrightarrow> off X p \<Longrightarrow> list_empty p (lists s) = list_empty p (lists t)"
  using twin_ops(3) [OF ktwin_lists] by (simp add: option.rel_eq)

lemma twin_first: "ktwin X a c s t \<Longrightarrow> off X p \<Longrightarrow> list_first_entry f p (lists s) = list_first_entry f p (lists t)"
  by (rule twin_first_entry [OF ktwin_lists])

lemma twin_member: "ktwin X a c s t \<Longrightarrow> off X p \<Longrightarrow> list_contains i p (lists s) = list_contains i p (lists t)"
  by (rule twin_contains [OF ktwin_lists])

lemma twin_load: "ktwin X a c s t \<Longrightarrow> load_pcb p s = load_pcb p t"
  by (simp add: load_pcb_def ktwin_same)

lemma kpair_SomeI: "r = r' \<Longrightarrow> ktwin X a c s t \<Longrightarrow> rel_option (kpair X a c) (Some (r, s)) (Some (r', t))"
  by simp

lemmas ktwin_intros = rel_SomeI rel_ifI ktwin_on_lists ktwin_store_pcb ktwin_on_lists [THEN rel_bind]
  ktwin_store_pcb [THEN rel_bind] kpair_SomeI rel_bind_eq twin_access(1) [OF ktwin_lists, THEN rel_bind_ptr]
  twin_access(3,4) twin_ops twin_safe_del twin_empty twin_first twin_member twin_load

definition pcb_off :: "lnode set \<Rightarrow> bool" where
  "pcb_off X \<longleftrightarrow> PcbFree_h \<notin> X \<and> (\<forall>i. P_list i \<notin> X \<and> P_child i \<notin> X \<and> P_sib i \<notin> X)"

lemma pcb_offD [simp]:
  assumes "pcb_off X"
  shows "off X (p_list p)" and "off X (p_child p)" and "off X (p_sib p)" and "PcbFree_h \<notin> X"
    and "P_list i \<notin> X" and "P_child i \<notin> X" and "P_sib i \<notin> X"
  using assms by (auto simp: pcb_off_def off_def p_list_def p_child_def p_sib_def)

lemma twin_freePcb:
  "pcb_off X \<Longrightarrow> ktwin X a c s t \<Longrightarrow> rel_option (ktwin X a c) (freePcb p s) (freePcb p t)"
  unfolding freePcb_def by (intro ktwin_intros) auto

lemma twin_resetPcb:
  "pcb_off X \<Longrightarrow> ktwin X a c s t \<Longrightarrow> rel_option (kpair X a c) (resetPcb A p s) (resetPcb A p t)"
  unfolding resetPcb_def by (intro ktwin_intros) auto

lemma twin_allocPcb:
  "pcb_off X \<Longrightarrow> ktwin X a c s t \<Longrightarrow> rel_option (kpair X a c) (allocPcb A s) (allocPcb A t)"
  unfolding allocPcb_def by (intro ktwin_intros twin_resetPcb) auto

lemma twin_queue:
  assumes "pcb_off X" and "ktwin X a c s t" and "off X r"
  shows "rel_option (ktwin X a c) (insertProcQ r p s) (insertProcQ r p t)"
    and "emptyProcQ r s = emptyProcQ r t" and "headProcQ r s = headProcQ r t"
    and "rel_option (kpair X a c) (outProcQ r p s) (outProcQ r p t)"
    and "rel_option (kpair X a c) (removeProcQ r s) (removeProcQ r t)"
proof -
  show "rel_option (ktwin X a c) (insertProcQ r p s) (insertProcQ r p t)"
    unfolding insertProcQ_def by (intro ktwin_intros) (use assms in auto)
  have "rel_option (=) (emptyProcQ r s) (emptyProcQ r t)" "rel_option (=) (headProcQ r s) (headProcQ r t)"
    unfolding emptyProcQ_def headProcQ_def option.rel_eq twin_empty [OF assms(2,3)] twin_first [OF assms(2,3)] by simp_all
  then show "emptyProcQ r s = emptyProcQ r t" "headProcQ r s = headProcQ r t" by (simp_all add: option.rel_eq)
  show out: "rel_option (kpair X a c) (outProcQ r p s) (outProcQ r p t)" for p
    unfolding outProcQ_def by (intro ktwin_intros) (use assms in auto)
  show "rel_option (kpair X a c) (removeProcQ r s) (removeProcQ r t)"
    unfolding removeProcQ_def by (intro ktwin_intros out) (use assms in auto)
qed

lemma twin_tree:
  assumes "pcb_off X" and "ktwin X a c s t"
  shows "rel_option (ktwin X a c) (insertChild q p s) (insertChild q p t)"
    and "emptyChild p s = emptyChild p t"
    and "rel_option (kpair X a c) (outChild p s) (outChild p t)"
    and "rel_option (kpair X a c) (removeChild p s) (removeChild p t)"
proof -
  show "rel_option (ktwin X a c) (insertChild q p s) (insertChild q p t)"
    unfolding insertChild_def by (intro ktwin_intros) (use assms in auto)
  show empty: "emptyChild p s = emptyChild p t"
    unfolding emptyChild_def using twin_empty [OF assms(2)] assms(1) by simp
  show out: "rel_option (kpair X a c) (outChild p s) (outChild p t)" for p
    unfolding outChild_def by (intro ktwin_intros) (use assms in auto)
  show "rel_option (kpair X a c) (removeChild p s) (removeChild p t)"
    unfolding removeChild_def empty by (intro ktwin_intros out) (use assms in auto)
qed

definition sem_off :: "lnode set \<Rightarrow> bool" where
  "sem_off X \<longleftrightarrow> SemdFree_h \<notin> X \<and> (\<forall>i. S_procq i \<notin> X \<and> S_freelink i \<notin> X)"

lemma sem_offD [simp]:
  assumes "sem_off X"
  shows "SemdFree_h \<notin> X" and "S_procq i \<notin> X" and "S_freelink i \<notin> X"
  using assms by (auto simp: sem_off_def)

lemma ktwin_on_hash: "ktwin X a c s t \<Longrightarrow> rel_option (ktwin X a c) (on_hash f s) (on_hash f t)"
  by (cases "f (semd_h s)") (auto simp: on_hash_def ktwin_same intro!: ktwin_update [where f = "\<lambda>s. s\<lparr>semd_h := _\<rparr>"])

lemma ktwin_semds: "ktwin X a c s t \<Longrightarrow> ktwin X a c (s\<lparr>semds := (semds s)(i := f (semds s i))\<rparr>) (t\<lparr>semds := (semds t)(i := f (semds t i))\<rparr>)"
  by (rule ktwin_update [where f = "\<lambda>s. s\<lparr>semds := (semds s)(i := f (semds s i))\<rparr>"]) simp_all

lemma twin_find: "ktwin X a c s t \<Longrightarrow> find_semd k s = find_semd k t"
  by (simp add: find_semd_def ktwin_same)

lemma rel_case_ptr:
  "r = r' \<Longrightarrow> rel_option T x y \<Longrightarrow> (\<And>i. rel_option T (f i) (g i)) \<Longrightarrow>
    rel_option T (case r of None \<Rightarrow> x | Some i \<Rightarrow> f i) (case r' of None \<Rightarrow> y | Some i \<Rightarrow> g i)"
  by (cases r') auto

lemmas ash_intros = ktwin_intros rel_case_ptr ktwin_on_hash ktwin_on_hash [THEN rel_bind] twin_find

lemma twin_release:
  "sem_off X \<Longrightarrow> ktwin X a c s t \<Longrightarrow> rel_option (ktwin X a c) (release_semd i s) (release_semd i t)"
  unfolding release_semd_def by (intro ash_intros) auto

lemma twin_ash:
  assumes "pcb_off X" and "sem_off X" and "ktwin X a c s t"
  shows "rel_option (kpair X a c) (insertBlocked k p s) (insertBlocked k p t)"
    and "rel_option (kpair X a c) (removeBlocked k s) (removeBlocked k t)"
    and "rel_option (kpair X a c) (outBlocked p s) (outBlocked p t)"
    and "headBlocked k s = headBlocked k t"
proof -
  show "rel_option (kpair X a c) (insertBlocked k p s) (insertBlocked k p t)"
    unfolding insertBlocked_def Let_def by (intro ash_intros ktwin_semds) (use assms in auto)
  show "rel_option (kpair X a c) (removeBlocked k s) (removeBlocked k t)"
    unfolding removeBlocked_def by (intro ash_intros twin_release [THEN rel_bind]) (use assms in auto)
  show "rel_option (kpair X a c) (outBlocked p s) (outBlocked p t)"
    unfolding outBlocked_def by (intro ash_intros twin_release [THEN rel_bind]) (use assms in auto)
  have "list_empty (Some (S_procq i)) (lists s) = list_empty (Some (S_procq i)) (lists t)"
    "list_first_entry pcb_of_p_list (Some (S_procq i)) (lists s) = list_first_entry pcb_of_p_list (Some (S_procq i)) (lists t)" for i
    using assms(2) by (simp_all add: twin_empty [OF assms(3)] twin_first [OF assms(3)])
  then show "headBlocked k s = headBlocked k t" by (simp add: headBlocked_def twin_find [OF assms(3)] cong: if_cong)
qed

section \<open>Initialising a group of nodes\<close>

lemma twin_foldM:
  assumes "\<And>i h k. twin X a c h k \<Longrightarrow> rel_option (twin X a c) (f i h) (f i k)"
  shows "twin X a c h k \<Longrightarrow> rel_option (twin X a c) (foldM f xs h) (foldM f xs k)"
  by (induction xs arbitrary: h k) (auto intro: rel_bind [OF assms])

text \<open>The group \<open>G\<close> was never touched, in a heap that differs from its twin on \<open>G\<close> and on \<open>X\<close>.\<close>

lemma activate:
  assumes t: "twin (X \<union> G) z b r v" and G: "X \<inter> G = {}"
    and init: "\<And>a c h k. twin (- G) a c h k \<Longrightarrow> rel_option (twin (- G) a c) (init h) (init k)"
    and h0: "init h0 = Some h1"
    and zero: "\<And>n. n \<in> G \<Longrightarrow> nxt z n = None \<and> prv z n = None \<and> nxt h0 n = None \<and> prv h0 n = None"
    and b: "\<And>n. n \<in> G \<Longrightarrow> nxt b n = nxt h1 n \<and> prv b n = prv h1 n"
  shows "\<exists>r'. init r = Some r' \<and> twin X z b r' v"
proof -
  have "twin (- G) h0 r h0 r" using t zero by (auto simp: twin_def)
  from init [OF this] h0 obtain r' where r': "init r = Some r'" "twin (- G) h0 r h1 r'"
    by (cases "init r") auto
  have "twin X z b r' v"
    unfolding twin_def
  proof
    fix n
    note tn = twin_at [OF t, of n] and rn = twin_at [OF r'(2), of n]
    show "if n \<in> X then nxt r' n = nxt z n \<and> prv r' n = prv z n \<and> nxt v n = nxt b n \<and> prv v n = prv b n
      else nxt r' n = nxt v n \<and> prv r' n = prv v n \<and> off X (nxt r' n) \<and> off X (prv r' n)"
      using tn rn b [of n] G by (auto simp: off_def split: if_splits)
  qed
  with r'(1) show ?thesis by blast
qed

text \<open>What is not in the group is not touched.\<close>

lemma untouched:
  assumes "init h = Some h'" and "\<And>n. n \<in> G \<Longrightarrow> nxt h n = None \<and> prv h n = None" and "n \<notin> G"
    and "\<And>a c h k. twin (- G) a c h k \<Longrightarrow> rel_option (twin (- G) a c) (init h) (init k)"
  shows "nxt h' n = nxt h n" and "prv h' n = prv h n"
proof -
  have "twin (- G) h h h h" using assms(2) by (auto simp: twin_def)
  from assms(4) [OF this] assms(1) have "twin (- G) h h h' h'" by simp
  with assms(3) show "nxt h' n = nxt h n" "prv h' n = prv h n" by (auto simp: twin_def)
qed

end
