(* ===== verification/P1test.thy ===== *)
theory P1test
  imports Report
begin

text \<open>
  \<open>tests/p1test.c\<close>, the test of phase 1: process queues and trees, the table of the semaphores,
  the namespaces.  A statement takes the state of the test to the next one (\<open>Inr\<close>), or stops in
  the panic of \<open>adderrbuf\<close> (\<open>Inl\<close>); \<open>None\<close> is a fault.

  The test is linked without the scheduler: its local list head \<open>p1_qa\<close> is the node \<open>Ready_queue\<close>.
  The linker gives the addresses of the array \<open>sem\<close> and of \<open>onesem\<close>.
\<close>

unbundle bit_operations_syntax

section \<open>The state\<close>

record p1_vars =
  procp :: "nat ptr list"
  var_p :: "nat ptr"
  var_q :: "nat ptr"
  firstproc :: "nat ptr"
  lastproc :: "nat ptr"
  midproc :: "nat ptr"
  var_ns :: "nat ptr"
  var_ns2 :: "nat ptr"

record 'd p1_state =
  p1_k :: kstate
  p1_w :: p1_vars
  p1_ok :: okbuf_state
  p1_errbuf :: "u8 list"
  p1_dev :: 'd

section \<open>Messages\<close>

text \<open>\<open>termprint\<close> of the test gives one command after the other, without an acknowledgement.\<close>

fun p1_print_cycle :: "'d terminal \<Rightarrow> u32 \<Rightarrow> u32 \<Rightarrow> u8 list \<Rightarrow> 'd \<Rightarrow> (bool \<times> 'd) option" where
  "p1_print_cycle T a c [] d = None"
| "p1_print_cycle T a c (ch # str) d =
     (if ch = 0 then Some (False, d)
      else do {
        let d = t_command T c (print_command ch) d;
        let (stat, d) = termstat T a d;
        (stat, d) \<leftarrow> wait_not_busy T a stat d;
        if stat \<noteq> TRANSMITTED then Some (True, d)
        else p1_print_cycle T a c str d
      })"

definition p1_termprint :: "'d terminal \<Rightarrow> u8 list \<Rightarrow> u32 \<Rightarrow> 'd \<Rightarrow> (bool \<times> 'd) option" where
  "p1_termprint T str trm d =
     (if trm < T_DEVPERINT T then do {
        let (stat, d) = termstat T (statusp T trm) d;
        (error, d) \<leftarrow>
          (if stat = T_READY T \<or> stat = TRANSMITTED
           then p1_print_cycle T (statusp T trm) (commandp T trm) str d
           else Some (True, d));
        Some (\<not> error, d)
      } else Some (False, d))"

definition p1_addokbuf :: "'d terminal \<Rightarrow> u8 list \<Rightarrow> 'd p1_state \<Rightarrow> 'd p1_state option" where
  "p1_addokbuf T strp z = do {
     b \<leftarrow> okbuf_copy strp (p1_ok z);
     let b = b\<lparr>mp := mp b - 1\<rparr>;
     (_, d) \<leftarrow> p1_termprint T strp 0 (p1_dev z);
     Some (z\<lparr>p1_ok := b, p1_dev := d\<rparr>)
   }"

text \<open>The copy to \<open>errbuf\<close> is the loop of \<open>strcpy\<close>; the state is the one of the panic.\<close>

definition p1_adderrbuf :: "'d terminal \<Rightarrow> u8 list \<Rightarrow> 'd p1_state \<Rightarrow> 'd p1_state option" where
  "p1_adderrbuf T strp z = do {
     e \<leftarrow> strcpy (p1_errbuf z) 0 strp;
     (_, d) \<leftarrow> p1_termprint T strp 0 (p1_dev z);
     Some (z\<lparr>p1_errbuf := e, p1_dev := d\<rparr>)
   }"

section \<open>Statements\<close>

type_synonym 'd p1_stmt = "'d p1_state \<Rightarrow> ('d p1_state + 'd p1_state) option"

fun p1_run :: "'d p1_stmt list \<Rightarrow> 'd p1_stmt" where
  "p1_run [] z = Some (Inr z)"
| "p1_run (c # cs) z = do {
     r \<leftarrow> c z;
     (case r of Inl z \<Rightarrow> Some (Inl z) | Inr z \<Rightarrow> p1_run cs z)
   }"

definition p1_loop :: "nat list \<Rightarrow> (nat \<Rightarrow> 'd p1_stmt list) \<Rightarrow> 'd p1_stmt" where
  "p1_loop is body = p1_run (map (\<lambda>i. p1_run (body i)) is)"

definition p1_say :: "'d terminal \<Rightarrow> string \<Rightarrow> 'd p1_stmt" where
  "p1_say T m z = map_option Inr (p1_addokbuf T (c_line m) z)"

text \<open>An operation of phase 1, whose result goes to a variable.\<close>

definition p1_call :: "(p1_vars \<Rightarrow> (kstate, 'r) action) \<Rightarrow> ('r \<Rightarrow> p1_vars \<Rightarrow> p1_vars) \<Rightarrow> 'd p1_stmt" where
  "p1_call f g z = do {
     (r, k) \<leftarrow> f (p1_w z) (p1_k z);
     Some (Inr (z\<lparr>p1_k := k, p1_w := g r (p1_w z)\<rparr>))
   }"

text \<open>\<open>if (... f() ...) adderrbuf(msg);\<close>\<close>

definition p1_check :: "'d terminal \<Rightarrow> (p1_vars \<Rightarrow> (kstate, 'r) action) \<Rightarrow> ('r \<Rightarrow> p1_vars \<Rightarrow> bool) \<Rightarrow> string \<Rightarrow> 'd p1_stmt" where
  "p1_check T f bad msg z = do {
     (r, k) \<leftarrow> f (p1_w z) (p1_k z);
     let z = z\<lparr>p1_k := k\<rparr>;
     if bad r (p1_w z) then map_option Inl (p1_adderrbuf T (c_str msg) z) else Some (Inr z)
   }"

definition p1_silent :: "kstate update \<Rightarrow> (kstate, unit) action" where
  "p1_silent f k = map_option (Pair ()) (f k)"

definition p1_asks :: "(kstate \<Rightarrow> 'r option) \<Rightarrow> (kstate, 'r) action" where
  "p1_asks f k = map_option (\<lambda>r. (r, k)) (f k)"

abbreviation p1_do :: "(p1_vars \<Rightarrow> kstate update) \<Rightarrow> 'd p1_stmt" where
  "p1_do f \<equiv> p1_call (\<lambda>w. p1_silent (f w)) (\<lambda>_ w. w)"

abbreviation p1_check_vars :: "'d terminal \<Rightarrow> (p1_vars \<Rightarrow> bool) \<Rightarrow> string \<Rightarrow> 'd p1_stmt" where
  "p1_check_vars T bad \<equiv> p1_check T (\<lambda>w k. Some ((), k)) (\<lambda>_. bad)"

definition set_procp :: "nat \<Rightarrow> nat ptr \<Rightarrow> p1_vars \<Rightarrow> p1_vars" where
  "set_procp i r w = w\<lparr>procp := (procp w)[i := r]\<rparr>"

definition set_q :: "nat ptr \<Rightarrow> p1_vars \<Rightarrow> p1_vars" where
  "set_q r w = w\<lparr>var_q := r\<rparr>"

definition set_p :: "nat ptr \<Rightarrow> p1_vars \<Rightarrow> p1_vars" where
  "set_p r w = w\<lparr>var_p := r\<rparr>"

abbreviation p1_qa :: "lnode ptr" where "p1_qa \<equiv> Some Ready_queue"

section \<open>The test\<close>

definition p1_alloc :: "umps \<Rightarrow> 'd terminal \<Rightarrow> 'd p1_stmt list" where
  "p1_alloc A T =
    [p1_do (\<lambda>w. initPcbs),
     p1_say T ''Initialized process control blocks   '',
     p1_loop [0..<MAXPROC] (\<lambda>i.
       [p1_call (\<lambda>w. allocPcb A) (set_procp i),
        p1_check_vars T (\<lambda>w. procp w ! i = None) ''allocPcb: unexpected NULL   '']),
     p1_check T (\<lambda>w. allocPcb A) (\<lambda>r w. r \<noteq> None) ''allocPcb: allocated more than MAXPROC entries   '',
     p1_say T ''allocPcb ok   '',
     p1_loop [10..<MAXPROC] (\<lambda>i. [p1_do (\<lambda>w. freePcb (procp w ! i))]),
     p1_say T ''freed 10 entries   '']"

definition p1_queue_insert :: "umps \<Rightarrow> 'd terminal \<Rightarrow> 'd p1_stmt list" where
  "p1_queue_insert A T =
    [p1_check T (\<lambda>w. p1_asks (emptyProcQ p1_qa)) (\<lambda>r w. \<not> r) ''emptyProcQ: unexpected FALSE   '',
     p1_say T ''Inserting...   '',
     p1_loop [0..<10] (\<lambda>i.
       [p1_call (\<lambda>w. allocPcb A) set_q,
        p1_check_vars T (\<lambda>w. var_q w = None) ''allocPcb: unexpected NULL while insert   '',
        p1_call (\<lambda>w k. Some ((), k)) (\<lambda>_ w.
          if i = 0 then w\<lparr>firstproc := var_q w\<rparr>
          else if i = 5 then w\<lparr>midproc := var_q w\<rparr>
          else if i = 9 then w\<lparr>lastproc := var_q w\<rparr> else w),
        p1_do (\<lambda>w. insertProcQ p1_qa (var_q w))]),
     p1_say T ''inserted 10 elements   '',
     p1_check T (\<lambda>w. p1_asks (emptyProcQ p1_qa)) (\<lambda>r w. r) ''emptyProcQ: unexpected TRUE'']"

definition p1_queue_out :: "'d terminal \<Rightarrow> 'd p1_stmt list" where
  "p1_queue_out T =
    [p1_check T (\<lambda>w. p1_asks (headProcQ p1_qa)) (\<lambda>r w. r \<noteq> firstproc w) ''headProcQ failed   '',
     p1_call (\<lambda>w. outProcQ p1_qa (firstproc w)) set_q,
     p1_check_vars T (\<lambda>w. var_q w = None \<or> var_q w \<noteq> firstproc w) ''outProcQ failed on first entry   '',
     p1_do (\<lambda>w. freePcb (var_q w)),
     p1_call (\<lambda>w. outProcQ p1_qa (midproc w)) set_q,
     p1_check_vars T (\<lambda>w. var_q w = None \<or> var_q w \<noteq> midproc w) ''outProcQ failed on middle entry   '',
     p1_do (\<lambda>w. freePcb (var_q w)),
     p1_check T (\<lambda>w. outProcQ p1_qa (procp w ! 0)) (\<lambda>r w. r \<noteq> None) ''outProcQ failed on nonexistent entry   '',
     p1_say T ''outProcQ ok   '']"

definition p1_queue_remove :: "'d terminal \<Rightarrow> 'd p1_stmt list" where
  "p1_queue_remove T =
    [p1_say T ''Removing...   '',
     p1_loop [0..<8] (\<lambda>i.
       [p1_call (\<lambda>w. removeProcQ p1_qa) set_q,
        p1_check_vars T (\<lambda>w. var_q w = None) ''removeProcQ: unexpected NULL   '',
        p1_do (\<lambda>w. freePcb (var_q w))]),
     p1_check_vars T (\<lambda>w. var_q w \<noteq> lastproc w) ''removeProcQ: failed on last entry   '',
     p1_check T (\<lambda>w. removeProcQ p1_qa) (\<lambda>r w. r \<noteq> None) ''removeProcQ: removes too many entries   '',
     p1_check T (\<lambda>w. p1_asks (emptyProcQ p1_qa)) (\<lambda>r w. \<not> r) ''emptyProcQ: unexpected FALSE   '',
     p1_say T ''insertProcQ, removeProcQ and emptyProcQ ok   '',
     p1_say T ''process queues module ok      '']"

definition p1_tree_insert :: "'d terminal \<Rightarrow> 'd p1_stmt list" where
  "p1_tree_insert T =
    [p1_say T ''checking process trees...'',
     p1_check T (\<lambda>w. p1_asks (emptyChild (procp w ! 2))) (\<lambda>r w. \<not> r) ''emptyChild: unexpected FALSE   '',
     p1_say T ''Inserting...   '',
     p1_loop [1..<10] (\<lambda>i. [p1_do (\<lambda>w. insertChild (procp w ! 0) (procp w ! i))]),
     p1_say T ''Inserted 9 children   '',
     p1_check T (\<lambda>w. p1_asks (emptyChild (procp w ! 0))) (\<lambda>r w. r) ''emptyChild: unexpected TRUE   '']"

definition p1_tree_remove :: "'d terminal \<Rightarrow> 'd p1_stmt list" where
  "p1_tree_remove T =
    [p1_call (\<lambda>w. outChild (procp w ! 1)) set_q,
     p1_check_vars T (\<lambda>w. var_q w = None \<or> var_q w \<noteq> procp w ! 1) ''outChild failed on first child   '',
     p1_call (\<lambda>w. outChild (procp w ! 4)) set_q,
     p1_check_vars T (\<lambda>w. var_q w = None \<or> var_q w \<noteq> procp w ! 4) ''outChild failed on middle child   '',
     p1_check T (\<lambda>w. outChild (procp w ! 0)) (\<lambda>r w. r \<noteq> None) ''outChild failed on nonexistent child   '',
     p1_say T ''outChild ok   '',
     p1_say T ''Removing...   '',
     p1_loop [0..<7] (\<lambda>i.
       [p1_call (\<lambda>w. removeChild (procp w ! 0)) set_q,
        p1_check_vars T (\<lambda>w. var_q w = None) ''removeChild: unexpected NULL   '']),
     p1_check T (\<lambda>w. removeChild (procp w ! 0)) (\<lambda>r w. r \<noteq> None) ''removeChild: removes too many children   '',
     p1_check T (\<lambda>w. p1_asks (emptyChild (procp w ! 0))) (\<lambda>r w. \<not> r) ''emptyChild: unexpected FALSE   '',
     p1_say T ''insertChild, removeChild and emptyChild ok   '',
     p1_say T ''process tree module ok      '',
     p1_loop [0..<10] (\<lambda>i. [p1_do (\<lambda>w. freePcb (procp w ! i))])]"

text \<open>\<open>&sem[i]\<close>, for an array of ints at \<open>S\<close>.\<close>

definition p1_sem :: "u32 \<Rightarrow> nat \<Rightarrow> u32" where
  "p1_sem S i = S + 4 * of_nat i"

definition p1_ash_insert :: "umps \<Rightarrow> 'd terminal \<Rightarrow> u32 \<Rightarrow> u32 \<Rightarrow> 'd p1_stmt list" where
  "p1_ash_insert A T S onesem =
    [p1_say T ''Initialized active semaphore hash   '',
     p1_say T ''insertBlocked test #1 started  '',
     p1_loop [10..<MAXPROC] (\<lambda>i.
       [p1_call (\<lambda>w. allocPcb A) (set_procp i),
        p1_check T (\<lambda>w. insertBlocked (p1_sem S i) (procp w ! i)) (\<lambda>r w. r \<noteq> 0) ''insertBlocked(1): unexpected TRUE   '']),
     p1_say T ''insertBlocked test #2 started  '',
     p1_loop [0..<10] (\<lambda>i.
       [p1_call (\<lambda>w. allocPcb A) (set_procp i),
        p1_check T (\<lambda>w. insertBlocked (p1_sem S i) (procp w ! i)) (\<lambda>r w. r \<noteq> 0) ''insertBlocked(2): unexpected TRUE   '']),
     p1_call (\<lambda>w. removeBlocked (p1_sem S 11)) set_p,
     p1_check T (\<lambda>w. insertBlocked (p1_sem S 11) (var_p w)) (\<lambda>r w. r \<noteq> 0) ''removeBlocked: fails to return to free list   '',
     p1_check T (\<lambda>w. insertBlocked onesem (procp w ! 9)) (\<lambda>r w. r = 0) ''insertBlocked: inserted more than MAXPROC   '']"

definition p1_ash_remove :: "'d terminal \<Rightarrow> u32 \<Rightarrow> 'd p1_stmt list" where
  "p1_ash_remove T S =
    [p1_say T ''removeBlocked test started   '',
     p1_loop [10..<MAXPROC] (\<lambda>i.
       [p1_call (\<lambda>w. removeBlocked (p1_sem S i)) set_q,
        p1_check_vars T (\<lambda>w. var_q w = None) ''removeBlocked: wouldn't remove   '',
        p1_check_vars T (\<lambda>w. var_q w \<noteq> procp w ! i) ''removeBlocked: removed wrong element   '',
        p1_check T (\<lambda>w. insertBlocked (p1_sem S (i - 10)) (var_q w)) (\<lambda>r w. r \<noteq> 0) ''insertBlocked(3): unexpected TRUE   '']),
     p1_check T (\<lambda>w. removeBlocked (p1_sem S 11)) (\<lambda>r w. r \<noteq> None) ''removeBlocked: removed nonexistent blocked proc   '',
     p1_say T ''insertBlocked and removeBlocked ok   '']"

definition p1_ash_out :: "'d terminal \<Rightarrow> u32 \<Rightarrow> 'd p1_stmt list" where
  "p1_ash_out T S =
    [p1_check T (\<lambda>w. p1_asks (headBlocked (p1_sem S 11))) (\<lambda>r w. r \<noteq> None) ''headBlocked: nonNULL for a nonexistent queue   '',
     p1_call (\<lambda>w. p1_asks (headBlocked (p1_sem S 9))) set_q,
     p1_check_vars T (\<lambda>w. var_q w = None) ''headBlocked(1): NULL for an existent queue   '',
     p1_check_vars T (\<lambda>w. var_q w \<noteq> procp w ! 9) ''headBlocked(1): wrong process returned   '',
     p1_call (\<lambda>w. outBlocked (var_q w)) set_p,
     p1_check_vars T (\<lambda>w. var_p w \<noteq> var_q w) ''outBlocked(1): couldn't remove from valid queue   '',
     p1_call (\<lambda>w. p1_asks (headBlocked (p1_sem S 9))) set_q,
     p1_check_vars T (\<lambda>w. var_q w = None) ''headBlocked(2): NULL for an existent queue   '',
     p1_check_vars T (\<lambda>w. var_q w \<noteq> procp w ! 19) ''headBlocked(2): wrong process returned   '',
     p1_call (\<lambda>w. outBlocked (var_q w)) set_p,
     p1_check_vars T (\<lambda>w. var_p w \<noteq> var_q w) ''outBlocked(2): couldn't remove from valid queue   '',
     p1_call (\<lambda>w. outBlocked (var_q w)) set_p,
     p1_check_vars T (\<lambda>w. var_p w \<noteq> None) ''outBlocked: removed same process twice.'',
     p1_check T (\<lambda>w. p1_asks (headBlocked (p1_sem S 9))) (\<lambda>r w. r \<noteq> None) ''out/headBlocked: unexpected nonempty queue   '']"

definition p1_free_all :: "'d terminal \<Rightarrow> 'd p1_stmt list" where
  "p1_free_all T =
    [p1_loop [0..<MAXPROC] (\<lambda>i. [p1_do (\<lambda>w. freePcb (procp w ! i))]),
     p1_say T ''headBlocked and outBlocked ok   '',
     p1_say T ''ASH module ok   '']"

definition p1_ns_get :: "umps \<Rightarrow> 'd terminal \<Rightarrow> 'd p1_stmt list" where
  "p1_ns_get A T =
    [p1_say T ''Initialized Namespaces'',
     p1_say T ''getNamespace test #1 started  '',
     p1_loop [0..<MAXPROC] (\<lambda>i.
       [p1_call (\<lambda>w. allocPcb A) (set_procp i),
        p1_check T (\<lambda>w. p1_asks (getNamespace A (procp w ! i) NS_PID)) (\<lambda>r w. r \<noteq> None) ''getNamespace(1): unexpected Namespace   '']),
     p1_say T ''getNamespace test #1 ok'']"

text \<open>A comparison of the namespaces of two processes.\<close>

definition p1_same_ns :: "umps \<Rightarrow> nat ptr \<Rightarrow> nat ptr \<Rightarrow> kstate \<Rightarrow> bool option" where
  "p1_same_ns A p q k = do {
     m \<leftarrow> getNamespace A p NS_PID k;
     n \<leftarrow> getNamespace A q NS_PID k;
     Some (m = n)
   }"

definition p1_ns_add :: "umps \<Rightarrow> 'd terminal \<Rightarrow> 'd p1_stmt list" where
  "p1_ns_add A T =
    [p1_say T ''addNamespace test #1 started'',
     p1_call (\<lambda>w. allocNamespace NS_PID) (\<lambda>r w. w\<lparr>var_ns := r\<rparr>),
     p1_check_vars T (\<lambda>w. var_ns w = None) ''Unexpected null on allocNS'',
     p1_check T (\<lambda>w. addNamespace A (procp w ! 3) (var_ns w)) (\<lambda>r w. \<not> r) ''addNamespace: Unexpected FALSE'',
     p1_check T (\<lambda>w. p1_asks (p1_same_ns A (procp w ! 3) (procp w ! 0))) (\<lambda>r w. r)
       ''getNamespace: Unexpected root namespace for process 3'',
     p1_check T (\<lambda>w. p1_asks (getNamespace A (procp w ! 3) NS_PID)) (\<lambda>r w. r \<noteq> var_ns w)
       ''getNamespace: Unexpected namespace for process 3'',
     p1_say T ''addNamespace: test ok'']"

definition p1_ns_child :: "umps \<Rightarrow> 'd terminal \<Rightarrow> 'd p1_stmt list" where
  "p1_ns_child A T =
    [p1_say T ''addNamespace(2): test started'',
     p1_do (\<lambda>w. insertChild (procp w ! 1) (procp w ! 2)),
     p1_call (\<lambda>w. addNamespace A (procp w ! 1) (var_ns w)) (\<lambda>_ w. w),
     p1_check T (\<lambda>w. p1_asks (getNamespace A (procp w ! 2) NS_PID)) (\<lambda>r w. r = None) ''Child namespace is the root one'',
     p1_check T (\<lambda>w. p1_asks (getNamespace A (procp w ! 2) NS_PID)) (\<lambda>r w. r \<noteq> var_ns w)
       ''Child namespace is not the one of the parent!'',
     p1_say T ''addNamespace(2): test ok'']"

definition p1_ns_change :: "umps \<Rightarrow> 'd terminal \<Rightarrow> 'd p1_stmt list" where
  "p1_ns_change A T =
    [p1_call (\<lambda>w. allocNamespace NS_PID) (\<lambda>r w. w\<lparr>var_ns2 := r\<rparr>),
     p1_call (\<lambda>w. addNamespace A (procp w ! 1) (var_ns2 w)) (\<lambda>_ w. w),
     p1_check T (\<lambda>w. p1_asks (getNamespace A (procp w ! 0) NS_PID)) (\<lambda>r w. r \<noteq> None) ''Root namespace changed!'',
     p1_check T (\<lambda>w. p1_asks (getNamespace A (procp w ! 1) NS_PID)) (\<lambda>r w. r \<noteq> var_ns2 w) ''Parent namespace did not changed!'',
     p1_check T (\<lambda>w. p1_asks (getNamespace A (procp w ! 2) NS_PID)) (\<lambda>r w. r \<noteq> var_ns2 w) ''Child namespace did not changed!'',
     p1_check T (\<lambda>w. p1_asks (getNamespace A (procp w ! 3) NS_PID)) (\<lambda>r w. r \<noteq> var_ns w) ''Other process namespace changed!'',
     p1_say T ''Namespace module ok'',
     p1_say T ''So Long and Thanks for All the Fish'']"

text \<open>\<open>main\<close>, with the initialisations where it makes them.\<close>

definition p1_main :: "umps \<Rightarrow> 'd terminal \<Rightarrow> u32 \<Rightarrow> u32 \<Rightarrow> 'd p1_stmt" where
  "p1_main A T S onesem = p1_run (
     p1_alloc A T
     @ [p1_do (\<lambda>w. on_lists (INIT_LIST_HEAD p1_qa))]
     @ p1_queue_insert A T @ p1_queue_out T @ p1_queue_remove T
     @ p1_tree_insert T @ p1_tree_remove T
     @ [p1_do (\<lambda>w. initASH)]
     @ p1_ash_insert A T S onesem @ p1_ash_remove T S @ p1_ash_out T S @ p1_free_all T
     @ [p1_do (\<lambda>w. initNamespaces)]
     @ p1_ns_get A T @ p1_ns_add A T @ p1_ns_child A T @ p1_ns_change A T)"

end
