(* ===== verification/P1_Start.thy ===== *)
theory P1_Start
  imports Twins Boot P1test
begin

text \<open>
  The test of phase 1 initialises the tables one after the other and uses the ones it has.  Here is
  the heap in which all of them are initialised from the start, a twin of the heap of the test.
\<close>

section \<open>The initialisations as operations on the links\<close>

definition pcb_links :: "lnode lheap update" where
  "pcb_links h = Option.bind (INIT_LIST_HEAD (Some PcbFree_h) h)
     (foldM (\<lambda>i. list_add (Some (P_list i)) (Some PcbFree_h)) [0..<MAXPROC])"

definition ash_links :: "lnode lheap update" where
  "ash_links h = Option.bind (INIT_LIST_HEAD (Some SemdFree_h) h)
     (foldM (\<lambda>i. list_add (Some (S_freelink i)) (Some SemdFree_h)) [0..<MAXPROC])"

definition ns_links :: "lnode lheap update" where
  "ns_links h = Option.bind (INIT_LIST_HEAD (Some PID_nsFree_h) h) (\<lambda>h. Option.bind (INIT_LIST_HEAD (Some PID_nsList_h) h)
     (foldM (\<lambda>i h. Option.bind (INIT_LIST_HEAD (Some (N_link i)) h) (list_add_tail (Some (N_link i)) (Some PID_nsFree_h))) [0..<MAXPROC]))"

lemma initPcbs_links: "initPcbs = on_lists pcb_links"
  by (rule ext) (simp add: initPcbs_def pcb_links_def [abs_def] foldM_on_lists on_lists_bind)

lemma initNamespaces_links: "initNamespaces = on_lists ns_links"
proof
  fix s
  have "(\<lambda>i s. Option.bind (on_lists (INIT_LIST_HEAD (Some (N_link i))) s) (on_lists (list_add_tail (Some (N_link i)) (Some PID_nsFree_h))))
      = (\<lambda>i. on_lists (\<lambda>h. Option.bind (INIT_LIST_HEAD (Some (N_link i)) h) (list_add_tail (Some (N_link i)) (Some PID_nsFree_h))))"
    by (simp add: fun_eq_iff on_lists_bind)
  then show "initNamespaces s = on_lists ns_links s"
    by (simp add: initNamespaces_def ns_links_def [abs_def] foldM_on_lists on_lists_bind)
qed

lemma hash_init_empty:
  assumes "\<And>b. hfirst h b = None"
  shows "hash_init sz h = h"
proof -
  have "hash_init_from i k h = h" for i k
  proof (induction k arbitrary: i)
    case (Suc k)
    have "(hfirst h)(i := None) = hfirst h" using assms [of i] by (simp add: fun_upd_idem)
    then have "INIT_HLIST_HEAD i h = h" by (simp add: INIT_HLIST_HEAD_def)
    with Suc show ?case by simp
  qed simp
  then show ?thesis by (simp add: hash_init_def)
qed

lemma initASH_links:
  assumes "\<And>b. hfirst (semd_h s) b = None"
  shows "initASH s = on_lists ash_links s"
proof (cases "INIT_LIST_HEAD (Some SemdFree_h) (lists s)")
  case (Some h)
  have "on_hash (\<lambda>h. Some (hash_init HASHSZ h)) (s\<lparr>lists := h\<rparr>) = Some (s\<lparr>lists := h\<rparr>)"
    using hash_init_empty [OF assms] by (simp add: on_hash_def)
  with Some show ?thesis by (simp add: initASH_def ash_links_def foldM_on_lists on_lists_def)
qed (simp add: initASH_def ash_links_def on_lists_def)

section \<open>Groups of nodes\<close>

definition sem_nodes :: "lnode set" where
  "sem_nodes = insert SemdFree_h (range S_procq \<union> range S_freelink)"

definition ns_nodes :: "lnode set" where
  "ns_nodes = insert PID_nsFree_h (insert PID_nsList_h (range N_link))"

lemma nodes_simps [simp]:
  "pcb_off sem_nodes" "pcb_off ns_nodes" "pcb_off (sem_nodes \<union> ns_nodes)" "pcb_off (insert Ready_queue (sem_nodes \<union> ns_nodes))"
  "pcb_off {}" "sem_off ns_nodes" "sem_off {}" "Ready_queue \<notin> sem_nodes" "Ready_queue \<notin> ns_nodes" "sem_nodes \<inter> ns_nodes = {}"
  by (auto simp: pcb_off_def sem_off_def sem_nodes_def ns_nodes_def simp del: pcb_offD sem_offD)

lemma links_twins:
  assumes "twin X a c h k"
  shows "pcb_off X \<Longrightarrow> rel_option (twin X a c) (pcb_links h) (pcb_links k)"
    and "X = - {Ready_queue} \<Longrightarrow> rel_option (twin X a c) (INIT_LIST_HEAD p1_qa h) (INIT_LIST_HEAD p1_qa k)"
    and "X = - sem_nodes \<Longrightarrow> rel_option (twin X a c) (ash_links h) (ash_links k)"
    and "X = - ns_nodes \<Longrightarrow> rel_option (twin X a c) (ns_links h) (ns_links k)"
proof -
  note i = twin_ops(1) [THEN rel_bind] twin_foldM twin_ops
  show "pcb_off X \<Longrightarrow> rel_option (twin X a c) (pcb_links h) (pcb_links k)"
    unfolding pcb_links_def using assms by (intro i) auto
  show "X = - {Ready_queue} \<Longrightarrow> rel_option (twin X a c) (INIT_LIST_HEAD p1_qa h) (INIT_LIST_HEAD p1_qa k)"
    using assms by (intro i) auto
  show "X = - sem_nodes \<Longrightarrow> rel_option (twin X a c) (ash_links h) (ash_links k)"
    unfolding ash_links_def using assms by (intro i) (auto simp: sem_nodes_def)
  show "X = - ns_nodes \<Longrightarrow> rel_option (twin X a c) (ns_links h) (ns_links k)"
    unfolding ns_links_def using assms by (intro i) (auto simp: ns_nodes_def)
qed

section \<open>The heap with everything initialised\<close>

abbreviation no_links :: "lnode lheap" where
  "no_links \<equiv> \<lparr>nxt = (\<lambda>_. None), prv = (\<lambda>_. None)\<rparr>"

text \<open>The nodes of \<open>G\<close> are in \<open>b\<close> as \<open>init\<close> makes them.\<close>

definition inits :: "lnode lheap update \<Rightarrow> lnode set \<Rightarrow> lnode lheap \<Rightarrow> bool" where
  "inits init G b \<longleftrightarrow> (\<exists>h0 h1. init h0 = Some h1 \<and> (\<forall>n \<in> G. nxt h0 n = None \<and> prv h0 n = None
     \<and> nxt b n = nxt h1 n \<and> prv b n = prv h1 n))"

lemma activates:
  assumes "twin (X \<union> G) no_links b r v" and "X \<inter> G = {}" and "inits init G b"
    and "\<And>a c h k. twin (- G) a c h k \<Longrightarrow> rel_option (twin (- G) a c) (init h) (init k)"
  shows "\<exists>r'. init r = Some r' \<and> twin X no_links b r' v"
  using assms(3) activate [OF assms(1,2,4)] unfolding inits_def by fastforce

lemma start:
  assumes z: "zeroed s"
  shows "\<exists>h b. initPcbs s = Some (s\<lparr>lists := h\<rparr>)
    \<and> twin (insert Ready_queue (sem_nodes \<union> ns_nodes)) no_links b h b \<and> kabs (s\<lparr>lists := b\<rparr>) v_boot
    \<and> inits (INIT_LIST_HEAD p1_qa) {Ready_queue} b \<and> inits ash_links sem_nodes b \<and> inits ns_links ns_nodes b"
proof -
  have L0: "heap_abs (lists s) Map.empty" using z heap_abs_empty by (simp add: zeroed_def)
  have hh: "semd_h s = \<lparr>hfirst = (\<lambda>_. None), hnext = (\<lambda>_. None), hpprev = (\<lambda>_. None)\<rparr>"
    using z by (simp add: zeroed_def)
  let ?L1 = "Map.empty(PcbFree_h \<mapsto> map P_list (rev [0..<MAXPROC]))"
  from initPcbs_boot [OF L0] obtain h1 where 1: "initPcbs s = Some (s\<lparr>lists := h1\<rparr>)" "heap_abs h1 ?L1" by blast
  have n1: "lnodes ?L1 = insert PcbFree_h (P_list ` {..<MAXPROC})" by (auto simp: rev_upt_nodes)
  let ?L2 = "?L1(SemdFree_h \<mapsto> map S_freelink (rev [0..<MAXPROC]))"
  have "\<exists>h. initASH (s\<lparr>lists := h1\<rparr>) = Some (s\<lparr>lists := h1\<rparr>\<lparr>lists := h\<rparr>) \<and> heap_abs h ?L2"
    by (rule initASH_boot) (use 1 hh n1 in auto)
  then obtain h2 where 2: "initASH (s\<lparr>lists := h1\<rparr>) = Some (s\<lparr>lists := h2\<rparr>)" "heap_abs h2 ?L2" by auto
  have n2: "lnodes ?L2 = lnodes ?L1 \<union> insert SemdFree_h (S_freelink ` {..<MAXPROC})"
    by (subst lnodes_map_upd) auto
  let ?L3 = "?L2(PID_nsFree_h \<mapsto> map N_link [0..<MAXPROC], PID_nsList_h \<mapsto> [])"
  have "\<exists>h. initNamespaces (s\<lparr>lists := h2\<rparr>) = Some (s\<lparr>lists := h2\<rparr>\<lparr>lists := h\<rparr>) \<and> heap_abs h ?L3"
    by (rule initNamespaces_boot) (use 2 in \<open>auto simp: n2 n1\<close>)
  then obtain h3 where 3: "initNamespaces (s\<lparr>lists := h2\<rparr>) = Some (s\<lparr>lists := h3\<rparr>)" "heap_abs h3 ?L3" by auto
  have n3: "lnodes ?L3 = lnodes ?L2 \<union> insert PID_nsFree_h (insert PID_nsList_h (N_link ` {..<MAXPROC}))"
    by (subst lnodes_map_upd, simp)+ auto
  have "Ready_queue \<notin> lnodes ?L3" by (auto simp: n3 n2 n1)
  with INIT_LIST_HEAD_abs [OF 3(2), of Ready_queue] obtain b where
    4: "INIT_LIST_HEAD p1_qa h3 = Some b" "heap_abs b (?L3(Ready_queue \<mapsto> []))" by auto
  have k: "kabs (s\<lparr>lists := b\<rparr>) v_boot"
    using 4(2) z by (intro kabs_boot) (simp_all add: Lmap_boot hh zeroed_def)
  let ?X = "insert Ready_queue (sem_nodes \<union> ns_nodes)"
  have l: "lists s = no_links" "hfirst (semd_h s) bk = None" for bk using z by (simp_all add: zeroed_def)
  have p: "pcb_links no_links = Some h1" using 1(1) l(1) by (simp add: initPcbs_links on_lists_iff)
  have a: "ash_links h1 = Some h2" using 2(1) l(2) on_lists_iff [of ash_links "s\<lparr>lists := h1\<rparr>" h2] by (simp add: initASH_links)
  have n: "ns_links h2 = Some h3" using 3(1) on_lists_iff [of ns_links "s\<lparr>lists := h2\<rparr>" h3] by (simp add: initNamespaces_links)
  have "twin ?X no_links no_links no_links no_links" by (simp add: twin_def)
  from links_twins(1) [OF this] p have t1: "twin ?X no_links no_links h1 h1" by simp
  have z1: "nxt h1 x = None \<and> prv h1 x = None" if "x \<in> ?X" for x using twin_at [OF t1, of x] that by simp
  have u2: "nxt h2 x = nxt h1 x \<and> prv h2 x = prv h1 x" if "x \<notin> sem_nodes" for x
    by (intro conjI untouched [where init = ash_links, OF a _ that links_twins(3) [OF _ refl]]) (use z1 in auto)
  have apart: "x \<notin> sem_nodes" if "x \<in> insert Ready_queue ns_nodes" for x
    using that by (auto simp: sem_nodes_def ns_nodes_def)
  have z2: "nxt h2 x = None \<and> prv h2 x = None" if "x \<in> insert Ready_queue ns_nodes" for x
    using u2 [OF apart [OF that]] z1 [of x] that by auto
  have u3: "nxt h3 x = nxt h2 x \<and> prv h3 x = prv h2 x" if "x \<notin> ns_nodes" for x
    by (intro conjI untouched [where init = ns_links, OF n _ that links_twins(4) [OF _ refl]]) (use z2 in auto)
  have z3: "nxt h3 Ready_queue = None \<and> prv h3 Ready_queue = None" using u3 [of Ready_queue] z2 [of Ready_queue] by simp
  have u4: "nxt b x = nxt h3 x \<and> prv b x = prv h3 x" if "x \<notin> {Ready_queue}" for x
    by (intro conjI untouched [where init = "INIT_LIST_HEAD p1_qa", OF 4(1) _ that links_twins(2) [OF _ refl]]) (use z3 in auto)
  have "twin ?X no_links b h1 b"
    unfolding twin_def
  proof
    fix x
    show "if x \<in> ?X then nxt h1 x = nxt no_links x \<and> prv h1 x = prv no_links x \<and> nxt b x = nxt b x \<and> prv b x = prv b x
      else nxt h1 x = nxt b x \<and> prv h1 x = prv b x \<and> off ?X (nxt h1 x) \<and> off ?X (prv h1 x)"
      using z1 [of x] twin_at [OF t1, of x] u2 [of x] u3 [of x] u4 [of x] by (cases "x \<in> ?X") simp_all
  qed
  moreover have "inits (INIT_LIST_HEAD p1_qa) {Ready_queue} b"
    unfolding inits_def using 4(1) z1 u2 u3 by (intro exI [of _ h3] exI [of _ b]) simp
  moreover have "inits ash_links sem_nodes b"
    unfolding inits_def
  proof (intro exI conjI ballI)
    fix x assume x: "x \<in> sem_nodes"
    then have "x \<notin> ns_nodes" "x \<notin> {Ready_queue}" by (auto simp: sem_nodes_def ns_nodes_def)
    with u3 [of x] u4 [of x] z1 [of x] x
    show "nxt h1 x = None" "prv h1 x = None" "nxt b x = nxt h2 x" "prv b x = prv h2 x" by simp_all
  qed (rule a)
  moreover have "inits ns_links ns_nodes b"
    unfolding inits_def
  proof (intro exI conjI ballI)
    fix x assume x: "x \<in> ns_nodes"
    then have "x \<notin> {Ready_queue}" by (auto simp: ns_nodes_def)
    with u4 [of x] z2 [of x] x
    show "nxt h2 x = None" "prv h2 x = None" "nxt b x = nxt h3 x" "prv b x = prv h3 x" by simp_all
  qed (rule n)
  ultimately show ?thesis using 1(1) k by blast
qed

section \<open>Statements\<close>

definition ptwin :: "lnode set \<Rightarrow> lnode lheap \<Rightarrow> lnode lheap \<Rightarrow> 'd p1_state \<Rightarrow> 'd p1_state \<Rightarrow> bool" where
  "ptwin X a c y z \<longleftrightarrow> ktwin X a c (p1_k y) (p1_k z) \<and> z = y\<lparr>p1_k := p1_k z\<rparr>"

text \<open>A statement takes twins to twins.\<close>

definition frames :: "lnode set \<Rightarrow> lnode lheap \<Rightarrow> lnode lheap \<Rightarrow> 'd p1_stmt \<Rightarrow> bool" where
  "frames X a c st \<longleftrightarrow> (\<forall>y z. ptwin X a c y z \<longrightarrow> rel_option (rel_sum (ptwin X a c) (ptwin X a c)) (st y) (st z))"

lemma ptwin_same:
  assumes "ptwin X a c y z"
  shows "p1_w z = p1_w y" and "p1_ok z = p1_ok y" and "p1_errbuf z = p1_errbuf y" and "p1_dev z = p1_dev y"
proof -
  from assms have e: "z = y\<lparr>p1_k := p1_k z\<rparr>" by (simp add: ptwin_def)
  show "p1_w z = p1_w y" "p1_ok z = p1_ok y" "p1_errbuf z = p1_errbuf y" "p1_dev z = p1_dev y" by (subst e, simp)+
qed

lemma ptwin_update:
  assumes "ptwin X a c y z" and "ktwin X a c s t"
  shows "ptwin X a c (y\<lparr>p1_k := s\<rparr>) (z\<lparr>p1_k := t\<rparr>)"
    and "ptwin X a c (y\<lparr>p1_k := s, p1_w := w\<rparr>) (z\<lparr>p1_k := t, p1_w := w\<rparr>)"
    and "ptwin X a c (y\<lparr>p1_k := s, p1_errbuf := e, p1_dev := d\<rparr>) (z\<lparr>p1_k := t, p1_errbuf := e, p1_dev := d\<rparr>)"
proof -
  from assms(1) have e: "z = y\<lparr>p1_k := p1_k z\<rparr>" by (simp add: ptwin_def)
  show "ptwin X a c (y\<lparr>p1_k := s\<rparr>) (z\<lparr>p1_k := t\<rparr>)"
    "ptwin X a c (y\<lparr>p1_k := s, p1_w := w\<rparr>) (z\<lparr>p1_k := t, p1_w := w\<rparr>)"
    "ptwin X a c (y\<lparr>p1_k := s, p1_errbuf := e, p1_dev := d\<rparr>) (z\<lparr>p1_k := t, p1_errbuf := e, p1_dev := d\<rparr>)"
    by (subst e, simp add: ptwin_def assms(2))+
qed

lemma frames_run: "(\<And>st. st \<in> set cs \<Longrightarrow> frames X a c st) \<Longrightarrow> frames X a c (p1_run cs)"
proof (induction cs)
  case (Cons st cs)
  have st: "frames X a c st" and cs: "frames X a c (p1_run cs)" using Cons by auto
  show ?case
    unfolding frames_def p1_run.simps
  proof (intro allI impI)
    fix y z :: "'a p1_state" assume "ptwin X a c y z"
    with st have "rel_option (rel_sum (ptwin X a c) (ptwin X a c)) (st y) (st z)" by (simp add: frames_def)
    then show "rel_option (rel_sum (ptwin X a c) (ptwin X a c))
        (Option.bind (st y) (\<lambda>r. case r of Inl z \<Rightarrow> Some (Inl z) | Inr z \<Rightarrow> p1_run cs z))
        (Option.bind (st z) (\<lambda>r. case r of Inl z \<Rightarrow> Some (Inl z) | Inr z \<Rightarrow> p1_run cs z))"
      by (rule rel_bind) (use cs in \<open>auto simp: frames_def elim!: rel_sum.cases\<close>)
  qed
qed (simp add: frames_def)

lemma frames_loop: "(\<And>i st. st \<in> set (body i) \<Longrightarrow> frames X a c st) \<Longrightarrow> frames X a c (p1_loop is body)"
  unfolding p1_loop_def by (rule frames_run) (auto intro: frames_run)

lemma frames_say [simp]: "frames X a c (p1_say T m)"
  unfolding frames_def
proof (intro allI impI)
  fix y z :: "'a p1_state" assume t: "ptwin X a c y z"
  show "rel_option (rel_sum (ptwin X a c) (ptwin X a c)) (p1_say T m y) (p1_say T m z)"
    using t by (auto simp: p1_say_def p1_addokbuf_def ptwin_same [OF t] Let_def ptwin_def option_rel_Some1 split: Option.bind_splits)
qed

lemma frames_call:
  assumes "\<And>w s t. ktwin X a c s t \<Longrightarrow> rel_option (kpair X a c) (f w s) (f w t)"
  shows "frames X a c (p1_call f g)"
  unfolding frames_def
proof (intro allI impI)
  fix y z :: "'b p1_state" assume t: "ptwin X a c y z"
  then have "rel_option (kpair X a c) (f (p1_w y) (p1_k y)) (f (p1_w z) (p1_k z))"
    using assms by (simp add: ptwin_def ptwin_same [OF t])
  then show "rel_option (rel_sum (ptwin X a c) (ptwin X a c)) (p1_call f g y) (p1_call f g z)"
    unfolding p1_call_def by (rule rel_bind) (auto simp: ptwin_same [OF t] ptwin_update [OF t])
qed

lemma frames_check:
  assumes "\<And>w s t. ktwin X a c s t \<Longrightarrow> rel_option (kpair X a c) (f w s) (f w t)"
  shows "frames X a c (p1_check T f bad m)"
  unfolding frames_def
proof (intro allI impI)
  fix y z :: "'b p1_state" assume t: "ptwin X a c y z"
  then have "rel_option (kpair X a c) (f (p1_w y) (p1_k y)) (f (p1_w z) (p1_k z))"
    using assms by (simp add: ptwin_def ptwin_same [OF t])
  then show "rel_option (rel_sum (ptwin X a c) (ptwin X a c)) (p1_check T f bad m y) (p1_check T f bad m z)"
    unfolding p1_check_def by (rule rel_bind)
      (auto simp: ptwin_same [OF t] ptwin_update [OF t] p1_adderrbuf_def Let_def split: Option.bind_splits)
qed

lemma kpair_silent: "rel_option (ktwin X a c) (f s) (f t) \<Longrightarrow> rel_option (kpair X a c) (p1_silent f s) (p1_silent f t)"
  by (cases "f s"; cases "f t") (auto simp: p1_silent_def)

lemma kpair_asks: "f s = f t \<Longrightarrow> ktwin X a c s t \<Longrightarrow> rel_option (kpair X a c) (p1_asks f s) (p1_asks f t)"
  by (cases "f t") (auto simp: p1_asks_def)

lemmas frames_intros = frames_loop frames_call frames_check kpair_silent kpair_asks kpair_SomeI
  twin_allocPcb twin_freePcb twin_queue twin_tree twin_ash

lemma off_qa [simp]: "off X p1_qa \<longleftrightarrow> Ready_queue \<notin> X"
  by simp

lemma frames_alloc: "st \<in> set (tl (p1_alloc A T)) \<Longrightarrow> frames (insert Ready_queue (sem_nodes \<union> ns_nodes)) a c st"
  unfolding p1_alloc_def by (auto intro!: frames_intros)

lemma frames_queues:
  "st \<in> set (p1_queue_insert A T @ p1_queue_out T @ p1_queue_remove T) \<Longrightarrow> frames (sem_nodes \<union> ns_nodes) a c st"
  unfolding p1_queue_insert_def p1_queue_out_def p1_queue_remove_def by (auto intro!: frames_intros)

lemma frames_trees: "st \<in> set (p1_tree_insert T @ p1_tree_remove T) \<Longrightarrow> frames (sem_nodes \<union> ns_nodes) a c st"
  unfolding p1_tree_insert_def p1_tree_remove_def by (auto intro!: frames_intros)

lemma frames_ash:
  "st \<in> set (p1_ash_insert A T S o1 @ p1_ash_remove T S @ p1_ash_out T S @ p1_free_all T) \<Longrightarrow> frames ns_nodes a c st"
  unfolding p1_ash_insert_def p1_ash_remove_def p1_ash_out_def p1_free_all_def by (auto intro!: frames_intros)

end
