(* ===== verification/P1_Logic.thy ===== *)
theory P1_Logic
  imports P1_Start
begin

text \<open>
  Rules for the statements of the test of phase 1, on states that represent a view: an operation
  answers \<open>r\<close> and takes the view \<open>v\<close> to \<open>v'\<close>, whatever the state (\<open>op\<close>); a statement takes states
  with \<open>P\<close> to states with \<open>Q\<close>, without a fault or a panic (\<open>leads\<close>).
\<close>

section \<open>Operations\<close>

text \<open>Nobody has a namespace.\<close>

definition plain :: "kstate \<Rightarrow> bool" where
  "plain s \<longleftrightarrow> (\<forall>p. namespaces (pcbs s p) = (\<lambda>_. None))"

definition reaches :: "(kstate \<Rightarrow> 'v \<Rightarrow> bool) \<Rightarrow> (kstate, 'r) action \<Rightarrow> 'v \<Rightarrow> 'r \<Rightarrow> 'v \<Rightarrow> bool" where
  "reaches rep f v r v' \<longleftrightarrow> (\<forall>s. rep s v \<longrightarrow> (\<exists>s'. f s = Some (r, s') \<and> rep s' v'))"

definition krep :: "kstate \<Rightarrow> kview \<Rightarrow> bool" where
  "krep s v \<longleftrightarrow> kabs s v \<and> plain s"

abbreviation op :: "(kstate, 'r) action \<Rightarrow> kview \<Rightarrow> 'r \<Rightarrow> kview \<Rightarrow> bool" where
  "op \<equiv> reaches krep"

lemma reaches_skip: "reaches rep (\<lambda>k. Some ((), k)) v () v"
  by (simp add: reaches_def)

lemma opI:
  assumes "\<And>s. kabs s v \<Longrightarrow> plain s \<Longrightarrow> \<exists>t. runs_to (f s) r t v' \<and> plain t"
  shows "op f v r v'"
  unfolding reaches_def krep_def
proof (intro allI impI)
  fix s assume "kabs s v \<and> plain s"
  with assms [of s] obtain t where t: "runs_to (f s) r t v'" "plain t" by blast
  from t(1) obtain h hh ds where "f s = Some (r, relink h hh ds t)" "kabs (relink h hh ds t) v'" by (rule runs_toE)
  with t(2) show "\<exists>s'. f s = Some (r, s') \<and> kabs s' v' \<and> plain s'" by (auto simp: plain_def)
qed

lemma op_silentI:
  assumes "\<And>s. kabs s v \<Longrightarrow> plain s \<Longrightarrow> \<exists>t. ends_in (f s) t v' \<and> plain t"
  shows "op (p1_silent f) v () v'"
proof (rule opI)
  fix s assume "kabs s v" "plain s"
  with assms obtain t where "ends_in (f s) t v'" "plain t" by blast
  then show "\<exists>t. runs_to (p1_silent f s) () t v' \<and> plain t" by (auto simp: ends_in_runs p1_silent_def)
qed

lemma op_asksI: "(\<And>s. kabs s v \<Longrightarrow> f s = Some r) \<Longrightarrow> op (p1_asks f) v r v"
  by (simp add: reaches_def krep_def p1_asks_def)

lemma op_sameI: "(\<And>s. kabs s v \<Longrightarrow> f s = Some (r, s)) \<Longrightarrow> op f v r v"
  by (simp add: reaches_def krep_def)

lemma plain_updates [simp]:
  "plain s \<Longrightarrow> plain (set_pcb p (reset_pcb A) s)" "plain s \<Longrightarrow> plain (set_semAdd p k s)"
  "plain s \<Longrightarrow> plain (set_pcb p (\<lambda>b. b\<lparr>p_parent := q\<rparr>) s)"
  by (simp_all add: plain_def set_pcb_def set_semAdd_def reset_pcb_def)

text \<open>What the view says of the fields of a PCB.\<close>

lemma unblocked: "kabs s v \<Longrightarrow> (\<And>k. p \<notin> set (v_semq v k)) \<Longrightarrow> p_semAdd (pcbs s p) = 0"
  using kabs_facts(8) by blast

lemma orphan: "kabs s v \<Longrightarrow> (\<And>q. p \<notin> set (v_kids v q)) \<Longrightarrow> p_parent (pcbs s p) = None"
  using kabs_facts(11) by (metis not_Some_eq)

lemma op_pcbs:
  "v_free v = p # fs \<Longrightarrow> op (allocPcb A) v (Some p) (v\<lparr>v_free := fs\<rparr>)"
  "v_free v = [] \<Longrightarrow> op (allocPcb A) v None v"
  "(\<And>k. p \<notin> set (v_semq v k)) \<Longrightarrow> v_kids v p = [] \<Longrightarrow> (\<And>q. p \<notin> set (v_kids v q)) \<Longrightarrow>
    op (p1_silent (freePcb (Some p))) v () (v\<lparr>v_free := p # removeAll p (v_free v), v_ready := removeAll p (v_ready v)\<rparr>)"
proof -
  show "v_free v = p # fs \<Longrightarrow> op (allocPcb A) v (Some p) (v\<lparr>v_free := fs\<rparr>)"
    by (rule opI) (use allocPcb_view plain_updates in blast)
  show "v_free v = [] \<Longrightarrow> op (allocPcb A) v None v"
    by (rule op_sameI) (rule allocPcb_view_empty)
  show "(\<And>k. p \<notin> set (v_semq v k)) \<Longrightarrow> v_kids v p = [] \<Longrightarrow> (\<And>q. p \<notin> set (v_kids v q)) \<Longrightarrow>
    op (p1_silent (freePcb (Some p))) v () (v\<lparr>v_free := p # removeAll p (v_free v), v_ready := removeAll p (v_ready v)\<rparr>)"
    by (rule op_silentI) (use freePcb_view unblocked orphan in blast)
qed

lemma op_queue:
  "p \<notin> set (v_free v) \<Longrightarrow> (\<And>k. p \<notin> set (v_semq v k)) \<Longrightarrow>
    op (p1_silent (insertProcQ p1_qa (Some p))) v () (v\<lparr>v_ready := removeAll p (v_ready v) @ [p]\<rparr>)"
  "op (p1_asks (emptyProcQ p1_qa)) v (v_ready v = []) v"
  "op (p1_asks (headProcQ p1_qa)) v (case v_ready v of [] \<Rightarrow> None | p # _ \<Rightarrow> Some p) v"
  "op (outProcQ p1_qa (Some p)) v (if p \<in> set (v_ready v) then Some p else None) (v\<lparr>v_ready := removeAll p (v_ready v)\<rparr>)"
  "v_ready v = p # ps \<Longrightarrow> op (removeProcQ p1_qa) v (Some p) (v\<lparr>v_ready := ps\<rparr>)"
  "v_ready v = [] \<Longrightarrow> op (removeProcQ p1_qa) v None v"
proof -
  show "p \<notin> set (v_free v) \<Longrightarrow> (\<And>k. p \<notin> set (v_semq v k)) \<Longrightarrow>
    op (p1_silent (insertProcQ p1_qa (Some p))) v () (v\<lparr>v_ready := removeAll p (v_ready v) @ [p]\<rparr>)"
    by (rule op_silentI) (use insertProcQ_view unblocked in blast)
  show "op (p1_asks (emptyProcQ p1_qa)) v (v_ready v = []) v" by (rule op_asksI) (rule emptyProcQ_view)
  show "op (p1_asks (headProcQ p1_qa)) v (case v_ready v of [] \<Rightarrow> None | p # _ \<Rightarrow> Some p) v"
    by (rule op_asksI) (rule headProcQ_view)
  show "op (outProcQ p1_qa (Some p)) v (if p \<in> set (v_ready v) then Some p else None) (v\<lparr>v_ready := removeAll p (v_ready v)\<rparr>)"
    by (rule opI) (use outProcQ_view in blast)
  show "v_ready v = p # ps \<Longrightarrow> op (removeProcQ p1_qa) v (Some p) (v\<lparr>v_ready := ps\<rparr>)"
    by (rule opI) (use removeProcQ_view in blast)
  show "v_ready v = [] \<Longrightarrow> op (removeProcQ p1_qa) v None v" by (rule op_sameI) (rule removeProcQ_view_empty)
qed

lemma op_tree:
  "q < MAXPROC \<Longrightarrow> q \<notin> set (v_free v) \<Longrightarrow> op (p1_asks (emptyChild (Some q))) v (v_kids v q = []) v"
  "q < MAXPROC \<Longrightarrow> q \<notin> set (v_free v) \<Longrightarrow> p \<notin> set (v_free v) \<Longrightarrow> (\<And>q. p \<notin> set (v_kids v q)) \<Longrightarrow>
    op (p1_silent (insertChild (Some q) (Some p))) v () (v\<lparr>v_kids := (v_kids v)(q := v_kids v q @ [p])\<rparr>)"
  "p \<in> set (v_kids v q) \<Longrightarrow> op (outChild (Some p)) v (Some p) (v\<lparr>v_kids := (v_kids v)(q := removeAll p (v_kids v q))\<rparr>)"
  "(\<And>q. p \<notin> set (v_kids v q)) \<Longrightarrow> op (outChild (Some p)) v None v"
  "q < MAXPROC \<Longrightarrow> q \<notin> set (v_free v) \<Longrightarrow> v_kids v q = [] \<Longrightarrow> op (removeChild (Some q)) v None v"
  "v_kids v q = c # ks \<Longrightarrow> op (removeChild (Some q)) v (Some c) (v\<lparr>v_kids := (v_kids v)(q := ks)\<rparr>)"
proof -
  show "q < MAXPROC \<Longrightarrow> q \<notin> set (v_free v) \<Longrightarrow> op (p1_asks (emptyChild (Some q))) v (v_kids v q = []) v"
    by (rule op_asksI) (rule emptyChild_view)
  show "q < MAXPROC \<Longrightarrow> q \<notin> set (v_free v) \<Longrightarrow> p \<notin> set (v_free v) \<Longrightarrow> (\<And>q. p \<notin> set (v_kids v q)) \<Longrightarrow>
    op (p1_silent (insertChild (Some q) (Some p))) v () (v\<lparr>v_kids := (v_kids v)(q := v_kids v q @ [p])\<rparr>)"
    by (rule op_silentI) (use insertChild_view orphan plain_updates(3) in blast)
  show "p \<in> set (v_kids v q) \<Longrightarrow> op (outChild (Some p)) v (Some p) (v\<lparr>v_kids := (v_kids v)(q := removeAll p (v_kids v q))\<rparr>)"
    by (rule opI) (use outChild_view kabs_facts(11) plain_updates(3) in metis)
  show "(\<And>q. p \<notin> set (v_kids v q)) \<Longrightarrow> op (outChild (Some p)) v None v"
    by (rule op_sameI) (use outChild_orphan orphan in metis)
  show "q < MAXPROC \<Longrightarrow> q \<notin> set (v_free v) \<Longrightarrow> v_kids v q = [] \<Longrightarrow> op (removeChild (Some q)) v None v"
    by (rule op_sameI) (rule removeChild_view_none)
  show "v_kids v q = c # ks \<Longrightarrow> op (removeChild (Some q)) v (Some c) (v\<lparr>v_kids := (v_kids v)(q := ks)\<rparr>)"
    by (rule opI) (use removeChild_view plain_updates(3) in metis)
qed

lemma op_ash:
  "k \<noteq> 0 \<Longrightarrow> (\<And>k. p \<notin> set (v_semq v k)) \<Longrightarrow> p \<notin> set (v_free v) \<Longrightarrow> p \<notin> set (v_ready v) \<Longrightarrow>
    p < MAXPROC \<Longrightarrow> (\<And>k x. x \<in> set (v_semq v k) \<Longrightarrow> x < MAXPROC) \<Longrightarrow>
    op (insertBlocked k (Some p)) v 0 (v\<lparr>v_semq := (v_semq v)(k := v_semq v k @ [p])\<rparr>)"
  "k \<noteq> 0 \<Longrightarrow> k' \<noteq> 0 \<Longrightarrow> p \<in> set (v_semq v k') \<Longrightarrow> op (insertBlocked k (Some p)) v 2 v"
  "v_semq v k = [] \<Longrightarrow> op (removeBlocked k) v None v"
  "v_semq v k = p # ps \<Longrightarrow> op (removeBlocked k) v (Some p) (v\<lparr>v_semq := (v_semq v)(k := ps)\<rparr>)"
  "op (p1_asks (headBlocked k)) v (case v_semq v k of [] \<Rightarrow> None | p # _ \<Rightarrow> Some p) v"
  "(\<And>k. p \<notin> set (v_semq v k)) \<Longrightarrow> op (outBlocked (Some p)) v None v"
  "k \<noteq> 0 \<Longrightarrow> p \<in> set (v_semq v k) \<Longrightarrow> op (outBlocked (Some p)) v (Some p) (v\<lparr>v_semq := (v_semq v)(k := removeAll p (v_semq v k))\<rparr>)"
proof -
  show "k \<noteq> 0 \<Longrightarrow> (\<And>k. p \<notin> set (v_semq v k)) \<Longrightarrow> p \<notin> set (v_free v) \<Longrightarrow> p \<notin> set (v_ready v) \<Longrightarrow>
    p < MAXPROC \<Longrightarrow> (\<And>k x. x \<in> set (v_semq v k) \<Longrightarrow> x < MAXPROC) \<Longrightarrow>
    op (insertBlocked k (Some p)) v 0 (v\<lparr>v_semq := (v_semq v)(k := v_semq v k @ [p])\<rparr>)"
  proof (rule opI)
    fix s
    assume a: "k \<noteq> 0" "\<And>k. p \<notin> set (v_semq v k)" "p \<notin> set (v_free v)" "p \<notin> set (v_ready v)" "p < MAXPROC"
      "\<And>k x. x \<in> set (v_semq v k) \<Longrightarrow> x < MAXPROC" and s: "kabs s v" "plain s"
    have "\<not> v_queued s p v" using a(3,4) unblocked [OF s(1) a(2)] by (simp add: v_queued_def)
    with s(1) a(1,5) have "runs_to (insertBlocked k (Some p) s) 0 (set_semAdd p k s) (v\<lparr>v_semq := (v_semq v)(k := v_semq v k @ [p])\<rparr>)"
      by (rule insertBlocked_view) (rule a(6))
    with s(2) show "\<exists>t. runs_to (insertBlocked k (Some p) s) 0 t (v\<lparr>v_semq := (v_semq v)(k := v_semq v k @ [p])\<rparr>) \<and> plain t" by auto
  qed
  show "k \<noteq> 0 \<Longrightarrow> k' \<noteq> 0 \<Longrightarrow> p \<in> set (v_semq v k') \<Longrightarrow> op (insertBlocked k (Some p)) v 2 v"
    by (rule op_sameI) (use insertBlocked_errors(3) kabs_facts(8) in metis)
  show "v_semq v k = [] \<Longrightarrow> op (removeBlocked k) v None v" by (rule op_sameI) (rule removeBlocked_view_none)
  show "v_semq v k = p # ps \<Longrightarrow> op (removeBlocked k) v (Some p) (v\<lparr>v_semq := (v_semq v)(k := ps)\<rparr>)"
    by (rule opI) (use removeBlocked_view plain_updates(2) in metis)
  show "op (p1_asks (headBlocked k)) v (case v_semq v k of [] \<Rightarrow> None | p # _ \<Rightarrow> Some p) v"
    by (rule op_asksI) (rule headBlocked_view)
  show "(\<And>k. p \<notin> set (v_semq v k)) \<Longrightarrow> op (outBlocked (Some p)) v None v"
    by (rule op_sameI) (use outBlocked_view_none unblocked in metis)
  show "k \<noteq> 0 \<Longrightarrow> p \<in> set (v_semq v k) \<Longrightarrow> op (outBlocked (Some p)) v (Some p) (v\<lparr>v_semq := (v_semq v)(k := removeAll p (v_semq v k))\<rparr>)"
  proof (rule opI)
    fix s assume a: "k \<noteq> 0" "p \<in> set (v_semq v k)" and s: "kabs s v" "plain s"
    have "p_semAdd (pcbs s p) = k" using kabs_facts(8) [OF s(1) a(1)] a(2) by blast
    from outBlocked_view [OF s(1) this a(1)] s(2)
    show "\<exists>t. runs_to (outBlocked (Some p) s) (Some p) t (v\<lparr>v_semq := (v_semq v)(k := removeAll p (v_semq v k))\<rparr>) \<and> plain t" by auto
  qed
qed

text \<open>The views of the test: the namespaces are the free ones.\<close>

definition pview :: "nat list \<Rightarrow> nat list \<Rightarrow> (nat \<Rightarrow> nat list) \<Rightarrow> (u32 \<Rightarrow> nat list) \<Rightarrow> kview" where
  "pview f r k q = v_boot\<lparr>v_free := f, v_ready := r, v_kids := k, v_semq := q\<rparr>"

lemma pview_simps [simp]:
  "v_free (pview f r k q) = f" "v_ready (pview f r k q) = r" "v_kids (pview f r k q) = k" "v_semq (pview f r k q) = q"
  "(pview f r k q)\<lparr>v_free := f'\<rparr> = pview f' r k q" "(pview f r k q)\<lparr>v_ready := r'\<rparr> = pview f r' k q"
  "(pview f r k q)\<lparr>v_kids := k'\<rparr> = pview f r k' q" "(pview f r k q)\<lparr>v_semq := q'\<rparr> = pview f r k q'"
  by (simp_all add: pview_def)

section \<open>Statements\<close>

definition p1_messages :: "string list" where
  "p1_messages = [
     ''Initialized process control blocks   '', ''allocPcb ok   '', ''freed 10 entries   '',
     ''Inserting...   '', ''inserted 10 elements   '', ''outProcQ ok   '', ''Removing...   '',
     ''insertProcQ, removeProcQ and emptyProcQ ok   '', ''process queues module ok      '',
     ''checking process trees...'', ''Inserting...   '', ''Inserted 9 children   '', ''outChild ok   '',
     ''Removing...   '', ''insertChild, removeChild and emptyChild ok   '', ''process tree module ok      '',
     ''Initialized active semaphore hash   '', ''insertBlocked test #1 started  '', ''insertBlocked test #2 started  '',
     ''removeBlocked test started   '', ''insertBlocked and removeBlocked ok   '',
     ''headBlocked and outBlocked ok   '', ''ASH module ok   '',
     ''Initialized Namespaces'', ''getNamespace test #1 started  '', ''getNamespace test #1 ok'',
     ''addNamespace test #1 started'', ''addNamespace: test ok'',
     ''addNamespace(2): test started'', ''addNamespace(2): test ok'',
     ''Namespace module ok'', ''So Long and Thanks for All the Fish'']"

text \<open>What holds of the output after \<open>n\<close> messages, kept by every message of the list.\<close>

type_synonym 'd printed = "nat \<Rightarrow> okbuf_state \<Rightarrow> 'd \<Rightarrow> bool"

definition says :: "'d terminal \<Rightarrow> 'd printed \<Rightarrow> bool" where
  "says T R \<longleftrightarrow> (\<forall>n z. n < length p1_messages \<and> R n (p1_ok z) (p1_dev z) \<longrightarrow>
     (\<exists>b d. p1_addokbuf T (c_line (p1_messages ! n)) z = Some (z\<lparr>p1_ok := b, p1_dev := d\<rparr>) \<and> R (Suc n) b d))"

definition at_rep :: "(kstate \<Rightarrow> 'v \<Rightarrow> bool) \<Rightarrow> 'd printed \<Rightarrow> nat \<Rightarrow> 'v \<Rightarrow> p1_vars \<Rightarrow> 'd p1_state \<Rightarrow> bool" where
  "at_rep rep R n v w z \<longleftrightarrow> rep (p1_k z) v \<and> p1_w z = w \<and> R n (p1_ok z) (p1_dev z)"

abbreviation at :: "'d printed \<Rightarrow> nat \<Rightarrow> kview \<Rightarrow> p1_vars \<Rightarrow> 'd p1_state \<Rightarrow> bool" where
  "at \<equiv> at_rep krep"

definition leads :: "('d p1_state \<Rightarrow> bool) \<Rightarrow> 'd p1_stmt \<Rightarrow> ('d p1_state \<Rightarrow> bool) \<Rightarrow> bool" where
  "leads P st Q \<longleftrightarrow> (\<forall>z. P z \<longrightarrow> (\<exists>z'. st z = Some (Inr z') \<and> Q z'))"

lemma leads_Nil: "leads P (p1_run []) P"
  by (simp add: leads_def)

lemma leads_Cons: "leads P st Q \<Longrightarrow> leads Q (p1_run cs) R \<Longrightarrow> leads P (p1_run (st # cs)) R"
  by (fastforce simp: leads_def)

lemma leads_append: "leads P (p1_run cs) Q \<Longrightarrow> leads Q (p1_run ds) R \<Longrightarrow> leads P (p1_run (cs @ ds)) R"
proof (induction cs arbitrary: P)
  case (Cons st cs)
  show ?case
    unfolding leads_def
  proof (intro allI impI)
    fix z assume "P z"
    with Cons.prems(1) obtain z' where "p1_run (st # cs) z = Some (Inr z')" "Q z'" by (auto simp: leads_def)
    moreover then obtain y where y: "st z = Some (Inr y)" "p1_run cs y = Some (Inr z')"
      by (cases "st z"; cases "the (st z)") auto
    moreover have "leads (\<lambda>x. x = y) (p1_run (cs @ ds)) R"
      by (rule Cons.IH [OF _ Cons.prems(2)]) (use y(2) \<open>Q z'\<close> in \<open>simp add: leads_def\<close>)
    ultimately show "\<exists>z'. p1_run ((st # cs) @ ds) z = Some (Inr z') \<and> R z'" by (simp add: leads_def)
  qed
next
  case Nil
  show ?case
    unfolding leads_def
  proof (intro allI impI)
    fix z assume "P z"
    with Nil show "\<exists>z'. p1_run ([] @ ds) z = Some (Inr z') \<and> R z'" by (simp add: leads_def)
  qed
qed

lemma leads_loop:
  assumes "\<And>i. a \<le> i \<Longrightarrow> i < b \<Longrightarrow> leads (P i) (p1_run (body i)) (P (Suc i))" and "a \<le> b"
  shows "leads (P a) (p1_loop [a..<b] body) (P b)"
  using assms(2,1)
proof (induction rule: inc_induct)
  case base
  show ?case by (simp add: p1_loop_def leads_def)
next
  case (step n)
  have "leads (P n) (p1_run (p1_run (body n) # map (\<lambda>i. p1_run (body i)) [Suc n..<b])) (P b)"
    by (rule leads_Cons [where Q = "P (Suc n)"]) (use step in \<open>simp_all add: p1_loop_def\<close>)
  moreover have "[n..<b] = n # [Suc n..<b]" using step(2) by (rule upt_conv_Cons)
  ultimately show ?case unfolding p1_loop_def by (simp del: p1_run.simps)
qed

lemma leads_conseq: "leads P st Q \<Longrightarrow> (\<And>z. P' z \<Longrightarrow> P z) \<Longrightarrow> (\<And>z. Q z \<Longrightarrow> Q' z) \<Longrightarrow> leads P' st Q'"
  by (fastforce simp: leads_def)

lemma leads_final: "P = Q \<Longrightarrow> leads P (p1_run []) Q"
  by (simp add: leads_Nil)

lemma leads_say:
  assumes "says T R" and "n < length p1_messages \<and> p1_messages ! n = m"
  shows "leads (at_rep rep R n v w) (p1_say T m) (at_rep rep R (Suc n) v w)"
  using assms by (fastforce simp: leads_def at_rep_def p1_say_def says_def)

lemma leads_call: "reaches rep (f w) v r v' \<Longrightarrow> g r w = w' \<Longrightarrow> leads (at_rep rep R n v w) (p1_call f g) (at_rep rep R n v' w')"
  by (fastforce simp: leads_def at_rep_def p1_call_def reaches_def)

lemma leads_check: "reaches rep (f w) v r v' \<Longrightarrow> \<not> bad r w \<Longrightarrow> leads (at_rep rep R n v w) (p1_check T f bad m) (at_rep rep R n v' w)"
  by (fastforce simp: leads_def at_rep_def p1_check_def reaches_def)

lemma leads_check_vars: "\<not> bad w \<Longrightarrow> leads (at_rep rep R n v w) (p1_check_vars T bad m) (at_rep rep R n v w)"
  by (rule leads_check) (rule reaches_skip)

end
