(* ===== verification/P1_Steps.thy ===== *)
theory P1_Steps
  imports P1_Logic
begin

text \<open>
  Symbolic execution of the statements of the test: the view is one of lists, every operation is a
  function of them, and a part of the test is run one statement after the other.
\<close>

section \<open>Views of lists\<close>

text \<open>One process has children, and the queues are the ones of the semaphores of the array.\<close>

definition kids :: "nat \<Rightarrow> nat list \<Rightarrow> nat \<Rightarrow> nat list" where
  "kids c ks p = (if p = c then ks else [])"

definition spread :: "u32 \<Rightarrow> nat list list \<Rightarrow> u32 \<Rightarrow> nat list" where
  "spread S Q k = (case find (\<lambda>j. p1_sem S j = k) [0..<length Q] of None \<Rightarrow> [] | Some j \<Rightarrow> Q ! j)"

definition tview :: "nat list \<Rightarrow> nat list \<Rightarrow> nat \<Rightarrow> nat list \<Rightarrow> u32 \<Rightarrow> nat list list \<Rightarrow> kview" where
  "tview f r c ks S Q = pview f r (kids c ks) (spread S Q)"

lemma kids_simps [simp]:
  "kids c ks c = ks" "kids c [] p = []" "(kids c ks)(c := js) = kids c js" "p \<noteq> c \<Longrightarrow> kids c ks p = []"
  by (auto simp: kids_def)

lemma kids_none: "p \<notin> set ks \<Longrightarrow> p \<notin> set (kids c ks q)"
  by (simp add: kids_def)

lemma p1_sem_eq: "i < 20 \<Longrightarrow> j < 20 \<Longrightarrow> p1_sem S i = p1_sem S j \<longleftrightarrow> i = j"
proof
  assume ij: "i < 20" "j < 20" and "p1_sem S i = p1_sem S j"
  then have "unat (4 * of_nat i :: u32) = unat (4 * of_nat j :: u32)" by (simp add: p1_sem_def)
  with ij show "i = j" by (simp add: unat_mult_lem unat_word_ariths unat_of_nat)
qed simp

lemma spread_at: "length Q \<le> 20 \<Longrightarrow> j < length Q \<Longrightarrow> spread S Q (p1_sem S j) = Q ! j"
proof -
  assume "length Q \<le> 20" "j < length Q"
  then have "find (\<lambda>i. p1_sem S i = p1_sem S j) [0..<length Q] = Some j"
    by (subst find_Some_iff) (force simp: p1_sem_eq)
  then show ?thesis by (simp add: spread_def)
qed

lemma spread_off: "(\<And>j. j < length Q \<Longrightarrow> p1_sem S j \<noteq> k) \<Longrightarrow> spread S Q k = []"
proof -
  assume "\<And>j. j < length Q \<Longrightarrow> p1_sem S j \<noteq> k"
  then have "find (\<lambda>j. p1_sem S j = k) [0..<length Q] = None" by (simp add: find_None_iff)
  then show ?thesis by (simp add: spread_def)
qed

lemma spread_cases: "length Q \<le> 20 \<Longrightarrow> spread S Q k = [] \<or> (\<exists>j < length Q. k = p1_sem S j \<and> spread S Q k = Q ! j)"
  using spread_at spread_off by metis

lemma spread_none: "length Q \<le> 20 \<Longrightarrow> p \<notin> set (concat Q) \<Longrightarrow> p \<notin> set (spread S Q k)"
  using spread_cases [of Q S k] nth_mem by fastforce

lemma spread_upd:
  assumes "length Q \<le> 20" and "j < length Q"
  shows "(spread S Q)(p1_sem S j := xs) = spread S (Q[j := xs])"
proof
  fix k
  show "((spread S Q)(p1_sem S j := xs)) k = spread S (Q[j := xs]) k"
  proof (cases "\<exists>i < length Q. p1_sem S i = k")
    case True
    then obtain i where "i < length Q" "p1_sem S i = k" by blast
    with assms show ?thesis using spread_at [of Q i S] spread_at [of "Q[j := xs]" i S] by (auto simp: p1_sem_eq)
  next
    case False
    then have "spread S Q k = []" "spread S (Q[j := xs]) k = []"
      using spread_off [of Q S k] spread_off [of "Q[j := xs]" S k] by auto
    with False assms(2) show ?thesis by auto
  qed
qed

section \<open>The operations on them\<close>

text \<open>The nodes of the lists are PCBs, and no semaphore is at the address 0.\<close>

definition array_at :: "u32 \<Rightarrow> bool" where
  "array_at S \<longleftrightarrow> (\<forall>j < 20. p1_sem S j \<noteq> 0)"

definition fits :: "u32 \<Rightarrow> nat list list \<Rightarrow> bool" where
  "fits S Q \<longleftrightarrow> length Q = 20 \<and> array_at S \<and> (\<forall>p \<in> set (concat Q). p < MAXPROC)"

lemma fits_below: "fits S Q \<Longrightarrow> x \<in> set (spread S Q k) \<Longrightarrow> x < MAXPROC"
  using spread_cases [of Q S k] nth_mem [of _ Q] by (fastforce simp: fits_def)

lemma fits_length: "fits S Q \<Longrightarrow> length Q \<le> 20"
  by (simp add: fits_def)

definition first :: "nat list \<Rightarrow> nat ptr" where
  "first xs = (case xs of [] \<Rightarrow> None | p # _ \<Rightarrow> Some p)"

lemma first_simps [simp]: "first [] = None" "first (p # ps) = Some p"
  by (simp_all add: first_def)

lemma tview_upd:
  "(tview f r c ks S Q)\<lparr>v_free := f'\<rparr> = tview f' r c ks S Q"
  "(tview f r c ks S Q)\<lparr>v_ready := r'\<rparr> = tview f r' c ks S Q"
  "(tview f r c ks S Q)\<lparr>v_kids := kids c ks'\<rparr> = tview f r c ks' S Q"
  "(tview f r c ks S Q)\<lparr>v_semq := spread S Q'\<rparr> = tview f r c ks S Q'"
  "v_free (tview f r c ks S Q) = f" "v_ready (tview f r c ks S Q) = r" "v_kids (tview f r c ks S Q) = kids c ks"
  "v_semq (tview f r c ks S Q) = spread S Q"
  by (simp_all add: tview_def)

lemma ts_alloc: "op (allocPcb A) (tview f r c ks S Q) (first f) (tview (tl f) r c ks S Q)"
proof (cases f)
  case Nil
  then show ?thesis using op_pcbs(2) [of "tview f r c ks S Q" A] by (simp add: tview_upd)
next
  case (Cons p fs)
  then show ?thesis using op_pcbs(1) [of "tview f r c ks S Q" p fs A] by (simp add: tview_upd)
qed

lemma ts_free:
  "x = Some p \<Longrightarrow> p \<notin> set ks \<Longrightarrow> p \<noteq> c \<or> ks = [] \<Longrightarrow> length Q \<le> 20 \<Longrightarrow> p \<notin> set (concat Q) \<Longrightarrow>
    op (p1_silent (freePcb x)) (tview f r c ks S Q) () (tview (p # removeAll p f) (removeAll p r) c ks S Q)"
  using op_pcbs(3) [of p "tview f r c ks S Q"] by (auto simp: tview_upd spread_none kids_none)

lemma ts_queue:
  "x = Some p \<Longrightarrow> p \<notin> set f \<Longrightarrow> length Q \<le> 20 \<Longrightarrow> p \<notin> set (concat Q) \<Longrightarrow>
    op (p1_silent (insertProcQ p1_qa x)) (tview f r c ks S Q) () (tview f (removeAll p r @ [p]) c ks S Q)"
  "op (p1_asks (emptyProcQ p1_qa)) (tview f r c ks S Q) (r = []) (tview f r c ks S Q)"
  "op (p1_asks (headProcQ p1_qa)) (tview f r c ks S Q) (first r) (tview f r c ks S Q)"
  "x = Some p \<Longrightarrow> op (outProcQ p1_qa x) (tview f r c ks S Q) (if p \<in> set r then Some p else None) (tview f (removeAll p r) c ks S Q)"
  "op (removeProcQ p1_qa) (tview f r c ks S Q) (first r) (tview f (tl r) c ks S Q)"
proof -
  let ?v = "tview f r c ks S Q"
  show "x = Some p \<Longrightarrow> p \<notin> set f \<Longrightarrow> length Q \<le> 20 \<Longrightarrow> p \<notin> set (concat Q) \<Longrightarrow>
      op (p1_silent (insertProcQ p1_qa x)) ?v () (tview f (removeAll p r @ [p]) c ks S Q)"
    using op_queue(1) [of p ?v] by (auto simp: tview_upd spread_none)
  show "op (p1_asks (emptyProcQ p1_qa)) ?v (r = []) ?v" using op_queue(2) [of ?v] by (simp add: tview_upd)
  show "op (p1_asks (headProcQ p1_qa)) ?v (first r) ?v" using op_queue(3) [of ?v] by (simp add: tview_upd first_def)
  show "x = Some p \<Longrightarrow> op (outProcQ p1_qa x) ?v (if p \<in> set r then Some p else None) (tview f (removeAll p r) c ks S Q)"
    using op_queue(4) [of p ?v] by (simp add: tview_upd)
  show "op (removeProcQ p1_qa) ?v (first r) (tview f (tl r) c ks S Q)"
    using op_queue(5) [of ?v] op_queue(6) [of ?v] by (cases r) (simp_all add: tview_upd)
qed

lemma ts_tree:
  "x = Some p \<Longrightarrow> p < MAXPROC \<Longrightarrow> p \<notin> set f \<Longrightarrow>
    op (p1_asks (emptyChild x)) (tview f r c ks S Q) (kids c ks p = []) (tview f r c ks S Q)"
  "y = Some c \<Longrightarrow> x = Some p \<Longrightarrow> c < MAXPROC \<Longrightarrow> c \<notin> set f \<Longrightarrow> p \<notin> set f \<Longrightarrow> p \<notin> set ks \<Longrightarrow>
    op (p1_silent (insertChild y x)) (tview f r c ks S Q) () (tview f r c (ks @ [p]) S Q)"
  "x = Some p \<Longrightarrow> op (outChild x) (tview f r c ks S Q) (if p \<in> set ks then Some p else None) (tview f r c (removeAll p ks) S Q)"
  "y = Some c \<Longrightarrow> c < MAXPROC \<Longrightarrow> c \<notin> set f \<Longrightarrow> op (removeChild y) (tview f r c ks S Q) (first ks) (tview f r c (tl ks) S Q)"
proof -
  let ?v = "tview f r c ks S Q"
  show "x = Some p \<Longrightarrow> p < MAXPROC \<Longrightarrow> p \<notin> set f \<Longrightarrow> op (p1_asks (emptyChild x)) ?v (kids c ks p = []) ?v"
    using op_tree(1) [of p ?v] by (simp add: tview_upd)
  show "y = Some c \<Longrightarrow> x = Some p \<Longrightarrow> c < MAXPROC \<Longrightarrow> c \<notin> set f \<Longrightarrow> p \<notin> set f \<Longrightarrow> p \<notin> set ks \<Longrightarrow>
      op (p1_silent (insertChild y x)) ?v () (tview f r c (ks @ [p]) S Q)"
    using op_tree(2) [of c ?v p] by (simp add: tview_upd kids_none)
  show "x = Some p \<Longrightarrow> op (outChild x) ?v (if p \<in> set ks then Some p else None) (tview f r c (removeAll p ks) S Q)"
    using op_tree(3) [of p ?v c] op_tree(4) [of p ?v] by (cases "p \<in> set ks") (simp_all add: tview_upd kids_none)
  show "y = Some c \<Longrightarrow> c < MAXPROC \<Longrightarrow> c \<notin> set f \<Longrightarrow> op (removeChild y) ?v (first ks) (tview f r c (tl ks) S Q)"
    using op_tree(5) [of c ?v] op_tree(6) [of ?v c] by (cases ks) (simp_all add: tview_upd)
qed

lemma ts_ash:
  assumes Q: "fits S Q"
  shows "j < 20 \<Longrightarrow> x = Some p \<Longrightarrow> p \<notin> set (concat Q) \<Longrightarrow> p \<notin> set f \<Longrightarrow> p \<notin> set r \<Longrightarrow> p < MAXPROC \<Longrightarrow>
      op (insertBlocked (p1_sem S j) x) (tview f r c ks S Q) 0 (tview f r c ks S (Q[j := Q ! j @ [p]]))"
    and "x = Some p \<Longrightarrow> j < 20 \<Longrightarrow> p \<in> set (Q ! j) \<Longrightarrow> k \<noteq> 0 \<Longrightarrow>
      op (insertBlocked k x) (tview f r c ks S Q) 2 (tview f r c ks S Q)"
    and "j < 20 \<Longrightarrow> op (removeBlocked (p1_sem S j)) (tview f r c ks S Q) (first (Q ! j)) (tview f r c ks S (Q[j := tl (Q ! j)]))"
    and "j < 20 \<Longrightarrow> op (p1_asks (headBlocked (p1_sem S j))) (tview f r c ks S Q) (first (Q ! j)) (tview f r c ks S Q)"
    and "x = Some p \<Longrightarrow> j < 20 \<Longrightarrow> p \<notin> set (concat (Q[j := []])) \<Longrightarrow>
      op (outBlocked x) (tview f r c ks S Q) (if p \<in> set (Q ! j) then Some p else None) (tview f r c ks S (Q[j := removeAll p (Q ! j)]))"
proof -
  let ?v = "tview f r c ks S Q"
  note l = fits_length [OF Q]
  have n: "\<And>j. j < 20 \<Longrightarrow> p1_sem S j \<noteq> 0" and q: "length Q = 20" using Q by (simp_all add: fits_def array_at_def)
  have a: "spread S Q (p1_sem S j) = Q ! j" if "j < 20" for j using spread_at [OF l, of j] that q by simp
  have u: "(spread S Q)(p1_sem S j := xs) = spread S (Q[j := xs])" if "j < 20" for j xs using spread_upd [OF l, of j] that q by simp
  show "j < 20 \<Longrightarrow> x = Some p \<Longrightarrow> p \<notin> set (concat Q) \<Longrightarrow> p \<notin> set f \<Longrightarrow> p \<notin> set r \<Longrightarrow> p < MAXPROC \<Longrightarrow>
      op (insertBlocked (p1_sem S j) x) ?v 0 (tview f r c ks S (Q[j := Q ! j @ [p]]))"
    using op_ash(1) [of "p1_sem S j" p ?v] spread_none [OF l, of p] fits_below [OF Q] n [of j] by (simp add: tview_upd a u)
  show "x = Some p \<Longrightarrow> j < 20 \<Longrightarrow> p \<in> set (Q ! j) \<Longrightarrow> k \<noteq> 0 \<Longrightarrow> op (insertBlocked k x) ?v 2 ?v"
    using op_ash(2) [of k "p1_sem S j" p ?v] n [of j] by (simp add: tview_upd a)
  show "j < 20 \<Longrightarrow> op (removeBlocked (p1_sem S j)) ?v (first (Q ! j)) (tview f r c ks S (Q[j := tl (Q ! j)]))"
    using op_ash(3) [of ?v "p1_sem S j"] op_ash(4) [of ?v "p1_sem S j"] list_update_id [of Q j]
    by (cases "Q ! j") (simp_all add: tview_upd a u)
  show "j < 20 \<Longrightarrow> op (p1_asks (headBlocked (p1_sem S j))) ?v (first (Q ! j)) ?v"
    using op_ash(5) [of "p1_sem S j" ?v] by (simp add: tview_upd a first_def)
  show "x = Some p \<Longrightarrow> j < 20 \<Longrightarrow> p \<notin> set (concat (Q[j := []])) \<Longrightarrow>
      op (outBlocked x) ?v (if p \<in> set (Q ! j) then Some p else None) (tview f r c ks S (Q[j := removeAll p (Q ! j)]))"
  proof (cases "p \<in> set (Q ! j)")
    case True
    then show "x = Some p \<Longrightarrow> j < 20 \<Longrightarrow> ?thesis"
      using op_ash(7) [of "p1_sem S j" p ?v] n [of j] by (simp add: tview_upd a u)
  next
    case False
    assume j: "j < 20" and x: "x = Some p" "p \<notin> set (concat (Q[j := []]))"
    have "p \<notin> set (concat Q)"
    proof
      assume "p \<in> set (concat Q)"
      then obtain xs where "xs \<in> set Q" "p \<in> set xs" by auto
      then obtain i where i: "i < length Q" "p \<in> set (Q ! i)" using in_set_conv_nth [of xs Q] by blast
      with False have "Q[j := []] ! i = Q ! i" by (metis nth_list_update_neq)
      with i x(2) nth_mem [of i "Q[j := []]"] show False by fastforce
    qed
    with False x(1) show ?thesis using op_ash(6) [of p ?v] spread_none [OF l, of p] by (simp add: tview_upd removeAll_id)
  qed
qed

section \<open>Statements\<close>

lemma step_say:
  "says T R \<Longrightarrow> n < length p1_messages \<and> p1_messages ! n = m \<Longrightarrow> leads (at_rep rep R (Suc n) v w) (p1_run cs) P \<Longrightarrow>
    leads (at_rep rep R n v w) (p1_run (p1_say T m # cs)) P"
  by (rule leads_Cons [OF leads_say])

lemma step_call:
  "reaches rep (f w) v r v' \<Longrightarrow> leads (at_rep rep R n v' (g r w)) (p1_run cs) P \<Longrightarrow> leads (at_rep rep R n v w) (p1_run (p1_call f g # cs)) P"
  by (rule leads_Cons [OF leads_call]) (assumption, rule refl)

lemma step_check:
  "reaches rep (f w) v r v' \<Longrightarrow> \<not> bad r w \<Longrightarrow> leads (at_rep rep R n v' w) (p1_run cs) P \<Longrightarrow>
    leads (at_rep rep R n v w) (p1_run (p1_check T f bad m # cs)) P"
  by (rule leads_Cons [OF leads_check])

lemma step_vars:
  "\<not> bad w \<Longrightarrow> leads (at_rep rep R n v w) (p1_run cs) P \<Longrightarrow> leads (at_rep rep R n v w) (p1_run (p1_check_vars T bad m # cs)) P"
  by (rule leads_Cons [OF leads_check_vars])

lemma step_loop:
  "leads P (p1_run (body i)) M \<Longrightarrow> leads M (p1_run (p1_loop is body # cs)) Q \<Longrightarrow>
    leads P (p1_run (p1_loop (i # is) body # cs)) Q"
proof -
  have "p1_run (p1_loop (i # is) body # cs) = p1_run (p1_run (body i) # p1_loop is body # cs)"
    by (rule ext) (auto simp: p1_loop_def split: option.splits sum.splits Option.bind_splits)
  then show "leads P (p1_run (body i)) M \<Longrightarrow> leads M (p1_run (p1_loop is body # cs)) Q \<Longrightarrow>
      leads P (p1_run (p1_loop (i # is) body # cs)) Q"
    using leads_Cons by metis
qed

lemma step_loop_end: "leads P (p1_run cs) Q \<Longrightarrow> leads P (p1_run (p1_loop [] body # cs)) Q"
  by (rule leads_Cons [of _ _ P]) (simp_all add: p1_loop_def leads_def)

lemma leads_cong: "P = P' \<Longrightarrow> leads P st Q = leads P' st Q"
  by simp

lemma step_end: "v = v' \<Longrightarrow> w = w' \<Longrightarrow> n = m \<Longrightarrow> leads (at_rep rep R n v w) (p1_run []) (at_rep rep R m v' w')"
  by (simp add: leads_Nil)

lemmas ts_ops = reaches_skip ts_alloc ts_free ts_queue ts_tree

lemma update_nth_Cons [simp]:
  "(x # xs)[Suc i := y] = x # xs[i := y]" "(x # xs)[numeral k := y] = x # xs[pred_numeral k := y]"
  by (simp_all add: numeral_eq_Suc)

lemma ranges:
  "[0..<7] = [0, 1, 2, 3, 4, 5, 6]" "[0..<8] = [0, 1, 2, 3, 4, 5, 6, 7]" "[0..<10] = [0, 1, 2, 3, 4, 5, 6, 7, 8, 9]"
  "[1..<10] = [1, 2, 3, 4, 5, 6, 7, 8, 9]" "[10..<MAXPROC] = [10, 11, 12, 13, 14, 15, 16, 17, 18, 19]"
  "[0..<MAXPROC] = [0, 1, 2, 3, 4, 5, 6, 7, 8, 9, 10, 11, 12, 13, 14, 15, 16, 17, 18, 19]"
  by (simp_all add: upt_rec MAXPROC_def)

section \<open>Process queues and trees\<close>

abbreviation nobody :: "nat list list" where "nobody \<equiv> replicate 20 []"

definition pv :: "nat list \<Rightarrow> nat ptr \<Rightarrow> nat ptr \<Rightarrow> nat ptr \<Rightarrow> nat ptr \<Rightarrow> nat ptr \<Rightarrow> p1_vars" where
  "pv ps p q f l m = \<lparr>procp = map Some ps, var_p = p, var_q = q, firstproc = f, lastproc = l, midproc = m, var_ns = None, var_ns2 = None\<rparr>"

definition p1_bss :: p1_vars where
  "p1_bss = \<lparr>procp = replicate 20 None, var_p = None, var_q = None, firstproc = None, lastproc = None, midproc = None,
     var_ns = None, var_ns2 = None\<rparr>"

definition down :: "nat list" where
  "down = [19, 18, 17, 16, 15, 14, 13, 12, 11, 10, 9, 8, 7, 6, 5, 4, 3, 2, 1, 0]"

lemma p1_bss_list: "p1_bss = \<lparr>procp = [None, None, None, None, None, None, None, None, None, None,
    None, None, None, None, None, None, None, None, None, None], var_p = None, var_q = None, firstproc = None, lastproc = None,
    midproc = None, var_ns = None, var_ns2 = None\<rparr>"
  by (simp add: p1_bss_def numeral_eq_Suc)

lemmas vars_defs = pv_def p1_bss_list down_def set_q_def set_p_def set_procp_def MAXPROC_def

lemma alloc_part:
  assumes "says T R"
  shows "leads (at R 0 (tview down [] c [] S nobody) (p1_bss)) (p1_run (tl (p1_alloc A T)))
    (at R 3 (tview [0, 1, 2, 3, 4, 5, 6, 7, 8, 9] [] c [] S nobody) (pv down None None None None None))"
  unfolding p1_alloc_def list.sel ranges down_def
  unfolding vars_defs
  by ((rule step_say, rule assms, simp add: p1_messages_def | rule step_vars | (rule step_check | rule step_call), rule ts_ops
        | rule step_loop | rule step_loop_end | rule step_end),
      ((simp add: MAXPROC_def cong: leads_cong; fail)+)?, (simp add: vars_defs cong: leads_cong)?)+

lemma insert_part:
  assumes "says T R"
  shows "leads (at R 3 (tview [0, 1, 2, 3, 4, 5, 6, 7, 8, 9] [] c [] S nobody) (pv down None None None None None)) (p1_run (p1_queue_insert A T))
    (at R 5 (tview [] [0, 1, 2, 3, 4, 5, 6, 7, 8, 9] c [] S nobody) (pv down None (Some 9) (Some 0) (Some 9) (Some 5)))"
  unfolding p1_queue_insert_def list.sel ranges down_def
  unfolding vars_defs
  by ((rule step_say, rule assms, simp add: p1_messages_def | rule step_vars | (rule step_check | rule step_call), rule ts_ops
        | rule step_loop | rule step_loop_end | rule step_end),
      ((simp add: MAXPROC_def cong: leads_cong; fail)+)?, (simp add: vars_defs cong: leads_cong)?)+

lemma out_part:
  assumes "says T R"
  shows "leads (at R 5 (tview [] [0, 1, 2, 3, 4, 5, 6, 7, 8, 9] c [] S nobody) (pv down None (Some 9) (Some 0) (Some 9) (Some 5))) (p1_run (p1_queue_out T))
    (at R 6 (tview [5, 0] [1, 2, 3, 4, 6, 7, 8, 9] c [] S nobody) (pv down None (Some 5) (Some 0) (Some 9) (Some 5)))"
  unfolding p1_queue_out_def list.sel ranges down_def
  unfolding vars_defs
  by ((rule step_say, rule assms, simp add: p1_messages_def | rule step_vars | (rule step_check | rule step_call), rule ts_ops
        | rule step_loop | rule step_loop_end | rule step_end),
      ((simp add: MAXPROC_def cong: leads_cong; fail)+)?, (simp add: vars_defs cong: leads_cong)?)+

lemma remove_part:
  assumes "says T R"
  shows "leads (at R 6 (tview [5, 0] [1, 2, 3, 4, 6, 7, 8, 9] c [] S nobody) (pv down None (Some 5) (Some 0) (Some 9) (Some 5))) (p1_run (p1_queue_remove T))
    (at R 9 (tview [9, 8, 7, 6, 4, 3, 2, 1, 5, 0] [] c [] S nobody) (pv down None (Some 9) (Some 0) (Some 9) (Some 5)))"
  unfolding p1_queue_remove_def list.sel ranges down_def
  unfolding vars_defs
  by ((rule step_say, rule assms, simp add: p1_messages_def | rule step_vars | (rule step_check | rule step_call), rule ts_ops
        | rule step_loop | rule step_loop_end | rule step_end),
      ((simp add: MAXPROC_def cong: leads_cong; fail)+)?, (simp add: vars_defs cong: leads_cong)?)+

lemma child_part:
  assumes "says T R"
  shows "leads (at R 9 (tview [9, 8, 7, 6, 4, 3, 2, 1, 5, 0] [] 19 [] S nobody) (pv down None (Some 9) (Some 0) (Some 9) (Some 5))) (p1_run (p1_tree_insert T))
    (at R 12 (tview [9, 8, 7, 6, 4, 3, 2, 1, 5, 0] [] 19 [18, 17, 16, 15, 14, 13, 12, 11, 10] S nobody) (pv down None (Some 9) (Some 0) (Some 9) (Some 5)))"
  unfolding p1_tree_insert_def list.sel ranges down_def
  unfolding vars_defs
  by ((rule step_say, rule assms, simp add: p1_messages_def | rule step_vars | (rule step_check | rule step_call), rule ts_ops
        | rule step_loop | rule step_loop_end | rule step_end),
      ((simp add: MAXPROC_def cong: leads_cong; fail)+)?, (simp add: vars_defs cong: leads_cong)?)+

lemma orphan_part:
  assumes "says T R"
  shows "leads (at R 12 (tview [9, 8, 7, 6, 4, 3, 2, 1, 5, 0] [] 19 [18, 17, 16, 15, 14, 13, 12, 11, 10] S nobody) (pv down None (Some 9) (Some 0) (Some 9) (Some 5))) (p1_run (p1_tree_remove T))
    (at R 16 (tview [10, 11, 12, 13, 14, 15, 16, 17, 18, 19, 9, 8, 7, 6, 4, 3, 2, 1, 5, 0] [] 19 [] S nobody) (pv down None (Some 10) (Some 0) (Some 9) (Some 5)))"
  unfolding p1_tree_remove_def list.sel ranges down_def
  unfolding vars_defs
  by ((rule step_say, rule assms, simp add: p1_messages_def | rule step_vars | (rule step_check | rule step_call), rule ts_ops
        | rule step_loop | rule step_loop_end | rule step_end),
      ((simp add: MAXPROC_def cong: leads_cong; fail)+)?, (simp add: vars_defs cong: leads_cong)?)+

section \<open>The active semaphores\<close>

lemma nobody_list: "nobody = [[], [], [], [], [], [], [], [], [], [], [], [], [], [], [], [], [], [], [], []]"
  by (simp add: numeral_eq_Suc)

lemmas ash_ops = ts_ash(1,3,4) ts_ash(2,5) [where j = 9]

text \<open>The PCBs in the array, and the queues at the boundaries of the parts.\<close>

definition given :: "nat list" where
  "given = [9, 8, 7, 6, 4, 3, 2, 1, 5, 0, 10, 11, 12, 13, 14, 15, 16, 17, 18, 19]"

definition one_each :: "nat list list" where
  "one_each = [[9], [8], [7], [6], [4], [3], [2], [1], [5], [0], [10], [11], [12], [13], [14], [15], [16], [17], [18], [19]]"

definition two_each :: "nat list list" where
  "two_each = [[9, 10], [8, 11], [7, 12], [6, 13], [4, 14], [3, 15], [2, 16], [1, 17], [5, 18], [0, 19],
     [], [], [], [], [], [], [], [], [], []]"

lemma block_part:
  assumes "says T R" and "array_at S" and "onesem \<noteq> 0"
  shows "leads (at R 16 (tview [10, 11, 12, 13, 14, 15, 16, 17, 18, 19, 9, 8, 7, 6, 4, 3, 2, 1, 5, 0] [] 19 [] S nobody)
      (pv down None (Some 10) (Some 0) (Some 9) (Some 5))) (p1_run (p1_ash_insert A T S onesem))
    (at R 19 (tview [] [] 19 [] S one_each) (pv given (Some 11) (Some 10) (Some 0) (Some 9) (Some 5)))"
  unfolding p1_ash_insert_def ranges down_def given_def one_each_def nobody_list
  unfolding vars_defs
  by ((rule step_say, rule assms, simp add: p1_messages_def | rule step_vars | (rule step_check | rule step_call), rule ts_ops ash_ops
        | rule step_loop | rule step_loop_end | rule step_end),
      ((simp add: MAXPROC_def fits_def assms cong: leads_cong; fail)+)?, (simp add: vars_defs cong: leads_cong)?)+

lemma unblock_part:
  assumes "says T R" and "array_at S"
  shows "leads (at R 19 (tview [] [] 19 [] S one_each) (pv given (Some 11) (Some 10) (Some 0) (Some 9) (Some 5)))
      (p1_run (p1_ash_remove T S))
    (at R 21 (tview [] [] 19 [] S two_each) (pv given (Some 11) (Some 19) (Some 0) (Some 9) (Some 5)))"
  unfolding p1_ash_remove_def ranges given_def one_each_def two_each_def
  unfolding vars_defs
  by ((rule step_say, rule assms, simp add: p1_messages_def | rule step_vars | (rule step_check | rule step_call), rule ts_ops ash_ops
        | rule step_loop | rule step_loop_end | rule step_end),
      ((simp add: MAXPROC_def fits_def assms cong: leads_cong; fail)+)?, (simp add: vars_defs cong: leads_cong)?)+

text \<open>The last semaphore loses both its processes.\<close>

lemma outBlocked_part:
  assumes "array_at S"
  shows "leads (at R 21 (tview [] [] 19 [] S two_each) (pv given (Some 11) (Some 19) (Some 0) (Some 9) (Some 5)))
      (p1_run (p1_ash_out T S))
    (at R 21 (tview [] [] 19 [] S (two_each[9 := []])) (pv given None (Some 19) (Some 0) (Some 9) (Some 5)))"
  unfolding p1_ash_out_def ranges given_def two_each_def
  unfolding vars_defs
  by ((rule step_vars | (rule step_check | rule step_call), rule ts_ops ash_ops
        | rule step_loop | rule step_loop_end | rule step_end),
      ((simp add: MAXPROC_def fits_def assms cong: leads_cong; fail)+)?, (simp add: vars_defs cong: leads_cong)?)+

end
