(* ===== verification/P1_Spaces.thy ===== *)
theory P1_Spaces
  imports P1_Steps Query_Abs
begin

text \<open>
  The end of the test of phase 1.  It frees PCBs that are still blocked, so the invariant of the
  semaphores is lost; the lists are those of an abstract kernel still, and this is all the part on
  the namespaces needs.
\<close>

section \<open>The lists and the namespaces\<close>

text \<open>
  The free PCBs, the children of \<open>c\<close> (nobody else has any), the free namespaces, the ones that got
  their type, and the namespace of each process.
\<close>

type_synonym nview = "nat list \<times> nat \<times> nat list \<times> nat list \<times> nat list \<times> (nat \<Rightarrow> nat ptr)"

definition spaces :: "kstate \<Rightarrow> nat list \<Rightarrow> (nat \<Rightarrow> nat ptr) \<Rightarrow> bool" where
  "spaces s ts N \<longleftrightarrow> (\<forall>p. namespaces (pcbs s p) 0 = N p) \<and> (\<forall>n \<in> set ts. n_type (nsds s n) = NS_PID)"

definition trees :: "akernel \<Rightarrow> nat \<Rightarrow> nat list \<Rightarrow> bool" where
  "trees a c ks \<longleftrightarrow> kids_of a = kids c ks \<and> (\<forall>p < MAXPROC. a_kids a p \<noteq> None)"

fun nrep :: "kstate \<Rightarrow> nview \<Rightarrow> bool" where
  "nrep s (f, c, ks, nf, ts, N) \<longleftrightarrow>
     (\<exists>a. links s a \<and> a_free a = f \<and> trees a c ks \<and> a_nsfree a = nf) \<and> spaces s ts N"

lemma nrepE:
  assumes "nrep s (f, c, ks, nf, ts, N)"
  obtains a where "links s a" and "a_free a = f" and "trees a c ks" and "a_nsfree a = nf" and "spaces s ts N"
  using assms by auto

lemma krep_nrep:
  assumes "krep s (tview [] r c [] S Q)"
  shows "nrep s ([], c', [], [0..<MAXPROC], [], \<lambda>_. None)"
proof -
  from assms have k: "kabs s (tview [] r c [] S Q)" "plain s" by (simp_all add: krep_def)
  from k(1) obtain a where a: "links s a" "ash_inv s a" "tree_inv s a" "view s a = tview [] r c [] S Q" by (metis kabsE)
  have f: "a_free a = []" "a_nsfree a = [0..<MAXPROC]" "kids_of a = kids c []"
    using a(4) by (simp_all add: view_def tview_def pview_def v_boot_def)
  have "kids c [] = kids c' []" by (simp add: fun_eq_iff)
  then have "trees a c' []" using a(3) f by (auto simp: trees_def tree_inv_def)
  with a(1) f k(2) show ?thesis by (auto simp: spaces_def plain_def)
qed

lemma trees_Some: "trees a c ks \<Longrightarrow> p < MAXPROC \<Longrightarrow> a_kids a p = Some (kids c ks p)"
  by (auto simp: trees_def kids_of_def dest!: fun_cong [of _ _ p] split: option.splits)

lemma trees_kids: "trees a c ks \<Longrightarrow> a_kids a q = Some js \<Longrightarrow> js = kids c ks q"
  by (auto simp: trees_def kids_of_def dest!: fun_cong [of _ _ q])

lemma trees_none: "trees a c [] \<Longrightarrow> a_kids a q = Some js \<Longrightarrow> js = []"
  using trees_kids by fastforce

lemma trees_same [simp]:
  "trees (a\<lparr>a_free := f\<rparr>) = trees a" "trees (a_freePcb p a) = trees a"
  by (simp_all add: trees_def fun_eq_iff kids_of_def a_freePcb_def a_unlink_def)

section \<open>Operations\<close>

lemma ns_pcbs:
  "x = Some p \<Longrightarrow> reaches nrep (p1_silent (freePcb x)) (f, c, ks, nf, ts, N) () (p # removeAll p f, c, ks, nf, ts, N)"
  "f = p # fs \<Longrightarrow> reaches nrep (allocPcb A) (f, c, [], nf, ts, N) (Some p) (fs, c, [], nf, ts, N)"
proof -
  show "x = Some p \<Longrightarrow> reaches nrep (p1_silent (freePcb x)) (f, c, ks, nf, ts, N) () (p # removeAll p f, c, ks, nf, ts, N)"
    unfolding reaches_def
  proof (intro allI impI)
    fix s assume x: "x = Some p" and "nrep s (f, c, ks, nf, ts, N)"
    then obtain a where a: "links s a" "a_free a = f" "trees a c ks" "a_nsfree a = nf" "spaces s ts N" by (auto elim: nrepE)
    from freePcb_abs [OF a(1), of p] obtain h where
      h: "freePcb (Some p) s = Some (s\<lparr>lists := h, pcbs := (pcbs s)(p := (pcbs s p)\<lparr>p_semAdd := 0\<rparr>)\<rparr>)" (is "_ = Some ?t")
      "links (s\<lparr>lists := h\<rparr>) (a_freePcb p a)" by blast
    have "links ?t (a_freePcb p a)" using h(2) by (simp add: links_def)
    moreover have "a_free (a_freePcb p a) = p # removeAll p f" "a_nsfree (a_freePcb p a) = nf"
      using a by (simp_all add: a_freePcb_def a_unlink_def)
    moreover have "spaces ?t ts N" using a(5) by (simp add: spaces_def)
    ultimately show "\<exists>s'. p1_silent (freePcb x) s = Some ((), s') \<and> nrep s' (p # removeAll p f, c, ks, nf, ts, N)"
      using x h(1) a(3) by (auto simp: p1_silent_def)
  qed
  show "f = p # fs \<Longrightarrow> reaches nrep (allocPcb A) (f, c, [], nf, ts, N) (Some p) (fs, c, [], nf, ts, N)"
    unfolding reaches_def
  proof (intro allI impI)
    fix s assume f: "f = p # fs" and "nrep s (f, c, [], nf, ts, N)"
    then obtain a where a: "links s a" "a_free a = f" "trees a c []" "a_nsfree a = nf" "spaces s ts N" by (auto elim: nrepE)
    note k = trees_none [OF a(3)]
    have "\<exists>h. allocPcb A s = Some (Some p, s\<lparr>lists := h, pcbs := (pcbs s)(p := reset_pcb A (pcbs s p))\<rparr>)
      \<and> links (s\<lparr>lists := h\<rparr>) (a\<lparr>a_free := fs, a_kids := (a_kids a)(p \<mapsto> [])\<rparr>)" (is "\<exists>h. _ \<and> links _ ?a")
    proof (rule allocPcb_abs [OF a(1)])
      show "a_free a = p # fs" using a(2) f by simp
      show "p \<notin> set js" if "a_kids a j = Some js" for j js using k [OF that] by simp
      show "a_kids a p = None \<or> a_kids a p = Some []" using k by (cases "a_kids a p") auto
    qed
    then obtain h where
      h: "allocPcb A s = Some (Some p, s\<lparr>lists := h, pcbs := (pcbs s)(p := reset_pcb A (pcbs s p))\<rparr>)" (is "_ = Some (_, ?t)")
      "links (s\<lparr>lists := h\<rparr>) ?a" by blast
    have "links ?t ?a" using h(2) by (simp add: links_def)
    moreover have "trees ?a c []" using a(3) by (auto simp: trees_def fun_eq_iff kids_of_def)
    moreover have "spaces ?t ts N" using a(5) by (simp add: spaces_def reset_pcb_def)
    ultimately show "\<exists>s'. allocPcb A s = Some (Some p, s') \<and> nrep s' (fs, c, [], nf, ts, N)"
      using h(1) a(4) by (intro exI [of _ ?t]) (auto intro!: exI [of _ ?a])
  qed
qed

lemma ns_insertChild:
  assumes "y = Some q" and "x = Some p" and "q < MAXPROC"
  shows "reaches nrep (p1_silent (insertChild y x)) (f, c, [], nf, ts, N) () (f, q, [p], nf, ts, N)"
  unfolding reaches_def
proof (intro allI impI)
  fix s assume "nrep s (f, c, [], nf, ts, N)"
  then obtain a where a: "links s a" "a_free a = f" "trees a c []" "a_nsfree a = nf" "spaces s ts N" by (auto elim: nrepE)
  have "a_kids a q = Some []" using trees_Some [OF a(3) assms(3)] by simp
  moreover have "p \<notin> set ks" if "a_kids a j = Some ks" for j ks using trees_none [OF a(3) that] by simp
  ultimately obtain h where
    h: "insertChild (Some q) (Some p) s = Some (s\<lparr>lists := h, pcbs := (pcbs s)(p := (pcbs s p)\<lparr>p_parent := Some q\<rparr>)\<rparr>)" (is "_ = Some ?t")
    "links (s\<lparr>lists := h\<rparr>) (a\<lparr>a_kids := (a_kids a)(q \<mapsto> [p])\<rparr>)" (is "links _ ?a")
    using insertChild_abs [OF a(1), of q "[]" p] by auto
  have "links ?t ?a" using h(2) by (simp add: links_def)
  moreover have "trees ?a q [p]" using a(3) by (auto simp: trees_def fun_eq_iff kids_of_def kids_def split: if_splits)
  moreover have "spaces ?t ts N" using a(5) by (simp add: spaces_def)
  ultimately show "\<exists>s'. p1_silent (insertChild y x) s = Some ((), s') \<and> nrep s' (f, q, [p], nf, ts, N)"
    using assms(1,2) h(1) a(2,4) by (auto simp: p1_silent_def intro!: exI [of _ ?a])
qed

lemma ns_get:
  assumes "null_n_type A \<noteq> None" and x: "x = Some p" and ty: "N p = None \<or> the (N p) \<in> set ts"
  shows "reaches nrep (p1_asks (getNamespace A x NS_PID)) (f, c, ks, nf, ts, N) (N p) (f, c, ks, nf, ts, N)"
proof -
  have "getNamespace A x NS_PID s = Some (N p)" if "spaces s ts N" for s
    using that ty getNamespace_pid [OF assms(1), of p s] x by (auto simp: spaces_def pid_ns_def split: option.splits)
  then show ?thesis by (auto simp: reaches_def p1_asks_def)
qed

lemma ns_same:
  assumes "null_n_type A \<noteq> None" and x: "x = Some p" "y = Some q"
    and ty: "N p = None \<or> the (N p) \<in> set ts" "N q = None \<or> the (N q) \<in> set ts"
  shows "reaches nrep (p1_asks (p1_same_ns A x y)) (f, c, ks, nf, ts, N) (N p = N q) (f, c, ks, nf, ts, N)"
proof -
  have "getNamespace A x NS_PID s = Some (N p) \<and> getNamespace A y NS_PID s = Some (N q)" if "spaces s ts N" for s
    using that ty getNamespace_pid [OF assms(1), of p s] getNamespace_pid [OF assms(1), of q s] x
    by (auto simp: spaces_def pid_ns_def split: option.splits)
  then show ?thesis by (auto simp: reaches_def p1_asks_def p1_same_ns_def)
qed

lemma ns_alloc:
  assumes nf: "nf = n # ns"
  shows "reaches nrep (allocNamespace NS_PID) (f, c, ks, nf, ts, N) (Some n) (f, c, ks, ns, n # ts, N)"
  unfolding reaches_def
proof (intro allI impI)
  fix s assume "nrep s (f, c, ks, nf, ts, N)"
  then obtain a where a: "links s a" "a_free a = f" "trees a c ks" "a_nsfree a = nf" "spaces s ts N" by (auto elim: nrepE)
  have "n \<notin> set ns" using links_distinct(3) [OF a(1)] a(4) nf by simp
  then have "removeAll (N_link n) (map N_link (a_nsfree a)) = map N_link ns"
    using a(4) nf by (simp add: map_links)
  then obtain h where h: "list_del (Some (N_link n)) (lists s) = Some h"
    "heap_abs h (Lmap (a\<lparr>a_nsfree := ns\<rparr>))"
    using list_del_abs [OF links_lists [OF a(1)], of PID_nsFree_h "map N_link (a_nsfree a)" "N_link n"] a(4) nf
      Lmap_upd(3) [of a ns] by auto
  let ?t = "s\<lparr>lists := h, nsds := (nsds s)(n := (nsds s n)\<lparr>n_type := NS_PID\<rparr>)\<rparr>"
  have "allocNamespace NS_PID s = Some (Some n, ?t)"
    using h(1) a(4) nf by (simp add: allocNamespace_def empty_lists_abs [OF a(1)] first_entries_abs [OF a(1)] on_lists_def)
  moreover have "links ?t (a\<lparr>a_nsfree := ns\<rparr>)" using h(2) a(1) by (simp add: links_def)
  moreover have "trees (a\<lparr>a_nsfree := ns\<rparr>) c ks" using a(3) by (simp add: trees_def kids_of_def fun_eq_iff)
  moreover have "spaces ?t (n # ts) N" using a(5) by (auto simp: spaces_def)
  ultimately show "\<exists>s'. allocNamespace NS_PID s = Some (Some n, s') \<and> nrep s' (f, c, ks, ns, n # ts, N)"
    using a(2) by (auto intro!: exI [of _ "a\<lparr>a_nsfree := ns\<rparr>"])
qed

text \<open>A process takes its children along, which have none themselves.\<close>

lemma set_namespace_pid:
  "n_type (nsds s n) = NS_PID \<Longrightarrow> set_namespace A (Some p) (Some n) s = Some (set_ns0 p n s)"
  by (simp add: set_namespace_def load_n_type_def set_ns0_def set_pcb_def NS_PID_def NS_TYPE_MAX_def)

lemma set_ns0_simps [simp]: "lists (set_ns0 p n s) = lists s" "nsds (set_ns0 p n s) = nsds s" "semd_h (set_ns0 p n s) = semd_h s"
  by (simp_all add: set_ns0_def set_pcb_def)

lemma setAllChild_leaves:
  "chain (lists s) a (map P_sib ks) (P_child c) \<Longrightarrow> (\<And>q. q \<in> set ks \<Longrightarrow> nxt (lists s) (P_child q) = Some (P_child q)) \<Longrightarrow>
    n_type (nsds s n) = NS_PID \<Longrightarrow>
    setAllChildNamespace_from A (Some n) (Some (P_child c)) (nxt (lists s) a) s = Some (fold (\<lambda>q. set_ns0 q n) ks s)"
proof (induction ks arbitrary: a s)
  case Nil
  then show ?case by (simp add: setAllChildNamespace_from.simps)
next
  case (Cons q ks)
  have leaf: "setAllChildNamespace_from A (Some n) (Some (P_child q)) (Some (P_child q)) (set_ns0 q n s) = Some (set_ns0 q n s)"
    by (simp add: setAllChildNamespace_from.simps)
  have "setAllChildNamespace_from A (Some n) (Some (P_child c)) (nxt (lists (set_ns0 q n s)) (P_sib q)) (set_ns0 q n s)
      = Some (fold (\<lambda>q. set_ns0 q n) ks (set_ns0 q n s))"
    by (rule Cons.IH) (use Cons.prems in auto)
  with Cons.prems show ?case
    by (subst setAllChildNamespace_from.simps) (simp add: set_namespace_pid get_next_def leaf)
qed

lemma spaces_fold:
  "spaces s ts N \<Longrightarrow> spaces (fold (\<lambda>q. set_ns0 q n) qs s) ts (\<lambda>q. if q \<in> set qs then Some n else N q)
    \<and> lists (fold (\<lambda>q. set_ns0 q n) qs s) = lists s \<and> semd_h (fold (\<lambda>q. set_ns0 q n) qs s) = semd_h s
    \<and> nsds (fold (\<lambda>q. set_ns0 q n) qs s) = nsds s"
proof (induction qs arbitrary: s N)
  case (Cons q qs)
  have "spaces (set_ns0 q n s) ts (N(q := Some n))" using Cons.prems by (auto simp: spaces_def set_ns0_def set_pcb_def)
  note IH = Cons.IH [OF this]
  have "(\<lambda>p. if p \<in> set qs then Some n else (N(q := Some n)) p) = (\<lambda>p. if p \<in> set (q # qs) then Some n else N p)" by auto
  with IH show ?case by simp
qed simp

lemma ns_add:
  assumes x: "x = Some p" "y = Some n" and p: "p < MAXPROC" "n \<in> set ts" and ks: "\<forall>q \<in> set (kids c ks p). q < MAXPROC \<and> kids c ks q = []"
  shows "reaches nrep (addNamespace A x y) (f, c, ks, nf, ts, N) True
    (f, c, ks, removeAll n nf, ts, \<lambda>q. if q \<in> set (p # kids c ks p) then Some n else N q)"
  unfolding reaches_def
proof (intro allI impI)
  fix s assume "nrep s (f, c, ks, nf, ts, N)"
  then obtain a where a: "links s a" "a_free a = f" "trees a c ks" "a_nsfree a = nf" "spaces s ts N" by (auto elim: nrepE)
  let ?t = "fold (\<lambda>q. set_ns0 q n) (p # kids c ks p) s"
  have ty: "n_type (nsds s n) = NS_PID" using a(5) p(2) by (simp add: spaces_def)
  have d: "dll (lists s) (P_child q) (map P_sib (kids c ks q))" if "q < MAXPROC" for q
    using heap_abs_dll [OF links_lists [OF a(1)]] trees_Some [OF a(3) that] by simp
  have leaf: "nxt (lists s) (P_child q) = Some (P_child q)" if "q \<in> set (kids c ks p)" for q
    using d [of q] ks that by (simp add: dll_def)
  have all: "setAllChildNamespace A (Some (P_child p)) (Some n) (set_ns0 p n s) = Some ?t"
    using setAllChild_leaves [of "set_ns0 p n s" "P_child p" "kids c ks p" p n A] d [OF p(1)] leaf ty
    by (simp add: setAllChildNamespace_def get_next_def dll_def)
  have t: "spaces ?t ts (\<lambda>q. if q \<in> set (p # kids c ks p) then Some n else N q)" "lists ?t = lists s" "semd_h ?t = semd_h s"
    using spaces_fold [OF a(5), of n "p # kids c ks p"] by auto
  let ?a = "a\<lparr>a_nsfree := removeAll n (a_nsfree a), a_nslist := removeAll n (a_nslist a)\<rparr>"
  let ?b = "?a\<lparr>a_nslist := removeAll n (a_nslist a) @ [n]\<rparr>"
  from list_safe_del_abs [OF links_lists [OF a(1)], of "N_link n"] obtain h1 where
    h1: "list_safe_del (Some (N_link n)) (lists s) = Some h1" "heap_abs h1 (Lmap ?a)"
    by (auto simp: unlink_N_link)
  have "N_link n \<notin> lnodes (Lmap ?a)" by (simp add: in_lnodes)
  from list_add_tail_abs [OF h1(2), of PID_nsList_h _ "N_link n"] this obtain h2 where
    h2: "list_add_tail (Some (N_link n)) (Some PID_nsList_h) h1 = Some h2" "heap_abs h2 (Lmap ?b)"
    using Lmap_upd(4) [of ?a "removeAll n (a_nslist a) @ [n]"] by auto
  have "addNamespace A x y s = Some (True, ?t\<lparr>lists := h2\<rparr>)"
    using h1(1) h2(1) all ty t(2) x by (simp add: addNamespace_def set_namespace_pid on_lists_def)
  moreover have "links (?t\<lparr>lists := h2\<rparr>) ?b" using h2(2) a(1) t(3) by (simp add: links_def)
  moreover have "trees ?b c ks" using a(3) by (simp add: trees_def kids_of_def fun_eq_iff)
  moreover have "spaces (?t\<lparr>lists := h2\<rparr>) ts (\<lambda>q. if q \<in> set (p # kids c ks p) then Some n else N q)"
    using t(1) by (simp add: spaces_def)
  ultimately show "\<exists>s'. addNamespace A x y s = Some (True, s') \<and>
      nrep s' (f, c, ks, removeAll n nf, ts, \<lambda>q. if q \<in> set (p # kids c ks p) then Some n else N q)"
    using a(2,4) by (auto intro!: exI [of _ ?b] simp del: fold_simps)
qed

section \<open>The parts of the test\<close>

lemmas ns_ops = reaches_skip ns_pcbs ns_insertChild ns_alloc ns_add

text \<open>The order in which the PCBs are given out from here on, and the variables.\<close>

definition last_given :: "nat list" where
  "last_given = [19, 18, 17, 16, 15, 14, 13, 12, 11, 10, 0, 5, 1, 2, 3, 4, 6, 7, 8, 9]"

definition pw :: "nat list \<Rightarrow> nat ptr \<Rightarrow> nat ptr \<Rightarrow> p1_vars" where
  "pw ps n m = \<lparr>procp = map Some ps, var_p = None, var_q = Some 19, firstproc = Some 0, lastproc = Some 9, midproc = Some 5,
     var_ns = n, var_ns2 = m\<rparr>"

lemma free_all_part:
  assumes "says T R"
  shows "leads (at_rep nrep R 21 ([], 18, [], nf, [], N) (pw given None None)) (p1_run (p1_free_all T))
    (at_rep nrep R 23 (last_given, 18, [], nf, [], N) (pw given None None))"
  unfolding p1_free_all_def ranges given_def last_given_def
  unfolding pw_def
  by ((rule step_say, rule assms, simp add: p1_messages_def | rule step_vars | (rule step_check | rule step_call), rule ns_ops
        | rule step_loop | rule step_loop_end | rule step_end),
      ((simp cong: leads_cong; fail)+)?, (simp cong: leads_cong)?)+

lemma ns_get_part:
  assumes "says T R" and A: "null_n_type A \<noteq> None"
  shows "leads (at_rep nrep R 23 (last_given, 18, [], nf, [], \<lambda>_. None) (pw given None None)) (p1_run (p1_ns_get A T))
    (at_rep nrep R 26 ([], 18, [], nf, [], \<lambda>_. None) (pw last_given None None))"
  unfolding p1_ns_get_def ranges given_def last_given_def
  unfolding pw_def
  by ((rule step_say, rule assms, simp add: p1_messages_def | rule step_vars | (rule step_check | rule step_call), rule ns_ops ns_get [OF A]
        | rule step_loop | rule step_loop_end | rule step_end),
      ((simp cong: leads_cong; fail)+)?, (simp add: set_procp_def cong: leads_cong)?)+

text \<open>The namespace 0 goes to one process, then to another with its child; the two leave it for the namespace 1.\<close>

lemma step_done: "n = m \<Longrightarrow> leads (at_rep rep R n v w) (p1_run []) (\<lambda>z. R m (p1_ok z) (p1_dev z))"
  by (simp add: leads_def at_rep_def)

lemma ns_part:
  assumes "says T R" and A: "null_n_type A \<noteq> None"
  shows "leads (at_rep nrep R 26 ([], 18, [], 0 # 1 # nf, [], \<lambda>_. None) (pw last_given None None))
    (p1_run (p1_ns_add A T @ p1_ns_child A T @ p1_ns_change A T)) (\<lambda>z. R 32 (p1_ok z) (p1_dev z))"
  unfolding p1_ns_add_def p1_ns_child_def p1_ns_change_def last_given_def append.simps
  unfolding pw_def
  by ((rule step_say, rule assms, simp add: p1_messages_def | rule step_vars | (rule step_check | rule step_call),
        rule ns_ops ns_get [OF A] ns_same [OF A]
        | rule step_loop | rule step_loop_end | rule step_done),
      ((simp add: MAXPROC_def cong: leads_cong; fail)+)?, (simp cong: leads_cong)?)+

end
