(* ===== verification/P1_Pass.thy ===== *)
theory P1_Pass
  imports P1_Spaces Print_Abs
begin

text \<open>
  What the test of phase 1 prints: its messages, on a transmitter that works, and in \<open>okbuf\<close>.
\<close>

section \<open>Printing\<close>

text \<open>
  A transmitter that works: it is busy a finite number of times, then it has transmitted the last
  character it was given, or is ready if it was given none.
\<close>

definition sends :: "'d terminal \<Rightarrow> u32 \<Rightarrow> ('d \<Rightarrow> bool) \<Rightarrow> ('d \<Rightarrow> nat) \<Rightarrow> ('d \<Rightarrow> bool) \<Rightarrow> ('d \<Rightarrow> u8 list) \<Rightarrow> bool" where
  "sends T trm good busy used out \<longleftrightarrow>
     (\<forall>d st d'. good d \<longrightarrow> t_status T (statusp T trm) d = (st, d') \<longrightarrow> good d' \<and> out d' = out d \<and> used d' = used d \<and>
        (if busy d = 0 then st AND STATUSMASK = (if used d then TRANSMITTED else T_READY T) \<and> busy d' = 0
         else st AND STATUSMASK = T_BUSY T \<and> busy d' < busy d)) \<and>
     (\<forall>d c. good d \<longrightarrow> good (t_command T (commandp T trm) (print_command c) d) \<and>
        used (t_command T (commandp T trm) (print_command c) d) \<and>
        out (t_command T (commandp T trm) (print_command c) d) = out d @ [c]) \<and>
     T_BUSY T \<noteq> TRANSMITTED"

lemma sends_status:
  assumes "sends T trm good busy used out" and "good d"
  shows "\<exists>st d'. termstat T (statusp T trm) d = (st, d') \<and> good d' \<and> out d' = out d \<and> used d' = used d \<and>
    (if busy d = 0 then st = (if used d then TRANSMITTED else T_READY T) \<and> busy d' = 0 else st = T_BUSY T \<and> busy d' < busy d)"
proof -
  obtain st d' where s: "t_status T (statusp T trm) d = (st, d')" by (cases "t_status T (statusp T trm) d")
  from assms(1) have "\<forall>d st d'. good d \<longrightarrow> t_status T (statusp T trm) d = (st, d') \<longrightarrow> good d' \<and> out d' = out d \<and> used d' = used d \<and>
        (if busy d = 0 then st AND STATUSMASK = (if used d then TRANSMITTED else T_READY T) \<and> busy d' = 0
         else st AND STATUSMASK = T_BUSY T \<and> busy d' < busy d)"
    unfolding sends_def by (elim conjE)
  from this [rule_format, OF assms(2) s] show ?thesis by (simp add: termstat_def s)
qed

lemma sends_command:
  assumes "sends T trm good busy used out" and "good d"
  shows "good (t_command T (commandp T trm) (print_command c) d)" and "used (t_command T (commandp T trm) (print_command c) d)"
    and "out (t_command T (commandp T trm) (print_command c) d) = out d @ [c]"
  using assms unfolding sends_def by metis+

lemma sends_wait:
  assumes T: "sends T trm good busy used out"
  shows "good d \<Longrightarrow> used d \<Longrightarrow>
    \<exists>d'. (case termstat T (statusp T trm) d of (st, d) \<Rightarrow> wait_not_busy T (statusp T trm) st d) = Some (TRANSMITTED, d')
      \<and> good d' \<and> busy d' = 0 \<and> used d' \<and> out d' = out d"
proof (induction "busy d" arbitrary: d rule: less_induct)
  case less
  have ne: "T_BUSY T \<noteq> TRANSMITTED" using T by (simp add: sends_def)
  from sends_status [OF T less.prems(1)] less.prems(2) obtain st d' where
    1: "termstat T (statusp T trm) d = (st, d')" "good d'" "out d' = out d" "used d'"
    "if busy d = 0 then st = TRANSMITTED \<and> busy d' = 0 else st = T_BUSY T \<and> busy d' < busy d" by auto
  show ?case
  proof (cases "busy d = 0")
    case True
    then show ?thesis using 1 ne by (simp add: wait_not_busy.simps)
  next
    case False
    with 1(5) have b: "st = T_BUSY T" "busy d' < busy d" by simp_all
    from less.hyps [OF b(2) 1(2,4)] 1 b(1) show ?thesis
      by (simp add: wait_not_busy.simps [of T "statusp T trm" "T_BUSY T" d'])
  qed
qed

lemma p1_print_cycle_sends:
  assumes T: "sends T trm good busy used out"
  shows "good d \<Longrightarrow> busy d = 0 \<Longrightarrow> 0 \<notin> set cs \<Longrightarrow>
    \<exists>d'. p1_print_cycle T (statusp T trm) (commandp T trm) (cs @ [0]) d = Some (False, d')
      \<and> good d' \<and> busy d' = 0 \<and> out d' = out d @ cs"
proof (induction cs arbitrary: d)
  case (Cons c cs)
  let ?d = "t_command T (commandp T trm) (print_command c) d"
  note cmd = sends_command [OF T Cons.prems(1), of c]
  from sends_wait [OF T cmd(1,2)] obtain d' where
    1: "(case termstat T (statusp T trm) ?d of (st, d) \<Rightarrow> wait_not_busy T (statusp T trm) st d) = Some (TRANSMITTED, d')"
    "good d'" "busy d' = 0" "out d' = out ?d" by blast
  from Cons.IH [OF 1(2,3)] Cons.prems(3) obtain d'' where
    2: "p1_print_cycle T (statusp T trm) (commandp T trm) (cs @ [0]) d' = Some (False, d'')" "good d''" "busy d'' = 0"
    "out d'' = out d' @ cs" by auto
  have "p1_print_cycle T (statusp T trm) (commandp T trm) ((c # cs) @ [0]) d
      = p1_print_cycle T (statusp T trm) (commandp T trm) (cs @ [0]) d'"
    using 1(1) Cons.prems(3) by (auto simp: Let_def split: prod.split)
  with 2 1(4) cmd(3) show ?case by simp
qed simp

lemma p1_termprint_sends:
  assumes T: "sends T trm good busy used out" and d: "good d" "busy d = 0" and cs: "0 \<notin> set cs" and trm: "trm < T_DEVPERINT T"
  shows "\<exists>d'. p1_termprint T (cs @ [0]) trm d = Some (True, d') \<and> good d' \<and> busy d' = 0 \<and> out d' = out d @ cs"
proof -
  from sends_status [OF T d(1)] d(2) obtain d1 where
    1: "termstat T (statusp T trm) d = (if used d then TRANSMITTED else T_READY T, d1)" "good d1" "busy d1 = 0" "out d1 = out d" by auto
  from p1_print_cycle_sends [OF T 1(2,3) cs] obtain d2 where
    "p1_print_cycle T (statusp T trm) (commandp T trm) (cs @ [0]) d1 = Some (False, d2)" "good d2" "busy d2 = 0" "out d2 = out d1 @ cs" by blast
  with 1 trm show ?thesis by (simp add: p1_termprint_def)
qed

section \<open>The messages\<close>

definition msg_line :: "string \<Rightarrow> u8 list" where
  "msg_line m = map of_char m @ [10]"

definition p1_text :: "nat \<Rightarrow> u8 list" where
  "p1_text n = concat (map msg_line (take n p1_messages))"

text \<open>The terminal shows the messages so far behind what it showed, and \<open>okbuf\<close> holds them.\<close>

definition printed_ok :: "('d \<Rightarrow> bool) \<Rightarrow> ('d \<Rightarrow> nat) \<Rightarrow> ('d \<Rightarrow> u8 list) \<Rightarrow> u8 list \<Rightarrow> 'd printed" where
  "printed_ok good busy out old n b d \<longleftrightarrow> good d \<and> busy d = 0 \<and> out d = old @ p1_text n \<and>
     length (okbuf b) = 2048 \<and> mp b = int (length (p1_text n)) \<and> take (length (p1_text n)) (okbuf b) = p1_text n"

lemma messages_count [simp]: "length p1_messages = 32"
  by (simp add: p1_messages_def)

lemma messages_plain: "m \<in> set p1_messages \<Longrightarrow> 0 \<notin> set (msg_line m)"
  by (simp add: p1_messages_def msg_line_def) (elim disjE; simp add: of_char_def)

lemma text_Suc: "n < 32 \<Longrightarrow> p1_text (Suc n) = p1_text n @ msg_line (p1_messages ! n)"
  by (simp add: p1_text_def take_Suc_conv_app_nth)

lemma text_length: "length (p1_text n) < 2048"
proof -
  have "p1_text 32 = p1_text n @ concat (map msg_line (drop n p1_messages))"
    unfolding p1_text_def concat_append [symmetric] map_append [symmetric] by simp
  moreover have "length (p1_text 32) < 2048" by (simp add: p1_text_def p1_messages_def msg_line_def)
  ultimately show ?thesis by simp
qed

lemma says_printed:
  assumes T: "sends T 0 good busy used out" "0 < T_DEVPERINT T"
  shows "says T (printed_ok good busy out old)"
  unfolding says_def
proof (intro allI impI)
  fix n and z :: "'a p1_state"
  assume a: "n < length p1_messages \<and> printed_ok good busy out old n (p1_ok z) (p1_dev z)"
  then have n: "n < 32" by simp
  let ?l = "msg_line (p1_messages ! n)" and ?i = "length (p1_text n)" and ?b = "p1_ok z" and ?d = "p1_dev z"
  from a have p: "good ?d" "busy ?d = 0" "out ?d = old @ p1_text n" "length (okbuf ?b) = 2048" "mp ?b = int ?i"
    "take ?i (okbuf ?b) = p1_text n" by (simp_all add: printed_ok_def)
  have l: "c_line (p1_messages ! n) = ?l @ [0]" by (simp add: c_line_def msg_line_def)
  have z: "0 \<notin> set ?l" using n by (intro messages_plain) simp
  from p1_termprint_sends [OF T(1) p(1,2) z T(2)] obtain d where
    d: "p1_termprint T (?l @ [0]) 0 ?d = Some (True, d)" "good d" "busy d = 0" "out d = out ?d @ ?l" by blast
  have fits: "?i + length ?l < length (okbuf ?b)" using text_length [of "Suc n"] p(4) by (simp add: text_Suc [OF n])
  let ?b' = "\<lparr>okbuf = overwrite (okbuf ?b) ?i (?l @ [0]), mp = int (?i + length ?l)\<rparr>"
  have "p1_addokbuf T (c_line (p1_messages ! n)) z = Some (z\<lparr>p1_ok := ?b', p1_dev := d\<rparr>)"
    using okbuf_copy_spec [OF z p(5), of "[]"] fits d(1) by (simp add: p1_addokbuf_def l)
  moreover have "printed_ok good busy out old (Suc n) ?b' d"
    using d p fits by (simp add: printed_ok_def text_Suc [OF n] overwrite_def)
  ultimately show "\<exists>b d. p1_addokbuf T (c_line (p1_messages ! n)) z = Some (z\<lparr>p1_ok := b, p1_dev := d\<rparr>)
      \<and> printed_ok good busy out old (Suc n) b d" by blast
qed

end
