(* ===== verification/P1_Whole.thy ===== *)
theory P1_Whole
  imports P1_Pass
begin

text \<open>
  The test of phase 1 from the zeroed state on.  The parts are proved on the state in which every
  table is initialised from the start; the state of the test is its twin, off the nodes the test has
  not initialised yet.
\<close>

section \<open>Statements on twins\<close>

definition tracks :: "lnode set \<Rightarrow> lnode lheap \<Rightarrow> ('d p1_state \<Rightarrow> bool) \<Rightarrow> 'd p1_state \<Rightarrow> bool" where
  "tracks X b P z \<longleftrightarrow> (\<exists>v. ptwin X no_links b z v \<and> P v)"

lemma leads_tracks:
  assumes "leads P st Q" and "frames X no_links b st"
  shows "leads (tracks X b P) st (tracks X b Q)"
  unfolding leads_def
proof (intro allI impI)
  fix z assume "tracks X b P z"
  then obtain v where v: "ptwin X no_links b z v" "P v" by (auto simp: tracks_def)
  from v(2) assms(1) obtain v' where v': "st v = Some (Inr v')" "Q v'" by (auto simp: leads_def)
  from assms(2) v(1) have "rel_option (rel_sum (ptwin X no_links b) (ptwin X no_links b)) (st z) (st v)" by (simp add: frames_def)
  with v' show "\<exists>z'. st z = Some (Inr z') \<and> tracks X b Q z'"
    by (auto simp: tracks_def option_rel_Some2 elim!: rel_sum.cases)
qed

lemma leads_activates:
  assumes "X \<inter> G = {}" and "inits init G b"
    and "\<And>a c h k. twin (- G) a c h k \<Longrightarrow> rel_option (twin (- G) a c) (init h) (init k)"
    and f: "\<And>z. tracks (X \<union> G) b P z \<Longrightarrow> f (p1_k z) = on_lists init (p1_k z)"
  shows "leads (tracks (X \<union> G) b P) (p1_do (\<lambda>w. f)) (tracks X b P)"
  unfolding leads_def
proof (intro allI impI)
  fix z assume z: "tracks (X \<union> G) b P z"
  then obtain v where v: "ptwin (X \<union> G) no_links b z v" "P v" by (auto simp: tracks_def)
  from v(1) have "twin (X \<union> G) no_links b (lists (p1_k z)) (lists (p1_k v))" by (simp add: ptwin_def ktwin_def)
  from activates [OF this assms(1-3)] obtain r where
    r: "init (lists (p1_k z)) = Some r" "twin X no_links b r (lists (p1_k v))" by blast
  let ?z = "z\<lparr>p1_k := (p1_k z)\<lparr>lists := r\<rparr>\<rparr>"
  have "p1_do (\<lambda>w. f) z = Some (Inr ?z)"
    using r(1) by (simp add: p1_call_def p1_silent_def f [OF z] on_lists_def)
  moreover have "ptwin X no_links b ?z v"
    using v(1) r(2) by (simp add: ptwin_def ktwin_def)
  ultimately show "\<exists>z'. p1_do (\<lambda>w. f) z = Some (Inr z') \<and> tracks X b P z'" using v(2) by (auto simp: tracks_def)
qed

lemma tracks_all: "tracks {} b P z \<Longrightarrow> P z"
proof -
  assume "tracks {} b P z"
  then obtain v where v: "ptwin {} no_links b z v" "P v" by (auto simp: tracks_def)
  then have t: "twin {} no_links b (lists (p1_k z)) (lists (p1_k v))" "v = z\<lparr>p1_k := (p1_k z)\<lparr>lists := lists (p1_k v)\<rparr>\<rparr>"
    by (auto simp: ptwin_def ktwin_def)
  from t(1) have "lists (p1_k z) = lists (p1_k v)"
    by (intro lheap.equality) (auto simp: twin_def fun_eq_iff)
  with t(2) have "v = z\<lparr>p1_k := (p1_k z)\<lparr>lists := lists (p1_k z)\<rparr>\<rparr>" by metis
  then have "v = z" by simp
  with v(2) show "P z" by simp
qed

section \<open>The table of the semaphores\<close>

lemma unblocked_buckets:
  assumes "kabs s v" and "\<And>k. v_semq v k = []"
  shows "hfirst (semd_h s) b = None"
proof -
  from assms(1) obtain a where a: "links s a" "ash_inv s a" "tree_inv s a" "v = view s a" by (rule kabsE)
  have "a_bkt a b = []"
  proof (rule ccontr)
    assume "a_bkt a b \<noteq> []"
    then obtain i where i: "i \<in> set (a_bkt a b)" by (metis list.set_sel(1))
    then have h: "i \<in> hashed a" by (auto simp: hashed_def intro: hnodesI)
    with ash_invD(4) [OF a(2)] obtain p where p: "p \<in> set (queue_of a i)" by (metis list.set_sel(1))
    note k = ash_invD(1) [OF a(2) i]
    have "p_semAdd (pcbs s p) = s_key (semds s i)" using ash_invD(7) [OF a(2) k] h p by blast
    then have "p \<in> set (v_semq v (s_key (semds s i)))" using kabs_facts(8) [OF assms(1) k] by blast
    with assms(2) show False by simp
  qed
  with hash_abs_hchain [of "semd_h s" "a_bkt a" b] a(1) show ?thesis by (simp add: links_def)
qed

lemma initASH_tracks:
  assumes "tracks X b (at R n (tview f r c ks S nobody) w) z"
  shows "initASH (p1_k z) = on_lists ash_links (p1_k z)"
proof -
  from assms obtain v where "ptwin X no_links b z v" and v: "ktwin X no_links b (p1_k z) (p1_k v)" "kabs (p1_k v) (tview f r c ks S nobody)"
    unfolding tracks_def ptwin_def at_rep_def krep_def by blast
  have "v_semq (tview f r c ks S nobody) k = []" for k
    using spread_cases [of nobody S k] by (auto simp: tview_upd)
  from unblocked_buckets [OF v(2) this] have "hfirst (semd_h (p1_k z)) b' = None" for b' using ktwin_same(4) [OF v(1)] by simp
  then show ?thesis by (rule initASH_links)
qed

section \<open>The phases of the test\<close>

lemma frames_parts:
  "(\<And>st. st \<in> set cs \<Longrightarrow> frames X no_links b st) \<Longrightarrow> leads P (p1_run cs) Q \<Longrightarrow>
    leads (tracks X b P) (p1_run cs) (tracks X b Q)"
  by (rule leads_tracks) (auto intro: frames_run)

lemma queue_phase:
  assumes T: "says T R"
  shows "leads (tracks (sem_nodes \<union> ns_nodes) b (at R 3 (tview [0, 1, 2, 3, 4, 5, 6, 7, 8, 9] [] 19 [] S nobody) (pv down None None None None None)))
    (p1_run ((p1_queue_insert A T @ p1_queue_out T @ p1_queue_remove T) @ p1_tree_insert T @ p1_tree_remove T))
    (tracks (sem_nodes \<union> ns_nodes) b (at R 16 (tview [10, 11, 12, 13, 14, 15, 16, 17, 18, 19, 9, 8, 7, 6, 4, 3, 2, 1, 5, 0] [] 19 [] S nobody)
      (pv down None (Some 10) (Some 0) (Some 9) (Some 5))))"
proof (rule frames_parts)
  note q = leads_append [OF insert_part [OF T] leads_append [OF out_part [OF T] remove_part [OF T]]]
  show "leads (at R 3 (tview [0, 1, 2, 3, 4, 5, 6, 7, 8, 9] [] 19 [] S nobody) (pv down None None None None None))
    (p1_run ((p1_queue_insert A T @ p1_queue_out T @ p1_queue_remove T) @ p1_tree_insert T @ p1_tree_remove T))
    (at R 16 (tview [10, 11, 12, 13, 14, 15, 16, 17, 18, 19, 9, 8, 7, 6, 4, 3, 2, 1, 5, 0] [] 19 [] S nobody)
      (pv down None (Some 10) (Some 0) (Some 9) (Some 5)))"
    by (rule leads_append [OF q leads_append [OF child_part [OF T] orphan_part [OF T]]])
qed (use frames_queues frames_trees in fastforce)

lemma sem_phase:
  assumes T: "says T R" and S: "array_at S" "onesem \<noteq> 0"
  shows "leads (tracks ns_nodes b (at R 16 (tview [10, 11, 12, 13, 14, 15, 16, 17, 18, 19, 9, 8, 7, 6, 4, 3, 2, 1, 5, 0] [] 19 [] S nobody)
      (pv down None (Some 10) (Some 0) (Some 9) (Some 5))))
    (p1_run (p1_ash_insert A T S onesem @ p1_ash_remove T S @ p1_ash_out T S @ p1_free_all T))
    (tracks ns_nodes b (at_rep nrep R 23 (last_given, 18, [], [0..<MAXPROC], [], \<lambda>_. None) (pw given None None)))"
proof (rule frames_parts)
  have "pv given None (Some 19) (Some 0) (Some 9) (Some 5) = pw given None None" by (simp add: pv_def pw_def)
  then have free: "leads (at R 21 (tview [] [] 19 [] S (two_each[9 := []])) (pv given None (Some 19) (Some 0) (Some 9) (Some 5)))
      (p1_run (p1_free_all T)) (at_rep nrep R 23 (last_given, 18, [], [0..<MAXPROC], [], \<lambda>_. None) (pw given None None))"
    using krep_nrep by (intro leads_conseq [OF free_all_part [OF T]]) (auto simp: at_rep_def simp del: nrep.simps)
  show "leads (at R 16 (tview [10, 11, 12, 13, 14, 15, 16, 17, 18, 19, 9, 8, 7, 6, 4, 3, 2, 1, 5, 0] [] 19 [] S nobody)
      (pv down None (Some 10) (Some 0) (Some 9) (Some 5)))
    (p1_run (p1_ash_insert A T S onesem @ p1_ash_remove T S @ p1_ash_out T S @ p1_free_all T))
    (at_rep nrep R 23 (last_given, 18, [], [0..<MAXPROC], [], \<lambda>_. None) (pw given None None))"
    by (rule leads_append [OF block_part [OF T S]], rule leads_append [OF unblock_part [OF T S(1)]],
        rule leads_append [OF outBlocked_part [OF S(1)] free])
qed (use frames_ash in fastforce)

lemma ns_phase:
  assumes T: "says T R" and A: "null_n_type A \<noteq> None"
  shows "leads (at_rep nrep R 23 (last_given, 18, [], [0..<MAXPROC], [], \<lambda>_. None) (pw given None None))
    (p1_run (p1_ns_get A T @ p1_ns_add A T @ p1_ns_child A T @ p1_ns_change A T)) (\<lambda>z. R 32 (p1_ok z) (p1_dev z))"
proof -
  have "[0..<MAXPROC] = 0 # 1 # [2..<MAXPROC]" by (simp add: MAXPROC_def upt_rec)
  then show ?thesis by (simp only:) (rule leads_append [OF ns_get_part [OF T A] ns_part [OF T A]])
qed

section \<open>The test\<close>

lemma p1_main_passes:
  assumes z: "zeroed s" and pl: "plain s" and A: "null_n_type A \<noteq> None" and S: "array_at S" "onesem \<noteq> 0"
    and T: "says T R" and R: "R 0 ok d"
  shows "\<exists>z. p1_main A T S onesem \<lparr>p1_k = s, p1_w = p1_bss, p1_ok = ok, p1_errbuf = e, p1_dev = d\<rparr> = Some (Inr z)
    \<and> R 32 (p1_ok z) (p1_dev z)"
proof -
  let ?z = "\<lparr>p1_k = s, p1_w = p1_bss, p1_ok = ok, p1_errbuf = e, p1_dev = d\<rparr>"
  let ?X = "insert Ready_queue (sem_nodes \<union> ns_nodes)"
  from start [OF z] obtain h b where
    h: "initPcbs s = Some (s\<lparr>lists := h\<rparr>)" "twin ?X no_links b h b" "kabs (s\<lparr>lists := b\<rparr>) v_boot"
    and i: "inits (INIT_LIST_HEAD p1_qa) {Ready_queue} b" "inits ash_links sem_nodes b" "inits ns_links ns_nodes b" by blast
  let ?V0 = "at R 0 (tview down [] 19 [] S nobody) p1_bss"
  let ?V1 = "at R 3 (tview [0, 1, 2, 3, 4, 5, 6, 7, 8, 9] [] 19 [] S nobody) (pv down None None None None None)"
  let ?V2 = "at R 16 (tview [10, 11, 12, 13, 14, 15, 16, 17, 18, 19, 9, 8, 7, 6, 4, 3, 2, 1, 5, 0] [] 19 [] S nobody)
      (pv down None (Some 10) (Some 0) (Some 9) (Some 5))"
  let ?V3 = "at_rep nrep R 23 (last_given, 18, [], [0..<MAXPROC], [], \<lambda>_. None) (pw given None None)"
  have "spread S nobody k = []" for k using spread_cases [of nobody S k] by auto
  then have boot: "v_boot = tview down [] 19 [] S nobody"
    by (simp add: v_boot_def tview_def pview_def fun_eq_iff ranges down_def)
  have 1: "leads (\<lambda>x. x = ?z) (p1_do (\<lambda>w. initPcbs)) (tracks ?X b ?V0)"
  proof -
    have "p1_do (\<lambda>w. initPcbs) ?z = Some (Inr (?z\<lparr>p1_k := s\<lparr>lists := h\<rparr>\<rparr>))" using h(1) by (simp add: p1_call_def p1_silent_def)
    moreover have "ptwin ?X no_links b (?z\<lparr>p1_k := s\<lparr>lists := h\<rparr>\<rparr>) (?z\<lparr>p1_k := s\<lparr>lists := b\<rparr>\<rparr>)"
      using h(2) by (simp add: ptwin_def ktwin_def)
    moreover have "?V0 (?z\<lparr>p1_k := s\<lparr>lists := b\<rparr>\<rparr>)"
      using h(3) pl R boot by (simp add: at_rep_def krep_def plain_def)
    ultimately show ?thesis by (auto simp: leads_def tracks_def)
  qed
  have 2: "leads (tracks ?X b ?V0) (p1_run (tl (p1_alloc A T))) (tracks ?X b ?V1)"
    by (rule frames_parts [OF frames_alloc alloc_part [OF T]])
  have 3: "leads (tracks ?X b ?V1) (p1_do (\<lambda>w. on_lists (INIT_LIST_HEAD p1_qa))) (tracks (sem_nodes \<union> ns_nodes) b ?V1)"
    using leads_activates [OF _ i(1) links_twins(2) [OF _ refl], of "sem_nodes \<union> ns_nodes" ?V1] by simp
  have 4: "leads (tracks (sem_nodes \<union> ns_nodes) b ?V2) (p1_do (\<lambda>w. initASH)) (tracks ns_nodes b ?V2)"
    unfolding Un_commute [of sem_nodes]
  proof (rule leads_activates [OF _ i(2) links_twins(3) [OF _ refl]])
    show "ns_nodes \<inter> sem_nodes = {}" by (simp add: Int_commute [of ns_nodes])
  qed (assumption, rule initASH_tracks)
  have 5: "leads (tracks ns_nodes b ?V3) (p1_do (\<lambda>w. initNamespaces)) ?V3"
  proof (rule leads_conseq)
    show "leads (tracks ({} \<union> ns_nodes) b ?V3) (p1_do (\<lambda>w. initNamespaces)) (tracks {} b ?V3)"
      by (rule leads_activates [OF _ i(3) links_twins(4) [OF _ refl]]) (simp, assumption, simp only: initNamespaces_links)
    show "tracks ns_nodes b ?V3 x \<Longrightarrow> tracks ({} \<union> ns_nodes) b ?V3 x" for x by (simp only: Un_empty_left)
  qed (rule tracks_all)
  have "p1_main A T S onesem = p1_run (p1_do (\<lambda>w. initPcbs) # tl (p1_alloc A T)
      @ p1_do (\<lambda>w. on_lists (INIT_LIST_HEAD p1_qa))
        # ((p1_queue_insert A T @ p1_queue_out T @ p1_queue_remove T) @ p1_tree_insert T @ p1_tree_remove T)
      @ p1_do (\<lambda>w. initASH)
        # (p1_ash_insert A T S onesem @ p1_ash_remove T S @ p1_ash_out T S @ p1_free_all T)
      @ p1_do (\<lambda>w. initNamespaces)
        # (p1_ns_get A T @ p1_ns_add A T @ p1_ns_child A T @ p1_ns_change A T))"
    by (simp add: p1_main_def p1_alloc_def)
  moreover have "leads (\<lambda>x. x = ?z) \<dots> (\<lambda>z. R 32 (p1_ok z) (p1_dev z))"
    by (rule leads_Cons [OF 1], rule leads_append [OF 2], rule leads_Cons [OF 3], rule leads_append [OF queue_phase [OF T]],
        rule leads_Cons [OF 4], rule leads_append [OF sem_phase [OF T S]], rule leads_Cons [OF 5 ns_phase [OF T A]])
  ultimately show ?thesis by (simp add: leads_def)
qed

section \<open>A terminal\<close>

text \<open>It shows the characters it is given and is busy for two readings of its status after each.\<close>

definition slow_terminal :: "(u8 list \<times> nat) terminal" where
  "slow_terminal = \<lparr>t_status = (\<lambda>a d. if 0 < snd d then (3, (fst d, snd d - 1)) else (if fst d = [] then 1 else 5, d)),
     t_command = (\<lambda>a w d. (fst d @ [ucast (drop_bit 8 w)], 2)),
     T_READY = 1, T_BUSY = 3, T_DEVPERINT = 8, T_DEVREGSIZE = 16, T_DEVREGLEN = 4, T_TRANSTATUS = 2, T_TRANCOMMAND = 3\<rparr>"

lemma print_command_char: "ucast (drop_bit 8 (print_command c)) = c"
proof (rule bit_word_eqI)
  fix n assume "n < LENGTH(8)"
  then show "bit (ucast (drop_bit 8 (print_command c)) :: u8) n = bit c n"
    by (simp add: print_command_def PRINTCHR_def bit_simps)
qed

lemma slow_terminal_sends: "sends slow_terminal trm (\<lambda>_. True) snd (\<lambda>d. fst d \<noteq> []) fst"
  unfolding sends_def
  by (auto simp: slow_terminal_def STATUSMASK_def TRANSMITTED_def print_command_char)

end
