(* ===== verification/Hashtest.thy ===== *)
theory Hashtest
  imports Report "HOL-Library.Multiset"
begin

text \<open>
  \<open>tests/hashtest.c\<close>, a program for the host system: it enters the squares of its arguments in a
  table of 65536 buckets and prints it, as the sequence of the calls of \<open>printf\<close>.  It is a program
  of its own, so its items are numbered by their addresses.  \<open>calloc\<close> is a
  parameter: the item the \<open>i\<close>th call returns (\<open>NULL\<close> when it fails).  \<open>None\<close> is undefined behaviour:
  the overflow of an \<open>int\<close>.
\<close>

section \<open>The program\<close>

definition to_int :: "int \<Rightarrow> int option" where
  "to_int i = (if - (2 ^ 31) \<le> i \<and> i < 2 ^ 31 then Some i else None)"

definition is_digit :: "char \<Rightarrow> bool" where
  "is_digit c \<longleftrightarrow> c \<in> set ''0123456789''"

text \<open>\<open>atoi\<close> of the C library: white space, a sign, digits up to the first other character.\<close>

fun atoi_digits :: "int \<Rightarrow> string \<Rightarrow> int" where
  "atoi_digits n [] = n"
| "atoi_digits n (c # cs) = (if is_digit c then atoi_digits (10 * n + (of_char c - 48)) cs else n)"

definition atoi :: "string \<Rightarrow> int option" where
  "atoi st = (case dropWhile (\<lambda>c. c \<in> {CHR '' '', CHR 0x09, CHR 0x0A, CHR 0x0B, CHR 0x0C, CHR 0x0D}) st of
     [] \<Rightarrow> Some 0
   | c # cs \<Rightarrow> to_int (if c = CHR ''-'' then - atoi_digits 0 cs else if c = CHR ''+'' then atoi_digits 0 cs
       else atoi_digits 0 (c # cs)))"

datatype ht_line = Title | Possible nat | Row nat int

record testitems =
  ti_hash :: "(nat, nat) hheap"
  ti_value :: "nat \<Rightarrow> int"

definition hdata_size :: nat where
  "hdata_size = 65536"

text \<open>The loop over the arguments from the \<open>i\<close>th; the answer is whether every item was allocated.\<close>

fun insert_items :: "(nat \<Rightarrow> nat ptr) \<Rightarrow> nat \<Rightarrow> string list \<Rightarrow> (testitems, bool) action" where
  "insert_items calloc i [] t = Some (True, t)"
| "insert_items calloc i (arg # args) t = (case calloc i of
     None \<Rightarrow> Some (False, t)
   | Some item \<Rightarrow> do {
       let t = t\<lparr>ti_hash := (ti_hash t)\<lparr>hnext := (hnext (ti_hash t))(item := None), hpprev := (hpprev (ti_hash t))(item := None)\<rparr>\<rparr>;
       idx \<leftarrow> atoi arg;
       sq \<leftarrow> to_int (idx * idx);
       let t = t\<lparr>ti_value := (ti_value t)(item := sq)\<rparr>;
       h \<leftarrow> hash_add hdata_size (Some item) (word_of_int idx) (ti_hash t);
       insert_items calloc (Suc i) args (t\<lparr>ti_hash := h\<rparr>)
     })"

text \<open>The loop over the table, with the number of the bucket.\<close>

fun print_table :: "nat \<Rightarrow> nat \<Rightarrow> testitems \<Rightarrow> ht_line list option" where
  "print_table bkt 0 t = Some []"
| "print_table bkt (Suc k) t = do {
     c \<leftarrow> hlist_collect (\<lambda>item. Some [Row bkt (ti_value t item)]) (hfirst (ti_hash t) bkt) (ti_hash t);
     cs \<leftarrow> print_table (Suc bkt) k t;
     Some (c @ cs)
   }"

definition hash_test :: "(nat \<Rightarrow> nat ptr) \<Rightarrow> string list \<Rightarrow> testitems \<Rightarrow> (int \<times> ht_line list) option" where
  "hash_test calloc args t = do {
     (ok, t) \<leftarrow> insert_items calloc 0 args t;
     if \<not> ok then Some (- 1, [Title])
     else do {
       ps \<leftarrow> hlist_collect (\<lambda>item. Some [Possible item])
         (hfirst (ti_hash t) (bucket_of hdata_size 0)) (ti_hash t);
       rows \<leftarrow> print_table 0 hdata_size t;
       Some (0, Title # ps @ rows)
     }
   }"

definition list_test :: int where
  "list_test = 0"

text \<open>\<open>main\<close>: the exit code, and what it prints; \<open>perror\<close> writes to another file.\<close>

definition hashtest_main :: "(nat \<Rightarrow> nat ptr) \<Rightarrow> string list \<Rightarrow> testitems \<Rightarrow> (int \<times> ht_line list) option" where
  "hashtest_main calloc args t = do {
     (r, out) \<leftarrow> hash_test calloc args t;
     Some (if r \<noteq> 0 then 1 else if list_test \<noteq> 0 then 1 else 0, out)
   }"

section \<open>The table\<close>

lemma HASH_BITS_65536: "HASH_BITS 65536 = 16"
proof -
  obtain k where k: "const_ilog2 65536 = int k" "(2::nat) ^ k \<le> 2 ^ 16" "(2::nat) ^ 16 < 2 ^ (k + 1)"
    using const_ilog2_floor [of 65536] by auto
  from k(2) have "k \<le> 16" by (rule power_le_imp_le_exp [rotated]) simp
  moreover from k(3) have "16 < k + 1" by (rule power_less_imp_less_exp [rotated]) simp
  ultimately have "k = 16" by simp
  then show ?thesis using k(1) by (simp add: HASH_BITS_def)
qed

lemma bucket_of_hdata: "bucket_of hdata_size key < hdata_size"
proof -
  have "unat (drop_bit 16 w) < 65536" for w :: u32
  proof -
    have "unat (drop_bit 16 w) = unat w div 2 ^ 16" by (simp add: drop_bit_eq_div unat_div)
    moreover have "unat w < 2 ^ 32" using unsigned_less [of w] by simp
    ultimately show ?thesis by (simp add: less_mult_imp_div_less)
  qed
  then show ?thesis by (simp add: bucket_of_def hdata_size_def hash_min_def hash_32_def HASH_BITS_65536)
qed

text \<open>The items of the first arguments, the last of a bucket first.\<close>

definition rows_of :: "(nat \<Rightarrow> nat) \<Rightarrow> int list \<Rightarrow> nat \<Rightarrow> nat list" where
  "rows_of item ks b = map item (rev (filter (\<lambda>i. bucket_of hdata_size (word_of_int (ks ! i)) = b) [0..<length ks]))"

definition loaded :: "(nat \<Rightarrow> nat) \<Rightarrow> int list \<Rightarrow> testitems \<Rightarrow> bool" where
  "loaded item ks t \<longleftrightarrow> hash_abs (ti_hash t) (rows_of item ks)
     \<and> (\<forall>i < length ks. ti_value t (item i) = ks ! i * ks ! i)"

lemma rows_of_snoc:
  "rows_of item (ks @ [k]) = (rows_of item ks)(bucket_of hdata_size (word_of_int k) :=
     item (length ks) # rows_of item ks (bucket_of hdata_size (word_of_int k)))"
proof -
  have "filter (\<lambda>i. bucket_of hdata_size (word_of_int ((ks @ [k]) ! i)) = b) [0..<length ks]
      = filter (\<lambda>i. bucket_of hdata_size (word_of_int (ks ! i)) = b) [0..<length ks]" for b
    by (rule filter_cong) (simp_all add: nth_append)
  then show ?thesis by (simp add: rows_of_def fun_eq_iff)
qed

lemma hnodes_rows: "hnodes (rows_of item ks) = item ` {..<length ks}"
  by (auto simp: hnodes_def rows_of_def)

lemma insert_items_loads:
  assumes "inj_on item {..<n}" and "\<And>i. i < n \<Longrightarrow> calloc i = Some (item i)"
  shows "length ks + length ks' = n \<Longrightarrow> loaded item ks t \<Longrightarrow> list_all2 (\<lambda>arg k. atoi arg = Some k) args ks' \<Longrightarrow>
    (\<forall>k \<in> set ks'. k * k < 2 ^ 31) \<Longrightarrow>
    \<exists>t'. insert_items calloc (length ks) (args @ rest) t = insert_items calloc n rest t' \<and> loaded item (ks @ ks') t'"
proof (induction ks' arbitrary: ks t args)
  case (Cons k ks')
  then obtain arg args' where args: "args = arg # args'" "atoi arg = Some k" "list_all2 (\<lambda>arg k. atoi arg = Some k) args' ks'"
    by (auto simp: list_all2_Cons2)
  let ?p = "item (length ks)" and ?h = "ti_hash t" and ?b = "bucket_of hdata_size (word_of_int k)"
  have l: "length ks < n" using Cons.prems(1) by simp
  have ne: "item i \<noteq> ?p" if "i < length ks" for i using inj_onD [OF assms(1), of i "length ks"] l that by auto
  have h: "hash_abs ?h (rows_of item ks)" using Cons.prems(2) by (simp add: loaded_def)
  have new: "?p \<notin> hnodes (rows_of item ks)"
    using ne by (force simp: hnodes_rows)
  from hash_abs_unhashed [OF h new] have same: "?h\<lparr>hnext := (hnext ?h)(?p := None), hpprev := (hpprev ?h)(?p := None)\<rparr> = ?h"
    by (simp add: fun_upd_idem)
  from hash_add_abs [OF h new, of hdata_size "word_of_int k"] obtain h' where
    h': "hash_add hdata_size (Some ?p) (word_of_int k) ?h = Some h'" "hash_abs h' (rows_of item (ks @ [k]))"
    by (auto simp: rows_of_snoc)
  let ?t = "t\<lparr>ti_value := (ti_value t)(?p := k * k), ti_hash := h'\<rparr>"
  have "loaded item (ks @ [k]) ?t"
    using h'(2) Cons.prems(2) ne by (auto simp: loaded_def nth_append less_Suc_eq)
  from Cons.IH [OF _ this args(3)] Cons.prems(1,4) obtain t' where
    t': "insert_items calloc (Suc (length ks)) (args' @ rest) ?t = insert_items calloc n rest t'" "loaded item (ks @ k # ks') t'" by auto
  have "- (2 ^ 31) \<le> k * k" by (rule order_trans [of _ 0]) simp_all
  then have sq: "to_int (k * k) = Some (k * k)" using Cons.prems(4) by (simp add: to_int_def)
  have "insert_items calloc (length ks) (args @ rest) t = insert_items calloc (Suc (length ks)) (args' @ rest) ?t"
    using args(1,2) assms(2) [OF l] h'(1) same sq by (simp add: Let_def)
  with t' show ?case by (intro exI [of _ t']) simp
qed auto

lemma print_table_rows:
  assumes "hash_abs (ti_hash t) B"
  shows "print_table bkt k t = Some (concat (map (\<lambda>b. map (\<lambda>x. Row b (ti_value t x)) (B b)) [bkt..<bkt + k]))"
proof (induction k arbitrary: bkt)
  case (Suc k)
  have u: "[bkt..<bkt + Suc k] = bkt # [Suc bkt..<Suc bkt + k]" by (simp add: upt_conv_Cons)
  let ?g = "\<lambda>x. [Row bkt (ti_value t x)]"
  have "hlist_collect (\<lambda>x. Some (?g x)) (hfirst (ti_hash t) bkt) (ti_hash t) = Some (concat (map ?g (B bkt)))"
    using hlist_collect_hchain [OF hash_abs_hchain [OF assms, of bkt], of "\<lambda>x. Some (?g x)" ?g] by simp
  moreover have "concat (map ?g xs) = map (\<lambda>x. Row bkt (ti_value t x)) xs" for xs
    by (induction xs) auto
  ultimately show ?case unfolding u using Suc.IH [of "Suc bkt"] by simp
qed simp

section \<open>What it prints\<close>

text \<open>Each argument has one row, with the number of the bucket of its key and its square.\<close>

lemma hash_test_prints:
  assumes "inj_on item {..<length ks}" and "\<And>i. i < length ks \<Longrightarrow> calloc i = Some (item i)"
    and "list_all2 (\<lambda>arg k. atoi arg = Some k) args ks" and "\<forall>k \<in> set ks. k * k < 2 ^ 31"
    and "hash_abs (ti_hash t) (\<lambda>_. [])"
  shows "\<exists>rows. hashtest_main calloc args t = Some (0, Title # map Possible (rows_of item ks (bucket_of hdata_size 0)) @ rows)
    \<and> mset rows = image_mset (\<lambda>k. Row (bucket_of hdata_size (word_of_int k)) (k * k)) (mset ks)"
proof -
  have "rows_of item [] = (\<lambda>_. [])" by (simp add: rows_of_def fun_eq_iff)
  then have "loaded item [] t" using assms(5) by (simp add: loaded_def)
  from insert_items_loads [OF assms(1,2) _ this assms(3,4), of "[]"] obtain t' where
    t': "insert_items calloc 0 args t = Some (True, t')" "loaded item ks t'" by auto
  let ?B = "rows_of item ks" and ?row = "\<lambda>i. Row (bucket_of hdata_size (word_of_int (ks ! i))) (ks ! i * ks ! i)"
  have B: "hash_abs (ti_hash t') ?B" using t'(2) by (simp add: loaded_def)
  let ?rows = "concat (map (\<lambda>b. map (\<lambda>x. Row b (ti_value t' x)) (?B b)) [0..<hdata_size])"
  have "hlist_collect (\<lambda>x. Some [Possible x]) (hfirst (ti_hash t') (bucket_of hdata_size 0)) (ti_hash t')
      = Some (map Possible (?B (bucket_of hdata_size 0)))"
  proof -
    have "concat (map (\<lambda>x. [Possible x]) xs) = map Possible xs" for xs by (induction xs) auto
    then show ?thesis
      using hlist_collect_hchain [OF hash_abs_hchain [OF B, of "bucket_of hdata_size 0"], of "\<lambda>x. Some [Possible x]" "\<lambda>x. [Possible x]"] by simp
  qed
  with t'(1) print_table_rows [OF B, of 0 hdata_size]
  have run: "hashtest_main calloc args t = Some (0, Title # map Possible (?B (bucket_of hdata_size 0)) @ ?rows)"
    by (simp add: hashtest_main_def hash_test_def list_test_def)
  have bucket: "map (\<lambda>x. Row b (ti_value t' x)) (?B b)
      = map ?row (rev (filter (\<lambda>i. bucket_of hdata_size (word_of_int (ks ! i)) = b) [0..<length ks]))" for b
    using t'(2) by (auto simp: rows_of_def loaded_def)
  have group: "mset (concat (map (\<lambda>b. map f (rev (filter (\<lambda>i. g i = b) is))) [0..<m])) = image_mset f (mset is)"
    if "\<And>i. i \<in> set is \<Longrightarrow> g i < m" for f :: "nat \<Rightarrow> ht_line" and g "is" m
    using that
  proof (induction "is")
    case (Cons i "is")
    have "mset (concat (map (\<lambda>b. map f (rev (filter (\<lambda>j. g j = b) (i # is)))) [0..<m]))
        = mset (concat (map (\<lambda>b. map f (rev (filter (\<lambda>j. g j = b) is))) [0..<m]))
          + mset (concat (map (\<lambda>b. if g i = b then [f i] else []) [0..<m]))"
      by (simp add: mset_concat sum_list_addf [symmetric] del: sum_list_addf) (rule arg_cong [where f = sum_list], auto)
    moreover have "mset (concat (map (\<lambda>b. if g i = b then [f i] else []) [0..<m])) = {#f i#}"
      using Cons.prems [of i] by (induction m) (auto simp: less_Suc_eq)
    ultimately show ?case using Cons by simp
  qed simp
  have "mset ?rows = image_mset ?row (mset [0..<length ks])"
    unfolding bucket by (rule group) (simp add: bucket_of_hdata)
  also have "\<dots> = image_mset (\<lambda>k. Row (bucket_of hdata_size (word_of_int k)) (k * k)) (mset ks)"
    by (subst (2) map_nth [of ks, symmetric]) (simp only: mset_map multiset.map_comp comp_def)
  finally show ?thesis using run by blast
qed

text \<open>When an allocation fails it exits with 1, and prints nothing but the title.\<close>

lemma hash_test_out_of_memory:
  assumes "inj_on item {..<length ks}" and "\<And>i. i < length ks \<Longrightarrow> calloc i = Some (item i)" and "calloc (length ks) = None"
    and "list_all2 (\<lambda>arg k. atoi arg = Some k) args ks" and "\<forall>k \<in> set ks. k * k < 2 ^ 31"
    and "hash_abs (ti_hash t) (\<lambda>_. [])"
  shows "hashtest_main calloc (args @ arg # rest) t = Some (1, [Title])"
proof -
  have "rows_of item [] = (\<lambda>_. [])" by (simp add: rows_of_def fun_eq_iff)
  then have "loaded item [] t" using assms(6) by (simp add: loaded_def)
  from insert_items_loads [OF assms(1,2) _ this assms(4,5), of "arg # rest"] obtain t' where
    "insert_items calloc 0 (args @ arg # rest) t = Some (False, t')" using assms(3) by auto
  then show ?thesis by (simp add: hashtest_main_def hash_test_def)
qed

end
