(* ===== verification/Spec2Isabelle.thy ===== *)
theory Spec2Isabelle
  imports Kernel_Step Handler_Abs Soft_Count Report List_Loops Print_Abs Runs Typing Mutex Coexistence Lock_Start Fair_Runs Test_Image P1_Whole Hashtest "HOL-Library.Log_Nat"
begin

text \<open>
  A model of PandOS, a small operating system kernel in C for the uMPS3 machine, and the theorems
  that make it correct.

  The program.  \<open>pandos/phase1\<close> holds the data structures: doubly linked lists, a hash table of
  hash lists, the table of 20 PCBs with the process queues and the process tree, the namespaces,
  and the table of the semaphores on which processes are blocked.  \<open>pandos/phase2\<close> is the nucleus:
  \<open>main.c\<close> initialises everything and starts the first process; from then on the kernel runs only
  in exceptions.  \<open>exceptionHandler\<close> counts the processor time and goes on to the interrupt handler
  (devices, terminals, the two timers), to the ten system calls, or passes the exception up;
  each ends by giving the processor back (\<open>LDST\<close>), waiting, halting or panicking, most often
  through \<open>schedule\<close>.  \<open>pandos/stdlib\<close> has strings, memory and \<open>printf\<close>.  \<open>phase2/p2test_04.c\<close> is
  the test program: the first process of the kernel and the processes it creates.

  The machine.  \<^bold>\<open>Prelude\<close> has the option monad the model is written in: \<open>None\<close> is a fault or
  undefined behaviour (a dereference of \<open>NULL\<close>, a store out of an array, a loop on a corrupted
  list); theorems that an operation succeeds are proved as equations with \<open>Some\<close>.  \<^bold>\<open>Machine\<close> has
  the state \<open>kstate\<close>: the fields of all links (\<open>lists\<close>, one heap in which every embedded
  \<open>list_head\<close> is a node of the type \<open>lnode\<close>, so that \<open>container_of\<close> is a function on nodes), those of
  the hash lists, the PCBs, the static variables of each file, the words of the memory user code
  and devices share (semaphores, device registers, arguments), and the registers.  What the
  uMPS3 headers and the linker define is the parameter \<open>umps\<close>: the layout of the saved state, the
  device registers and their status codes, the exception codes, the addresses of the static
  variables.  An \<open>outcome\<close> is how the kernel leaves an exception.

  The components, each the translation of the files it names:
  \<^item> \<^bold>\<open>Lists\<close>: \<open>list.h\<close> and the list helpers of \<open>util.h\<close>; \<^bold>\<open>Hlist\<close>: the hash lists of \<open>list.h\<close>,
    \<open>hashtable.h\<close>, \<open>hash.h\<close>, \<open>log2.h\<close>; \<^bold>\<open>List_Loops\<close>: the loops over entries of both;
  \<^item> \<^bold>\<open>Pcb\<close>: \<open>pcb.c\<close>, \<open>util.c\<close>; \<^bold>\<open>Ns\<close>: \<open>ns.c\<close>; \<^bold>\<open>Ash\<close>: \<open>ash.c\<close>, and \<^bold>\<open>Report\<close> its \<open>getBlockedProcesses\<close>;
  \<^item> \<^bold>\<open>Scheduler\<close>: \<open>scheduler.c\<close>, \<open>devices.c\<close>, \<open>processor.h\<close>; \<^bold>\<open>Interrupt\<close>: \<open>interrupt.c\<close>;
    \<^bold>\<open>Syscall\<close>: the calls of \<open>syscall.c\<close>; \<^bold>\<open>Exception\<close>: its dispatcher, \<open>exception.c\<close>, \<open>main.c\<close>;
  \<^item> \<^bold>\<open>Strings\<close>: \<open>string.c\<close>, \<open>memory.c\<close>; \<^bold>\<open>Print\<close>: \<open>print.c\<close>, over an abstract terminal;
  \<^item> \<^bold>\<open>P1test\<close>: \<open>tests/p1test.c\<close>, the test of phase 1, statement by statement; \<^bold>\<open>Hashtest\<close>: \<open>tests/hashtest.c\<close>,
    with what it prints; \<^bold>\<open>P2test\<close>: \<open>p2test_04.c\<close>, one program for each of its functions.  \<^bold>\<open>Program\<close> says what a program
    is: the tree of its events (system calls, accesses to the shared memory, services of the BIOS)
    with what follows each answer, a codatatype, since loops need not end.

  The proofs go up in three layers.
  \<^item> Lists.  \<^bold>\<open>List_Abs\<close> relates a heap of links to a map from list heads to HOL lists (\<open>heap_abs\<close>)
    and shows each operation of \<open>list.h\<close> to be the operation on the map; the end of \<^bold>\<open>Hlist\<close> does the
    same for the buckets (\<open>hash_abs\<close>).
  \<^item> The kernel's structures.  \<^bold>\<open>Kernel_Abs\<close>, \<^bold>\<open>Pcb_Abs\<close> and \<^bold>\<open>Ash_Abs\<close> name the lists of the kernel
    (\<open>akernel\<close>) with the invariants of the tree and of the semaphore table; \<^bold>\<open>Kernel_View\<close> forgets
    the descriptors and states every operation of phase 1 on a \<open>kview\<close>: the free PCBs, the ready
    queue, the children of each process, the queue of each semaphore, the namespaces.  \<open>kabs s v\<close>
    says that the state represents the view; \<open>runs_to m r t v\<close> that \<open>m\<close> answers \<open>r\<close> and ends in \<open>t\<close> up
    to the links, which represent \<open>v\<close>.  \<^bold>\<open>Interfaces\<close> has the contracts as locales (a pool, a queue,
    the table of queues) with their clients; \<^bold>\<open>Kernel_View\<close> interprets them on the model.
  \<^item> The nucleus.  \<^bold>\<open>Kernel_Inv\<close> has the invariant \<open>kinv\<close> (the view, the count of processes, the
    running process in no queue, no cycle in the tree) and \<open>resumes\<close>, what \<open>schedule\<close> does;
    \<^bold>\<open>Boot\<close>, \<^bold>\<open>Sem_Ops\<close>, \<^bold>\<open>Term_Abs\<close>, \<^bold>\<open>Create_Abs\<close>, \<^bold>\<open>Syscall_Abs\<close>, \<^bold>\<open>Io_Abs\<close>, \<^bold>\<open>Query_Abs\<close>, \<^bold>\<open>Find_Abs\<close>,
    \<^bold>\<open>Interrupt_Abs\<close> and \<^bold>\<open>Handler_Abs\<close> say what initialisation, P and V, termination, creation, the
    calls and the interrupts do to it; \<^bold>\<open>Kernel_Safe\<close> that whatever an exception does leaves the
    invariant, \<^bold>\<open>Kernel_Total\<close> exactly when it returns (\<open>syscall_ok\<close>), \<^bold>\<open>Soft_Count\<close> that
    \<open>soft_block_count\<close> is exact; \<^bold>\<open>Kernel_Step\<close> makes a transition system of the kernel and
    everything around it: between two exceptions the memory, the saved state, the registers and
    the support structures change in any way.  \<^bold>\<open>Typing\<close> has the types of the links in it.
  \<^item> Locks.  \<^bold>\<open>Sem_Frame\<close> shows that an exception that is no call on a semaphore leaves its word alone
    and lets nobody in its queue, \<^bold>\<open>Sem_Stay\<close> that nobody leaves it but by being terminated;
    \<^bold>\<open>Mutex\<close> follows the runs of the machine with the processes inside a lock.
  \<^item> The test program.  \<^bold>\<open>Print_Prog\<close> says what \<open>print\<close> does for every answer, \<^bold>\<open>Discipline\<close> that every
    process uses the lock of the terminal as a lock.  \<^bold>\<open>Program_Run\<close> runs programs on a machine that
    answers events, in particular on the kernel (a call raises an exception, the answer is \<open>v0\<close> of
    the state the kernel loads; a process that is alone), \<^bold>\<open>Print_Run\<close> on the kernel with a terminal
    that transmits and interrupts, \<^bold>\<open>Test_Setup\<close> on a store; \<^bold>\<open>Test_Image\<close> has addresses for the
    variables of the test.
  \<^item> The test program on the kernel.  In \<^bold>\<open>Coexistence\<close> every process is a program that runs while the
    kernel has given it the processor (\<open>sys_step\<close>): its calls are exceptions that the model of the
    kernel handles, at any time an interrupt may come, and the process that the kernel gives the
    processor to goes on with the answer it waits for.  The other events (accesses to the memory,
    loads of the BIOS) do not write the word of the lock, which is assumed of the code around the
    lock, as it is that calls on the lock are made in kernel mode and that the buffers given to the
    kernel are elsewhere.  \<^bold>\<open>Lock_Start\<close> is such a run.
  \<^item> The specification.  \<^bold>\<open>Abs_Kernel\<close> is the kernel without its data structures: the state is a view and
    the running process, an exception is some moves (\<open>blocks\<close>, \<open>wakes\<close>, \<open>yields\<close>, \<open>spawns\<close>, and \<open>loses\<close> for
    the calls that lose their caller) or the death of a process with its descendants (\<open>dies\<close>), and then
    \<open>hand_over\<close> gives an idle processor to the first ready process.  Its locales say what a simulation
    and a waiting line (nobody overtakes; who is served was first) give for runs.  \<^bold>\<open>View_Unique\<close>
    shows that a state has one view, \<^bold>\<open>Kernel_Refines\<close> that every exception is a move of the
    specification, \<^bold>\<open>Fairness\<close> interprets the locales on the machine (a step of the machine with the
    views of both states is \<open>vstep\<close>), \<^bold>\<open>Fair_Runs\<close> has runs with three processes, and runs that halt
    and wait.
  \<^item> The test of phase 1.  \<^bold>\<open>P1_Logic\<close> has rules for its statements on states that represent a view,
    \<^bold>\<open>P1_Steps\<close> runs its parts on views of lists, one statement after the other, \<^bold>\<open>P1_Spaces\<close> its last
    part, which frees PCBs that are blocked and so leaves the invariant of the semaphores.  The test
    initialises the tables on the way: \<^bold>\<open>Twins\<close> and \<^bold>\<open>P1_Start\<close> show that it goes through the same steps
    as if all of them had been initialised before.  \<^bold>\<open>P1_Pass\<close> has its messages, \<^bold>\<open>P1_Whole\<close> the whole.
  \<^item> \<^bold>\<open>Strings_Abs\<close> and \<^bold>\<open>Print_Abs\<close>: \<open>itoa\<close> writes a numeral that reads back, \<open>printf\<close> transmits it.
  \<^item> \<^bold>\<open>Umps3\<close> is the machine of the uMPS3 documentation and \<^bold>\<open>Runs\<close> states it reaches from boot, on
    which the properties below are applied.

  Loops.  No fuel is used: a loop over links is a \<open>partial_function\<close> whose value is \<open>None\<close> when it
  does not end, and the abstraction lemmas prove that it ends on represented lists; so do the
  recursion of \<open>terminateProcess\<close> over the tree (no cycle, by the invariant), the clock's loop over
  the waiting processes, and the wait for the terminal (it needs a device that stops being
  busy).  The other loops are structural or have a measure.  The execution of a program
  (\<open>exec\<close>) is a \<open>partial_function\<close> too, and the theorems about it are equations with \<open>Some\<close>.

  What the properties assume.  \<open>kinv\<close> holds in every reachable state (\<open>reachable_invariant\<close>);
  \<open>machine_ok\<close> says that the semaphores have addresses that are not \<open>NULL\<close> and that reading address 0
  does not stop the machine; \<open>kernel_word\<close> are the words the kernel writes by itself (the semaphores of
  devices and of the clock, the command registers); \<open>traps_ok\<close> and \<open>sys_distinct\<close> that the codes of
  the exceptions and the registers of a call are different.  Integers are words of 32 bits, and their arithmetic wraps.

  Not modelled.  \<open>tests/\<close> holds another copy of the phase 2 test.  The macros for RCU lists name functions
  the repository does not define.  The text
  \<open>PANDOS_ASSERT\<close>, \<open>PRINT_DEBUG\<close> and \<open>panic\<close> print is left out (a panic is an outcome).  \<open>pandos_const.h\<close>
  defines constants for later phases that no code reads.  The memory of words and the PCBs do not
  overlap: a system call argument that points into the kernel's own tables is outside the model.
  The uMPS3 BIOS is represented by what it promises: the state of the interrupted process is in
  \<open>bios_state\<close>, and \<open>LDST\<close> continues with the state it is given.

  What modelling showed is stated in the properties: P on a device whose semaphore holds a signal,
  and a command to a device that is not installed, lose the calling process; a process that
  names its own pid or an unknown one in SYS2 stops the kernel; a PCB keeps the namespaces of its
  last user; the processor time is counted more than once; an idle receiver is signalled with the
  transmitter; \<open>itoa\<close> drops the sign in other bases than 10; the record of the messages overflows.
\<close>

section \<open>The life of the kernel\<close>

text \<open>C1: From zeroed static memory, \<open>main\<close> initialises every structure without a fault or a
  panic and dispatches the first process: pid 1, one process counted, none soft blocked, all
  semaphores 0, and the kernel invariant holds.\<close>

theorem boot_establishes_invariant:
  assumes "zeroed s"
  shows "\<exists>t. main_entry A s = Some (LDST (p_s (pcbs t first_pcb)), t)
    \<and> kinv t (v_first\<lparr>v_ready := []\<rparr>) \<and> current_active_process t = Some first_pcb
    \<and> process_count t = 1 \<and> soft_block_count t = 0 \<and> p_pid (pcbs t first_pcb) = 1
    \<and> p_s (pcbs t first_pcb) = entry_state A (test_addr A) (RAMTOP t) (reset_state A (p_s (pcbs s first_pcb)))
    \<and> mem t = cleared_sems A (mem s)"
  using main_entry_boot [OF assms, of A] by blast

theorem boot_witness: "\<exists>t. main_entry umps3 zero_state = Some (LDST (p_s (pcbs t first_pcb)), t)
    \<and> kinv t (v_first\<lparr>v_ready := []\<rparr>) \<and> current_active_process t = Some first_pcb"
  using boot_establishes_invariant [OF zero_state_zeroed, of umps3] by blast

text \<open>C2: In every configuration the machine can reach from boot, by any interleaving of user code,
  device activity and exceptions with any arguments, the invariant of the kernel holds: every
  PCB is in at most one of the free list, the ready queue and the queue of one semaphore, the
  running process is in none, the process tree has no cycle, \<open>process_count\<close> counts the PCBs in
  use, and a process is marked as running exactly when the processor has been given to one.\<close>

theorem reachable_invariant:
  assumes "reachable A (out, s)"
  shows "(\<exists>v. kinv s v \<and> placed s v) \<and> (gives_processor out \<longleftrightarrow> current_active_process s \<noteq> None)"
proof -
  from reachable_settled [OF assms] show ?thesis
    by (auto simp: settled_def wf_kernel_def intro: kinv_placed)
qed

theorem reachable_witness:
  "(\<exists>v. kinv (calling CLOCKWAIT 0) v \<and> placed (calling CLOCKWAIT 0) v) \<and>
    (gives_processor (LDST (p_s (pcbs started first_pcb))) \<longleftrightarrow> current_active_process (calling CLOCKWAIT 0) \<noteq> None)"
  by (rule reachable_invariant [OF calling_reachable])







text \<open>C6: Mutual exclusion: a semaphore that is 1 with nobody waiting is a lock.  In every run in which
  only the process inside calls V on it and user code does not write it, whatever else processes,
  devices and timers do and at whatever point a process is preempted, at most one process is
  inside (its P went on, or a V handed the semaphore over to it), and then the semaphore is 0.\<close>

theorem mutual_exclusion:
  assumes "lock_run A k (I, out, s)" and "null_n_type A \<noteq> None" and "sys_distinct A" and "\<not> kernel_word A k"
  shows "(\<forall>p \<in> I. \<forall>q \<in> I. p = q) \<and> (I \<noteq> {} \<longrightarrow> mem s k = 0)"
  using lock_run_ok [OF assms] by (auto simp: lock_ok_def)

text \<open>The first process takes the lock of the terminal of the test program.\<close>

theorem mutual_exclusion_witness:
  "\<exists>out s. lock_run umps3 (at_sem test_image sem_term_mut) ({first_pcb}, out, s)
    \<and> mem s (at_sem test_image sem_term_mut) = 0"
proof -
  let ?k = "at_sem test_image sem_term_mut"
  have "lock_run umps3 ?k ({}, LDST (p_s (pcbs started first_pcb)), locking)"
    by (rule lock_run.free [OF calling_reachable]) (simp_all add: calling_facts(8) lock_mem locking_free)
  moreover from locking_enters obtain out t where
    t: "exceptionHandler umps3 locking = Some (out, t)" "sem_call umps3 PASSEREN ?k locking" by blast
  have "lock_step umps3 ?k ({}, LDST (p_s (pcbs started first_pcb)), locking) (insert first_pcb {}, out, t)"
    by (rule lock_step.enters [OF _ calling_facts(2) t(2) _ t(1)])
      (simp_all add: gives_processor_def calling_facts(8) lock_mem)
  ultimately have r: "lock_run umps3 ?k ({first_pcb}, out, t)" by (metis lock_run.step)
  have "null_n_type umps3 \<noteq> None" "\<not> kernel_word umps3 ?k"
    using image_lock_word by (simp_all add: zero_pcb_facts image_lock_addr)
  from mutual_exclusion [OF r this(1) umps3_distinct this(2)] r show ?thesis by blast
qed



text \<open>C8: A ready process is served: in every run, however the user code behaves and whenever the timer
  and the devices interrupt, once the processor has been given to another process more often than
  there are processes ahead of it in the ready queue (always fewer than \<open>MAXPROC\<close>), it has had the
  processor itself, or it has been terminated.\<close>

theorem ready_process_is_served:
  assumes "\<forall>i < N. vstep A (f i) (f (Suc i))" and "p \<in> set (v_ready (snd (f 0)))"
    and "length (ahead p (v_ready (snd (f 0)))) < (\<Sum>i < N. switched (f i) (f (Suc i)))"
  shows "length (ahead p (v_ready (snd (f 0)))) < MAXPROC
    \<and> (\<exists>i \<le> N. current_active_process (snd (fst (f i))) = Some p \<or> p \<in> set (v_free (snd (f i))))"
proof
  from ready_queue.leaves_in_time [of N A f p] assms obtain i where
    i: "i < N" "p \<in> set (v_ready (snd (f i)))" "p \<notin> set (v_ready (snd (f (Suc i))))" by (auto simp: ready_of_def)
  then have "vstep A (f i) (f (Suc i))" using assms(1) by blast
  from leaves_ready [OF _ i(2,3)] this i(1)
  show "\<exists>i \<le> N. current_active_process (snd (fst (f i))) = Some p \<or> p \<in> set (v_free (snd (f i)))"
    by (metis Suc_leI prod.collapse)
  have "vstep A (f 0) (f (Suc 0))" using assms(1) i(1) by auto
  then show "length (ahead p (v_ready (snd (f 0)))) < MAXPROC"
    using length_ahead [OF assms(2)] ready_length by (metis order_less_le_trans)
qed

theorem ready_process_is_served_witness:
  "\<exists>f. f 0 = ((LDST zero_word_state, out_of_time crowded), v_crowded) \<and> (\<forall>i < 3. vstep umps3 (f i) (f (Suc i)))
    \<and> (\<exists>i \<le> 3. current_active_process (snd (fst (f i))) = Some 17 \<or> 17 \<in> set (v_free (snd (f i))))"
proof -
  from crowded_run obtain f where f: "f 0 = ((LDST zero_word_state, out_of_time crowded), v_crowded)"
    "\<forall>i < 3. vstep umps3 (f i) (f (Suc i))" "(\<Sum>i < 3. switched (f i) (f (Suc i))) = 2" by blast
  from ready_process_is_served [OF f(2), of 17] f show ?thesis by auto
qed

text \<open>C9: A semaphore is fair: while a process waits in the queue of a semaphore, in every run and
  whatever the others do, nobody overtakes it (who is ahead of it was ahead from the start, in the
  same order); and it leaves the queue only to the ready queue, to run at once, or by termination.\<close>

theorem semaphore_nobody_overtakes:
  assumes "\<forall>i < N. vstep A (f i) (f (Suc i))" and "\<forall>i \<le> N. p \<in> set (v_semq (snd (f i)) k)"
  shows "subseq (ahead p (v_semq (snd (f N)) k)) (ahead p (v_semq (snd (f 0)) k))
    \<and> (\<forall>out s v. vstep A (f N) ((out, s), v) \<and> p \<notin> set (v_semq v k) \<longrightarrow>
      p \<in> set (v_ready v) \<or> current_active_process s = Some p \<or> p \<in> set (v_free v))"
proof
  show "subseq (ahead p (v_semq (snd (f N)) k)) (ahead p (v_semq (snd (f 0)) k))"
    using sem_queue.run_in_order [of N A f p k] assms by (simp add: queue_on_def)
  show "\<forall>out s v. vstep A (f N) ((out, s), v) \<and> p \<notin> set (v_semq v k) \<longrightarrow>
      p \<in> set (v_ready v) \<or> current_active_process s = Some p \<or> p \<in> set (v_free v)"
    using leaves_queue assms(2) by (metis order_refl prod.collapse)
qed

theorem semaphore_nobody_overtakes_witness:
  "\<exists>y. vstep umps3 ((LDST zero_word_state, lined_up), v_lined_up) y
    \<and> subseq (ahead 18 (v_semq (snd y) user_sem)) (ahead 18 (v_semq v_lined_up user_sem)) \<and> v_semq (snd y) user_sem = [18]"
proof -
  from lined_up_step obtain y where y: "vstep umps3 ((LDST zero_word_state, lined_up), v_lined_up) y" "queue_on user_sem y = [18]"
    by blast
  have "\<forall>i \<le> 1. 18 \<in> set (v_semq (snd (if i = (0 :: nat) then ((LDST zero_word_state, lined_up), v_lined_up) else y)) user_sem)"
    using y(2) by (auto simp: queue_on_def v_lined_up_def)
  from semaphore_nobody_overtakes [OF _ this, of umps3] y show ?thesis by (intro exI [of _ y]) (simp add: queue_on_def)
qed





text \<open>C12: \<open>terminateProcess\<close> returns for every process of the table, whatever the tree below it:
  it frees the process and all its descendants and nothing else, takes them out of the ready
  queue and of the queue of every semaphore, corrects both counts, and lets the scheduler
  choose the next process with the invariant restored.\<close>

theorem terminateProcess_frees_subtree:
  assumes "kinv s v" and "p < MAXPROC" and "p \<notin> set (v_free v)"
  shows "\<exists>fs. set fs = set (v_free v) \<union> desc_of (kid_rel v) p \<and>
    resumes (terminateProcess A (Some p) s) (reaped A (desc_of (kid_rel v) p) s)
      (v_reaped (desc_of (kid_rel v) p) fs (v_orphan p v))"
proof -
  from terminateProcess_resumes [OF kinvD(1,2) [OF assms(1)] assms(2,3)] show ?thesis .
qed

theorem terminateProcess_witness: "\<exists>fs. set fs = set (v_free v_started) \<union> desc_of (kid_rel v_started) first_pcb \<and>
    resumes (terminateProcess umps3 (Some first_pcb) started)
      (reaped umps3 (desc_of (kid_rel v_started) first_pcb) started)
      (v_reaped (desc_of (kid_rel v_started) first_pcb) fs (v_orphan first_pcb v_started))"
  by (rule terminateProcess_frees_subtree [OF started_facts(1)]) (simp_all add: first_pcb_def MAXPROC_def)

text \<open>C13: \<open>schedule\<close> never faults and restores the invariant: it runs the first process of the
  ready queue with a fresh time slice, and with an empty queue it halts when no process is
  left, waits when one is soft blocked, and panics otherwise.\<close>

theorem schedule_correct:
  assumes "kabs s v" and "inv_core s v"
  shows "resumes (schedule s) s v"
  by (rule schedule_resumes [OF assms])

theorem schedule_witness: "resumes (schedule booted) booted v_first"
  by (rule schedule_correct [OF kinvD(1,2) [OF booted_facts(1)]])

text \<open>C14: SYS3 (\<open>passeren\<close>) on a semaphore that is 0 blocks the caller at the end of the queue of
  the semaphore, with the processor state after the call saved in its PCB, and gives the
  processor to the next ready process; the invariant holds again.\<close>

theorem SYS3_blocks_caller:
  assumes "kinv s v" and "current_active_process s = Some p" and "kernel_mode A s"
    and "sys_code A s = PASSEREN" and "FIRST_PARAM A s = k" and "k \<noteq> 0" and "mem s k = 0"
  shows "resumes (syscallHandler A s) (save_state p (set_semAdd p k (advanced s))) (v_block k p v)"
  by (rule SYS3_blocks [OF assms])

theorem SYS3_blocks_witness: "resumes (syscallHandler umps3 (calling PASSEREN user_sem))
    (save_state first_pcb (set_semAdd first_pcb user_sem (advanced (calling PASSEREN user_sem))))
    (v_block user_sem first_pcb v_started)"
  by (rule SYS3_blocks_caller [OF calling_facts(1-5)]) (simp_all add: calling_facts(8) user_sem_def)

text \<open>C15: SYS3 on a semaphore that is not 0 does not block: the caller resumes after the call, the
  first process waiting on the semaphore becomes ready, at the end of the queue, or with no
  process waiting the semaphore is decremented.\<close>

theorem SYS3_passes:
  assumes "kinv s v" and "kernel_mode A s" and "sys_code A s = PASSEREN"
    and "FIRST_PARAM A s = k" and "k \<noteq> 0" and "mem s k \<noteq> 0"
  shows "case v_semq v k of
      [] \<Rightarrow> syscallHandler A s = Some (LDST (bios_state (advanced s)), store_word k (mem s k - 1) (advanced s))
    | q # _ \<Rightarrow> runs_to (syscallHandler A s) (LDST (bios_state (advanced s))) (set_semAdd q 0 (advanced s)) (v_wake k v)"
  by (rule SYS3_goes_on [OF assms])

theorem SYS3_passes_witness:
  "runs_to (syscallHandler umps3 (call_in paired (\<lambda>_. 1) PASSEREN user_sem 0))
    (LDST (bios_state (advanced (call_in paired (\<lambda>_. 1) PASSEREN user_sem 0))))
    (set_semAdd first_pcb 0 (advanced (call_in paired (\<lambda>_. 1) PASSEREN user_sem 0))) (v_wake user_sem v_paired)"
  using SYS3_passes [of "call_in paired (\<lambda>_. 1) PASSEREN user_sem 0" v_paired umps3 user_sem] paired_facts
  by (simp add: call_in_facts user_sem_def)

text \<open>C16: SYS4 (\<open>verhogen\<close>) on a semaphore that is 1 blocks the caller at the end of the queue of the
  semaphore and gives the processor away: semaphores are binary.\<close>

theorem SYS4_blocks_caller:
  assumes "kinv s v" and "current_active_process s = Some p" and "kernel_mode A s"
    and "sys_code A s = VERHOGEN" and "FIRST_PARAM A s = k" and "k \<noteq> 0" and "mem s k = 1"
  shows "resumes (syscallHandler A s) (save_state p (set_semAdd p k (advanced s))) (v_block k p v)"
  by (rule SYS4_blocks [OF assms])

theorem SYS4_blocks_witness: "resumes (syscallHandler umps3 (call_in created (\<lambda>_. 1) VERHOGEN user_sem 0))
    (save_state first_pcb (set_semAdd first_pcb user_sem (advanced (call_in created (\<lambda>_. 1) VERHOGEN user_sem 0))))
    (v_block user_sem first_pcb v_created)"
  by (rule SYS4_blocks_caller) (use created_facts in \<open>simp_all add: call_in_facts user_sem_def\<close>)

text \<open>C17: SYS4 on a semaphore that is not 1 does not block: the first process waiting becomes ready,
  or with no process waiting the semaphore is incremented.\<close>

theorem SYS4_passes:
  assumes "kinv s v" and "kernel_mode A s" and "sys_code A s = VERHOGEN"
    and "FIRST_PARAM A s = k" and "k \<noteq> 0" and "mem s k \<noteq> 1"
  shows "case v_semq v k of
      [] \<Rightarrow> syscallHandler A s = Some (LDST (bios_state (advanced s)), store_word k (mem s k + 1) (advanced s))
    | q # _ \<Rightarrow> runs_to (syscallHandler A s) (LDST (bios_state (advanced s))) (set_semAdd q 0 (advanced s)) (v_wake k v)"
  by (rule SYS4_goes_on [OF assms])

theorem SYS4_passes_witness:
  "runs_to (syscallHandler umps3 (call_in paired (\<lambda>_. 0) VERHOGEN user_sem 0))
    (LDST (bios_state (advanced (call_in paired (\<lambda>_. 0) VERHOGEN user_sem 0))))
    (set_semAdd first_pcb 0 (advanced (call_in paired (\<lambda>_. 0) VERHOGEN user_sem 0))) (v_wake user_sem v_paired)"
  using SYS4_passes [of "call_in paired (\<lambda>_. 0) VERHOGEN user_sem 0" v_paired umps3 user_sem] paired_facts
  by (simp add: call_in_facts user_sem_def)

text \<open>SYS7 (wait for the clock) blocks the caller on the semaphore of the pseudo clock, counts it
  as soft blocked and gives the processor away.\<close>

theorem SYS7_blocks_caller:
  assumes "kinv s v" and "current_active_process s = Some p" and "kernel_mode A s"
    and "sys_code A s = CLOCKWAIT" and "getPseudoClockSem A = k" and "k \<noteq> 0" and "mem s k = 0"
  shows "resumes (syscallHandler A s)
    (save_state p (incrementSoftBlockCount (set_semAdd p k (advanced s)))) (v_block k p v)"
  by (rule SYS7_blocks [OF assms])

theorem SYS7_blocks_witness: "resumes (syscallHandler umps3 (calling CLOCKWAIT 0))
    (save_state first_pcb (incrementSoftBlockCount (set_semAdd first_pcb clock_sem (advanced (calling CLOCKWAIT 0)))))
    (v_block clock_sem first_pcb v_started)"
  by (rule SYS7_blocks_caller) (simp_all add: calling_facts clock_sem_eq)

section \<open>Input and output\<close>

text \<open>C18: SYS5 on an installed device whose semaphore is 0 writes the command to the registers of the
  device (of the half of the terminal) the address designates, remembers the status buffer, and
  blocks the caller on the semaphore of the device, counted as soft blocked.\<close>

theorem SYS5_blocks_caller:
  assumes "kinv s v" and "current_active_process s = Some p" and "kernel_mode A s"
    and "sys_code A s = DOIO" and "io_installed A (FIRST_PARAM A s) s"
    and "k = io_sem A (FIRST_PARAM A s)" and "k \<noteq> 0" and "mem (io_started A p s) k = 0"
  shows "resumes (syscallHandler A s)
    (save_state p (incrementSoftBlockCount (set_semAdd p k (io_started A p s)))) (v_block k p v)"
  by (rule SYS5_blocks [OF assms])

text \<open>Printer 0: its register is at \<open>0x100001D4\<close>, its semaphore is number 24.\<close>

definition printer_io :: "u32 \<Rightarrow> u32 \<Rightarrow> kstate" where
  "printer_io bitmap semaphore =
     calling_with ((\<lambda>_. 0)(0x10000038 := bitmap, 0x20003060 := semaphore)) DOIO 0x100001D4 0x20006000 0"

lemma printer_sem: "io_sem umps3 0x100001D4 = 0x20003060" "io_bit umps3 0x100001D4 = Some 1"
  "io_line umps3 0x100001D4 = 6"
proof -
  show l: "io_line umps3 0x100001D4 = 6" by (simp add: io_line_def umps3_def)
  have a: "DEV_REG_ADDR umps3 6 0 = 0x100001D4" by (simp add: umps3_def)
  have z: "sdiv32 0 k = 0" for k by (simp add: sdiv32_def)
  show "io_bit umps3 0x100001D4 = Some 1" by (simp add: io_bit_def l a z shl1_def)
  show "io_sem umps3 0x100001D4 = 0x20003060"
    by (simp add: io_sem_def io_index_def l a z) (simp add: umps3_def getDevSem_def)
qed

lemma printer_io_facts: "kinv (printer_io b x) v_started" "current_active_process (printer_io b x) = Some first_pcb"
  "kernel_mode umps3 (printer_io b x)" "sys_code umps3 (printer_io b x) = DOIO"
  "FIRST_PARAM umps3 (printer_io b x) = 0x100001D4" "SECOND_PARAM umps3 (printer_io b x) = 0x20006000"
  "mem (printer_io b x) = (\<lambda>_. 0)(0x10000038 := b, 0x20003060 := x)"
  by (simp_all add: printer_io_def calling_facts)

lemma printer_installed: "io_installed umps3 0x100001D4 (printer_io b x) \<longleftrightarrow> odd b"
proof -
  have "IDEV_BITMAP_ADDR umps3 6 = 0x10000038" by (simp add: umps3_def)
  then show ?thesis by (simp add: io_installed_def printer_sem printer_io_facts and_one_eq odd_iff_mod_2_eq_one)
qed

lemma printer_started_mem: "mem (io_started umps3 first_pcb (printer_io b x)) 0x20003060 = x"
proof -
  have t: "IL_TERMINAL umps3 = 7" by (simp add: umps3_def)
  have "io_line umps3 0x100001D4 \<noteq> IL_TERMINAL umps3" by (simp add: printer_sem t)
  moreover have "off_command umps3 = 4" "off_data0 umps3 = 8" "off_data1 umps3 = 12"
    by (simp_all add: umps3_def)
  ultimately show ?thesis
    by (simp add: io_started_def printer_io_facts io_command_def Let_def io_saved_def set_pcb_def store_word_def)
qed

theorem SYS5_blocks_witness:
  "resumes (syscallHandler umps3 (printer_io 1 0))
    (save_state first_pcb (incrementSoftBlockCount (set_semAdd first_pcb 0x20003060 (io_started umps3 first_pcb (printer_io 1 0)))))
    (v_block 0x20003060 first_pcb v_started)"
  by (rule SYS5_blocks_caller [OF printer_io_facts(1-4)])
    (simp_all add: printer_io_facts(5) printer_installed printer_sem printer_started_mem)



text \<open>C20: SYS5 on a device that is not installed clears the status word and drops the caller; the
  result -1 it stores in the PCB is lost, because the state saved afterwards has the old \<open>v0\<close>.\<close>

theorem SYS5_uninstalled_drops_caller:
  assumes "kinv s v" and "current_active_process s = Some p" and "kernel_mode A s"
    and "sys_code A s = DOIO" and "io_bit A (FIRST_PARAM A s) \<noteq> None" and "\<not> io_installed A (FIRST_PARAM A s) s"
  shows "resumes (syscallHandler A s)
    (save_state p (store_word (SECOND_PARAM A s + 4 * ix_STATUS A) 0 (io_saved (SECOND_PARAM A s) p (advanced s)))) v"
  by (rule SYS5_uninstalled [OF assms])

theorem SYS5_uninstalled_witness:
  "resumes (syscallHandler umps3 (printer_io 0 0))
    (save_state first_pcb (store_word (SECOND_PARAM umps3 (printer_io 0 0) + 4 * ix_STATUS umps3) 0
      (io_saved (SECOND_PARAM umps3 (printer_io 0 0)) first_pcb (advanced (printer_io 0 0))))) v_started"
  by (rule SYS5_uninstalled_drops_caller [OF printer_io_facts(1-4)])
    (simp_all add: printer_io_facts(5) printer_installed printer_sem)

text \<open>The device an interrupt is attributed to is the one with the highest bit in the bitmap of
  its line (when several devices of a line are pending, the others wait).\<close>

theorem interrupting_device_is_highest_bit:
  assumes "2 ^ h \<le> unat (mem s (CDEV_BITMAP_ADDR A line))" and "unat (mem s (CDEV_BITMAP_ADDR A line)) < 2 ^ Suc h"
    and "h \<le> unat (N_DEV_PER_IL A)"
  shows "unat (getInterruptingDevice A line s) = h"
  by (rule getInterruptingDevice_highest [OF assms])

theorem interrupting_device_witness:
  "unat (getInterruptingDevice umps3 6 (started\<lparr>mem := (\<lambda>_. 0x2D)\<rparr>)) = 5"
  by (rule interrupting_device_is_highest_bit) (simp_all add: umps3_def)

text \<open>C21: A device interrupt is acknowledged, and the first process waiting on the device becomes
  ready at the end of the queue, with \<open>v0\<close> telling whether the status is \<open>READY\<close> and with the
  status in its buffer; with no process waiting the semaphore remembers the signal.\<close>

theorem device_interrupt_completes:
  assumes "kinv s v" and "device_sem A line s \<noteq> 0"
  shows "ends_ok (manageDevices A line s)
    (let base = DEV_REG_ADDR A line (getInterruptingDevice A line s); stat = mem s (base + off_status A);
         t = store_word (base + off_command A) (ACK A) s in
     case v_semq v (device_sem A line s) of
       [] \<Rightarrow> store_word (device_sem A line s) 1 t
     | p # _ \<Rightarrow> io_done A p (if stat = READY A then IOOPSUCCESS else IOOPFAILED) stat t)
    (if v_semq v (device_sem A line s) = [] then v else v_wake (device_sem A line s) v)"
  using manageDevices_ok [OF assms] by (simp add: device_served_def signalled_def v_signal_def Let_def)

text \<open>The first process waits for printer 0, which raises its interrupt.\<close>

definition v_printing :: kview where
  "v_printing = v_block 0x20003060 first_pcb v_started"

definition printing :: kstate where
  "printing = (snd (the (syscallHandler umps3 (printer_io 1 0))))"

lemma printing_facts: "kinv printing v_printing"
proof -
  have "resumes (syscallHandler umps3 (printer_io 1 0))
    (save_state first_pcb (incrementSoftBlockCount (set_semAdd first_pcb 0x20003060 (io_started umps3 first_pcb (printer_io 1 0)))))
    v_printing"
    unfolding v_printing_def
    by (rule SYS5_blocks [OF printer_io_facts(1-4)])
      (simp_all add: printer_io_facts(5) printer_installed printer_sem printer_started_mem)
  moreover have "v_ready v_printing = []" by (simp add: v_printing_def v_block_def)
  ultimately show ?thesis
    unfolding resumes_def printing_def by (auto split: if_splits)
qed

definition printer_done :: kstate where
  "printer_done = printing\<lparr>mem := (\<lambda>_. 0)(0x1000004C := 1, 0x100001D4 := 1)\<rparr>"

lemma printer_done_facts: "kinv printer_done v_printing" "device_sem umps3 6 printer_done = 0x20003060"
proof -
  show "kinv printer_done v_printing" using printing_facts by (simp add: printer_done_def)
  have "getInterruptingDevice umps3 6 printer_done = 0"
    by (simp add: getInterruptingDevice_def printer_done_def umps3_def getInterruptingDevice_loop.simps)
  then show "device_sem umps3 6 printer_done = 0x20003060" by (simp add: device_sem_def umps3_def getDevSem_def)
qed

theorem device_interrupt_witness:
  "\<exists>t. ends_ok (manageDevices umps3 6 printer_done) t (v_wake 0x20003060 v_printing)"
proof -
  have "v_semq v_printing 0x20003060 = [first_pcb]" by (simp add: v_printing_def v_block_def)
  moreover have "device_sem umps3 6 printer_done \<noteq> 0" by (simp add: printer_done_facts)
  ultimately show ?thesis
    using device_interrupt_completes [OF printer_done_facts(1), of umps3 6]
    by (simp add: printer_done_facts(2) Let_def) blast
qed

text \<open>C22: \<open>createProcess\<close> with a PID namespace makes the first free PCB a process with the next pid,
  the given state and support structure, in the namespace, last in the ready queue and last
  child of the caller; the counts move by one and the invariant holds.\<close>

theorem createProcess_makes_child:
  assumes "kinv s v" and "current_active_process s = Some c" and "v_free v = p # fs"
    and "n_type (nsds s n) = NS_PID"
  shows "\<exists>t. createProcess A st supp (Some n) s = Some (pid_counter s, t) \<and> kinv t (v_used n (v_new p fs c v))
    \<and> p_pid (pcbs t p) = pid_counter s \<and> pid_counter t = pid_counter s + 1 \<and> process_count t = process_count s + 1
    \<and> p_s (pcbs t p) = st \<and> p_supportStruct (pcbs t p) = supp \<and> p_parent (pcbs t p) = Some c
    \<and> namespaces (pcbs t p) 0 = Some n \<and> p_time (pcbs t p) = 0 \<and> (\<forall>q. q \<noteq> p \<longrightarrow> pcbs t q = pcbs s q)"
proof -
  let ?n = "set_ns0 p n (new_process A p c st supp s)" and ?v = "v_used n (v_new p fs c v)"
  from createProcess_own [OF assms] obtain h hh ds where
    1: "createProcess A st supp (Some n) s = Some (pid_counter s, relink h hh ds ?n)" "kabs (relink h hh ds ?n) ?v"
    by (rule runs_toE)
  from create_inv [OF assms(1-3)] have "kinv (relink h hh ds ?n) ?v"
    using 1(2) by (simp add: kinv_def cur_ok_used)
  with 1(1) show ?thesis
    by (auto simp: set_ns0_def new_process_def set_pcb_def reset_pcb_def)
qed

definition with_namespace :: kstate where
  "with_namespace = started\<lparr>nsds := (\<lambda>_. \<lparr>n_type = NS_PID\<rparr>)\<rparr>"

lemma with_namespace_facts: "kinv with_namespace v_started" "current_active_process with_namespace = Some first_pcb"
  "n_type (nsds with_namespace 0) = NS_PID" "pid_counter with_namespace = 2" "process_count with_namespace = 1"
  using started_facts by (simp_all add: with_namespace_def)

theorem createProcess_witness:
  "\<exists>t. createProcess umps3 (call_state 1 2 3 4) 0x20007000 (Some 0) with_namespace = Some (2, t) \<and> process_count t = 2
    \<and> kinv t (v_used 0 (v_new 18 (rev [0..<18]) first_pcb v_started))
    \<and> p_pid (pcbs t 18) = 2 \<and> p_parent (pcbs t 18) = Some first_pcb"
  using createProcess_makes_child [OF with_namespace_facts(1,2) first_free with_namespace_facts(3),
    of umps3 "call_state 1 2 3 4" "0x20007000"]
  by (auto simp: with_namespace_facts)

text \<open>C23: With no namespace given and none to inherit, \<open>createProcess\<close> leaves in the new PCB the
  namespaces of the process that had the PCB before: \<open>resetPcb\<close> does not clear them.\<close>

theorem createProcess_keeps_stale_namespaces:
  assumes "kinv s v" and "current_active_process s = Some c" and "v_free v = p # fs"
    and "namespaces (pcbs s c) 0 = None" and "null_n_type A = Some w"
  shows "\<exists>t. createProcess A st supp None s = Some (pid_counter s, t) \<and> kabs t (v_new p fs c v)
    \<and> namespaces (pcbs t p) = namespaces (pcbs s p)"
proof -
  let ?n = "new_process A p c st supp s"
  from createProcess_stale(1) [OF assms] obtain h hh ds where
    "createProcess A st supp None s = Some (pid_counter s, relink h hh ds ?n)" "kabs (relink h hh ds ?n) (v_new p fs c v)"
    by (rule runs_toE)
  with createProcess_stale(2) [OF assms] show ?thesis by auto
qed

text \<open>PCB 18, free, still has the namespace 7 of an earlier process.\<close>

definition recycled :: kstate where
  "recycled = set_ns0 18 7 started"

lemma recycled_facts: "kinv recycled v_started" "current_active_process recycled = Some first_pcb"
  "namespaces (pcbs recycled first_pcb) 0 = None" "pid_counter recycled = 2" "namespaces (pcbs recycled 18) 0 = Some 7"
proof -
  show "kinv recycled v_started"
    unfolding recycled_def set_ns0_def using started_facts(1) by (subst kinv_set_pcb) simp_all
  have "first_pcb \<noteq> 18" by (simp add: first_pcb_def)
  then show "namespaces (pcbs recycled first_pcb) 0 = None" "namespaces (pcbs recycled 18) 0 = Some 7"
    using zero_pcb_facts(1) by (simp_all add: recycled_def set_ns0_def set_pcb_def)
  show "current_active_process recycled = Some first_pcb" "pid_counter recycled = 2"
    using started_facts by (simp_all add: recycled_def set_ns0_def set_pcb_def)
qed

theorem stale_namespaces_witness:
  "\<exists>t. createProcess umps3 zero_word_state 0 None recycled = Some (2, t) \<and> namespaces (pcbs t 18) 0 = Some 7"
  using createProcess_keeps_stale_namespaces [OF recycled_facts(1,2) first_free recycled_facts(3) zero_pcb_facts(2),
    of zero_word_state 0]
  by (auto simp: recycled_facts)

text \<open>SYS1 with no free PCB returns -1 to the caller and changes nothing else.\<close>

theorem SYS1_returns_minus_one:
  assumes "kinv s v" and "kernel_mode A s" and "sys_code A s = CREATEPROCESS"
    and "nsd_of_addr A (THIRD_PARAM A s) = Some nsd" and "v_free v = []"
  shows "syscallHandler A s = Some (LDST (set_v0 A (-1) (bios_state (advanced s))),
    (advanced s)\<lparr>bios_state := set_v0 A (-1) (bios_state (advanced s))\<rparr>)"
  by (rule SYS1_full [OF assms])

lemma v_exhausted_free: "v_free v_exhausted = []"
  by (simp add: v_exhausted_def)

theorem SYS1_minus_one_witness:
  "syscallHandler umps3 (call_in exhausted (\<lambda>_. 0) CREATEPROCESS 0 0) =
    Some (LDST (set_v0 umps3 (-1) (bios_state (advanced (call_in exhausted (\<lambda>_. 0) CREATEPROCESS 0 0)))),
      (advanced (call_in exhausted (\<lambda>_. 0) CREATEPROCESS 0 0))
        \<lparr>bios_state := set_v0 umps3 (-1) (bios_state (advanced (call_in exhausted (\<lambda>_. 0) CREATEPROCESS 0 0)))\<rparr>)"
  by (rule SYS1_returns_minus_one [where v = v_exhausted and nsd = None])
    (simp_all add: call_in_facts exhausted_facts v_exhausted_free nsd_of_addr_def)

text \<open>C24: SYS2 with a pid that no queued process has faults: \<open>findPcb\<close> answers \<open>NULL\<close> and
  \<open>terminateProcess\<close> dereferences it.  So does the pid of the caller itself, who is in no queue.\<close>

theorem SYS2_unknown_pid_faults:
  assumes "kinv s v" and "current_active_process s = Some c" and "kernel_mode A s"
    and "sys_code A s = TERMPROCESS" and "FIRST_PARAM A s \<noteq> 0"
    and "\<forall>p \<in> set (v_ready v) \<union> v_blocked v. p_pid (pcbs s p) \<noteq> FIRST_PARAM A s"
  shows "syscallHandler A s = None"
  by (rule SYS2_unlisted [OF assms])

theorem SYS2_unknown_witness:
  "p_pid (pcbs (calling TERMPROCESS 1) first_pcb) = 1 \<and> syscallHandler umps3 (calling TERMPROCESS 1) = None"
proof
  show "p_pid (pcbs (calling TERMPROCESS 1) first_pcb) = 1" using started_pid by (simp add: calling_with_def)
  show "syscallHandler umps3 (calling TERMPROCESS 1) = None"
    by (rule SYS2_unknown_pid_faults [OF calling_facts(1-4)]) (simp_all add: calling_facts v_blocked_def)
qed

section \<open>Other exceptions, and the timers\<close>

text \<open>C25: An exception the kernel does not handle itself is passed up: with a support structure its
  saved state is stored there and the handler context is loaded; without one, the process and
  its descendants are terminated.\<close>

theorem pass_up_or_die:
  assumes "kinv s v" and "current_active_process s = Some p" and "n = PGFAULTEXCEPT \<or> n = GENERALEXCEPT"
  shows "if p_supportStruct (pcbs s p) \<noteq> 0
    then (let a = p_supportStruct (pcbs s p); c = sup_exceptContext (supports s a) n in
      passUpOrDie A n s = Some (LDCXT (ctx_stackPtr c) (ctx_status c) (ctx_pc c), passed_up n a s))
    else \<exists>fs. set fs = set (v_free v) \<union> desc_of (kid_rel v) p \<and>
      resumes (passUpOrDie A n s) (reaped A (desc_of (kid_rel v) p) s)
        (v_reaped (desc_of (kid_rel v) p) fs (v_orphan p v))"
  using passUpOrDie_up [OF assms(2) refl _ assms(3)] passUpOrDie_die [OF assms(1,2) _ assms(3)] by (simp add: Let_def)

definition supported :: kstate where
  "supported = set_pcb first_pcb (\<lambda>b. b\<lparr>p_supportStruct := 0x20007000\<rparr>) (started\<lparr>supports := (\<lambda>_. zero_support)\<rparr>)"

theorem pass_up_witness: "passUpOrDie umps3 0 supported = Some (LDCXT 0 0 0, passed_up 0 0x20007000 supported)"
proof -
  have "kinv supported v_started" unfolding supported_def using started_facts(1) by (subst kinv_set_pcb) simp_all
  moreover have "current_active_process supported = Some first_pcb" using started_facts(2) by (simp add: supported_def set_pcb_def)
  moreover have "p_supportStruct (pcbs supported first_pcb) = 0x20007000" "supports supported = (\<lambda>_. zero_support)"
    by (simp_all add: supported_def set_pcb_def)
  ultimately show ?thesis
    using pass_up_or_die [of supported v_started first_pcb 0 umps3] by (simp add: Let_def zero_support_def PGFAULTEXCEPT_def)
qed








text \<open>C28: A terminal interrupt serves the transmitter, then the receiver: each half whose status is
  not below \<open>READY\<close> and not \<open>BUSY\<close> is acknowledged and signalled like a device.\<close>

theorem terminal_interrupt_served:
  assumes "kinv s v" and "term_sem A 0 s \<noteq> 0" and "term_sem A 1 s \<noteq> 0"
  shows "ends_ok (manageTerminal A s) (terminal_served A v s) (v_terminal A s v)"
  by (rule manageTerminal_ok [OF assms])

text \<open>
  Terminal 0 has sent a character (status 5), and its receiver is idle (status 1, \<open>READY\<close>): the
  handler also signals the receiver, so that the next read of a process does not wait.
\<close>

definition idle_receiver :: kstate where
  "idle_receiver = started\<lparr>mem := (\<lambda>_. 0)(0x10000050 := 1, 0x10000254 := 1, 0x1000025C := 5)\<rparr>"

lemma idle_receiver_facts: "kinv idle_receiver v_started" "term_sem umps3 0 idle_receiver = 0x20003080"
  "term_sem umps3 1 idle_receiver = 0x20003084" "term_base umps3 idle_receiver = 0x10000254"
proof -
  show "kinv idle_receiver v_started" using started_facts(1) by (simp add: idle_receiver_def)
  have g: "getInterruptingDevice umps3 (IL_TERMINAL umps3) idle_receiver = 0"
    by (simp add: getInterruptingDevice_def idle_receiver_def umps3_def getInterruptingDevice_loop.simps)
  show "term_sem umps3 0 idle_receiver = 0x20003080" "term_sem umps3 1 idle_receiver = 0x20003084"
    "term_base umps3 idle_receiver = 0x10000254"
    unfolding term_sem_def term_base_def g by (simp_all add: umps3_def getDevSem_def)
qed

lemma umps3_terminal: "off_transm_status umps3 = 8" "off_transm_command umps3 = 12" "off_recv_status umps3 = 0"
  "off_recv_command umps3 = 4" "READY umps3 = 1" "BUSY umps3 = 3" "ACK umps3 = 1"
  by (simp_all add: umps3_def)

theorem terminal_interrupt_witness:
  "\<exists>t. manageTerminal umps3 idle_receiver = Some t \<and> kinv t v_started \<and> mem t 0x20003080 = 1 \<and> mem t 0x20003084 = 1"
proof -
  have "v_terminal umps3 idle_receiver v_started = v_started"
    by (simp add: v_terminal_def v_transm_def v_half_def v_signal_def)
  moreover have "mem (terminal_served umps3 v_started idle_receiver) 0x20003080 = 1"
    "mem (terminal_served umps3 v_started idle_receiver) 0x20003084 = 1"
    by (simp_all add: terminal_served_def transm_served_def v_transm_def v_half_def v_signal_def half_served_def
      half_ready_def signalled_def idle_receiver_facts umps3_terminal store_word_def)
      (simp_all add: idle_receiver_def)
  ultimately show ?thesis
    using terminal_interrupt_served [OF idle_receiver_facts(1), of umps3]
    by (auto simp: idle_receiver_facts ends_ok_def)
qed

section \<open>The soft blocked processes\<close>

text \<open>C29: \<open>soft_block_count\<close> stays the number of processes blocked on a device or on the clock
  through the operations that block and wake them: P and V on such a semaphore, the tick of the
  clock, and the termination of any process with its descendants.\<close>

theorem soft_block_count_exact:
  assumes "kinv s v" and "soft_ok A s" and "isSoftBlocked A k" and "\<not> isSoftBlocked A 0"
    and "isSoftBlocked A (getPseudoClockSem A)" and "current_active_process s = Some p"
    and "q < MAXPROC" and "q \<notin> set (v_free v)"
  shows "(\<exists>t. P_sem k s = Some t \<and> soft_ok A t) \<and> (\<exists>r t. V_sem k s = Some (r, t) \<and> soft_ok A t)
    \<and> (\<exists>t. clock_interrupt A s = Some t \<and> soft_ok A t)
    \<and> (\<exists>out t. terminateProcess A (Some q) s = Some (out, t) \<and> soft_ok A t)"
  using P_sem_keeps_soft [OF assms(1,6,3,4,2)] V_sem_keeps_soft [OF assms(1,3,4,2)]
    clock_keeps_soft [OF assms(1,5,4,2)] terminate_keeps_soft [OF assms(1,7,8,4,2)] by blast

lemma started_soft: "soft_ok umps3 started" "isSoftBlocked umps3 clock_sem" "\<not> isSoftBlocked umps3 0"
proof -
  show z: "isSoftBlocked umps3 clock_sem" "\<not> isSoftBlocked umps3 0"
    by (simp_all add: isSoftBlocked_def getPseudoClockSem_def getDevSem_def umps3_def clock_sem_def)
  have "p_semAdd (pcbs started p) = 0" if "p < MAXPROC" for p
  proof (cases "p = first_pcb")
    case True
    then show ?thesis using kinvD(5) [OF started_facts(1,2)] by (simp add: v_queued_def)
  next
    case False
    then have "p \<in> set (v_free v_started)" using that by (simp add: first_pcb_def MAXPROC_def)
    then show ?thesis using kabs_facts(10) [OF kinvD(1) [OF started_facts(1)]] by blast
  qed
  then have "soft_set umps3 started = {}" using z(2) by (auto simp: soft_set_def)
  then show "soft_ok umps3 started" using started_facts(4) by (simp add: soft_ok_def)
qed

theorem soft_block_count_witness: "\<exists>t. P_sem clock_sem started = Some t \<and> soft_ok umps3 t"
  using soft_block_count_exact [OF started_facts(1) started_soft(1-3) _ started_facts(2), of first_pcb] started_soft(2)
  by (simp add: clock_sem_eq first_pcb_def MAXPROC_def)

section \<open>The data structures\<close>

text \<open>\<open>insertBlocked\<close> never runs out of semaphore descriptors for a process of the table that is
  in no queue (its callers ignore the error it can return): it answers 0 and the process is last
  in the queue of the semaphore.\<close>

theorem insertBlocked_always_succeeds:
  assumes "kinv s v" and "current_active_process s = Some p" and "k \<noteq> 0"
  shows "runs_to (insertBlocked k (Some p) s) 0 (set_semAdd p k s) (v\<lparr>v_semq := (v_semq v)(k := v_semq v k @ [p])\<rparr>)"
proof -
  have "x < MAXPROC" if "x \<in> set (v_semq v l)" for l x
    using in_tableD(3) [OF kinvD(3) [OF assms(1)]] that by auto
  then show ?thesis
    using kinvD(5) [OF assms(1,2)] by (intro insertBlocked_view [OF kinvD(1) [OF assms(1)] assms(3)]) auto
qed

theorem insertBlocked_witness:
  "runs_to (insertBlocked user_sem (Some first_pcb) started) 0 (set_semAdd first_pcb user_sem started)
    (v_started\<lparr>v_semq := (v_semq v_started)(user_sem := [first_pcb])\<rparr>)"
  using insertBlocked_always_succeeds [OF started_facts(1,2), of user_sem] by (simp add: user_sem_def)

text \<open>A semaphore is fair: \<open>removeBlocked\<close> hands out the waiting processes in the order in which
  they blocked, then nothing.\<close>

theorem semaphore_is_fifo:
  assumes "kabs s v" and "\<And>k. set (v_semq v k) \<subseteq> {..<MAXPROC}"
  shows "\<exists>t. alloc_many (removeBlocked k) n s =
      Some (map Some (take n (v_semq v k)) @ replicate (n - length (v_semq v k)) None, t)
    \<and> (\<exists>w. kabs t w \<and> v_semq w k = drop n (v_semq v k))"
proof -
  have "\<exists>Q. blocked_rel s Q \<and> Q k = v_semq v k" using assms by (auto simp: blocked_rel_def)
  from blocked.row.drain.alloc_many_pool [OF this, of n] show ?thesis by (auto simp: blocked_rel_def)
qed

theorem semaphore_is_fifo_witness:
  "\<exists>t. alloc_many (removeBlocked user_sem) 3 paired = Some ([Some first_pcb, None, None], t)"
  using semaphore_is_fifo [OF kinvD(1) [OF paired_facts(1)], of user_sem 3]
  by (auto simp: first_pcb_def MAXPROC_def numeral_eq_Suc)

text \<open>The ready queue is fair: after \<open>n\<close> turns of the round robin (the first process leaves and
  goes back to the end) the first \<open>n\<close> processes have had their turn, in order, and the process
  that was at position \<open>n\<close> is first.\<close>

theorem ready_queue_round_robin:
  assumes "kabs s v" and "n \<le> length (v_ready v)"
  shows "\<exists>t. alloc_many (rotate_once (\<lambda>p. insertProcQ (Some Ready_queue) (Some p)) (removeProcQ (Some Ready_queue))) n s
      = Some (map Some (take n (v_ready v)), t)
    \<and> (\<exists>w. kabs t w \<and> v_ready w = drop n (v_ready v) @ take n (v_ready v))"
proof -
  have "ready_rel s (v_ready v)" using assms(1) by (auto simp: ready_rel_def)
  from ready.rotations [OF this assms(2)] show ?thesis by (auto simp: ready_rel_def)
qed

theorem ready_queue_witness:
  "\<exists>t. alloc_many (rotate_once (\<lambda>p. insertProcQ (Some Ready_queue) (Some p)) (removeProcQ (Some Ready_queue))) 1 booted
      = Some ([Some first_pcb], t)"
  using ready_queue_round_robin [OF kinvD(1) [OF booted_facts(1)], of 1] by auto

text \<open>Allocating PCBs hands out the free ones in the order of the free list, each once, and then
  nothing.\<close>

theorem pcbs_run_out:
  assumes "kabs s v"
  shows "\<exists>t. alloc_many (allocPcb A) n s = Some (map Some (take n (v_free v)) @ replicate (n - length (v_free v)) None, t)
    \<and> (\<exists>w. kabs t w \<and> v_free w = drop n (v_free v))"
proof -
  have "free_rel s (v_free v)" using assms by (auto simp: free_rel_def)
  from pcb_pool.alloc_many_pool [OF this, of A n] show ?thesis by (auto simp: free_rel_def)
qed

theorem pcbs_run_out_witness:
  "\<exists>t. alloc_many (allocPcb umps3) 20 started = Some (map Some (rev [0..<19]) @ [None], t)"
proof -
  have "take 20 (rev [0..<19]) = rev [0..<19]" by simp
  then show ?thesis using pcbs_run_out [OF kinvD(1) [OF started_facts(1)], of umps3 20]
    by (auto simp: first_pcb_def)
qed

text \<open>C30: The report of a deadlock lists the queue of every semaphore somebody waits on, once, with the
  pids in the order of the queue, under the line and the device of its index when the semaphore
  is one of the devices (for the terminals, whose 16 semaphores alternate, that is not the
  device).\<close>

theorem deadlock_report_complete:
  assumes "kabs s v"
  shows "\<exists>ks. distinct ks \<and> set ks = {k. v_semq v k \<noteq> []} \<and> getBlockedProcesses A s =
    Some (concat (map (\<lambda>k. semaphore_report A k (map (\<lambda>p. p_pid (pcbs s p)) (v_semq v k))) ks))"
  by (rule getBlockedProcesses_view [OF assms])

theorem deadlock_report_witness:
  "getBlockedProcesses umps3 paired =
    Some [(c_line ''Process %d is blocked on %p'', [VInt (p_pid (pcbs paired first_pcb)), VInt user_sem])]"
proof -
  from deadlock_report_complete [OF kinvD(1) [OF paired_facts(1)], of umps3] obtain ks where
    ks: "distinct ks" "set ks = {user_sem}"
    "getBlockedProcesses umps3 paired =
      Some (concat (map (\<lambda>k. semaphore_report umps3 k (map (\<lambda>p. p_pid (pcbs paired p)) (v_semq v_paired k))) ks))"
    by (auto split: if_splits)
  from ks(1,2) have "ks = [user_sem]" by (cases ks; cases "tl ks") auto
  moreover have "\<not> user_sem \<le> getDevSem umps3 47" by (simp add: user_sem_def getDevSem_def umps3_def)
  ultimately show ?thesis using ks(3) by (simp add: semaphore_report_def)
qed

text \<open>C31: \<open>findPcb\<close> answers a process of the ready queue or of the queue of a semaphore with the pid
  asked for, and \<open>NULL\<close> exactly when there is none: the running process is never found.\<close>

theorem findPcb_finds:
  assumes "kabs s v"
  shows "\<exists>r. findPcb pid (Some Ready_queue) s = Some r \<and> (case r of
      None \<Rightarrow> \<forall>p \<in> set (v_ready v) \<union> v_blocked v. p_pid (pcbs s p) \<noteq> pid
    | Some p \<Rightarrow> p \<in> set (v_ready v) \<union> v_blocked v \<and> p_pid (pcbs s p) = pid)"
  by (rule findPcb_view [OF assms])

theorem findPcb_witness: "findPcb 1 (Some Ready_queue) booted = Some (Some first_pcb) \<and>
    findPcb 2 (Some Ready_queue) booted = Some None"
  using findPcb_finds [OF kinvD(1) [OF booted_facts(1)], of 1] findPcb_finds [OF kinvD(1) [OF booted_facts(1)], of 2]
    booted_facts(6)
  by (auto simp: v_blocked_def split: option.splits)

text \<open>SYS10 (\<open>getChildren\<close>) answers how many children of the caller are in its PID namespace, and
  writes the pids of the first of them, in the order of creation, to the array, never more than
  its size.\<close>

theorem getChildren_answers:
  assumes "null_n_type A \<noteq> None" and "kinv s v" and "current_active_process s = Some c"
  shows "let kids = filter (\<lambda>q. pid_ns s q = pid_ns s c) (v_kids v c) in
    getChildren A children sz s = Some (of_nat (length kids),
      s\<lparr>mem := store_ints children (take (nat (sint sz)) (map (\<lambda>q. p_pid (pcbs s q)) kids)) (mem s)\<rparr>)"
  by (rule getChildren_view [OF assms])

definition family :: kstate where
  "family = set_pcb 18 (\<lambda>b. b\<lparr>namespaces := (\<lambda>_. None), p_pid := 2\<rparr>)
     (set_pcb first_pcb (\<lambda>b. b\<lparr>namespaces := (\<lambda>_. None)\<rparr>) created)"

lemma family_facts: "kinv family v_created" "current_active_process family = Some first_pcb" "pid_ns family 18 = None"
  "pid_ns family first_pcb = None" "p_pid (pcbs family 18) = 2"
proof -
  show "kinv family v_created"
    unfolding family_def using created_facts(1) by (subst kinv_set_pcb, simp, simp)+
  have "first_pcb \<noteq> 18" by (simp add: first_pcb_def)
  then show "pid_ns family 18 = None" "pid_ns family first_pcb = None" "p_pid (pcbs family 18) = 2"
    "current_active_process family = Some first_pcb"
    using created_facts(2) by (simp_all add: family_def set_pcb_def pid_ns_def)
qed

theorem getChildren_witness: "\<exists>t. getChildren umps3 0x20007000 4 family = Some (1, t) \<and> mem t 0x20007000 = 2"
proof -
  have "null_n_type umps3 \<noteq> None" by (simp add: zero_pcb_facts)
  from getChildren_answers [OF this family_facts(1,2), of "0x20007000" 4] show ?thesis
    by (simp add: family_facts Let_def)
qed

text \<open>C32: The list operations of \<open>list.h\<close> refine the operations on HOL lists, without a fault: adding
  at the head and at the tail, deleting an entry, rotating, counting and searching; every other
  list of the heap keeps its elements.\<close>

theorem lists_refine:
  assumes "heap_abs h L" and "L r = Some xs" and "n \<notin> lnodes L" and "m \<in> set xs"
  shows "(\<exists>h'. list_add (Some n) (Some r) h = Some h' \<and> heap_abs h' (L(r \<mapsto> n # xs)))
    \<and> (\<exists>h'. list_add_tail (Some n) (Some r) h = Some h' \<and> heap_abs h' (L(r \<mapsto> xs @ [n])))
    \<and> (\<exists>h'. list_del (Some m) h = Some h' \<and> heap_abs h' (L(r \<mapsto> removeAll m xs)))
    \<and> (\<exists>h'. list_rotate_left (Some r) h = Some h' \<and> heap_abs h' (L(r \<mapsto> rotate1 xs)))
    \<and> list_size (Some r) h = Some (int (length xs))
    \<and> list_contains (Some n) (Some r) h = Some False \<and> list_contains (Some m) (Some r) h = Some True"
proof -
  have "n \<notin> set xs" using assms(2,3) by (auto intro: lnodesI)
  with assms show ?thesis
    by (simp add: list_add_abs list_add_tail_abs list_del_abs list_rotate_left_abs list_size_abs list_contains_abs)
qed

theorem lists_refine_witness:
  "\<exists>h h'. heap_abs h [Ready_queue \<mapsto> [P_list 0]] \<and> list_add (Some (P_list 1)) (Some Ready_queue) h = Some h'
    \<and> heap_abs h' [Ready_queue \<mapsto> [P_list 1, P_list 0]]"
proof -
  have out: "P_list i \<notin> lnodes [Ready_queue \<mapsto> xs]" if "P_list i \<notin> set xs" for i xs
    using that by (auto elim!: lnodesE split: if_splits)
  have "Ready_queue \<notin> lnodes Map.empty" by (auto elim!: lnodesE)
  with INIT_LIST_HEAD_abs [OF heap_abs_empty, of Ready_queue] obtain h0 where
    "heap_abs h0 [Ready_queue \<mapsto> []]" by auto
  from list_add_abs [OF this, of Ready_queue "[]" "P_list 0"] out [of 0 "[]"] obtain h1 where
    h1: "heap_abs h1 [Ready_queue \<mapsto> [P_list 0]]" by auto
  from lists_refine [OF h1, of Ready_queue "[P_list 0]" "P_list 1" "P_list 0"] out [of 1 "[P_list 0]"] h1 show ?thesis by auto
qed

text \<open>C33: The test of phase 1 passes: linked with the structures of phase 1, from zeroed static memory,
  it comes to its end without a fault or a panic, and what the terminal shows and \<open>okbuf\<close> holds are
  its 32 messages, in order.\<close>

theorem phase1_test_passes:
  assumes "zeroed s" and "plain s" and "null_n_type A \<noteq> None" and "array_at S" and "onesem \<noteq> 0"
    and "sends T 0 good busy used out" and "0 < T_DEVPERINT T" and "good d" and "busy d = 0" and "length buf = 2048"
  shows "\<exists>z. p1_main A T S onesem \<lparr>p1_k = s, p1_w = p1_bss, p1_ok = \<lparr>okbuf = buf, mp = 0\<rparr>, p1_errbuf = e, p1_dev = d\<rparr>
      = Some (Inr z)
    \<and> out (p1_dev z) = out d @ concat (map msg_line p1_messages)
    \<and> mp (p1_ok z) = int (length (concat (map msg_line p1_messages)))
    \<and> take (nat (mp (p1_ok z))) (okbuf (p1_ok z)) = concat (map msg_line p1_messages)"
proof -
  have all: "p1_text 32 = concat (map msg_line p1_messages)" by (simp add: p1_text_def)
  have "printed_ok good busy out (out d) 0 \<lparr>okbuf = buf, mp = 0\<rparr> d"
    using assms(8-10) by (simp add: printed_ok_def p1_text_def)
  from p1_main_passes [OF assms(1-5) says_printed [OF assms(6,7)] this, of e] obtain z where
    z: "p1_main A T S onesem \<lparr>p1_k = s, p1_w = p1_bss, p1_ok = \<lparr>okbuf = buf, mp = 0\<rparr>, p1_errbuf = e, p1_dev = d\<rparr> = Some (Inr z)"
    "printed_ok good busy out (out d) 32 (p1_ok z) (p1_dev z)" by blast
  from z(2) show ?thesis by (intro exI [of _ z] conjI z(1)) (simp_all add: printed_ok_def all del: length_concat)
qed

theorem phase1_test_passes_witness:
  "\<exists>z. p1_main umps3 slow_terminal 0x20001000 0x20001050
      \<lparr>p1_k = zero_state, p1_w = p1_bss, p1_ok = \<lparr>okbuf = replicate 2048 0, mp = 0\<rparr>, p1_errbuf = replicate 128 0, p1_dev = ([], 0)\<rparr>
      = Some (Inr z)
    \<and> fst (p1_dev z) = concat (map msg_line p1_messages)"
proof -
  have "plain zero_state" by (simp add: plain_def zero_state_def zero_pcb_def)
  moreover have "list_all (\<lambda>j. p1_sem 0x20001000 j \<noteq> 0) [0..<20]" by (simp add: upt_rec p1_sem_def)
  then have "array_at 0x20001000" by (simp add: array_at_def list_all_iff)
  moreover have "null_n_type umps3 \<noteq> None" by (simp add: umps3_def)
  moreover have "0 < T_DEVPERINT slow_terminal" by (simp add: slow_terminal_def)
  ultimately show ?thesis
    using phase1_test_passes [OF zero_state_zeroed _ _ _ _ slow_terminal_sends, of umps3 "0x20001000" "0x20001050"
        "([], 0)" "replicate 2048 0" "replicate 128 0"] by fastforce
qed

text \<open>The width of a hash, \<open>const_ilog2\<close> of the size of the table, is the floor of the base 2
  logarithm, for every size of at least 2; and the hash of every key is a bucket of the table of
  semaphores.\<close>

theorem hash_width_and_range:
  assumes "2 \<le> unat n"
  shows "const_ilog2 n = int (floorlog 2 (unat n)) - 1 \<and> bucket_of 4096 key < 4096"
proof -
  from const_ilog2_floor [OF assms] obtain k where
    k: "const_ilog2 n = int k" "2 ^ k \<le> unat n" "unat n < 2 ^ (k + 1)" by blast
  have "floorlog 2 (unat n) = k + 1"
    using floorlog_leI [of "unat n" 2 "k + 1"] floorlog_geI [of 2 "k + 1" "unat n"] k(2,3) by simp
  with k(1) show ?thesis using bucket_of_less by simp
qed

theorem hash_width_witness: "const_ilog2 4096 = 12 \<and> bucket_of 4096 user_sem < 4096"
proof -
  have "floorlog 2 4096 = 13" by (simp add: compute_floorlog)
  with hash_width_and_range [of 4096 user_sem] show ?thesis by simp
qed

section \<open>Strings and output\<close>



text \<open>In every other base \<open>itoa\<close> writes the absolute value: a negative number and its opposite
  give the same string, and not the two's complement pattern the comment announces.\<close>

theorem itoa_other_base_drops_sign:
  assumes "2 \<le> b" and "b \<le> 32" and "b \<noteq> 10" and "- (2 ^ 31) < value" and "value < 2 ^ 31" and "length buf > 31"
  shows "itoa value buf b = itoa (- value) buf b
    \<and> (\<exists>s. itoa value buf b = Some s \<and> read_num b (c_string s) = \<bar>value\<bar>)"
proof -
  let ?cs = "numeral_of b \<bar>value\<bar>"
  have "length ?cs \<le> 31" by (rule length_numeral_31) (use assms in auto)
  then have l: "length ?cs < length buf" using assms(6) by simp
  have 1: "itoa value buf b = Some (?cs @ 0 # drop (Suc (length ?cs)) buf)"
    by (rule itoa_unsigned) (use assms l in auto)
  have 2: "itoa (- value) buf b = Some (?cs @ 0 # drop (Suc (length ?cs)) buf)"
    using itoa_unsigned [of b "- value" buf] assms l by simp
  have "0 \<notin> set ?cs" using numeral_chars [OF assms(1,2)] by blast
  then have "c_string (?cs @ 0 # drop (Suc (length ?cs)) buf) = ?cs" by (rule c_string_terminated)
  then show ?thesis using 1 2 read_numeral [OF assms(1,2)] by simp
qed

theorem itoa_other_base_witness: "itoa (- 255) (replicate 32 0) 16 = itoa 255 (replicate 32 0) 16"
  using itoa_other_base_drops_sign [of 16 "- 255" "replicate 32 0"] by simp

text \<open>\<open>termprint\<close> transmits the characters of its string, each once and in order, to a terminal
  that ends every transmission, and reports success.\<close>

theorem termprint_transmits:
  assumes "transmits T trm good busy out" and "good d" and "busy d = 0" and "0 \<notin> set cs" and "trm < T_DEVPERINT T"
  shows "\<exists>d'. termprint T (cs @ 0 # r) trm d = Some (True, d') \<and> out d' = out d @ map print_command cs"
  using termprint_good [OF assms] by blast

theorem termprint_witness:
  "\<exists>d'. termprint simple_terminal ([80, 97] @ 0 # []) 2 [] = Some (True, d') \<and> put_out 2 d' = map print_command [80, 97]"
  using termprint_transmits [OF simple_terminal_transmits, where d = "[]" and cs = "[80, 97]" and trm = 2 and r = "[]"]
  by (simp add: simple_terminal_def)

text \<open>C35: \<open>addokbuf\<close> records what it prints in \<open>okbuf\<close> behind the earlier messages, and transmits it to
  terminal 1; the record never starts again, and the message that does not fit writes past the
  end of the buffer.\<close>

theorem addokbuf_appends_until_full:
  assumes "transmits T 1 good busy out" and "good d" and "busy d = 0" and "1 < T_DEVPERINT T"
    and "0 \<notin> set cs" and "mp s = int i"
  shows "if i + length cs < length (okbuf s)
    then \<exists>d'. addokbuf T (cs @ 0 # r) (s, d) =
        Some (\<lparr>okbuf = overwrite (okbuf s) i (cs @ [0]), mp = int (i + length cs)\<rparr>, d')
      \<and> out d' = out d @ map print_command cs
    else addokbuf T (cs @ 0 # r) (s, d) = None"
  using addokbuf_good [OF assms, of r] by (auto split: if_splits)

theorem addokbuf_witness:
  "addokbuf simple_terminal ([72, 105] @ 0 # []) (\<lparr>okbuf = replicate 2048 0, mp = 2046\<rparr>, []) = None"
  using addokbuf_appends_until_full [OF simple_terminal_transmits, where d = "[]" and cs = "[72, 105]"
      and s = "\<lparr>okbuf = replicate 2048 0, mp = 2046\<rparr>" and i = 2046 and r = "[]"]
  by (simp add: simple_terminal_def)



text \<open>C37: SYS6 answers the processor time of the caller with the time since its dispatch added; but
  \<open>start_time\<close> stays what it was, so the next exception of the same dispatch adds that time again.\<close>

theorem SYS6_adds_time_since_dispatch:
  assumes "current_active_process s = Some p" and "kernel_mode A s" and "sys_code A s = GETTIME"
    and "exc_code A s = EXC_SYS A" and "EXC_SYS A \<notin> {EXC_INT A, EXC_MOD A, EXC_TLBL A, EXC_TLBS A}"
  shows "\<exists>t. exceptionHandler A s =
      Some (LDST (set_v0 A (p_time (pcbs s p) + (tod s - start_time s)) (bios_state (advanced s))), t)
    \<and> p_time (pcbs t p) = p_time (pcbs s p) + (tod s - start_time s) \<and> start_time t = start_time s
    \<and> current_active_process t = Some p"
proof -
  let ?t = "advanced (timed p s)"
  have c: "kernel_mode A (timed p s)" "gpr (bios_state ?t) (ix_a0 A) = GETTIME"
    using assms(2,3) by (simp_all add: kernel_mode_def sys_code_def timed_def set_pcb_def advanced_def)
  have "exceptionHandler A s = syscallHandler A (timed p s)"
    using assms(4,5) by (simp add: exceptionHandler_def exc_code_def update_time_running [OF assms(1)])
  also have "\<dots> = return_to_caller (RETURN_SYS_VALUE A (p_time (pcbs ?t p)) ?t)"
    using assms(1) c(2) unfolding syscallHandler_kernel [OF c(1)] syscall_switch_def Let_def
    by (simp add: syscall_codes currentProc_def timed_def set_pcb_def advanced_def)
  finally show ?thesis
    using assms(1) by (simp add: return_to_caller_def RETURN_SYS_VALUE_def timed_def set_pcb_def advanced_def)
qed

text \<open>The first process asks for its time at 100, 100 after its dispatch, and again at once.\<close>

definition asks_time :: "kstate \<Rightarrow> kstate" where
  "asks_time s = s\<lparr>tod := start_time s + 100, bios_state := call_state GETTIME 0 0 0, reg_STATUS := 0\<rparr>"

lemma asks_time_facts: "current_active_process (asks_time s) = current_active_process s" "kernel_mode umps3 (asks_time s)"
  "sys_code umps3 (asks_time s) = GETTIME" "exc_code umps3 (asks_time s) = EXC_SYS umps3"
  "EXC_SYS umps3 \<notin> {EXC_INT umps3, EXC_MOD umps3, EXC_TLBL umps3, EXC_TLBS umps3}"
  "pcbs (asks_time s) = pcbs s" "tod (asks_time s) - start_time (asks_time s) = 100"
  by (simp_all add: asks_time_def call_state_def kernel_mode_def sys_code_def exc_code_def umps3_def)

theorem SYS6_witness:
  "\<exists>t u. map_option snd (exceptionHandler umps3 (asks_time started)) = Some t
    \<and> map_option snd (exceptionHandler umps3 (asks_time t)) = Some u
    \<and> p_time (pcbs u first_pcb) = p_time (pcbs started first_pcb) + 200"
proof -
  note step = SYS6_adds_time_since_dispatch [where A = umps3 and p = first_pcb, OF _ asks_time_facts(2-5)]
  from step [of started] obtain t where
    t: "map_option snd (exceptionHandler umps3 (asks_time started)) = Some t"
    "p_time (pcbs t first_pcb) = p_time (pcbs started first_pcb) + 100" "current_active_process t = Some first_pcb"
    by (auto simp: asks_time_facts started_facts)
  from step [of t] obtain u where
    "map_option snd (exceptionHandler umps3 (asks_time t)) = Some u"
    "p_time (pcbs u first_pcb) = p_time (pcbs t first_pcb) + 100"
    by (auto simp: asks_time_facts t(3))
  with t show ?thesis by auto
qed

section \<open>The test program on the kernel\<close>

text \<open>C38: \<open>print\<close> of the test program, for every answer of its surroundings: if it returns, its calls
  were P on the lock of the terminal, one DOIO for each character, V on the lock, and the
  commands it gave were those of the characters of the string in their order; it can only stop
  by a panic between two characters, with the lock kept.\<close>

theorem print_protocol:
  assumes "does (print G msg) tr m"
  shows "length tr \<le> 5 * length msg + 2
    \<and> (m = Return () \<longrightarrow> calls tr = (PASSEREN, at_sem G sem_term_mut)
          # replicate (length msg) (DOIO, PRINT_TERM0 + 2 * 4) @ [(VERHOGEN, at_sem G sem_term_mut)]
        \<and> sent wm tr = map print_cmd msg)
    \<and> (\<forall>z. m = Stop z \<longrightarrow> z = Panicked \<and> (\<exists>n < length msg. calls tr = (PASSEREN, at_sem G sem_term_mut)
          # replicate (Suc n) (DOIO, PRINT_TERM0 + 2 * 4) \<and> sent wm tr = map print_cmd (take (Suc n) msg)))"
  using print_does(1) [OF assms] print_does(2,3) [OF assms, where wm = wm] by blast

theorem print_protocol_witness:
  "\<exists>tr. does (print test_image ''a'') tr (Return ())
    \<and> calls tr = [(PASSEREN, 0x20010000), (DOIO, PRINT_TERM0 + 8), (VERHOGEN, 0x20010000)]"
proof -
  let ?tr = "(Syscall PASSEREN 0x20010000 0 0, Unit) # char_trace CHR ''a'' 0x20020000 (Word 0x20020000) Unit Unit (Word 0) (Word 5)
    @ [(Syscall VERHOGEN 0x20010000 0 0, Unit)]"
  have d: "does (print test_image ''a'') ?tr (Return ())"
    by (simp add: print_def P_def V_def statement_defs does_Do does_Turn does_Return char_trace_def print_cmd_def
        image_lock_addr P2test.TERMSTATMASK_def RECVD_def)
  from print_protocol [OF d, of "\<lambda>_. 0"] d show ?thesis by (auto simp: image_lock_addr)
qed

text \<open>Every process of the test keeps to the discipline that mutual exclusion asks of user code:
  whatever its calls and loads are answered, along every trace its calls on the lock of the
  terminal are P, V, P, V and so on.\<close>

theorem test_obeys_lock:
  assumes "lock_apart G" and "m \<in> processes A G" and "does m tr m'"
  shows "alternates (at_sem G sem_term_mut) Outside (calls tr)"
  by (rule obeys_alternates [OF assms(3) processes_obey [OF assms(1,2)]])

theorem test_obeys_lock_witness:
  "\<exists>m'. does (p2 test_image) [(Syscall PASSEREN (at_sem test_image sem_startp2) 0 0, Word 0),
      (Syscall PASSEREN (at_sem test_image sem_term_mut) 0 0, Word 0), (Local 2, Word 0x20020000)] m'
    \<and> alternates (at_sem test_image sem_term_mut) Outside
        [(PASSEREN, at_sem test_image sem_startp2), (PASSEREN, at_sem test_image sem_term_mut)]"
proof -
  have "\<exists>m'. does (p2 test_image) [(Syscall PASSEREN (at_sem test_image sem_startp2) 0 0, Word 0),
      (Syscall PASSEREN (at_sem test_image sem_term_mut) 0 0, Word 0), (Local 2, Word 0x20020000)] m'"
    by (auto simp: p2_def say_def print_def P_def statement_defs does_Do)
  moreover have "p2 test_image \<in> processes umps3 test_image" by (simp add: processes_def)
  ultimately show ?thesis using test_obeys_lock [OF image_lock] by fastforce
qed

text \<open>C39: \<open>print\<close> on the kernel: a process that is alone, with the lock free and terminal 0 ready, prints
  a string.  Every DOIO blocks it, the interrupt of the terminal gives it back the processor; in
  the end the terminal has received the command of each character, once and in order, the lock
  is free again, the invariant holds, and no other word of the memory has changed but the array
  of \<open>print\<close> and the words of the terminal.\<close>

theorem print_on_kernel:
  assumes "prints_in p v s" and "a \<notin> term_words" and "a + 4 \<notin> term_words"
    and "k = at_sem G sem_term_mut" and "k \<noteq> 0" and "k \<notin> insert a (insert (a + 4) term_words)"
    and "v_semq v k = []" and "mem s k = 1"
  shows "\<exists>t. exec (serve_term a) (print G msg) (s, out) = Some (Inl (), (t, out @ map print_cmd msg))
    \<and> kinv t v \<and> current_active_process t = Some p
    \<and> (\<forall>b. b \<notin> insert a (insert (a + 4) term_words) \<longrightarrow> mem t b = mem s b)"
  using exec_print [OF assms, of msg out] by (auto simp: prints_in_def runs_in_def)

theorem print_on_kernel_witness:
  "\<exists>t. exec (serve_term 0x20020000) (print test_image ''p1 v(sem_testsem)'') (calling_with printing_mem 0 0 0 0, [])
      = Some (Inl (), (t, map print_cmd ''p1 v(sem_testsem)''))
    \<and> mem t (at_sem test_image sem_term_mut) = 1"
proof -
  have f: "v_semq v_started = (\<lambda>_. [])" "v_ready v_started = []" by simp_all
  have "prints_in first_pcb v_started (calling_with printing_mem 0 0 0 0)"
    using calling_facts(1-3) by (simp add: prints_in_def runs_in_def f calling_facts(8) printing_mem_facts started_other)
  from print_on_kernel [OF this, of "0x20020000" "at_sem test_image sem_term_mut" test_image "''p1 v(sem_testsem)''" "[]"]
  show ?thesis
    by (auto simp: calling_facts(8) printing_mem_facts image_lock_addr term_words_def f)
qed

text \<open>The pairs of p2 on the kernel: run by a process alone, V and P on each of the 21 semaphores of
  the array never block and never print the error; the run ends with the array cleared, no other
  word changed, and the invariant.\<close>

theorem p2_pairs_on_kernel:
  assumes "traps_ok A" and "runs_in A p v s"
    and "\<forall>i \<le> MAXSEM. elem_addr (at_sem G s_array) i \<noteq> 0 \<and> v_semq v (elem_addr (at_sem G s_array) i) = []"
  shows "\<exists>t. exec (serve A) (then_do (p2_clear G) (p2_pairs G)) s = Some (Inl (), t) \<and> kinv t v
    \<and> current_active_process t = Some p \<and> mem t = cleared (at_sem G s_array) {..MAXSEM} (mem s)"
  using exec_clear_pairs [OF assms(1,2), of G] assms(3) by (auto simp: runs_in_def)

theorem p2_pairs_witness:
  "\<exists>t. exec (serve umps3) (then_do (p2_clear test_image) (p2_pairs test_image)) (calling_with (\<lambda>_. 7) 0 0 0 0) = Some (Inl (), t)
    \<and> mem t (elem_addr (at_sem test_image s_array) 20) = 0"
proof -
  have "runs_in umps3 first_pcb v_started (calling_with (\<lambda>_. 7) 0 0 0 0)"
    using calling_facts(1-3) by (simp add: runs_in_def)
  from p2_pairs_on_kernel [OF umps3_traps this, of test_image] image_array_nonzero show ?thesis
    by (auto simp: cleared_def MAXSEM_def)
qed



end
